(* ===== verification/OB_Prelude.thy ===== *)
theory OB_Prelude
  imports Main "HOL-Library.Word" "HOL-Library.List_Lexorder" "HOL-Library.Monad_Syntax"
begin

text \<open>
  Shared vocabulary of the development: the machine types of the Rust sources, byte literals,
  the little-endian codecs \<open>to_le_bytes\<close> / \<open>from_le_bytes\<close> of the standard library, the saturating
  length conversions \<open>uN::try_from(len).unwrap_or(uN::MAX)\<close> that the encoders use, the named theorem
  collections of the library and generic lemmas on lists, options and words.
\<close>

section \<open>Machine types\<close>

text \<open>
  Unsigned integers are words of their width. An \<open>i64\<close> is the 64-bit pattern, read by \<^const>\<open>sint\<close>:
  addition and negation wrap, as they do in the release profile the Makefile builds
  (\<open>cargo build --release\<close>, no \<open>overflow-checks\<close>). A \<open>usize\<close> that counts bytes of a buffer is a
  \<^typ>\<open>nat\<close>.
\<close>

type_synonym u8 = "8 word"
type_synonym u16 = "16 word"
type_synonym u32 = "32 word"
type_synonym u64 = "64 word"
type_synonym i64 = "64 word"
type_synonym bytes = "8 word list"

text \<open>A Rust \<open>String\<close> is its UTF-8 bytes; that they are well-formed is an invariant, see \<open>OB_Text\<close>.\<close>

type_synonym rstring = "8 word list"

named_theorems codec \<open>little-endian and length codecs: round trips and lengths\<close>
named_theorems reader \<open>what the byte reader returns at a known rest of its input\<close>
named_theorems wf_intro \<open>introduction rules for the well-formedness predicates\<close>
named_theorems unfold_model \<open>definitions unfolded to evaluate the model on a concrete input\<close>

definition ascii :: "string \<Rightarrow> bytes" where
  "ascii s = map of_char s"

lemma ascii_Nil [simp]: "ascii [] = []"
  by (simp add: ascii_def)

lemma ascii_Cons [simp]: "ascii (c # s) = of_char c # ascii s"
  by (simp add: ascii_def)

lemma ascii_append: "ascii (s @ t) = ascii s @ ascii t"
  by (simp add: ascii_def)

lemma length_ascii [simp]: "length (ascii s) = length s"
  by (simp add: ascii_def)

section \<open>Little-endian bytes\<close>

text \<open>
  The \<open>to_le_bytes\<close> of an \<open>n\<close>-byte integer and the value \<open>from_le_bytes\<close> reads back. Both directions
  work on the unsigned value; a signed integer has the same bytes as its bit pattern.
\<close>

fun le_bytes :: "nat \<Rightarrow> int \<Rightarrow> bytes" where
  "le_bytes 0 v = []"
| "le_bytes (Suc n) v = word_of_int (v mod 256) # le_bytes n (v div 256)"

fun le_val :: "bytes \<Rightarrow> int" where
  "le_val [] = 0"
| "le_val (b # bs) = uint b + 256 * le_val bs"

definition u16_le :: "u16 \<Rightarrow> bytes" where "u16_le w = le_bytes 2 (uint w)"
definition u32_le :: "u32 \<Rightarrow> bytes" where "u32_le w = le_bytes 4 (uint w)"
definition u64_le :: "u64 \<Rightarrow> bytes" where "u64_le w = le_bytes 8 (uint w)"

lemma length_le_bytes [simp]: "length (le_bytes n v) = n"
  by (induction n arbitrary: v) auto

lemma length_u_le [simp, codec]:
  "length (u16_le a) = 2" "length (u32_le b) = 4" "length (u64_le c) = 8"
  by (simp_all add: u16_le_def u32_le_def u64_le_def)

lemma le_val_le_bytes: "le_val (le_bytes n v) = v mod 256 ^ n"
proof (induction n arbitrary: v)
  case (Suc n)
  have "uint (word_of_int (v mod 256) :: 8 word) = v mod 256"
    by (simp add: uint_word_of_int)
  then have "le_val (le_bytes (Suc n) v) = v mod 256 + 256 * ((v div 256) mod 256 ^ n)"
    by (simp add: Suc)
  also have "\<dots> = v mod (256 * 256 ^ n)"
    by (simp add: zmod_zmult2_eq)
  finally show ?case by simp
qed simp

lemma le_val_nonneg: "0 \<le> le_val bs"
  by (induction bs) auto

lemma le_val_less: "le_val bs < 256 ^ length bs"
proof (induction bs)
  case (Cons b bs)
  have "uint b < 256" using uint_lt2p [of b] by simp
  moreover have "le_val bs + 1 \<le> 256 ^ length bs" using Cons by simp
  then have "256 * (le_val bs + 1) \<le> 256 * 256 ^ length bs" by simp
  ultimately show ?case by simp
qed simp

lemma le_roundtrip [simp, codec]:
  "word_of_int (le_val (u16_le a)) = a"
  "word_of_int (le_val (u32_le b)) = b"
  "word_of_int (le_val (u64_le c)) = c"
proof -
  have "uint a mod 256 ^ 2 = uint a" "uint b mod 256 ^ 4 = uint b" "uint c mod 256 ^ 8 = uint c"
    using uint_lt2p [of a] uint_lt2p [of b] uint_lt2p [of c] by simp_all
  then show "word_of_int (le_val (u16_le a)) = a"
    "word_of_int (le_val (u32_le b)) = b"
    "word_of_int (le_val (u64_le c)) = c"
    by (simp_all add: u16_le_def u32_le_def u64_le_def le_val_le_bytes)
qed

section \<open>Saturating length fields\<close>

text \<open>
  \<open>u16::try_from(n).unwrap_or(u16::MAX)\<close> and \<open>u32::try_from(n).unwrap_or(u32::MAX)\<close>: lengths that do
  not fit saturate, they do not wrap and they do not fail.
\<close>

definition len_u16 :: "nat \<Rightarrow> u16" where
  "len_u16 n = (if int n \<le> 65535 then word_of_int (int n) else 65535)"

definition len_u32 :: "nat \<Rightarrow> u32" where
  "len_u32 n = (if int n \<le> 4294967295 then word_of_int (int n) else 4294967295)"

lemma unat_len_u16: "unat (len_u16 n) = min n 65535"
proof (cases "n \<le> 65535")
  case True
  then have "(word_of_int (int n) :: u16) = word_of_nat n" by simp
  moreover have "unat (word_of_nat n :: u16) = n"
    using True by (simp add: unat_of_nat)
  ultimately show ?thesis using True by (simp add: len_u16_def)
qed (simp add: len_u16_def)

lemma unat_len_u32: "unat (len_u32 n) = min n 4294967295"
proof (cases "n \<le> 4294967295")
  case True
  then have "(word_of_int (int n) :: u32) = word_of_nat n" by simp
  moreover have "unat (word_of_nat n :: u32) = n"
    using True by (simp add: unat_of_nat)
  ultimately show ?thesis using True by (simp add: len_u32_def)
qed (simp add: len_u32_def)

lemma unat_len_small [simp, codec]:
  "n < 2 ^ 16 \<Longrightarrow> unat (len_u16 n) = n"
  "n < 2 ^ 32 \<Longrightarrow> unat (len_u32 n) = n"
  by (simp_all add: unat_len_u16 unat_len_u32)

section \<open>Generic lemmas\<close>

lemma bind_eq_SomeE:
  assumes "Option.bind m f = Some y"
  obtains x where "m = Some x" and "f x = Some y"
  using assms by (cases m) auto

lemma take_drop_append [simp]:
  "length xs = n \<Longrightarrow> take n (xs @ ys) = xs"
  "length xs = n \<Longrightarrow> drop n (xs @ ys) = ys"
  by auto

lemma foldl_snoc: "foldl f a (xs @ [x]) = f (foldl f a xs) x"
  by simp

lemma u64_bound: "unat (x :: u64) < 2 ^ 64"
  using unsigned_less [of x] by simp

text \<open>An increment that does not wrap to zero is an increment.\<close>

lemma word_less_inc: "a + 1 \<noteq> (0 :: 'a :: len word) \<Longrightarrow> a < a + 1"
proof -
  assume "a + 1 \<noteq> 0"
  then have "unat (a + 1) = unat a + 1" by (metis Suc_eq_plus1 add.commute unatSuc)
  then show ?thesis by (simp add: word_less_nat_alt)
qed

section \<open>Sorting keeps pointwise order\<close>

lemma insort_mono:
  fixes x y :: "'a :: linorder"
  assumes "list_all2 (\<le>) xs ys" "sorted xs" "sorted ys" "x \<le> y"
  shows "list_all2 (\<le>) (insort x xs) (insort y ys)"
  using assms
proof (induction xs ys arbitrary: x y rule: list_all2_induct)
  case (Cons a as b bs)
  have ab: "a \<le> b" "list_all2 (\<le>) as bs" "sorted as" "sorted bs" using Cons by auto
  have ins: "insort a as = a # as" "insort b bs = b # bs" using Cons.prems(1,2) by (simp_all add: insort_is_Cons)
  note IH = Cons.IH [OF ab(3,4)]
  show ?case
  proof (cases "x \<le> a"; cases "y \<le> b")
    assume "x \<le> a" "\<not> y \<le> b"
    then show ?thesis using IH [of a y] ab ins by auto
  next
    assume "\<not> x \<le> a" "y \<le> b"
    then show ?thesis using IH [of x b] ab ins Cons.prems(3) by auto
  next
    assume "\<not> x \<le> a" "\<not> y \<le> b"
    then show ?thesis using IH [of x y] ab Cons.prems(3) by auto
  qed (use ab Cons in auto)
qed simp

lemma sort_mono: "list_all2 (\<le>) xs ys \<Longrightarrow> list_all2 (\<le>) (sort xs) (sort ys :: 'a :: linorder list)"
  by (induction rule: list_all2_induct) (auto intro: insort_mono)

lemma map_sort_key: "map f (sort_key f xs) = sort (map f xs)"
proof -
  have "map f (insort_key f x ys) = insort (f x) (map f ys)" for x ys by (induction ys) auto
  then show ?thesis by (induction xs) simp_all
qed

lemma sort_key_Nil: "sort_key f xs = [] \<longleftrightarrow> xs = []"
  by (metis length_0_conv length_sort)

end
