(* ===== verification/OB_Text.thy ===== *)
theory OB_Text
  imports OB_Prelude
begin

text \<open>
  What the sources use of Rust's text library, on byte lists: UTF-8 validation and lossy decoding,
  trimming and splitting at Unicode white space, ASCII case mapping, and the decimal printing and
  parsing of \<open>i64\<close> and \<open>usize\<close>. The lemmas show that lossy decoding always yields well-formed text and is
  the identity on it, and that printing and parsing an \<open>i64\<close> are inverse.
\<close>

section \<open>UTF-8\<close>

text \<open>
  The width a lead byte announces and the range of the second byte it admits, as in
  \<open>core::str::validations\<close>; \<open>byte_at\<close> is its \<open>safe_get\<close>, 0 past the end.
\<close>

definition utf8_width :: "u8 \<Rightarrow> nat" where
  "utf8_width b = (if b < 0x80 then 1
     else if 0xC2 \<le> b \<and> b \<le> 0xDF then 2
     else if 0xE0 \<le> b \<and> b \<le> 0xEF then 3
     else if 0xF0 \<le> b \<and> b \<le> 0xF4 then 4
     else 0)"

definition utf8_cont :: "u8 \<Rightarrow> bool" where
  "utf8_cont b \<longleftrightarrow> 0x80 \<le> b \<and> b \<le> 0xBF"

definition utf8_second :: "u8 \<Rightarrow> u8 \<Rightarrow> bool" where
  "utf8_second b0 b1 \<longleftrightarrow>
     (if b0 = 0xE0 then 0xA0 \<le> b1 \<and> b1 \<le> 0xBF
      else if b0 = 0xED then 0x80 \<le> b1 \<and> b1 \<le> 0x9F
      else if b0 = 0xF0 then 0x90 \<le> b1 \<and> b1 \<le> 0xBF
      else if b0 = 0xF4 then 0x80 \<le> b1 \<and> b1 \<le> 0x8F
      else utf8_cont b1)"

fun byte_at :: "bytes \<Rightarrow> nat \<Rightarrow> u8" where
  "byte_at [] i = 0"
| "byte_at (b # bs) 0 = b"
| "byte_at (b # bs) (Suc i) = byte_at bs i"

text \<open>
  The first chunk of a byte string: \<open>(True, n)\<close> when its first \<open>n\<close> bytes encode one character,
  \<open>(False, n)\<close> when they are a maximal ill-formed subsequence, the unit \<open>from_utf8_lossy\<close> replaces.
\<close>

fun utf8_head :: "bytes \<Rightarrow> bool \<times> nat" where
  "utf8_head [] = (True, 0)"
| "utf8_head (b0 # bs) =
     (if utf8_width b0 = 0 then (False, 1)
      else if utf8_width b0 = 1 then (True, 1)
      else if \<not> utf8_second b0 (byte_at bs 0) then (False, 1)
      else if utf8_width b0 = 2 then (True, 2)
      else if \<not> utf8_cont (byte_at bs 1) then (False, 2)
      else if utf8_width b0 = 3 then (True, 3)
      else if \<not> utf8_cont (byte_at bs 2) then (False, 3)
      else (True, 4))"

lemma utf8_head_pos: "bs \<noteq> [] \<Longrightarrow> 0 < snd (utf8_head bs)"
  by (cases bs) auto

function utf8_valid :: "bytes \<Rightarrow> bool" where
  "utf8_valid bs = (if bs = [] then True
     else if fst (utf8_head bs) then utf8_valid (drop (snd (utf8_head bs)) bs) else False)"
  by pat_completeness auto
termination
  by (relation "measure length") (auto simp: utf8_head_pos)

function from_utf8_lossy :: "bytes \<Rightarrow> rstring" where
  "from_utf8_lossy bs = (if bs = [] then []
     else (if fst (utf8_head bs) then take (snd (utf8_head bs)) bs else [0xEF, 0xBF, 0xBD])
          @ from_utf8_lossy (drop (snd (utf8_head bs)) bs))"
  by pat_completeness auto
termination
  by (relation "measure length") (auto simp: utf8_head_pos)

declare utf8_valid.simps [simp del] from_utf8_lossy.simps [simp del]

definition from_utf8 :: "bytes \<Rightarrow> rstring option" where
  "from_utf8 bs = (if utf8_valid bs then Some bs else None)"

lemma byte_at_nonzero: "byte_at bs i \<noteq> 0 \<Longrightarrow> i < length bs"
  by (induction bs i rule: byte_at.induct) auto

lemma byte_at_append [simp]: "i < length xs \<Longrightarrow> byte_at (xs @ ys) i = byte_at xs i"
  by (induction xs i rule: byte_at.induct) auto

lemma byte_at_take [simp]: "i < n \<Longrightarrow> byte_at (take n bs) i = byte_at bs i"
  by (induction bs i arbitrary: n rule: byte_at.induct) (auto simp: take_Cons split: nat.splits)

lemma utf8_cont_in: "utf8_cont (byte_at bs i) \<Longrightarrow> i < length bs"
  by (rule byte_at_nonzero) (auto simp: utf8_cont_def)

lemma utf8_second_in: "utf8_second b (byte_at bs i) \<Longrightarrow> i < length bs"
  by (rule byte_at_nonzero) (auto simp: utf8_second_def utf8_cont_def split: if_splits)

lemma utf8_width_le: "utf8_width b \<le> 4"
  by (simp add: utf8_width_def)

text \<open>A complete character at the head of a string stays one when bytes follow.\<close>

lemma utf8_head_len: "utf8_head bs = (True, n) \<Longrightarrow> n \<le> length bs"
  by (cases bs) (auto simp: Suc_le_eq split: if_splits dest!: utf8_cont_in utf8_second_in)

lemma utf8_head_cong:
  assumes "utf8_head (b # bs) = (True, n)" and "\<And>i. i < n - 1 \<Longrightarrow> byte_at cs i = byte_at bs i"
  shows "utf8_head (b # cs) = (True, n)"
proof -
  have "n = utf8_width b" using assms(1) utf8_width_le [of b] by (auto split: if_splits)
  then show ?thesis using assms utf8_width_le [of b] by (auto split: if_splits)
qed

lemma utf8_head_append: "utf8_head bs = (True, n) \<Longrightarrow> bs \<noteq> [] \<Longrightarrow> utf8_head (bs @ cs) = (True, n)"
proof (cases bs)
  case (Cons b bs')
  assume h: "utf8_head bs = (True, n)"
  then have "n - 1 \<le> length bs'" using utf8_head_len [OF h] Cons by simp
  with h Cons show ?thesis by (auto simp del: utf8_head.simps intro!: utf8_head_cong [of b bs'])
qed simp

lemma utf8_head_take: "utf8_head bs = (True, n) \<Longrightarrow> bs \<noteq> [] \<Longrightarrow> utf8_head (take n bs) = (True, n)"
proof (cases bs)
  case (Cons b bs')
  assume h: "utf8_head bs = (True, n)"
  moreover have "0 < n" using utf8_head_pos [of bs] h Cons by simp
  ultimately show ?thesis using Cons
    by (cases n) (auto simp del: utf8_head.simps intro!: utf8_head_cong [of b bs'])
qed simp

lemma utf8_valid_Nil [simp]: "utf8_valid []"
  by (subst utf8_valid.simps) simp

lemma utf8_valid_append: "utf8_valid xs \<Longrightarrow> utf8_valid ys \<Longrightarrow> utf8_valid (xs @ ys)"
proof (induction xs rule: utf8_valid.induct)
  case (1 xs)
  show ?case
  proof (cases "xs = []")
    case False
    obtain n where h: "utf8_head xs = (True, n)" and v: "utf8_valid (drop n xs)"
      using 1(2) False by (cases "utf8_head xs") (auto simp: utf8_valid.simps [of xs] split: if_splits)
    have "utf8_valid (drop n xs @ ys)"
      using 1 False h v by simp
    then show ?thesis
      using utf8_head_append [OF h] utf8_head_len [OF h] False by (subst utf8_valid.simps) simp
  qed (use 1 in simp)
qed

lemma utf8_valid_ascii_byte: "b < 0x80 \<Longrightarrow> utf8_valid (b # bs) = utf8_valid bs"
  by (subst utf8_valid.simps) (simp add: utf8_width_def)

lemma utf8_valid_ascii: "\<forall>b \<in> set bs. b < 0x80 \<Longrightarrow> utf8_valid bs"
  by (induction bs) (auto simp: utf8_valid_ascii_byte)

lemma utf8_valid_head: "utf8_head bs = (True, n) \<Longrightarrow> utf8_valid (take n bs)"
  using utf8_head_take [of bs n] by (cases "bs = []") (auto simp: utf8_valid.simps [of "take n bs"])

lemma utf8_valid_replacement: "utf8_valid [0xEF, 0xBF, 0xBD]"
  by (simp add: utf8_valid.simps [of "[0xEF, 0xBF, 0xBD]"] utf8_width_def utf8_second_def utf8_cont_def)

lemmas utf8_valid_replacement_Cons = utf8_valid_append [OF utf8_valid_replacement, simplified]

lemma from_utf8_lossy_valid: "utf8_valid (from_utf8_lossy bs)"
proof (induction bs rule: from_utf8_lossy.induct)
  case (1 bs)
  show ?case
  proof (cases "bs = []")
    case False
    obtain ok n where h: "utf8_head bs = (ok, n)" by (cases "utf8_head bs")
    have "utf8_valid (from_utf8_lossy (drop n bs))" using 1 False h by simp
    then show ?thesis
      using False h utf8_valid_head [of bs n]
      by (subst from_utf8_lossy.simps) (auto intro: utf8_valid_append utf8_valid_replacement_Cons)
  qed (simp add: from_utf8_lossy.simps)
qed

lemma from_utf8_lossy_id: "utf8_valid bs \<Longrightarrow> from_utf8_lossy bs = bs"
proof (induction bs rule: from_utf8_lossy.induct)
  case (1 bs)
  show ?case
  proof (cases "bs = []")
    case False
    with 1(2) have "fst (utf8_head bs)" "utf8_valid (drop (snd (utf8_head bs)) bs)"
      by (auto simp: utf8_valid.simps [of bs] split: if_splits)
    with 1(1) False show ?thesis by (simp add: from_utf8_lossy.simps [of bs])
  qed (simp add: from_utf8_lossy.simps)
qed

lemma from_utf8_lossy_idem: "from_utf8_lossy (from_utf8_lossy bs) = from_utf8_lossy bs"
  by (simp add: from_utf8_lossy_id from_utf8_lossy_valid)

lemma from_utf8_valid [simp]: "utf8_valid bs \<Longrightarrow> from_utf8 bs = Some bs"
  by (simp add: from_utf8_def)

lemma from_utf8_SomeD: "from_utf8 bs = Some s \<Longrightarrow> s = bs \<and> utf8_valid s"
  by (simp add: from_utf8_def split: if_splits)

section \<open>White space\<close>

text \<open>The characters with the Unicode property \<open>White_Space\<close>, as UTF-8 (\<open>char::is_whitespace\<close>).\<close>

definition ws_seqs :: "bytes list" where
  "ws_seqs = [[0x09], [0x0A], [0x0B], [0x0C], [0x0D], [0x20], [0xC2, 0x85], [0xC2, 0xA0],
     [0xE1, 0x9A, 0x80], [0xE2, 0x80, 0x80], [0xE2, 0x80, 0x81], [0xE2, 0x80, 0x82],
     [0xE2, 0x80, 0x83], [0xE2, 0x80, 0x84], [0xE2, 0x80, 0x85], [0xE2, 0x80, 0x86],
     [0xE2, 0x80, 0x87], [0xE2, 0x80, 0x88], [0xE2, 0x80, 0x89], [0xE2, 0x80, 0x8A],
     [0xE2, 0x80, 0xA8], [0xE2, 0x80, 0xA9], [0xE2, 0x80, 0xAF], [0xE2, 0x81, 0x9F],
     [0xE3, 0x80, 0x80]]"

definition seq_head :: "bytes list \<Rightarrow> bytes \<Rightarrow> nat option" where
  "seq_head ss bs = map_option length (find (\<lambda>w. w \<noteq> [] \<and> take (length w) bs = w) ss)"

lemma seq_head_drop: "seq_head ss bs = Some n \<Longrightarrow> length (drop n bs) < length bs"
  by (cases bs) (auto simp: seq_head_def find_Some_iff)

function strip_seqs :: "bytes list \<Rightarrow> bytes \<Rightarrow> bytes" where
  "strip_seqs ss bs = (case seq_head ss bs of None \<Rightarrow> bs | Some n \<Rightarrow> strip_seqs ss (drop n bs))"
  by pat_completeness auto
termination
  by (relation "measure (\<lambda>(ss, bs). length bs)") (auto dest: seq_head_drop simp del: length_drop)

declare strip_seqs.simps [simp del]

text \<open>\<open>str::trim_start\<close>, \<open>str::trim_end\<close> and \<open>str::trim\<close>; the end is stripped on the reversed bytes.\<close>

definition trim_start :: "rstring \<Rightarrow> rstring" where
  "trim_start s = strip_seqs ws_seqs s"

definition trim_end :: "rstring \<Rightarrow> rstring" where
  "trim_end s = rev (strip_seqs (map rev ws_seqs) (rev s))"

definition trim :: "rstring \<Rightarrow> rstring" where
  "trim s = trim_end (trim_start s)"

text \<open>\<open>str::split_whitespace\<close>: the maximal runs of characters that are not white space.\<close>

definition flush_token :: "bytes \<Rightarrow> bytes list" where
  "flush_token acc = (if acc = [] then [] else [acc])"

function split_ws :: "bytes \<Rightarrow> bytes \<Rightarrow> bytes list" where
  "split_ws acc [] = flush_token acc"
| "split_ws acc (b # bs) =
     (case seq_head ws_seqs (b # bs) of
        Some n \<Rightarrow> flush_token acc @ split_ws [] (drop n (b # bs))
      | None \<Rightarrow> split_ws (acc @ [b]) bs)"
  by pat_completeness auto
termination
  by (relation "measure (\<lambda>(acc, bs). length bs)") (auto dest: seq_head_drop simp del: length_drop)

definition split_whitespace :: "rstring \<Rightarrow> rstring list" where
  "split_whitespace s = split_ws [] s"

definition ws_free :: "u8 \<Rightarrow> bool" where
  "ws_free b \<longleftrightarrow> 0x21 \<le> b \<and> b < 0x80"

lemma seq_head_NoneI:
  assumes "\<forall>w \<in> set ss. w \<noteq> [] \<longrightarrow> hd w \<noteq> b"
  shows "seq_head ss (b # bs) = None"
proof -
  have "take (length w) (b # bs) \<noteq> w" if "w \<in> set ss" "w \<noteq> []" for w
  proof -
    obtain c w' where "w = c # w'" using \<open>w \<noteq> []\<close> by (meson neq_Nil_conv)
    then show ?thesis using that assms by auto
  qed
  then show ?thesis by (auto simp: seq_head_def find_None_iff)
qed

lemma seq_head_ws_free: "ws_free b \<Longrightarrow> seq_head ws_seqs (b # bs) = None"
  by (rule seq_head_NoneI) (auto simp: ws_seqs_def ws_free_def)

lemma seq_head_rev_ws_free: "ws_free b \<Longrightarrow> seq_head (map rev ws_seqs) (b # bs) = None"
  by (rule seq_head_NoneI) (auto simp: ws_seqs_def ws_free_def)

lemma trim_id:
  assumes "ws_free (hd s)" and "ws_free (last s)"
  shows "trim s = s"
proof (cases "s = []")
  case False
  then have "strip_seqs ws_seqs s = s"
    using assms(1) by (subst strip_seqs.simps) (cases s; simp add: seq_head_ws_free)
  moreover obtain t b where "s = t @ [b]" using False by (metis rev_exhaust)
  then have "strip_seqs (map rev ws_seqs) (rev s) = rev s"
    using assms(2) by (subst strip_seqs.simps) (simp add: seq_head_rev_ws_free)
  ultimately show ?thesis by (simp add: trim_def trim_start_def trim_end_def)
qed (simp add: trim_def trim_start_def trim_end_def strip_seqs.simps seq_head_def ws_seqs_def)

text \<open>A word of printable ASCII is one token, and a line of such words splits into exactly them.\<close>

lemma split_ws_word:
  "\<forall>b \<in> set w. ws_free b \<Longrightarrow> split_ws acc (w @ bs) = split_ws (acc @ w) bs"
  by (induction w arbitrary: acc) (simp_all add: seq_head_ws_free)

lemma split_whitespace_word:
  "w \<noteq> [] \<Longrightarrow> \<forall>b \<in> set w. ws_free b \<Longrightarrow> split_whitespace w = [w]"
  using split_ws_word [of w "[]" "[]"] by (simp add: split_whitespace_def flush_token_def)

section \<open>ASCII case\<close>

definition ascii_upper :: "bytes \<Rightarrow> bytes" where
  "ascii_upper = map (\<lambda>b. if 0x61 \<le> b \<and> b \<le> 0x7A then b - 32 else b)"

definition ascii_lower :: "bytes \<Rightarrow> bytes" where
  "ascii_lower = map (\<lambda>b. if 0x41 \<le> b \<and> b \<le> 0x5A then b + 32 else b)"

definition eq_ignore_ascii_case :: "bytes \<Rightarrow> bytes \<Rightarrow> bool" where
  "eq_ignore_ascii_case a b \<longleftrightarrow> ascii_lower a = ascii_lower b"

section \<open>Decimal numbers\<close>

function dec_digits :: "int \<Rightarrow> bytes" where
  "dec_digits n = (if n < 10 then [48 + word_of_int n]
     else dec_digits (n div 10) @ [48 + word_of_int (n mod 10)])"
  by pat_completeness auto
termination
  by (relation "measure nat") auto

declare dec_digits.simps [simp del]

definition show_i64 :: "i64 \<Rightarrow> bytes" where
  "show_i64 w = (if sint w < 0 then 45 # dec_digits (- sint w) else dec_digits (sint w))"

definition show_usize :: "nat \<Rightarrow> bytes" where
  "show_usize n = dec_digits (int n)"

fun digits_val :: "int \<Rightarrow> bytes \<Rightarrow> int option" where
  "digits_val acc [] = Some acc"
| "digits_val acc (b # bs) =
     (if 48 \<le> b \<and> b \<le> 57 then digits_val (acc * 10 + uint (b - 48)) bs else None)"

text \<open>
  \<open>str::parse\<close> for signed integers: an optional sign, then at least one digit; for unsigned ones only
  \<open>+\<close> is a sign. The standard library stops at the first overflow; the value only grows with further
  digits, so testing the range at the end rejects the same inputs.
\<close>

definition parse_signed :: "bytes \<Rightarrow> int option" where
  "parse_signed bs = (case bs of
      [] \<Rightarrow> None
    | b # ds \<Rightarrow> if b = 45 then (if ds = [] then None else map_option uminus (digits_val 0 ds))
               else if b = 43 then (if ds = [] then None else digits_val 0 ds)
               else digits_val 0 bs)"

definition parse_i64 :: "rstring \<Rightarrow> i64 option" where
  "parse_i64 s = do { v \<leftarrow> parse_signed s;
     if - 9223372036854775808 \<le> v \<and> v \<le> 9223372036854775807
     then Some (word_of_int v) else None }"

definition parse_usize :: "rstring \<Rightarrow> nat option" where
  "parse_usize s = (case s of
      [] \<Rightarrow> None
    | b # ds \<Rightarrow> do { v \<leftarrow> (if b = 43 then (if ds = [] then None else digits_val 0 ds)
                              else digits_val 0 s);
        if v \<le> 18446744073709551615 then Some (nat v) else None })"

lemma digit_byte:
  assumes "0 \<le> d" and "d < 10"
  shows "48 \<le> (48 + word_of_int d :: u8)" and "(48 + word_of_int d :: u8) \<le> 57"
    and "uint (48 + word_of_int d - 48 :: u8) = d"
proof -
  have "d = 0 \<or> d = 1 \<or> d = 2 \<or> d = 3 \<or> d = 4 \<or> d = 5 \<or> d = 6 \<or> d = 7 \<or> d = 8 \<or> d = 9"
    using assms by arith
  then show "48 \<le> (48 + word_of_int d :: u8)" "(48 + word_of_int d :: u8) \<le> 57"
    "uint (48 + word_of_int d - 48 :: u8) = d" by auto
qed

lemma dec_digits_range:
  "0 \<le> n \<Longrightarrow> b \<in> set (dec_digits n) \<Longrightarrow> 48 \<le> b \<and> b \<le> 57"
proof (induction n rule: dec_digits.induct)
  case (1 n)
  then show ?case
    by (subst (asm) (2) dec_digits.simps)
      (auto simp: digit_byte split: if_splits)
qed

lemma dec_digits_Nil [simp]: "dec_digits n \<noteq> []"
  by (subst dec_digits.simps) simp

lemma digits_val_append:
  "digits_val a (xs @ ys) = Option.bind (digits_val a xs) (\<lambda>v. digits_val v ys)"
  by (induction a xs rule: digits_val.induct) auto

lemma digits_val_dec: "0 \<le> n \<Longrightarrow> digits_val 0 (dec_digits n) = Some n"
proof (induction n rule: dec_digits.induct)
  case (1 n)
  show ?case
  proof (cases "n < 10")
    case True
    then show ?thesis using 1(2) digit_byte [of n] by (subst dec_digits.simps) simp
  next
    case False
    then show ?thesis using 1 digit_byte [of "n mod 10"]
      by (subst dec_digits.simps) (simp add: digits_val_append)
  qed
qed

lemma dec_digits_head: "0 \<le> n \<Longrightarrow> dec_digits n = b # ds \<Longrightarrow> b \<noteq> 45 \<and> b \<noteq> 43"
  using dec_digits_range [of n b] by auto

lemma sint_range: "- 9223372036854775808 \<le> sint (w :: i64)" "sint (w :: i64) \<le> 9223372036854775807"
  using sint_greater_eq [of w] sint_lt [of w] by simp_all

lemma parse_signed_dec: "0 \<le> n \<Longrightarrow> parse_signed (dec_digits n) = Some n"
  using dec_digits_head [of n] digits_val_dec [of n]
  by (auto simp: parse_signed_def split: list.splits)

lemma parse_show_i64 [simp]: "parse_i64 (show_i64 w) = Some w"
proof (cases "sint w < 0")
  case True
  then have "parse_signed (show_i64 w) = Some (sint w)"
    by (simp add: show_i64_def parse_signed_def digits_val_dec)
  then show ?thesis using sint_range [of w] by (simp add: parse_i64_def)
next
  case False
  then have "parse_signed (show_i64 w) = Some (sint w)"
    by (simp add: show_i64_def parse_signed_dec)
  then show ?thesis using sint_range [of w] by (simp add: parse_i64_def)
qed

lemma parse_show_usize: "n < 2 ^ 64 \<Longrightarrow> parse_usize (show_usize n) = Some n"
  using dec_digits_head [of "int n"] digits_val_dec [of "int n"]
  by (auto simp: parse_usize_def show_usize_def split: list.splits)

lemma show_i64_bytes: "b \<in> set (show_i64 w) \<Longrightarrow> ws_free b"
proof -
  have digit: "48 \<le> b \<and> b \<le> 57 \<Longrightarrow> ws_free b" for b :: u8
    unfolding ws_free_def by unat_arith
  assume "b \<in> set (show_i64 w)"
  then show "ws_free b"
    using digit dec_digits_range [of "- sint w" b] dec_digits_range [of "sint w" b]
    by (cases "sint w < 0") (auto simp: show_i64_def ws_free_def)
qed

lemma show_i64_Nil [simp]: "show_i64 w \<noteq> []"
  by (simp add: show_i64_def)

lemma show_i64_valid [simp]: "utf8_valid (show_i64 w)"
  by (rule utf8_valid_ascii) (auto dest!: show_i64_bytes simp: ws_free_def)

lemma trim_show_i64 [simp]: "trim (show_i64 w) = show_i64 w"
  by (intro trim_id show_i64_bytes [of _ w]) simp_all

text \<open>\<open>std::str::from_utf8(v).ok()?.trim().parse().ok()\<close>: how a stored value is read as an integer.\<close>

definition bytes_to_i64 :: "bytes \<Rightarrow> i64 option" where
  "bytes_to_i64 v = do { s \<leftarrow> from_utf8 v; parse_i64 (trim s) }"

lemma bytes_to_i64_show [simp]: "bytes_to_i64 (show_i64 w) = Some w"
  by (simp add: bytes_to_i64_def)

lemma length_dec_digits: "0 \<le> n \<Longrightarrow> n < 10 ^ Suc k \<Longrightarrow> length (dec_digits n) \<le> Suc k"
proof (induction k arbitrary: n)
  case 0
  then show ?case by (simp add: dec_digits.simps)
next
  case (Suc k)
  show ?case
  proof (cases "n < 10")
    case False
    have "n div 10 < 10 ^ Suc k" using Suc.prems by (simp add: int_div_less_self div_less_iff_less_mult)
    then show ?thesis using Suc.IH [of "n div 10"] Suc.prems by (simp add: dec_digits.simps [of n])
  qed (simp add: dec_digits.simps)
qed

lemma length_show_i64: "length (show_i64 w) \<le> 20"
proof -
  have "- sint w < 10 ^ Suc 18" "sint w < 10 ^ Suc 18"
    using sint_range_size [of w] by (simp_all add: word_size)
  then show ?thesis
    using length_dec_digits [of "- sint w" 18] length_dec_digits [of "sint w" 18]
    by (auto simp: show_i64_def)
qed

text \<open>The digits of a length contain no white space, so they survive trimming and splitting.\<close>

lemma show_usize_chars: "b \<in> set (show_usize n) \<Longrightarrow> 48 \<le> b \<and> b \<le> 57"
  using dec_digits_range [of "int n" b] by (simp add: show_usize_def)

lemma show_usize_Nil [simp]: "show_usize n \<noteq> []"
  by (simp add: show_usize_def)

lemma show_usize_text: "utf8_valid (show_usize n)" "trim (show_usize n) = show_usize n"
proof -
  have d: "ws_free b" if "b \<in> set (show_usize n)" for b
    using show_usize_chars [OF that] by (auto simp: ws_free_def word_le_nat_alt word_less_nat_alt)
  show "utf8_valid (show_usize n)" by (rule utf8_valid_ascii) (auto dest: d simp: ws_free_def)
  show "trim (show_usize n) = show_usize n" by (rule trim_id) (simp_all add: d)
qed

end
