(* ===== verification/OB_BTree.thy ===== *)
theory OB_BTree
  imports OB_Prelude
begin

text \<open>
  The standard library's \<open>BTreeMap\<close>, as the sources use it: \<open>get\<close>, \<open>insert\<close>, \<open>remove\<close>, \<open>len\<close> and
  iteration in ascending key order. The model is the list of its entries in that order, so that two
  maps with the same contents are equal, as Rust's \<open>PartialEq\<close> has it. The locale \<open>ordered_map\<close> states
  the contract the clients rely on; what they need of it (a map is rebuilt by inserting its own
  entries, insertions at different keys commute) is proved once inside the locale.
\<close>

type_synonym ('k, 'v) btree = "('k \<times> 'v) list"

definition bt_get :: "('k :: linorder, 'v) btree \<Rightarrow> 'k \<Rightarrow> 'v option" where
  "bt_get m k = map_of m k"

fun bt_insert :: "'k :: linorder \<Rightarrow> 'v \<Rightarrow> ('k, 'v) btree \<Rightarrow> ('k, 'v) btree" where
  "bt_insert k v [] = [(k, v)]"
| "bt_insert k v ((k', v') # m) =
     (if k < k' then (k, v) # (k', v') # m
      else if k = k' then (k, v) # m
      else (k', v') # bt_insert k v m)"

fun bt_remove :: "'k :: linorder \<Rightarrow> ('k, 'v) btree \<Rightarrow> ('k, 'v) btree" where
  "bt_remove k [] = []"
| "bt_remove k ((k', v') # m) = (if k = k' then m else (k', v') # bt_remove k m)"

definition bt_wf :: "('k :: linorder, 'v) btree \<Rightarrow> bool" where
  "bt_wf m \<longleftrightarrow> sorted_wrt (<) (map fst m)"

section \<open>The contract of an ordered map\<close>

locale ordered_map =
  fixes empty :: "'m"
    and get :: "'m \<Rightarrow> 'k :: linorder \<Rightarrow> 'v option"
    and ins :: "'k \<Rightarrow> 'v \<Rightarrow> 'm \<Rightarrow> 'm"
    and del :: "'k \<Rightarrow> 'm \<Rightarrow> 'm"
    and ents :: "'m \<Rightarrow> ('k \<times> 'v) list"
    and invar :: "'m \<Rightarrow> bool"
  assumes get_empty: "get empty k = None"
    and get_ins: "invar m \<Longrightarrow> get (ins k v m) = (get m)(k \<mapsto> v)"
    and get_del: "invar m \<Longrightarrow> get (del k m) = (get m)(k := None)"
    and invar_empty: "invar empty"
    and invar_ins: "invar m \<Longrightarrow> invar (ins k v m)"
    and invar_del: "invar m \<Longrightarrow> invar (del k m)"
    and get_ents: "invar m \<Longrightarrow> map_of (ents m) = get m"
    and ents_sorted: "invar m \<Longrightarrow> sorted_wrt (<) (map fst (ents m))"
    and ext_eq: "invar m \<Longrightarrow> invar m' \<Longrightarrow> get m = get m' \<Longrightarrow> m = m'"
begin

lemma ents_distinct: "invar m \<Longrightarrow> distinct (map fst (ents m))"
  using ents_sorted strict_sorted_iff by blast

lemma invar_fold: "invar m \<Longrightarrow> invar (foldl (\<lambda>m (k, v). ins k v m) m xs)"
  by (induction xs arbitrary: m) (auto simp: invar_ins)

lemma get_fold:
  "invar m \<Longrightarrow> get (foldl (\<lambda>m (k, v). ins k v m) m xs) = get m ++ map_of (rev xs)"
proof (induction xs arbitrary: m)
  case (Cons x xs)
  obtain k v where "x = (k, v)" by (cases x)
  with Cons show ?case
    by (auto simp: invar_ins get_ins map_add_def fun_eq_iff split: option.splits)
qed simp

text \<open>Inserting the entries of a map one by one into an empty one rebuilds it.\<close>

lemma rebuild:
  assumes "invar m"
  shows "foldl (\<lambda>m (k, v). ins k v m) empty (ents m) = m"
proof -
  have "map_of (rev (ents m)) = map_of (ents m)"
    using ents_distinct [OF assms] by (simp add: map_of_inject_set rev_map [symmetric])
  then have "get (foldl (\<lambda>m (k, v). ins k v m) empty (ents m)) = get m"
    using assms get_fold [OF invar_empty, of "ents m"] get_ents
    by (simp add: get_empty map_add_def fun_eq_iff split: option.splits)
  then show ?thesis
    using assms invar_fold [OF invar_empty] ext_eq by blast
qed

lemma ins_commute: "invar m \<Longrightarrow> k \<noteq> l \<Longrightarrow> ins k v (ins l w m) = ins l w (ins k v m)"
  by (intro ext_eq invar_ins) (simp_all add: get_ins invar_ins fun_upd_twist)

lemma ins_overwrite: "invar m \<Longrightarrow> ins k v (ins k w m) = ins k v m"
  by (intro ext_eq invar_ins) (simp_all add: get_ins invar_ins)

lemma del_ins: "invar m \<Longrightarrow> get m k = None \<Longrightarrow> del k (ins k v m) = m"
  by (intro ext_eq invar_ins invar_del) (auto simp: get_ins get_del invar_ins)

end

section \<open>The entry list implements the contract\<close>

lemma bt_wf_Cons: "bt_wf ((k, v) # m) \<longleftrightarrow> (\<forall>k' \<in> fst ` set m. k < k') \<and> bt_wf m"
  by (auto simp: bt_wf_def)

lemma bt_insert_keys: "fst ` set (bt_insert k v m) = insert k (fst ` set m)"
  by (induction k v m rule: bt_insert.induct) (simp_all add: insert_commute)

lemma bt_remove_keys: "fst ` set (bt_remove k m) \<subseteq> fst ` set m"
  by (induction k m rule: bt_remove.induct) (simp_all, blast+)

lemma bt_wf_insert: "bt_wf m \<Longrightarrow> bt_wf (bt_insert k v m)"
proof (induction k v m rule: bt_insert.induct)
  case (2 k v k' v' m)
  then show ?case by (simp add: bt_wf_Cons bt_insert_keys) force
qed (simp add: bt_wf_def)

lemma bt_wf_remove: "bt_wf m \<Longrightarrow> bt_wf (bt_remove k m)"
proof (induction k m rule: bt_remove.induct)
  case (2 k k' v' m)
  have "\<forall>x \<in> fst ` set (bt_remove k m). k' < x"
    using 2(2) bt_remove_keys [of k m] unfolding bt_wf_Cons by blast
  with 2 show ?case by (simp add: bt_wf_Cons)
qed simp

lemma map_of_bt_insert: "bt_wf m \<Longrightarrow> map_of (bt_insert k v m) = (map_of m)(k \<mapsto> v)"
  by (induction m) (auto simp: bt_wf_Cons fun_eq_iff)

lemma map_of_bt_remove: "bt_wf m \<Longrightarrow> map_of (bt_remove k m) = (map_of m)(k := None)"
proof (induction m)
  case (Cons a m)
  obtain k' v' where "a = (k', v')" by (cases a)
  moreover have "k' \<notin> fst ` set m" if "bt_wf ((k', v') # m)" using that by (auto simp: bt_wf_Cons)
  ultimately show ?case using Cons by (auto simp: bt_wf_Cons fun_eq_iff map_of_eq_None_iff)
qed simp

lemma bt_ext: "bt_wf m \<Longrightarrow> bt_wf m' \<Longrightarrow> map_of m = map_of m' \<Longrightarrow> m = m'"
proof -
  assume wf: "bt_wf m" "bt_wf m'" and eq: "map_of m = map_of m'"
  have s: "sorted (map fst m)" "distinct (map fst m)" "sorted (map fst m')" "distinct (map fst m')"
    using wf by (auto simp: bt_wf_def strict_sorted_iff)
  then have "set m = set m'" using eq by (metis map_of_inject_set)
  then show "m = m'" using s map_sorted_distinct_set_unique [of fst m m'] by (auto simp: inj_on_def
        eq_key_imp_eq_value distinct_map dest: eq_key_imp_eq_value)
qed

interpretation bt: ordered_map "[]" bt_get bt_insert bt_remove "\<lambda>m. m" bt_wf
proof
  show "bt_wf m \<Longrightarrow> bt_wf m' \<Longrightarrow> bt_get m = bt_get m' \<Longrightarrow> m = m'" for m m' :: "('a, 'b) btree"
    by (rule bt_ext) (simp_all add: bt_get_def fun_eq_iff)
qed (simp_all add: bt_get_def fun_eq_iff bt_wf_insert bt_wf_remove map_of_bt_insert map_of_bt_remove,
     simp_all add: bt_wf_def)

lemmas bt_simps = bt.get_empty bt.get_ins bt.get_del bt.invar_empty bt.invar_ins bt.invar_del

end
