(* ===== verification/OB_State.thy ===== *)
theory OB_State
  imports OB_Text OB_BTree
begin

text \<open>
  The replicated state machine, \<open>state.rs\<close>: client operations and their wire encoding, the
  bounds-checked byte reader, the \<open>StateMachine\<close> trait and its implementation \<open>KvStore\<close>. The encoding
  round trip holds exactly for the operations whose lengths fit their fields, and a store is restored
  from its snapshot exactly when its keys, values and size fit theirs.
\<close>

section \<open>Operations and outputs\<close>

datatype op_kind =
    Set rstring bytes
  | Incr rstring i64
  | Del rstring
  | Get rstring
  | Txn "(rstring \<times> bytes option) list"

record op =
  op_client :: u32
  op_seq :: u64
  op_kind :: op_kind

datatype op_output = Ok | Value "i64 option" | Bytes "bytes option" | Suppressed

definition op_set_bytes :: "u32 \<Rightarrow> u64 \<Rightarrow> rstring \<Rightarrow> bytes \<Rightarrow> op" where
  "op_set_bytes c s k v = \<lparr>op_client = c, op_seq = s, op_kind = Set k v\<rparr>"

definition op_set :: "u32 \<Rightarrow> u64 \<Rightarrow> rstring \<Rightarrow> i64 \<Rightarrow> op" where
  "op_set c s k v = op_set_bytes c s k (show_i64 v)"

definition op_incr :: "u32 \<Rightarrow> u64 \<Rightarrow> rstring \<Rightarrow> i64 \<Rightarrow> op" where
  "op_incr c s k d = \<lparr>op_client = c, op_seq = s, op_kind = Incr k d\<rparr>"

definition op_del :: "u32 \<Rightarrow> u64 \<Rightarrow> rstring \<Rightarrow> op" where
  "op_del c s k = \<lparr>op_client = c, op_seq = s, op_kind = Del k\<rparr>"

definition op_get :: "u32 \<Rightarrow> u64 \<Rightarrow> rstring \<Rightarrow> op" where
  "op_get c s k = \<lparr>op_client = c, op_seq = s, op_kind = Get k\<rparr>"

definition op_txn :: "u32 \<Rightarrow> u64 \<Rightarrow> (rstring \<times> bytes option) list \<Rightarrow> op" where
  "op_txn c s ws = \<lparr>op_client = c, op_seq = s, op_kind = Txn ws\<rparr>"

lemmas op_defs [unfold_model] =
  op_set_bytes_def op_set_def op_incr_def op_del_def op_get_def op_txn_def

section \<open>The byte reader\<close>

text \<open>
  \<open>Reader\<close>: a slice and a position. The \<open>checked_add\<close> of \<open>bytes\<close> can only fail where the slice access
  fails anyway, a slice being shorter than \<open>isize::MAX\<close>.
\<close>

record reader =
  rd_b :: bytes
  rd_pos :: nat

definition rd_new :: "bytes \<Rightarrow> reader" where
  "rd_new b = \<lparr>rd_b = b, rd_pos = 0\<rparr>"

definition rd_bytes :: "nat \<Rightarrow> reader \<Rightarrow> (bytes \<times> reader) option" where
  "rd_bytes n r = (if rd_pos r + n \<le> length (rd_b r)
     then Some (take n (drop (rd_pos r) (rd_b r)), r\<lparr>rd_pos := rd_pos r + n\<rparr>) else None)"

definition rd_u8 :: "reader \<Rightarrow> (u8 \<times> reader) option" where
  "rd_u8 r = (if rd_pos r < length (rd_b r)
     then Some (rd_b r ! rd_pos r, r\<lparr>rd_pos := rd_pos r + 1\<rparr>) else None)"

definition rd_u16 :: "reader \<Rightarrow> (u16 \<times> reader) option" where
  "rd_u16 r = do { (b, r) \<leftarrow> rd_bytes 2 r; Some (word_of_int (le_val b), r) }"

definition rd_u32 :: "reader \<Rightarrow> (u32 \<times> reader) option" where
  "rd_u32 r = do { (b, r) \<leftarrow> rd_bytes 4 r; Some (word_of_int (le_val b), r) }"

definition rd_u64 :: "reader \<Rightarrow> (u64 \<times> reader) option" where
  "rd_u64 r = do { (b, r) \<leftarrow> rd_bytes 8 r; Some (word_of_int (le_val b), r) }"

definition rd_i64 :: "reader \<Rightarrow> (i64 \<times> reader) option" where
  "rd_i64 r = do { (b, r) \<leftarrow> rd_bytes 8 r; Some (word_of_int (le_val b), r) }"

lemmas rd_defs [unfold_model] = rd_new_def rd_bytes_def rd_u8_def rd_u16_def rd_u32_def rd_u64_def rd_i64_def

text \<open>
  The reader stands in front of the bytes \<open>ys\<close>; and a reading function yields \<open>x\<close> from the bytes \<open>bs\<close>
  wherever they stand, leaving the reader right behind them. Round trips are composed from this.
\<close>

definition rd_at :: "reader \<Rightarrow> bytes \<Rightarrow> bool" where
  "rd_at r ys \<longleftrightarrow> rd_pos r \<le> length (rd_b r) \<and> drop (rd_pos r) (rd_b r) = ys"

definition yields :: "(reader \<Rightarrow> ('a \<times> reader) option) \<Rightarrow> bytes \<Rightarrow> 'a \<Rightarrow> bool" where
  "yields f bs x \<longleftrightarrow> (\<forall>r ys. rd_at r (bs @ ys) \<longrightarrow> (\<exists>r'. f r = Some (x, r') \<and> rd_at r' ys))"

lemma yieldsD: "yields f bs x \<Longrightarrow> rd_at r (bs @ ys) \<Longrightarrow> \<exists>r'. f r = Some (x, r') \<and> rd_at r' ys"
  by (auto simp: yields_def)

lemma rd_at_new [simp]: "rd_at (rd_new b) b"
  by (simp add: rd_at_def rd_new_def)

lemma yields_bytes [reader]: "length xs = n \<Longrightarrow> yields (rd_bytes n) xs xs"
proof (unfold yields_def, intro allI impI)
  fix r ys assume n: "length xs = n" and r: "rd_at r (xs @ ys)"
  have "length (drop (rd_pos r) (rd_b r)) = n + length ys" using n r by (simp add: rd_at_def)
  moreover have "rd_pos r \<le> length (rd_b r)" using r by (simp add: rd_at_def)
  ultimately have "rd_pos r + n \<le> length (rd_b r)" by simp
  moreover have "drop (rd_pos r + n) (rd_b r) = ys"
    using n r by (metis add.commute drop_drop rd_at_def take_drop_append(2))
  ultimately show "\<exists>r'. rd_bytes n r = Some (xs, r') \<and> rd_at r' ys"
    using n r by (auto simp: rd_bytes_def rd_at_def)
qed

lemma yields_u8 [reader]: "yields rd_u8 [b] b"
proof (unfold yields_def, intro allI impI)
  fix r ys assume r: "rd_at r ([b] @ ys)"
  then have d: "drop (rd_pos r) (rd_b r) = b # ys" by (simp add: rd_at_def)
  then have "rd_pos r < length (rd_b r)" by (metis drop_all list.distinct(1) not_le)
  moreover from this d have "rd_b r ! rd_pos r = b" "drop (rd_pos r + 1) (rd_b r) = ys"
    by (simp_all add: Cons_nth_drop_Suc [symmetric])
  ultimately show "\<exists>r'. rd_u8 r = Some (b, r') \<and> rd_at r' ys"
    by (auto simp: rd_u8_def rd_at_def)
qed

lemma yields_return [reader]: "yields (\<lambda>r. Some (x, r)) [] x"
  by (simp add: yields_def)

lemma yields_bind:
  assumes "yields f bs x" and "yields (g x) cs y"
  shows "yields (\<lambda>r. Option.bind (f r) (\<lambda>(a, r). g a r)) (bs @ cs) y"
  unfolding yields_def
proof (intro allI impI)
  fix r ys assume "rd_at r ((bs @ cs) @ ys)"
  then obtain r1 where "f r = Some (x, r1)" and "rd_at r1 (cs @ ys)"
    using yieldsD [OF assms(1), of r "cs @ ys"] by auto
  then show "\<exists>r'. Option.bind (f r) (\<lambda>(a, r). g a r) = Some (y, r') \<and> rd_at r' ys"
    using yieldsD [OF assms(2)] by fastforce
qed

text \<open>The last step of a reading function returns a value without reading on.\<close>

lemma yields_map:
  assumes "yields f bs x" and "h x = y"
  shows "yields (\<lambda>r. Option.bind (f r) (\<lambda>(a, r). Some (h a, r))) bs y"
  using yields_bind [of f bs x "\<lambda>a r. Some (h a, r)" "[]" y] assms by (simp add: yields_return)

lemma yields_words [reader]:
  "yields rd_u16 (u16_le a) a" "yields rd_u32 (u32_le b) b"
  "yields rd_u64 (u64_le c) c" "yields rd_i64 (u64_le c) c"
  unfolding rd_u16_def [abs_def] rd_u32_def [abs_def] rd_u64_def [abs_def] rd_i64_def [abs_def]
  by (rule yields_map [OF yields_bytes], simp_all)+

lemma rd_bytes_SomeD: "rd_bytes n r = Some (b, r') \<Longrightarrow> length b = n"
  by (auto simp: rd_bytes_def split: if_splits)

section \<open>Wire and log encoding of an operation\<close>

text \<open>\<open>Op::encode\<close>: \<open>tag(1) client(4) seq(8) keylen(2) key\<close>, then the part that depends on the kind.\<close>

definition enc_key :: "rstring \<Rightarrow> bytes" where
  "enc_key k = u16_le (len_u16 (length k)) @ k"

definition enc_val :: "bytes \<Rightarrow> bytes" where
  "enc_val v = u32_le (len_u32 (length v)) @ v"

fun enc_write :: "rstring \<times> bytes option \<Rightarrow> bytes" where
  "enc_write (k, Some v) = enc_key k @ [1] @ enc_val v"
| "enc_write (k, None) = enc_key k @ [0]"

fun op_tag :: "op_kind \<Rightarrow> u8" where
  "op_tag (Set k v) = 0"
| "op_tag (Incr k d) = 1"
| "op_tag (Get k) = 2"
| "op_tag (Del k) = 3"
| "op_tag (Txn ws) = 4"

fun op_key :: "op_kind \<Rightarrow> rstring" where
  "op_key (Set k v) = k"
| "op_key (Incr k d) = k"
| "op_key (Get k) = k"
| "op_key (Del k) = k"
| "op_key (Txn ws) = []"

fun enc_rest :: "op_kind \<Rightarrow> bytes" where
  "enc_rest (Set k v) = enc_val v"
| "enc_rest (Incr k d) = u64_le d"
| "enc_rest (Get k) = []"
| "enc_rest (Del k) = []"
| "enc_rest (Txn ws) = u16_le (len_u16 (length ws)) @ concat (map enc_write ws)"

definition encode :: "op \<Rightarrow> bytes" where
  "encode op = [op_tag (op_kind op)] @ u32_le (op_client op) @ u64_le (op_seq op)
     @ enc_key (op_key (op_kind op)) @ enc_rest (op_kind op)"

text \<open>\<open>Op::decode\<close>; the key is read, and must be UTF-8, before the tag is looked at.\<close>

definition rd_str :: "nat \<Rightarrow> reader \<Rightarrow> (rstring \<times> reader) option" where
  "rd_str n r = do { (b, r) \<leftarrow> rd_bytes n r; s \<leftarrow> from_utf8 b; Some (s, r) }"

definition rd_key :: "reader \<Rightarrow> (rstring \<times> reader) option" where
  "rd_key r = do { (n, r) \<leftarrow> rd_u16 r; rd_str (unat n) r }"

definition rd_val :: "reader \<Rightarrow> (bytes \<times> reader) option" where
  "rd_val r = do { (n, r) \<leftarrow> rd_u32 r; rd_bytes (unat n) r }"

fun decode_writes :: "nat \<Rightarrow> reader \<Rightarrow> ((rstring \<times> bytes option) list \<times> reader) option" where
  "decode_writes 0 r = Some ([], r)"
| "decode_writes (Suc n) r = do {
     (k, r) \<leftarrow> rd_key r;
     (f, r) \<leftarrow> rd_u8 r;
     (v, r) \<leftarrow> (if f = 1 then do { (b, r) \<leftarrow> rd_val r; Some (Some b, r) } else Some (None, r));
     (ws, r) \<leftarrow> decode_writes n r;
     Some ((k, v) # ws, r) }"

definition decode_kind :: "u8 \<Rightarrow> rstring \<Rightarrow> reader \<Rightarrow> (op_kind \<times> reader) option" where
  "decode_kind tag key r =
     (if tag = 0 then do { (v, r) \<leftarrow> rd_val r; Some (Set key v, r) }
      else if tag = 1 then do { (d, r) \<leftarrow> rd_i64 r; Some (Incr key d, r) }
      else if tag = 2 then Some (Get key, r)
      else if tag = 3 then Some (Del key, r)
      else if tag = 4 then do {
        (n, r) \<leftarrow> rd_u16 r;
        (ws, r) \<leftarrow> decode_writes (unat n) r;
        Some (Txn ws, r) }
      else None)"

definition decode_op :: "reader \<Rightarrow> (op \<times> reader) option" where
  "decode_op r = do {
     (tag, r) \<leftarrow> rd_u8 r;
     (c, r) \<leftarrow> rd_u32 r;
     (s, r) \<leftarrow> rd_u64 r;
     (key, r) \<leftarrow> rd_key r;
     (k, r) \<leftarrow> decode_kind tag key r;
     Some (\<lparr>op_client = c, op_seq = s, op_kind = k\<rparr>, r) }"

definition decode :: "bytes \<Rightarrow> op option" where
  "decode bs = map_option fst (decode_op (rd_new bs))"

lemmas encode_defs [unfold_model] = encode_def enc_key_def enc_val_def
lemmas decode_defs [unfold_model] = decode_def decode_op_def decode_kind_def rd_key_def rd_val_def rd_str_def

text \<open>The operations whose fields fit the encoding.\<close>

definition key_ok :: "rstring \<Rightarrow> bool" where
  "key_ok k \<longleftrightarrow> utf8_valid k \<and> length k < 2 ^ 16"

definition val_ok :: "bytes \<Rightarrow> bool" where
  "val_ok v \<longleftrightarrow> length v < 2 ^ 32"

definition write_ok :: "rstring \<times> bytes option \<Rightarrow> bool" where
  "write_ok w \<longleftrightarrow> key_ok (fst w) \<and> (case snd w of None \<Rightarrow> True | Some v \<Rightarrow> val_ok v)"

fun wf_kind :: "op_kind \<Rightarrow> bool" where
  "wf_kind (Set k v) \<longleftrightarrow> key_ok k \<and> val_ok v"
| "wf_kind (Incr k d) \<longleftrightarrow> key_ok k"
| "wf_kind (Get k) \<longleftrightarrow> key_ok k"
| "wf_kind (Del k) \<longleftrightarrow> key_ok k"
| "wf_kind (Txn ws) \<longleftrightarrow> length ws < 2 ^ 16 \<and> list_all write_ok ws"

definition wf_op :: "op \<Rightarrow> bool" where
  "wf_op op \<longleftrightarrow> wf_kind (op_kind op)"

subsection \<open>Round trip\<close>

lemma yields_str [reader]: "utf8_valid xs \<Longrightarrow> length xs = n \<Longrightarrow> yields (rd_str n) xs xs"
  using yieldsD [OF yields_bytes [of xs n]]
  by (fastforce simp: yields_def rd_str_def)

lemma yields_key [reader]: "key_ok k \<Longrightarrow> yields rd_key (enc_key k) k"
  unfolding rd_key_def [abs_def] enc_key_def
  by (rule yields_bind [OF yields_words(1)]) (simp add: key_ok_def yields_str)

lemma yields_val [reader]: "val_ok v \<Longrightarrow> yields rd_val (enc_val v) v"
  unfolding rd_val_def [abs_def] enc_val_def
  by (rule yields_bind [OF yields_words(2)]) (simp add: val_ok_def yields_bytes)

lemma yields_flag:
  assumes "write_ok (k, v)" and "f = (case v of None \<Rightarrow> 0 :: u8 | Some _ \<Rightarrow> 1)"
  shows "yields (\<lambda>r. if f = 1 then do { (b, r) \<leftarrow> rd_val r; Some (Some b, r) } else Some (None, r))
    (case v of None \<Rightarrow> [] | Some b \<Rightarrow> enc_val b) v"
  using assms yields_map [OF yields_val, of _ Some v]
  by (cases v) (auto simp: write_ok_def yields_return)

lemma enc_write_eq:
  "enc_write (k, v) = enc_key k @ [case v of None \<Rightarrow> 0 | Some _ \<Rightarrow> 1] @ (case v of None \<Rightarrow> [] | Some b \<Rightarrow> enc_val b)"
  by (cases v) simp_all

lemma yields_writes [reader]:
  "list_all write_ok ws \<Longrightarrow> yields (decode_writes (length ws)) (concat (map enc_write ws)) ws"
proof (induction ws)
  case (Cons w ws)
  obtain k v where w: "w = (k, v)" by (cases w)
  then have ok: "key_ok k" "write_ok (k, v)" using Cons.prems by (simp_all add: write_ok_def)
  have "yields (\<lambda>r. do { (ws, r) \<leftarrow> decode_writes (length ws) r; Some ((k, v) # ws, r) })
      (concat (map enc_write ws)) ((k, v) # ws)"
    using Cons by (intro yields_map) auto
  then have "yields (decode_writes (Suc (length ws)))
      (enc_key k @ [case v of None \<Rightarrow> 0 | Some _ \<Rightarrow> 1] @ (case v of None \<Rightarrow> [] | Some b \<Rightarrow> enc_val b)
        @ concat (map enc_write ws)) ((k, v) # ws)"
    unfolding decode_writes.simps [abs_def]
    by (intro yields_bind [OF yields_key [OF ok(1)]] yields_bind [OF yields_u8]
        yields_bind [OF yields_flag [OF ok(2) refl]])
  then show ?case by (simp add: w enc_write_eq del: decode_writes.simps)
qed (simp add: yields_def)

lemma yields_kind [reader]:
  assumes "wf_kind k"
  shows "yields (decode_kind (op_tag k) (op_key k)) (enc_rest k) k"
proof (cases k)
  case (Set key v)
  then show ?thesis using assms yields_map [OF yields_val, of v "Set key"]
    by (simp add: decode_kind_def [abs_def])
next
  case (Incr key d)
  then show ?thesis using yields_map [OF yields_words(4), of "Incr key"]
    by (simp add: decode_kind_def [abs_def])
next
  case (Txn ws)
  then have "yields (decode_writes (unat (len_u16 (length ws)))) (concat (map enc_write ws)) ws"
    using assms yields_writes [of ws] by simp
  then have "yields (\<lambda>r. do { (n, r) \<leftarrow> rd_u16 r; (ws, r) \<leftarrow> decode_writes (unat n) r; Some (Txn ws, r) })
      (u16_le (len_u16 (length ws)) @ concat (map enc_write ws)) (Txn ws)"
    by (intro yields_bind [OF yields_words(1)] yields_map) simp_all
  then show ?thesis using Txn by (simp add: decode_kind_def [abs_def])
qed (simp_all add: decode_kind_def [abs_def] yields_return)

lemma wf_kind_key: "wf_kind k \<Longrightarrow> key_ok (op_key k)"
  by (cases k) (simp_all add: key_ok_def)

lemma yields_op [reader]:
  assumes "wf_op op"
  shows "yields decode_op (encode op) op"
proof -
  have "yields (\<lambda>r. do { (k, r) \<leftarrow> decode_kind (op_tag (op_kind op)) (op_key (op_kind op)) r;
      Some (\<lparr>op_client = op_client op, op_seq = op_seq op, op_kind = k\<rparr>, r) }) (enc_rest (op_kind op)) op"
    using assms by (intro yields_map [OF yields_kind]) (simp_all add: wf_op_def)
  moreover have "key_ok (op_key (op_kind op))" using assms by (simp add: wf_op_def wf_kind_key)
  ultimately show ?thesis unfolding encode_def decode_op_def [abs_def]
    by (intro yields_bind [OF yields_u8] yields_bind [OF yields_words(2)] yields_bind [OF yields_words(3)]
        yields_bind [OF yields_key])
qed

lemma decode_encode: "wf_op op \<Longrightarrow> decode (encode op) = Some op"
  using yieldsD [OF yields_op, of op "rd_new (encode op)" "[]"] by (auto simp: decode_def)

subsection \<open>What decoding can return\<close>

lemma rd_key_SomeD: "rd_key r = Some (k, r') \<Longrightarrow> key_ok k"
proof -
  assume "rd_key r = Some (k, r')"
  then obtain n r1 where "rd_bytes (unat (n :: u16)) r1 = Some (k, r')" "utf8_valid k"
    by (auto simp: rd_key_def rd_str_def elim!: bind_eq_SomeE dest!: from_utf8_SomeD)
  then show "key_ok k"
    using unsigned_less [of n] by (auto simp: key_ok_def dest: rd_bytes_SomeD)
qed

lemma rd_val_SomeD: "rd_val r = Some (v, r') \<Longrightarrow> val_ok v"
proof -
  assume "rd_val r = Some (v, r')"
  then obtain n r1 where "rd_bytes (unat (n :: u32)) r1 = Some (v, r')"
    by (auto simp: rd_val_def elim!: bind_eq_SomeE)
  then show "val_ok v"
    using unsigned_less [of n] by (auto simp: val_ok_def dest: rd_bytes_SomeD)
qed

lemma decode_writes_SomeD:
  "decode_writes n r = Some (ws, r') \<Longrightarrow> length ws = n \<and> list_all write_ok ws"
proof (induction n arbitrary: r ws)
  case (Suc n)
  then show ?case
    by (auto simp: write_ok_def elim!: bind_eq_SomeE dest!: rd_key_SomeD rd_val_SomeD split: if_splits)
qed simp

lemma decode_kind_SomeD: "decode_kind t k r = Some (kd, r') \<Longrightarrow> key_ok k \<Longrightarrow> wf_kind kd"
proof -
  have n: "unat (n :: u16) < 2 ^ 16" for n using unsigned_less [of n] by simp
  show "decode_kind t k r = Some (kd, r') \<Longrightarrow> key_ok k \<Longrightarrow> wf_kind kd"
    using n by (auto simp: decode_kind_def elim!: bind_eq_SomeE dest!: rd_val_SomeD decode_writes_SomeD
        split: if_splits)
qed

lemma decode_wf: "decode bs = Some op \<Longrightarrow> wf_op op"
  by (auto simp: decode_def decode_op_def wf_op_def elim!: bind_eq_SomeE dest!: rd_key_SomeD
      intro: decode_kind_SomeD)

section \<open>The key-value store\<close>

text \<open>\<open>KvStore\<close> holds one \<open>BTreeMap<String, Vec<u8>>\<close>.\<close>

type_synonym kv_store = "(rstring, bytes) btree"

definition kv_get_bytes :: "kv_store \<Rightarrow> rstring \<Rightarrow> bytes option" where
  "kv_get_bytes m k = bt_get m k"

definition kv_get_int :: "kv_store \<Rightarrow> rstring \<Rightarrow> i64 option" where
  "kv_get_int m k = do { v \<leftarrow> bt_get m k; bytes_to_i64 v }"

definition kv_len :: "kv_store \<Rightarrow> nat" where
  "kv_len m = length m"

definition kv_is_empty :: "kv_store \<Rightarrow> bool" where
  "kv_is_empty m \<longleftrightarrow> m = []"

definition kv_entries :: "kv_store \<Rightarrow> (rstring \<times> i64) list" where
  "kv_entries m = List.map_filter (\<lambda>(k, v). map_option (Pair k) (bytes_to_i64 v)) m"

fun kv_write :: "kv_store \<Rightarrow> rstring \<times> bytes option \<Rightarrow> kv_store" where
  "kv_write m (k, Some v) = bt_insert k v m"
| "kv_write m (k, None) = bt_remove k m"

definition incr_cur :: "kv_store \<Rightarrow> rstring \<Rightarrow> i64" where
  "incr_cur m k = (case kv_get_int m k of Some n \<Rightarrow> n | None \<Rightarrow> 0)"

fun kv_apply_kind :: "kv_store \<Rightarrow> op_kind \<Rightarrow> kv_store \<times> op_output" where
  "kv_apply_kind m (Set k v) = (bt_insert k v m, Ok)"
| "kv_apply_kind m (Incr k d) =
     (let next = incr_cur m k + d in (bt_insert k (show_i64 next) m, Value (Some next)))"
| "kv_apply_kind m (Del k) =
     (bt_remove k m, Value (Some (if bt_get m k \<noteq> None then 1 else 0)))"
| "kv_apply_kind m (Get k) = (m, Bytes (bt_get m k))"
| "kv_apply_kind m (Txn ws) = (foldl kv_write m ws, Value (Some (word_of_nat (length ws))))"

definition kv_apply :: "kv_store \<Rightarrow> op \<Rightarrow> kv_store \<times> op_output" where
  "kv_apply m op = kv_apply_kind m (op_kind op)"

definition enc_entry :: "rstring \<times> bytes \<Rightarrow> bytes" where
  "enc_entry e = enc_key (fst e) @ enc_val (snd e)"

definition kv_snapshot :: "kv_store \<Rightarrow> bytes" where
  "kv_snapshot m = u32_le (len_u32 (length m)) @ concat (map enc_entry m)"

fun kv_restore_loop :: "nat \<Rightarrow> reader \<Rightarrow> kv_store \<Rightarrow> kv_store" where
  "kv_restore_loop 0 r m = m"
| "kv_restore_loop (Suc n) r m =
     (case rd_u16 r of None \<Rightarrow> m | Some (klen, r) \<Rightarrow>
      (case rd_bytes (unat klen) r of None \<Rightarrow> m | Some (kb, r) \<Rightarrow>
       (case rd_u32 r of None \<Rightarrow> m | Some (vlen, r) \<Rightarrow>
        (case rd_bytes (unat vlen) r of None \<Rightarrow> m | Some (vb, r) \<Rightarrow>
          kv_restore_loop n r
            (case from_utf8 kb of Some k \<Rightarrow> bt_insert k vb m | None \<Rightarrow> m)))))"

definition kv_restore :: "bytes \<Rightarrow> kv_store" where
  "kv_restore bs = (case rd_u32 (rd_new bs) of None \<Rightarrow> [] | Some (n, r) \<Rightarrow> kv_restore_loop (unat n) r [])"

lemmas kv_defs [unfold_model] = kv_apply_def incr_cur_def kv_get_int_def kv_get_bytes_def kv_len_def
  kv_entries_def kv_snapshot_def enc_entry_def kv_restore_def bt_get_def

subsection \<open>The abstract store\<close>

text \<open>
  What the store promises, on a finite map from keys to values and without the entry list: the new map
  and the output of every kind of operation. \<open>kv_apply\<close> implements it.
\<close>

definition spec_int :: "(rstring \<rightharpoonup> bytes) \<Rightarrow> rstring \<Rightarrow> i64" where
  "spec_int f k = (case Option.bind (f k) bytes_to_i64 of Some n \<Rightarrow> n | None \<Rightarrow> 0)"

fun spec_apply :: "(rstring \<rightharpoonup> bytes) \<Rightarrow> op_kind \<Rightarrow> (rstring \<rightharpoonup> bytes) \<times> op_output" where
  "spec_apply f (Set k v) = (f(k \<mapsto> v), Ok)"
| "spec_apply f (Incr k d) =
     (f(k \<mapsto> show_i64 (spec_int f k + d)), Value (Some (spec_int f k + d)))"
| "spec_apply f (Del k) = (f(k := None), Value (Some (if k \<in> dom f then 1 else 0)))"
| "spec_apply f (Get k) = (f, Bytes (f k))"
| "spec_apply f (Txn ws) = (\<lambda>k. case map_of (rev ws) k of None \<Rightarrow> f k | Some v \<Rightarrow> v,
     Value (Some (word_of_nat (length ws))))"

lemma kv_write_wf: "bt_wf m \<Longrightarrow> bt_wf (kv_write m w)"
  by (induction m w rule: kv_write.induct) (simp_all add: bt_simps)

lemma kv_writes_wf: "bt_wf m \<Longrightarrow> bt_wf (foldl kv_write m ws)"
  by (induction ws arbitrary: m) (simp_all add: kv_write_wf)

lemma kv_apply_wf: "bt_wf m \<Longrightarrow> bt_wf (fst (kv_apply m op))"
  by (cases "op_kind op") (simp_all add: kv_apply_def bt_simps kv_writes_wf Let_def)

lemma kv_write_get: "bt_wf m \<Longrightarrow> bt_get (kv_write m (k, v)) = (bt_get m)(k := v)"
  by (cases v) (simp_all add: bt_simps)

lemma kv_writes_get:
  "bt_wf m \<Longrightarrow> bt_get (foldl kv_write m ws) = (\<lambda>k. case map_of (rev ws) k of None \<Rightarrow> bt_get m k | Some v \<Rightarrow> v)"
proof (induction ws rule: rev_induct)
  case (snoc w ws)
  obtain k v where "w = (k, v)" by (cases w)
  then show ?case using snoc by (auto simp: kv_write_get kv_writes_wf fun_eq_iff split: option.splits)
qed simp

lemma kv_apply_refines:
  assumes "bt_wf m"
  shows "bt_get (fst (kv_apply m op)) = fst (spec_apply (bt_get m) (op_kind op))"
    and "snd (kv_apply m op) = snd (spec_apply (bt_get m) (op_kind op))"
  using assms
  by (cases "op_kind op"; simp add: kv_apply_def bt_simps kv_writes_get Let_def incr_cur_def
      kv_get_int_def spec_int_def; simp add: dom_def)+

subsection \<open>Snapshot and restore\<close>

definition entry_ok :: "rstring \<times> bytes \<Rightarrow> bool" where
  "entry_ok e \<longleftrightarrow> key_ok (fst e) \<and> val_ok (snd e)"

definition kv_fits :: "kv_store \<Rightarrow> bool" where
  "kv_fits m \<longleftrightarrow> bt_wf m \<and> list_all entry_ok m \<and> length m < 2 ^ 32"

lemma restore_loop_entries:
  "list_all entry_ok es \<Longrightarrow> rd_at r (concat (map enc_entry es) @ ys) \<Longrightarrow>
   kv_restore_loop (length es) r m = foldl (\<lambda>m (k, v). bt_insert k v m) m es"
proof (induction es arbitrary: r m)
  case (Cons e es)
  obtain k v where e: "e = (k, v)" by (cases e)
  then have ok: "utf8_valid k" "unat (len_u16 (length k)) = length k" "unat (len_u32 (length v)) = length v"
    using Cons.prems(1) by (simp_all add: entry_ok_def key_ok_def val_ok_def)
  have "rd_at r (u16_le (len_u16 (length k)) @ k @ u32_le (len_u32 (length v)) @ v @ concat (map enc_entry es) @ ys)"
    using Cons.prems(2) by (simp add: e enc_entry_def [of "(k, v)"] enc_key_def enc_val_def)
  then obtain r1 where 1: "rd_u16 r = Some (len_u16 (length k), r1)"
      "rd_at r1 (k @ u32_le (len_u32 (length v)) @ v @ concat (map enc_entry es) @ ys)"
    using yieldsD [OF yields_words(1)] by blast
  then obtain r2 where 2: "rd_bytes (unat (len_u16 (length k))) r1 = Some (k, r2)"
      "rd_at r2 (u32_le (len_u32 (length v)) @ v @ concat (map enc_entry es) @ ys)"
    using yieldsD [OF yields_bytes [of k]] ok by metis
  then obtain r3 where 3: "rd_u32 r2 = Some (len_u32 (length v), r3)"
      "rd_at r3 (v @ concat (map enc_entry es) @ ys)"
    using yieldsD [OF yields_words(2)] by blast
  then obtain r4 where 4: "rd_bytes (unat (len_u32 (length v))) r3 = Some (v, r4)"
      "rd_at r4 (concat (map enc_entry es) @ ys)"
    using yieldsD [OF yields_bytes [of v]] ok by metis
  then show ?case using 1(1) 2(1) 3(1) ok(1) Cons.IH [OF _ 4(2)] Cons.prems(1) by (simp add: e)
qed simp

lemma kv_restore_snapshot: "kv_fits m \<Longrightarrow> kv_restore (kv_snapshot m) = m"
proof -
  assume fits: "kv_fits m"
  obtain r where "rd_u32 (rd_new (kv_snapshot m)) = Some (len_u32 (length m), r)"
      "rd_at r (concat (map enc_entry m))"
    using yieldsD [OF yields_words(2), of "rd_new (kv_snapshot m)" "len_u32 (length m)" "concat (map enc_entry m)"]
    by (auto simp: kv_snapshot_def)
  then have "kv_restore (kv_snapshot m) = foldl (\<lambda>m (k, v). bt_insert k v m) [] m"
    using restore_loop_entries [of m r "[]" "[]"] fits
    by (simp add: kv_restore_def kv_fits_def)
  then show ?thesis using fits bt.rebuild [of m] by (simp add: kv_fits_def)
qed

lemma bt_insert_length: "length (bt_insert k v m) \<le> Suc (length m)"
  by (induction m) auto

lemma bt_insert_set: "set (bt_insert k v m) \<subseteq> insert (k, v) (set m)"
  by (induction k v m rule: bt_insert.induct) auto

definition entries_ok :: "nat \<Rightarrow> kv_store \<Rightarrow> bool" where
  "entries_ok n m \<longleftrightarrow> bt_wf m \<and> list_all entry_ok m \<and> length m \<le> n"

lemma entries_ok_insert:
  assumes "entries_ok n m" and "utf8_valid k"
    and "rd_bytes (unat (kl :: u16)) r1 = Some (k, r2)" and "rd_bytes (unat (vl :: u32)) r3 = Some (v, r4)"
  shows "entries_ok (Suc n) (bt_insert k v m)"
proof -
  have "length k < 2 ^ 16" "length v < 2 ^ 32"
    using assms(3,4) unsigned_less [of kl] unsigned_less [of vl] by (simp_all add: rd_bytes_SomeD)
  then have "entry_ok (k, v)" using assms(2) by (simp add: entry_ok_def key_ok_def val_ok_def)
  then show ?thesis
    using assms(1) bt_insert_set [of k v m] bt_insert_length [of k v m]
    by (auto simp: entries_ok_def list_all_iff bt_simps)
qed

lemma entries_ok_mono: "entries_ok n m \<Longrightarrow> n \<le> n' \<Longrightarrow> entries_ok n' m"
  by (simp add: entries_ok_def)

lemma kv_restore_loop_ok: "entries_ok k m \<Longrightarrow> entries_ok (n + k) (kv_restore_loop n r m)"
proof (induction n arbitrary: r m k)
  case (Suc n)
  have "entries_ok (Suc k) m" "entries_ok (Suc (n + k)) m"
    using Suc.prems by (auto intro: entries_ok_mono)
  with Suc.prems show ?case
    using Suc.IH [of "Suc k"]
    by (auto simp: from_utf8_def intro: entries_ok_insert split: option.splits)
qed simp

lemma kv_restore_fits: "kv_fits (kv_restore bs)"
proof (cases "rd_u32 (rd_new bs)")
  case (Some p)
  obtain n r where "p = (n, r)" by (cases p)
  moreover have "unat n < 2 ^ 32" using unsigned_less [of n] by simp
  moreover have "entries_ok (unat n + 0) (kv_restore_loop (unat n) r [])"
    by (rule kv_restore_loop_ok) (simp add: entries_ok_def bt_simps)
  ultimately show ?thesis using Some
    by (simp add: kv_fits_def kv_restore_def entries_ok_def)
qed (simp add: kv_restore_def kv_fits_def bt_simps)

lemma kv_restore_snapshot_iff: "kv_restore (kv_snapshot m) = m \<longleftrightarrow> kv_fits m"
  using kv_restore_snapshot kv_restore_fits by metis

section \<open>The state machine interface\<close>

text \<open>
  The trait \<open>StateMachine\<close> as a record of its operations, so that the engine is generic in it as
  \<open>Engine<S: StateMachine>\<close> is. The locale states what the engine relies on: a state that is \<open>good\<close>,
  that is, within the limits of the snapshot format, is restored from its snapshot.
\<close>

record 's sm_ops =
  sm_default :: 's
  sm_apply :: "'s \<Rightarrow> op \<Rightarrow> 's \<times> op_output"
  sm_snapshot :: "'s \<Rightarrow> bytes"
  sm_restore :: "bytes \<Rightarrow> 's"

locale state_machine =
  fixes sm :: "'s sm_ops"
    and good :: "'s \<Rightarrow> bool"
  assumes restore_snapshot: "good s \<Longrightarrow> sm_restore sm (sm_snapshot sm s) = s"
    and snapshot_length: "good s \<Longrightarrow> length (sm_snapshot sm s) < 2 ^ 32"

definition kv_sm :: "kv_store sm_ops" where
  "kv_sm = \<lparr>sm_default = [], sm_apply = kv_apply, sm_snapshot = kv_snapshot, sm_restore = kv_restore\<rparr>"

definition kv_good :: "kv_store \<Rightarrow> bool" where
  "kv_good m \<longleftrightarrow> kv_fits m \<and> length (kv_snapshot m) < 2 ^ 32"

lemma kv_sm_simps [simp]:
  "sm_default kv_sm = []" "sm_apply kv_sm = kv_apply"
  "sm_snapshot kv_sm = kv_snapshot" "sm_restore kv_sm = kv_restore"
  by (simp_all add: kv_sm_def)

interpretation kv: state_machine kv_sm kv_good
  by unfold_locales (simp_all add: kv_good_def kv_restore_snapshot)

end
