(* ===== verification/OB_Durable.thy ===== *)
theory OB_Durable
  imports OB_Prelude
begin

text \<open>
  The file-backed store, \<open>durable.rs\<close>: an append-only log of records and a snapshot that replaces it.
  Every system call may fail, and a failing write may leave a prefix of its bytes behind; a crash is a
  failing call after which the process is gone, so quantifying over the outcomes of the calls covers
  every crash point. The directory records the calls made on it, from which \<open>OB_Stable\<close> computes what
  a power failure may leave. The lemmas say what the files hold in each case.
\<close>

section \<open>Fallible operations on a state\<close>

datatype io_error = IoError

type_synonym ('a, 's) io = "'s \<Rightarrow> (io_error + 'a) \<times> 's"

definition io_return :: "'a \<Rightarrow> ('a, 's) io" where
  "io_return x s = (Inr x, s)"

text \<open>The \<open>?\<close> operator: the rest runs only after success, the state changes made so far stay.\<close>

definition io_bind :: "('a, 's) io \<Rightarrow> ('a \<Rightarrow> ('b, 's) io) \<Rightarrow> ('b, 's) io" where
  "io_bind m f s = (case m s of (Inl e, s') \<Rightarrow> (Inl e, s') | (Inr x, s') \<Rightarrow> f x s')"

text \<open>\<open>let _ = m;\<close> drops the result of a fallible call.\<close>

definition io_ignore :: "('a, 's) io \<Rightarrow> (unit, 's) io" where
  "io_ignore m s = (Inr (), snd (m s))"

lemmas io_defs [unfold_model] = io_return_def io_bind_def io_ignore_def

lemma io_bindE:
  assumes "io_bind m f s = (res, s')"
  obtains (err) e where "m s = (Inl e, s')" and "res = Inl e"
    | (step) x s1 where "m s = (Inr x, s1)" and "f x s1 = (res, s')"
  using assms by (auto simp: io_bind_def split: prod.splits sum.splits)

section \<open>The directory and its system calls\<close>

text \<open>
  \<open>Done\<close>: the call succeeds. \<open>Fail n\<close>: it fails, and if it writes, its first \<open>n\<close> bytes are in the
  file. The outcomes of the calls to come are part of the state; an empty list means they all succeed.
  The calls that have changed or synced a file are kept too, the latest first: they decide what is on
  stable storage. \<open>Mounted\<close> stands for a machine that has started with the given snapshot, log and
  temporary file.
\<close>

datatype outcome = Done | Fail nat

datatype call = OpenLog | WriteLog bytes | SyncLog | CreateTmp | WriteTmp bytes | SyncTmp | RenameTmp | RemoveLog
  | Mounted "bytes option" "bytes option" "bytes option"

record directory =
  f_snapshot :: "bytes option"
  f_oplog :: "bytes option"
  f_tmp :: "bytes option"
  outcomes :: "outcome list"
  calls :: "call list"

record durable =
  d_fsync :: bool
  d_log :: bool  \<comment> \<open>whether the append handle is cached\<close>
  d_dir :: directory

definition empty_dir :: directory where
  "empty_dir = \<lparr>f_snapshot = None, f_oplog = None, f_tmp = None, outcomes = [], calls = []\<rparr>"

definition syscall :: "(directory \<Rightarrow> directory) \<Rightarrow> (nat \<Rightarrow> directory \<Rightarrow> directory) \<Rightarrow> (unit, durable) io" where
  "syscall ok part d = (let w = (d_dir d)\<lparr>outcomes := tl (outcomes (d_dir d))\<rparr> in
     case outcomes (d_dir d) of
       Fail n # os \<Rightarrow> (Inl IoError, d\<lparr>d_dir := part n w\<rparr>)
     | _ \<Rightarrow> (Inr (), d\<lparr>d_dir := ok w\<rparr>))"

definition file_bytes :: "bytes option \<Rightarrow> bytes" where
  "file_bytes f = (case f of None \<Rightarrow> [] | Some b \<Rightarrow> b)"

definition sys_create_dir_all :: "(unit, durable) io" where
  "sys_create_dir_all = syscall (\<lambda>w. w) (\<lambda>_ w. w)"

definition sys_open_append :: "(unit, durable) io" where
  "sys_open_append = syscall (\<lambda>w. w\<lparr>f_oplog := Some (file_bytes (f_oplog w)), calls := OpenLog # calls w\<rparr>) (\<lambda>_ w. w)"

definition sys_write_log :: "bytes \<Rightarrow> (unit, durable) io" where
  "sys_write_log b = syscall (\<lambda>w. w\<lparr>f_oplog := Some (file_bytes (f_oplog w) @ b), calls := WriteLog b # calls w\<rparr>)
     (\<lambda>n w. w\<lparr>f_oplog := Some (file_bytes (f_oplog w) @ take n b), calls := WriteLog (take n b) # calls w\<rparr>)"

definition sys_sync_all :: "call \<Rightarrow> (unit, durable) io" where
  "sys_sync_all c = syscall (\<lambda>w. w\<lparr>calls := c # calls w\<rparr>) (\<lambda>_ w. w)"

definition sys_create_tmp :: "(unit, durable) io" where
  "sys_create_tmp = syscall (\<lambda>w. w\<lparr>f_tmp := Some [], calls := CreateTmp # calls w\<rparr>) (\<lambda>_ w. w)"

definition sys_write_tmp :: "bytes \<Rightarrow> (unit, durable) io" where
  "sys_write_tmp b = syscall (\<lambda>w. w\<lparr>f_tmp := Some (file_bytes (f_tmp w) @ b), calls := WriteTmp b # calls w\<rparr>)
     (\<lambda>n w. w\<lparr>f_tmp := Some (file_bytes (f_tmp w) @ take n b), calls := WriteTmp (take n b) # calls w\<rparr>)"

definition sys_rename :: "(unit, durable) io" where
  "sys_rename = syscall (\<lambda>w. w\<lparr>f_snapshot := f_tmp w, f_tmp := None, calls := RenameTmp # calls w\<rparr>) (\<lambda>_ w. w)"

definition sys_remove_log :: "(unit, durable) io" where
  "sys_remove_log = syscall (\<lambda>w. w\<lparr>f_oplog := None, calls := RemoveLog # calls w\<rparr>) (\<lambda>_ w. w)"

definition sys_open_read :: "(unit, durable) io" where
  "sys_open_read = syscall (\<lambda>w. w) (\<lambda>_ w. w)"

definition sys_read :: "(unit, durable) io" where
  "sys_read = syscall (\<lambda>w. w) (\<lambda>_ w. w)"

lemmas sys_defs [unfold_model] = sys_create_dir_all_def sys_open_append_def sys_write_log_def sys_sync_all_def
  sys_create_tmp_def sys_write_tmp_def sys_rename_def sys_remove_log_def sys_open_read_def sys_read_def

section \<open>Operations of the store\<close>

definition durable_open :: "directory \<Rightarrow> bool \<Rightarrow> (io_error + unit) \<times> durable" where
  "durable_open w fsync = sys_create_dir_all \<lparr>d_fsync = fsync, d_log = False, d_dir = w\<rparr>"

definition cache_handle :: "(unit, durable) io" where
  "cache_handle d = (Inr (), d\<lparr>d_log := True\<rparr>)"

definition drop_handle :: "(unit, durable) io" where
  "drop_handle d = (Inr (), d\<lparr>d_log := False\<rparr>)"

definition sync_if_fsync :: "call \<Rightarrow> (unit, durable) io" where
  "sync_if_fsync c d = (if d_fsync d then sys_sync_all c d else (Inr (), d))"

definition log_record :: "u64 \<times> bytes \<Rightarrow> bytes" where
  "log_record r = u64_le (fst r) @ u32_le (len_u32 (length (snd r))) @ snd r"

definition dur_append :: "u64 \<Rightarrow> bytes \<Rightarrow> (unit, durable) io" where
  "dur_append ts op_bytes d = io_bind
     (\<lambda>d. if d_log d then (Inr (), d) else io_bind sys_open_append (\<lambda>_. cache_handle) d)
     (\<lambda>_. io_bind (sys_write_log (log_record (ts, op_bytes))) (\<lambda>_. sync_if_fsync SyncLog)) d"

definition write_snapshot :: "bytes \<Rightarrow> (unit, durable) io" where
  "write_snapshot b = io_bind sys_create_tmp (\<lambda>_.
     io_bind (sys_write_tmp b) (\<lambda>_.
     io_bind (sync_if_fsync SyncTmp) (\<lambda>_.
     io_bind sys_rename (\<lambda>_.
     io_bind drop_handle (\<lambda>_.
     io_ignore sys_remove_log)))))"

text \<open>A file that does not exist is reported as \<open>NotFound\<close>, which is not an error for either reader.\<close>

definition read_snapshot :: "(bytes option, durable) io" where
  "read_snapshot d = (case f_snapshot (d_dir d) of
      None \<Rightarrow> io_bind sys_open_read (\<lambda>_. io_return None) d
    | Some b \<Rightarrow> io_bind sys_open_read (\<lambda>_. io_bind sys_read (\<lambda>_. io_return (Some b))) d)"

text \<open>
  The record loop of \<open>read_log\<close> on the bytes not yet consumed: it stops at the first record that is
  cut short. The bytes it leaves behind are \<open>log_tail\<close>.
\<close>

function parse_log :: "bytes \<Rightarrow> (u64 \<times> bytes) list" where
  "parse_log raw = (if length raw < 12 then []
     else if length (drop 12 raw) < nat (le_val (take 4 (drop 8 raw))) then []
     else (word_of_int (le_val (take 8 raw)), take (nat (le_val (take 4 (drop 8 raw)))) (drop 12 raw))
       # parse_log (drop (nat (le_val (take 4 (drop 8 raw)))) (drop 12 raw)))"
  by pat_completeness auto
termination
  by (relation "measure length") auto

function log_tail :: "bytes \<Rightarrow> bytes" where
  "log_tail raw = (if length raw < 12 then raw
     else if length (drop 12 raw) < nat (le_val (take 4 (drop 8 raw))) then raw
     else log_tail (drop (nat (le_val (take 4 (drop 8 raw)))) (drop 12 raw)))"
  by pat_completeness auto
termination
  by (relation "measure length") auto

declare parse_log.simps [simp del] log_tail.simps [simp del]

definition read_log :: "((u64 \<times> bytes) list, durable) io" where
  "read_log d = (case f_oplog (d_dir d) of
      None \<Rightarrow> io_bind sys_read (\<lambda>_. io_return []) d
    | Some raw \<Rightarrow> io_bind sys_read (\<lambda>_. io_return (parse_log raw)) d)"

lemmas durable_defs [unfold_model] = durable_open_def cache_handle_def drop_handle_def sync_if_fsync_def
  log_record_def dur_append_def write_snapshot_def read_snapshot_def read_log_def

section \<open>What the log file holds\<close>

definition rec_ok :: "u64 \<times> bytes \<Rightarrow> bool" where
  "rec_ok r \<longleftrightarrow> length (snd r) < 2 ^ 32"

lemma length_log_record: "length (log_record r) = 12 + length (snd r)"
  by (simp add: log_record_def)

lemma log_record_fields:
  assumes "rec_ok r"
  shows "take 8 (log_record r @ raw) = u64_le (fst r)"
    and "nat (le_val (take 4 (drop 8 (log_record r @ raw)))) = length (snd r)"
    and "drop 12 (log_record r @ raw) = snd r @ raw"
proof -
  let ?n = "u32_le (len_u32 (length (snd r)))"
  have split: "log_record r @ raw = u64_le (fst r) @ ?n @ snd r @ raw"
    "log_record r @ raw = (u64_le (fst r) @ ?n) @ snd r @ raw"
    by (simp_all add: log_record_def)
  have "le_val (u32_le w) = uint w" for w :: u32
    using uint_lt2p [of w] by (simp add: u32_le_def le_val_le_bytes)
  then have val: "nat (le_val ?n) = length (snd r)"
    using assms unat_len_small(2) [of "length (snd r)"] unat_eq_nat_uint [of "len_u32 (length (snd r))"]
    by (simp only: rec_ok_def)
  show "take 8 (log_record r @ raw) = u64_le (fst r)"
    unfolding split(1) by (rule take_drop_append) simp
  have "drop 8 (log_record r @ raw) = ?n @ snd r @ raw"
    unfolding split(1) by (rule take_drop_append) simp
  then show "nat (le_val (take 4 (drop 8 (log_record r @ raw)))) = length (snd r)"
    using val take_drop_append(1) [of ?n 4 "snd r @ raw"] by simp
  show "drop 12 (log_record r @ raw) = snd r @ raw"
    unfolding split(2) by (rule take_drop_append) simp
qed

lemma parse_log_Nil [simp]: "parse_log [] = []" "log_tail [] = []"
  by (simp_all add: parse_log.simps log_tail.simps)

lemma parse_log_record:
  assumes "rec_ok r"
  shows "parse_log (log_record r @ raw) = r # parse_log raw" and "log_tail (log_record r @ raw) = log_tail raw"
  using log_record_fields [OF assms, of raw]
  by (simp_all add: parse_log.simps [of "log_record r @ raw"] log_tail.simps [of "log_record r @ raw"]
      length_log_record)

text \<open>A log whose records are all complete parses to the old records followed by what is appended.\<close>

lemma parse_log_append:
  "log_tail raw = [] \<Longrightarrow> parse_log (raw @ ys) = parse_log raw @ parse_log ys \<and>
   log_tail (raw @ ys) = log_tail ys"
proof (induction raw rule: parse_log.induct)
  case (1 raw)
  let ?n = "nat (le_val (take 4 (drop 8 raw)))"
  show ?case
  proof (cases "length raw < 12 \<or> length (drop 12 raw) < ?n")
    case True
    then have "raw = []" using 1(2) by (auto simp: log_tail.simps [of raw] split: if_splits)
    then show ?thesis by simp
  next
    case False
    then have tail: "log_tail (drop ?n (drop 12 raw)) = []"
      using 1(2) by (simp add: log_tail.simps [of raw])
    have len: "\<not> length raw < 12" "\<not> length (drop 12 raw) < ?n" using False by auto
    note IH = 1(1) [OF len tail]
    have "take 4 (drop 8 (raw @ ys)) = take 4 (drop 8 raw)" "take 8 (raw @ ys) = take 8 raw"
      "drop 12 (raw @ ys) = drop 12 raw @ ys" using len by simp_all
    moreover have "take ?n (drop 12 raw @ ys) = take ?n (drop 12 raw)"
      "drop ?n (drop 12 raw @ ys) = drop ?n (drop 12 raw) @ ys" using len(2) by simp_all
    ultimately show ?thesis using len IH
      by (simp add: parse_log.simps [of "raw @ ys"] parse_log.simps [of raw] log_tail.simps [of "raw @ ys"]
          del: drop_drop drop_append length_drop take_append)
  qed
qed

text \<open>A record cut short anywhere parses as nothing at all.\<close>

lemma parse_log_torn:
  assumes "n < length (log_record r)" and "rec_ok r"
  shows "parse_log (take n (log_record r)) = []" and "log_tail (take n (log_record r)) = take n (log_record r)"
proof -
  let ?t = "take n (log_record r)"
  have "length (drop 12 ?t) < nat (le_val (take 4 (drop 8 ?t)))" if "\<not> length ?t < 12"
  proof -
    have "12 \<le> n" using that assms(1) by simp
    then have "take 4 (drop 8 ?t) = take 4 (drop 8 (log_record r))"
      by (simp add: drop_take)
    then show ?thesis using log_record_fields(2) [OF assms(2), of "[]"] assms(1) \<open>12 \<le> n\<close>
      by (simp add: length_log_record less_diff_conv2)
  qed
  then show "parse_log ?t = []" "log_tail ?t = ?t"
    by (auto simp: parse_log.simps [of ?t] log_tail.simps [of ?t])
qed

lemma parse_log_records: "list_all rec_ok rs \<Longrightarrow> parse_log (concat (map log_record rs) @ t) = rs @ parse_log t"
  by (induction rs) (simp_all add: parse_log_record)

section \<open>The contract of the store\<close>

definition dur_records :: "durable \<Rightarrow> (u64 \<times> bytes) list" where
  "dur_records d = parse_log (file_bytes (f_oplog (d_dir d)))"

definition dur_snap :: "durable \<Rightarrow> bytes option" where
  "dur_snap d = f_snapshot (d_dir d)"

text \<open>The log file consists of complete records only, and no coming write is torn.\<close>

definition dur_clean :: "durable \<Rightarrow> bool" where
  "dur_clean d \<longleftrightarrow> log_tail (file_bytes (f_oplog (d_dir d))) = []"

definition whole_writes :: "outcome list \<Rightarrow> bool" where
  "whole_writes os \<longleftrightarrow> list_all (\<lambda>x. x = Done \<or> x = Fail 0) os"

definition dur_whole :: "durable \<Rightarrow> bool" where
  "dur_whole d \<longleftrightarrow> whole_writes (outcomes (d_dir d))"

text \<open>
  What the engine relies on. An append that reports success has added its record at the end; whatever
  it reports, the records are the old ones or the old ones and the new one. A snapshot is replaced
  atomically, and the log behind it is kept or cleared as a whole.
\<close>

locale durable_store =
  fixes append_rec :: "u64 \<Rightarrow> bytes \<Rightarrow> (unit, 'd) io"
    and put_snap :: "bytes \<Rightarrow> (unit, 'd) io"
    and recs :: "'d \<Rightarrow> (u64 \<times> bytes) list"
    and snap :: "'d \<Rightarrow> bytes option"
    and clean :: "'d \<Rightarrow> bool"
    and whole :: "'d \<Rightarrow> bool"
  assumes append_snap: "append_rec ts b d = (res, d') \<Longrightarrow> snap d' = snap d"
    and append_recs: "clean d \<Longrightarrow> rec_ok (ts, b) \<Longrightarrow> append_rec ts b d = (res, d') \<Longrightarrow>
      recs d' = recs d \<or> recs d' = recs d @ [(ts, b)]"
    and append_ok: "clean d \<Longrightarrow> rec_ok (ts, b) \<Longrightarrow> append_rec ts b d = (Inr (), d') \<Longrightarrow>
      recs d' = recs d @ [(ts, b)] \<and> clean d'"
    and append_whole: "whole d \<Longrightarrow> append_rec ts b d = (res, d') \<Longrightarrow> whole d'"
    and append_clean: "clean d \<Longrightarrow> whole d \<Longrightarrow> rec_ok (ts, b) \<Longrightarrow> append_rec ts b d = (res, d') \<Longrightarrow> clean d'"
    and put_old_or_new: "put_snap b d = (res, d') \<Longrightarrow>
      (snap d' = snap d \<and> recs d' = recs d) \<or> (snap d' = Some b \<and> (recs d' = recs d \<or> recs d' = []))"
    and put_ok: "put_snap b d = (Inr (), d') \<Longrightarrow> snap d' = Some b"
    and put_clean: "clean d \<Longrightarrow> put_snap b d = (res, d') \<Longrightarrow> clean d'"
begin

text \<open>
  Appending a record and then, on success, installing a snapshot \<open>b\<close>: the files describe the state
  before, the state with the record, or the snapshot with some of the records behind it.
\<close>

definition persist :: "u64 \<Rightarrow> bytes \<Rightarrow> bytes option \<Rightarrow> (unit, 'd) io" where
  "persist ts r sn = io_bind (append_rec ts r)
     (\<lambda>_. case sn of None \<Rightarrow> io_return () | Some b \<Rightarrow> put_snap b)"

lemma persist_cases:
  assumes "clean d" "rec_ok (ts, r)" "persist ts r sn d = (res, d')"
  shows "(snap d' = snap d \<and> recs d' = recs d)
    \<or> (snap d' = snap d \<and> recs d' = recs d @ [(ts, r)])
    \<or> (\<exists>b. sn = Some b \<and> snap d' = Some b \<and> (recs d' = recs d @ [(ts, r)] \<or> recs d' = []))"
  using assms(3) unfolding persist_def
proof (cases rule: io_bindE)
  case (err e)
  then show ?thesis using append_snap append_recs assms by metis
next
  case (step x d1)
  then have "recs d1 = recs d @ [(ts, r)]" "snap d1 = snap d"
    using append_ok [of d ts r d1] append_snap assms by auto
  with step(2) show ?thesis
    by (cases sn) (auto simp: io_return_def dest: put_old_or_new)
qed

lemma persist_ok:
  assumes "clean d" "rec_ok (ts, r)" "persist ts r sn d = (Inr (), d')"
  shows "clean d'" and "(sn = None \<and> snap d' = snap d \<and> recs d' = recs d @ [(ts, r)])
    \<or> (\<exists>b. sn = Some b \<and> snap d' = Some b \<and> (recs d' = recs d @ [(ts, r)] \<or> recs d' = []))"
proof -
  from assms(3) obtain d1 where d1: "append_rec ts r d = (Inr (), d1)"
      and rest: "(case sn of None \<Rightarrow> io_return () | Some b \<Rightarrow> put_snap b) d1 = (Inr (), d')"
    unfolding persist_def by (cases rule: io_bindE) auto
  have a: "recs d1 = recs d @ [(ts, r)]" "clean d1" "snap d1 = snap d"
    using append_ok [OF assms(1,2) d1] append_snap [OF d1] by auto
  show "clean d'" using rest a put_clean by (cases sn) (auto simp: io_return_def)
  show "(sn = None \<and> snap d' = snap d \<and> recs d' = recs d @ [(ts, r)])
    \<or> (\<exists>b. sn = Some b \<and> snap d' = Some b \<and> (recs d' = recs d @ [(ts, r)] \<or> recs d' = []))"
    using rest a put_ok [of _ d1 d'] put_old_or_new [of _ d1 "Inr ()" d']
    by (cases sn) (auto simp: io_return_def)
qed

lemma persist_clean:
  assumes "clean d" "whole d" "rec_ok (ts, r)" "persist ts r sn d = (res, d')"
  shows "clean d'"
  using assms(4) unfolding persist_def
proof (cases rule: io_bindE)
  case (err e)
  then show ?thesis using append_clean assms by blast
next
  case (step x d1)
  then have "clean d1" using append_clean assms by blast
  then show ?thesis using step put_clean by (cases sn) (auto simp: io_return_def)
qed

end

subsection \<open>The files implement the contract\<close>

lemma syscallE:
  assumes "syscall ok part d = (res, d')"
  obtains (finished) w where "res = Inr ()" and "w = (d_dir d)\<lparr>outcomes := tl (outcomes (d_dir d))\<rparr>"
      and "d' = d\<lparr>d_dir := ok w\<rparr>"
    | (failed) w n where "res = Inl IoError" and "w = (d_dir d)\<lparr>outcomes := tl (outcomes (d_dir d))\<rparr>"
      and "d' = d\<lparr>d_dir := part n w\<rparr>" and "Fail n \<in> set (outcomes (d_dir d))"
proof (cases "outcomes (d_dir d)")
  case Nil
  then show thesis using assms finished by (simp add: syscall_def)
next
  case (Cons x xs)
  then show thesis using assms finished failed by (cases x) (auto simp: syscall_def Let_def)
qed

lemma whole_tl [simp]: "whole_writes os \<Longrightarrow> whole_writes (tl os)"
  by (cases os) (simp_all add: whole_writes_def)

lemma whole_Fail: "whole_writes os \<Longrightarrow> Fail n \<in> set os \<Longrightarrow> n = 0"
  by (auto simp: whole_writes_def list_all_iff)

text \<open>A call that leaves the files alone, whatever its outcome.\<close>

lemma syscall_pure:
  assumes "syscall (\<lambda>w. w) (\<lambda>_ w. w) d = (res, d')"
  shows "f_oplog (d_dir d') = f_oplog (d_dir d)" "f_snapshot (d_dir d') = f_snapshot (d_dir d)"
    "f_tmp (d_dir d') = f_tmp (d_dir d)" "calls (d_dir d') = calls (d_dir d)"
    "outcomes (d_dir d') = tl (outcomes (d_dir d))" "d_log d' = d_log d" "d_fsync d' = d_fsync d"
  using assms by (auto elim!: syscallE)

lemma sync_if_fsync_cases:
  assumes "sync_if_fsync c d = (res, d')"
  shows "f_oplog (d_dir d') = f_oplog (d_dir d)" "f_snapshot (d_dir d') = f_snapshot (d_dir d)"
    "f_tmp (d_dir d') = f_tmp (d_dir d)" "dur_whole d \<Longrightarrow> dur_whole d'"
  using assms
  by (auto simp: sync_if_fsync_def sys_sync_all_def dur_whole_def split: if_splits
      elim!: syscallE intro: whole_tl)

lemma sync_files:
  "sync_if_fsync c d = (res, d') \<Longrightarrow> f_oplog (d_dir d') = f_oplog (d_dir d) \<and>
     f_snapshot (d_dir d') = f_snapshot (d_dir d) \<and> f_tmp (d_dir d') = f_tmp (d_dir d)"
  by (simp add: sync_if_fsync_cases)

lemma open_if_needed:
  assumes "(if d_log d then (Inr (), d) else io_bind sys_open_append (\<lambda>_. cache_handle) d) = (res, d')"
  shows "file_bytes (f_oplog (d_dir d')) = file_bytes (f_oplog (d_dir d))"
    "f_snapshot (d_dir d') = f_snapshot (d_dir d)" "dur_whole d \<Longrightarrow> dur_whole d'"
  using assms
  by (auto simp: cache_handle_def sys_open_append_def file_bytes_def dur_whole_def split: if_splits
      elim!: io_bindE syscallE dest: whole_tl)

lemma append_log_bytes:
  assumes "dur_append ts b d = (res, d')"
  obtains n where "file_bytes (f_oplog (d_dir d')) = file_bytes (f_oplog (d_dir d)) @ take n (log_record (ts, b))"
    and "f_snapshot (d_dir d') = f_snapshot (d_dir d)"
    and "res = Inr () \<Longrightarrow> n = length (log_record (ts, b))"
    and "dur_whole d \<Longrightarrow> n = 0 \<or> n = length (log_record (ts, b))"
    and "dur_whole d \<Longrightarrow> dur_whole d'"
  using assms unfolding dur_append_def
proof (cases rule: io_bindE)
  case (err e)
  then show thesis using that [of 0] open_if_needed [OF err(1)] by auto
next
  case (step x d1)
  note o = open_if_needed [OF step(1)]
  from step(2) show thesis
  proof (cases rule: io_bindE)
    case (err e)
    from err(1) show thesis unfolding sys_write_log_def
    proof (cases rule: syscallE)
      case (failed w n)
      then have "dur_whole d \<Longrightarrow> n = 0" using o(3) by (auto simp: dur_whole_def dest: whole_Fail)
      then show thesis using that [of n] failed o err(2)
        by (auto simp: file_bytes_def dur_whole_def whole_tl)
    qed auto
  next
    case (step y d2)
    note s = sync_if_fsync_cases [OF step(2)]
    from step(1) show thesis unfolding sys_write_log_def
    proof (cases rule: syscallE)
      case (finished w)
      then show thesis using that [of "length (log_record (ts, b))"] o s
        by (auto simp: file_bytes_def dur_whole_def whole_tl)
    qed auto
  qed
qed

lemma append_records:
  assumes "dur_clean d" "rec_ok (ts, b)"
    and "file_bytes (f_oplog (d_dir d')) = file_bytes (f_oplog (d_dir d)) @ take n (log_record (ts, b))"
  shows "dur_records d' = (if n < length (log_record (ts, b)) then dur_records d else dur_records d @ [(ts, b)])"
    and "n = 0 \<or> length (log_record (ts, b)) \<le> n \<Longrightarrow> dur_clean d'"
  using assms parse_log_append [of "file_bytes (f_oplog (d_dir d))" "take n (log_record (ts, b))"]
    parse_log_torn [of n "(ts, b)"] parse_log_record [of "(ts, b)" "[]"]
  by (auto simp: dur_records_def dur_clean_def)

lemma remove_log_snapshot: "f_snapshot (d_dir (snd (sys_remove_log d))) = f_snapshot (d_dir d)"
  by (auto simp: sys_remove_log_def syscall_def Let_def split: list.splits outcome.splits)

lemma remove_log_oplog:
  "f_oplog (d_dir (snd (sys_remove_log d))) =
     (case outcomes (d_dir d) of Fail n # os \<Rightarrow> f_oplog (d_dir d) | _ \<Rightarrow> None)"
  by (auto simp: sys_remove_log_def syscall_def Let_def split: list.splits outcome.splits)

lemma write_snapshot_cases:
  assumes "write_snapshot b d = (res, d')"
  shows "(f_snapshot (d_dir d') = f_snapshot (d_dir d) \<and> f_oplog (d_dir d') = f_oplog (d_dir d))
      \<or> (f_snapshot (d_dir d') = Some b \<and> (f_oplog (d_dir d') = f_oplog (d_dir d) \<or> f_oplog (d_dir d') = None))"
    and "res = Inr () \<Longrightarrow> f_snapshot (d_dir d') = Some b"
  using assms unfolding write_snapshot_def sys_create_tmp_def sys_write_tmp_def sys_rename_def
    drop_handle_def io_ignore_def
  by (auto elim!: io_bindE syscallE dest!: sync_files
      simp: file_bytes_def remove_log_snapshot remove_log_oplog split: list.splits outcome.splits)

interpretation ds: durable_store dur_append write_snapshot dur_records dur_snap dur_clean dur_whole
proof
  fix d d' :: durable and ts b res
  show "dur_append ts b d = (res, d') \<Longrightarrow> dur_snap d' = dur_snap d"
    by (auto simp: dur_snap_def elim: append_log_bytes)
  show "dur_append ts b d = (res, d') \<Longrightarrow> dur_whole d'" if "dur_whole d"
    using that by (auto elim: append_log_bytes)
  assume c: "dur_clean d" "rec_ok (ts, b)"
  show "dur_append ts b d = (res, d') \<Longrightarrow>
      dur_records d' = dur_records d \<or> dur_records d' = dur_records d @ [(ts, b)]"
    by (erule append_log_bytes) (auto simp: append_records(1) [OF c])
  show "dur_append ts b d = (Inr (), d') \<Longrightarrow> dur_records d' = dur_records d @ [(ts, b)] \<and> dur_clean d'"
    using append_records [OF c, of d' "length (log_record (ts, b))"]
    by (elim append_log_bytes) simp
  show "dur_append ts b d = (res, d') \<Longrightarrow> dur_clean d'" if "dur_whole d"
    using that append_records(2) [OF c, of d' 0] append_records(2) [OF c, of d' "length (log_record (ts, b))"]
    by (elim append_log_bytes) auto
next
  fix d d' :: durable and b res
  show "write_snapshot b d = (res, d') \<Longrightarrow> (dur_snap d' = dur_snap d \<and> dur_records d' = dur_records d) \<or>
      (dur_snap d' = Some b \<and> (dur_records d' = dur_records d \<or> dur_records d' = []))"
    using write_snapshot_cases(1) [of b d res d']
    by (auto simp: dur_snap_def dur_records_def file_bytes_def)
  show "write_snapshot b d = (Inr (), d') \<Longrightarrow> dur_snap d' = Some b"
    using write_snapshot_cases(2) [of b d "Inr ()" d'] by (simp add: dur_snap_def)
  show "dur_clean d \<Longrightarrow> write_snapshot b d = (res, d') \<Longrightarrow> dur_clean d'"
    using write_snapshot_cases(1) [of b d res d'] by (auto simp: dur_clean_def file_bytes_def)
qed

end
