(* ===== verification/OB_Engine.thy ===== *)
theory OB_Engine
  imports OB_State OB_Durable
begin

text \<open>
  The deterministic-replay engine, \<open>lib.rs\<close>, generic in the state machine: duplicate suppression by the
  per-client high-water mark, the live delivery path with its log append and periodic snapshot, the
  snapshot codec, recovery, and state transfer. The lemmas establish that what recovery would rebuild
  from the files is at all times the state in memory, up to the one operation in flight.
\<close>

section \<open>State\<close>

record stats =
  st_applied :: u64
  st_suppressed :: u64
  st_snapshots :: u64
  st_replayed :: u64

definition stats_default :: stats where
  "stats_default = \<lparr>st_applied = 0, st_suppressed = 0, st_snapshots = 0, st_replayed = 0\<rparr>"

type_synonym hw_map = "(u32, u64) btree"

record 's engine =
  e_state :: 's
  e_applied :: hw_map
  e_last_ts :: u64
  e_dur :: durable
  e_snap_interval :: u64
  e_ops_since_snap :: u64
  e_stats :: stats

definition new_engine :: "'s sm_ops \<Rightarrow> durable \<Rightarrow> u64 \<Rightarrow> 's engine" where
  "new_engine sm d interval = \<lparr>e_state = sm_default sm, e_applied = [], e_last_ts = 0, e_dur = d,
     e_snap_interval = max interval 1, e_ops_since_snap = 0, e_stats = stats_default\<rparr>"

definition with_dur :: "('a, durable) io \<Rightarrow> ('a, 's engine) io" where
  "with_dur m e = (case m (e_dur e) of (r, d) \<Rightarrow> (r, e\<lparr>e_dur := d\<rparr>))"

definition engine_create :: "'s sm_ops \<Rightarrow> directory \<Rightarrow> u64 \<Rightarrow> bool \<Rightarrow> (io_error + unit) \<times> 's engine" where
  "engine_create sm w interval fsync =
     (case durable_open w fsync of (r, d) \<Rightarrow> (r, new_engine sm d interval))"

section \<open>Duplicate suppression\<close>

definition hw_get :: "hw_map \<Rightarrow> u32 \<Rightarrow> u64" where
  "hw_get m c = (case bt_get m c of Some s \<Rightarrow> s | None \<Rightarrow> 0)"

definition apply_dedup :: "'s sm_ops \<Rightarrow> u64 \<Rightarrow> op \<Rightarrow> 's engine \<Rightarrow> op_output option \<times> 's engine" where
  "apply_dedup sm ts op e =
     (let hw = hw_get (e_applied e) (op_client op) in
      if op_seq op \<le> hw then (None, e)
      else (case sm_apply sm (e_state e) op of (s, out) \<Rightarrow>
        (Some out, e\<lparr>e_state := s, e_applied := bt_insert (op_client op) (op_seq op) (e_applied e),
           e_last_ts := (if e_last_ts e < ts then ts else e_last_ts e)\<rparr>)))"

section \<open>Snapshots\<close>

definition enc_hw :: "u32 \<times> u64 \<Rightarrow> bytes" where
  "enc_hw p = u32_le (fst p) @ u64_le (snd p)"

definition encode_snapshot :: "'s sm_ops \<Rightarrow> 's engine \<Rightarrow> bytes" where
  "encode_snapshot sm e = u64_le (e_last_ts e) @ u32_le (len_u32 (length (e_applied e)))
     @ concat (map enc_hw (e_applied e)) @ enc_val (sm_snapshot sm (e_state e))"

text \<open>
  The loop over the high-water marks. Both reads of the pair are evaluated before the pattern is
  matched, so when the second fails the first has moved the reader.
\<close>

fun load_hw :: "nat \<Rightarrow> reader \<Rightarrow> hw_map \<Rightarrow> hw_map \<times> reader" where
  "load_hw 0 r m = (m, r)"
| "load_hw (Suc n) r m =
     (case rd_u32 r of
        None \<Rightarrow> (case rd_u64 r of None \<Rightarrow> (m, r) | Some (_, r) \<Rightarrow> (m, r))
      | Some (c, r) \<Rightarrow> (case rd_u64 r of None \<Rightarrow> (m, r) | Some (s, r) \<Rightarrow> load_hw n r (bt_insert c s m)))"

definition load_snapshot :: "'s sm_ops \<Rightarrow> bytes \<Rightarrow> 's engine \<Rightarrow> 's engine" where
  "load_snapshot sm b e =
     (case rd_u64 (rd_new b) of None \<Rightarrow> e | Some (last_ts, r) \<Rightarrow>
      (case rd_u32 r of None \<Rightarrow> e | Some (n, r) \<Rightarrow>
       (case load_hw (unat n) r [] of (applied, r) \<Rightarrow>
        (case rd_u32 r of None \<Rightarrow> e | Some (smlen, r) \<Rightarrow>
         (case rd_bytes (unat smlen) r of None \<Rightarrow> e | Some (smb, r) \<Rightarrow>
           e\<lparr>e_state := sm_restore sm smb, e_applied := applied, e_last_ts := last_ts\<rparr>)))))"

definition engine_snapshot :: "'s sm_ops \<Rightarrow> (unit, 's engine) io" where
  "engine_snapshot sm e = io_bind (with_dur (write_snapshot (encode_snapshot sm e)))
     (\<lambda>_ e. (Inr (), e\<lparr>e_ops_since_snap := 0,
        e_stats := (e_stats e)\<lparr>st_snapshots := st_snapshots (e_stats e) + 1\<rparr>\<rparr>)) e"

section \<open>Delivery\<close>

text \<open>\<open>ts\<close> is \<open>Timestamp::as_nanos\<close> of the fabric's message timestamp.\<close>

definition deliver :: "'s sm_ops \<Rightarrow> u64 \<Rightarrow> op \<Rightarrow> (op_output, 's engine) io" where
  "deliver sm ts op e =
     (case apply_dedup sm ts op e of
        (None, e) \<Rightarrow> (Inr Suppressed, e\<lparr>e_stats := (e_stats e)\<lparr>st_suppressed := st_suppressed (e_stats e) + 1\<rparr>\<rparr>)
      | (Some out, e) \<Rightarrow>
          io_bind (with_dur (dur_append ts (encode op))) (\<lambda>_.
          io_bind (\<lambda>e. (Inr (), e\<lparr>e_ops_since_snap := e_ops_since_snap e + 1\<rparr>)) (\<lambda>_.
          io_bind (\<lambda>e. if e_snap_interval e \<le> e_ops_since_snap e then engine_snapshot sm e else (Inr (), e)) (\<lambda>_.
          io_return out)))
          (e\<lparr>e_stats := (e_stats e)\<lparr>st_applied := st_applied (e_stats e) + 1\<rparr>\<rparr>))"

section \<open>Recovery\<close>

fun replay :: "'s sm_ops \<Rightarrow> (u64 \<times> bytes) list \<Rightarrow> u64 \<times> 's engine \<Rightarrow> u64 \<times> 's engine" where
  "replay sm [] (n, e) = (n, e)"
| "replay sm ((ts, b) # rs) (n, e) =
     (case decode b of
        None \<Rightarrow> replay sm rs (n, e)
      | Some op \<Rightarrow> (case apply_dedup sm ts op e of
          (None, e) \<Rightarrow> replay sm rs (n, e)
        | (Some _, e) \<Rightarrow> replay sm rs (n + 1, e)))"

definition engine_recover :: "'s sm_ops \<Rightarrow> directory \<Rightarrow> u64 \<Rightarrow> bool \<Rightarrow> (io_error + unit) \<times> 's engine" where
  "engine_recover sm w interval fsync =
     (case durable_open w fsync of
        (Inl err, d) \<Rightarrow> (Inl err, new_engine sm d interval)
      | (Inr _, d) \<Rightarrow>
          io_bind (with_dur read_snapshot) (\<lambda>sn.
          io_bind (\<lambda>e. (Inr (), case sn of None \<Rightarrow> e | Some b \<Rightarrow> load_snapshot sm b e)) (\<lambda>_.
          io_bind (with_dur read_log) (\<lambda>rs e.
            case replay sm rs (0, e) of (replayed, e) \<Rightarrow>
              (Inr (), e\<lparr>e_stats := (e_stats e)\<lparr>st_replayed := replayed\<rparr>,
                 e_ops_since_snap := replayed mod e_snap_interval e\<rparr>))))
          (new_engine sm d interval))"

section \<open>State transfer and queries\<close>

definition max_client :: "'s engine \<Rightarrow> u32" where
  "max_client e = fold (\<lambda>p m. max (fst p) m) (e_applied e) 0"

definition export_state :: "'s sm_ops \<Rightarrow> 's engine \<Rightarrow> bytes" where
  "export_state sm e = encode_snapshot sm e"

definition import_state :: "'s sm_ops \<Rightarrow> bytes \<Rightarrow> (unit, 's engine) io" where
  "import_state sm b e = io_bind (with_dur (write_snapshot b))
     (\<lambda>_ e. (Inr (), e\<lparr>e_ops_since_snap := 0\<rparr>)) (load_snapshot sm b e)"

section \<open>The reference\<close>

text \<open>\<open>reference_apply\<close>: the same duplicate suppression on a fresh state machine, without persistence.\<close>

fun reference_loop :: "'s sm_ops \<Rightarrow> op list \<Rightarrow> 's \<times> hw_map \<Rightarrow> 's \<times> hw_map" where
  "reference_loop sm [] (s, m) = (s, m)"
| "reference_loop sm (op # ops) (s, m) =
     (if hw_get m (op_client op) < op_seq op
      then reference_loop sm ops (fst (sm_apply sm s op), bt_insert (op_client op) (op_seq op) m)
      else reference_loop sm ops (s, m))"

definition reference_apply :: "'s sm_ops \<Rightarrow> op list \<Rightarrow> 's" where
  "reference_apply sm ops = fst (reference_loop sm ops (sm_default sm, []))"

lemmas engine_defs [unfold_model] = stats_default_def new_engine_def with_dur_def engine_create_def hw_get_def
  apply_dedup_def enc_hw_def encode_snapshot_def load_snapshot_def engine_snapshot_def deliver_def
  engine_recover_def max_client_def export_state_def import_state_def reference_apply_def

section \<open>The core of the state\<close>

text \<open>
  State machine, high-water marks and timestamp horizon: what a snapshot carries and what recovery
  rebuilds. One delivery acts on it as \<open>core_step\<close>, whether live or replayed.
\<close>

type_synonym 's core = "'s \<times> hw_map \<times> u64"

definition core :: "'s engine \<Rightarrow> 's core" where
  "core e = (e_state e, e_applied e, e_last_ts e)"

definition init_core :: "'s sm_ops \<Rightarrow> 's core" where
  "init_core sm = (sm_default sm, [], 0)"

fun core_step :: "'s sm_ops \<Rightarrow> 's core \<Rightarrow> u64 \<times> op \<Rightarrow> 's core" where
  "core_step sm (s, m, t) (ts, op) =
     (if op_seq op \<le> hw_get m (op_client op) then (s, m, t)
      else (fst (sm_apply sm s op), bt_insert (op_client op) (op_seq op) m, if t < ts then ts else t))"

definition run_core :: "'s sm_ops \<Rightarrow> 's core \<Rightarrow> (u64 \<times> op) list \<Rightarrow> 's core" where
  "run_core sm c h = foldl (core_step sm) c h"

definition replay_core :: "'s sm_ops \<Rightarrow> 's core \<Rightarrow> (u64 \<times> bytes) list \<Rightarrow> 's core" where
  "replay_core sm c rs = foldl (\<lambda>c r. case decode (snd r) of None \<Rightarrow> c | Some op \<Rightarrow> core_step sm c (fst r, op)) c rs"

definition load_core :: "'s sm_ops \<Rightarrow> bytes option \<Rightarrow> 's core" where
  "load_core sm sn = (let e = new_engine sm \<lparr>d_fsync = False, d_log = False, d_dir = empty_dir\<rparr> 1 in
     core (case sn of None \<Rightarrow> e | Some b \<Rightarrow> load_snapshot sm b e))"

definition recovered :: "'s sm_ops \<Rightarrow> durable \<Rightarrow> 's core" where
  "recovered sm d = replay_core sm (load_core sm (dur_snap d)) (dur_records d)"

lemma core_new [simp]: "core (new_engine sm d i) = init_core sm"
  by (simp add: core_def new_engine_def init_core_def)

lemma core_state: "e_state e = fst (core e)"
  by (simp add: core_def)

lemma apply_dedup_core:
  assumes "apply_dedup sm ts op e = (r, e')"
  shows "core e' = core_step sm (core e) (ts, op)" and "e_dur e' = e_dur e"
    and "e_snap_interval e' = e_snap_interval e" and "e_ops_since_snap e' = e_ops_since_snap e"
    and "e_stats e' = e_stats e"
    and "r = (if op_seq op \<le> hw_get (e_applied e) (op_client op) then None
              else Some (snd (sm_apply sm (e_state e) op)))"
    and "r = None \<Longrightarrow> e' = e"
  using assms by (auto simp: apply_dedup_def core_def Let_def split: if_splits prod.splits)

lemma apply_dedup_fresh:
  "\<not> op_seq op \<le> hw_get (e_applied e) (op_client op) \<Longrightarrow>
   \<exists>a. apply_dedup sm ts op e = (Some (snd (sm_apply sm (e_state e) op)), a)"
  by (simp add: apply_dedup_def Let_def split: prod.splits)

lemma replay_replay_core:
  "replay sm rs (n, e) = (n', e') \<Longrightarrow> core e' = replay_core sm (core e) rs \<and> e_dur e' = e_dur e \<and>
     e_snap_interval e' = e_snap_interval e"
proof (induction sm rs "(n, e)" arbitrary: n e rule: replay.induct)
  case (2 sm ts b rs n e)
  then show ?case
    by (auto simp: replay_core_def apply_dedup_core split: option.splits prod.splits)
qed (simp add: replay_core_def)

lemma load_snapshot_core_cong:
  "core e = core e' \<Longrightarrow> core (load_snapshot sm b e) = core (load_snapshot sm b e')"
  by (auto simp: load_snapshot_def core_def split: option.splits prod.splits)

lemma load_snapshot_frame:
  "e_dur (load_snapshot sm b e) = e_dur e" "e_snap_interval (load_snapshot sm b e) = e_snap_interval e"
  "e_ops_since_snap (load_snapshot sm b e) = e_ops_since_snap e" "e_stats (load_snapshot sm b e) = e_stats e"
  by (auto simp: load_snapshot_def split: option.splits prod.splits)

lemma encode_snapshot_core: "core e = core e' \<Longrightarrow> encode_snapshot sm e = encode_snapshot sm e'"
  by (simp add: core_def encode_snapshot_def)

lemma with_durE:
  assumes "with_dur m e = (res, e')"
  obtains d where "m (e_dur e) = (res, d)" and "e' = e\<lparr>e_dur := d\<rparr>"
  using assms by (auto simp: with_dur_def split: prod.splits)

lemma core_e_dur [simp]: "core (e\<lparr>e_dur := d\<rparr>) = core e"
  "core (e\<lparr>e_stats := st\<rparr>) = core e" "core (e\<lparr>e_ops_since_snap := n\<rparr>) = core e"
  by (simp_all add: core_def)

subsection \<open>Reading the files changes nothing\<close>

definition same_files :: "durable \<Rightarrow> durable \<Rightarrow> bool" where
  "same_files d d' \<longleftrightarrow> f_snapshot (d_dir d') = f_snapshot (d_dir d) \<and> f_oplog (d_dir d') = f_oplog (d_dir d)
     \<and> f_tmp (d_dir d') = f_tmp (d_dir d) \<and> calls (d_dir d') = calls (d_dir d) \<and> d_fsync d' = d_fsync d \<and> d_log d' = d_log d
     \<and> (dur_whole d \<longrightarrow> dur_whole d')"

lemma same_files_trans [trans]: "same_files a b \<Longrightarrow> same_files b c \<Longrightarrow> same_files a c"
  by (simp add: same_files_def)

lemma same_files_refl [simp]: "same_files d d"
  by (simp add: same_files_def)

lemma syscall_same: "syscall (\<lambda>w. w) (\<lambda>_ w. w) d = (res, d') \<Longrightarrow> same_files d d'"
  by (auto simp: same_files_def dur_whole_def dest: syscall_pure)

lemma read_snapshot_cases:
  assumes "read_snapshot d = (res, d')"
  shows "same_files d d'" and "res = Inr sn \<Longrightarrow> sn = dur_snap d"
  using assms
  by (auto simp: read_snapshot_def sys_open_read_def sys_read_def io_return_def dur_snap_def split: option.splits
      elim!: io_bindE dest!: syscall_same intro: same_files_trans)

lemma read_log_cases:
  assumes "read_log d = (res, d')"
  shows "same_files d d'" and "res = Inr rs \<Longrightarrow> rs = dur_records d"
  using assms
  by (auto simp: read_log_def sys_read_def io_return_def dur_records_def file_bytes_def split: option.splits
      elim!: io_bindE dest!: syscall_same)

lemma recovered_same: "same_files d d' \<Longrightarrow> recovered sm d' = recovered sm d"
  by (simp add: same_files_def recovered_def dur_snap_def dur_records_def)

lemma dur_clean_same: "same_files d d' \<Longrightarrow> dur_clean d' = dur_clean d"
  by (simp add: same_files_def dur_clean_def)

lemma dur_records_same: "same_files d d' \<Longrightarrow> dur_records d' = dur_records d"
  by (simp add: same_files_def dur_records_def)

text \<open>Recovery leaves the files alone, and when it succeeds its core is what the files describe.\<close>

lemma engine_recover_cases:
  assumes "engine_recover sm w i fs = (res, e)" and "d = \<lparr>d_fsync = fs, d_log = False, d_dir = w\<rparr>"
  shows "same_files d (e_dur e)" and "res = Inr () \<Longrightarrow> core e = recovered sm d"
proof -
  obtain r d1 where o: "durable_open w fs = (r, d1)" by (cases "durable_open w fs")
  have s1: "same_files d d1"
    using o assms(2) by (auto simp: durable_open_def sys_create_dir_all_def dest: syscall_same)
  have "same_files d (e_dur e) \<and> (res = Inr () \<longrightarrow> core e = recovered sm d)"
  proof (cases r)
    case (Inl x)
    then show ?thesis using assms o s1 by (auto simp: engine_recover_def new_engine_def)
  next
    case (Inr u)
    let ?e0 = "new_engine sm d1 i"
    have run: "io_bind (with_dur read_snapshot) (\<lambda>sn.
        io_bind (\<lambda>e. (Inr (), case sn of None \<Rightarrow> e | Some b \<Rightarrow> load_snapshot sm b e)) (\<lambda>_.
        io_bind (with_dur read_log) (\<lambda>rs e.
          case replay sm rs (0, e) of (replayed, e) \<Rightarrow>
            (Inr (), e\<lparr>e_stats := (e_stats e)\<lparr>st_replayed := replayed\<rparr>,
               e_ops_since_snap := replayed mod e_snap_interval e\<rparr>)))) ?e0 = (res, e)"
      using assms(1) o Inr by (simp add: engine_recover_def)
    from run show ?thesis
    proof (cases rule: io_bindE)
      case (err x)
      then show ?thesis using s1 read_snapshot_cases(1)
        by (auto simp: new_engine_def elim!: with_durE intro: same_files_trans)
    next
      case (step sn e1)
      obtain d2 where d2: "read_snapshot d1 = (Inr sn, d2)" and e1: "e1 = ?e0\<lparr>e_dur := d2\<rparr>"
        using step(1) by (auto simp: new_engine_def elim!: with_durE)
      have s2: "same_files d d2" and sn: "sn = dur_snap d"
        using s1 read_snapshot_cases [OF d2] by (auto simp: same_files_def dur_snap_def)
      define e2 where "e2 = (case sn of None \<Rightarrow> e1 | Some b \<Rightarrow> load_snapshot sm b e1)"
      have c2: "core e2 = load_core sm sn" and d2': "e_dur e2 = d2"
        by (auto simp: e2_def e1 load_core_def load_snapshot_frame Let_def
            intro!: load_snapshot_core_cong split: option.splits)
      from step(2) have "io_bind (with_dur read_log) (\<lambda>rs e.
          case replay sm rs (0, e) of (replayed, e) \<Rightarrow>
            (Inr (), e\<lparr>e_stats := (e_stats e)\<lparr>st_replayed := replayed\<rparr>,
               e_ops_since_snap := replayed mod e_snap_interval e\<rparr>)) e2 = (res, e)"
        by (simp add: io_bind_def e2_def)
      then show ?thesis
      proof (cases rule: io_bindE)
        case (err x)
        then show ?thesis using s2 d2' read_log_cases(1)
          by (auto elim!: with_durE intro: same_files_trans)
      next
        case (step rs e3)
        then obtain d3 where d3: "read_log d2 = (Inr rs, d3)" and e3: "e3 = e2\<lparr>e_dur := d3\<rparr>"
          using d2' by (auto elim!: with_durE)
        have s3: "same_files d d3" and rs: "rs = dur_records d"
          using s2 read_log_cases [OF d3] dur_records_same by (auto intro: same_files_trans)
        obtain n e4 where r4: "replay sm rs (0, e3) = (n, e4)" by (cases "replay sm rs (0, e3)")
        have "core e4 = recovered sm d" "e_dur e4 = d3"
          using replay_replay_core [OF r4] c2 sn rs by (simp_all add: e3 recovered_def)
        then show ?thesis using step(2) r4 s3 by auto
      qed
    qed
  qed
  then show "same_files d (e_dur e)" and "res = Inr () \<Longrightarrow> core e = recovered sm d" by auto
qed

section \<open>Duplicate suppression and covered records\<close>

text \<open>A record is covered by the high-water marks when replaying it has no effect.\<close>

definition covered :: "hw_map \<Rightarrow> (u64 \<times> bytes) list \<Rightarrow> bool" where
  "covered m rs \<longleftrightarrow> list_all (\<lambda>r. case decode (snd r) of
      None \<Rightarrow> True | Some op \<Rightarrow> op_seq op \<le> hw_get m (op_client op)) rs"

definition hw_le :: "hw_map \<Rightarrow> hw_map \<Rightarrow> bool" where
  "hw_le m m' \<longleftrightarrow> (\<forall>c. hw_get m c \<le> hw_get m' c)"

lemma covered_simps [simp]:
  "covered m []" "covered m (rs @ rs') \<longleftrightarrow> covered m rs \<and> covered m rs'"
  by (simp_all add: covered_def)

lemma replay_core_simps [simp]:
  "replay_core sm c [] = c" "replay_core sm c (rs @ rs') = replay_core sm (replay_core sm c rs) rs'"
  "replay_core sm c [(ts, b)] = (case decode b of None \<Rightarrow> c | Some op \<Rightarrow> core_step sm c (ts, op))"
  by (simp_all add: replay_core_def split: option.splits)

lemma covered_one: "decode b = Some op \<Longrightarrow> covered m [(ts, b)] \<longleftrightarrow> op_seq op \<le> hw_get m (op_client op)"
  by (simp add: covered_def)

lemma hw_le_trans: "hw_le a b \<Longrightarrow> hw_le b c \<Longrightarrow> hw_le a c"
  unfolding hw_le_def using order_trans by blast

lemma covered_mono: "covered m rs \<Longrightarrow> hw_le m m' \<Longrightarrow> covered m' rs"
  by (auto simp: covered_def hw_le_def list_all_iff split: option.splits intro: order_trans)

lemma hw_get_insert: "bt_wf m \<Longrightarrow> hw_get (bt_insert c s m) c' = (if c' = c then s else hw_get m c')"
  by (simp add: hw_get_def bt_simps)

lemma core_step_hw:
  assumes "bt_wf (fst (snd c))"
  shows "bt_wf (fst (snd (core_step sm c (ts, op))))"
    and "hw_le (fst (snd c)) (fst (snd (core_step sm c (ts, op))))"
    and "op_seq op \<le> hw_get (fst (snd (core_step sm c (ts, op)))) (op_client op)"
  using assms by (cases c; auto simp: bt_simps hw_le_def hw_get_insert)+

lemma core_step_covered: "op_seq op \<le> hw_get (fst (snd c)) (op_client op) \<Longrightarrow> core_step sm c (ts, op) = c"
  by (cases c) simp

lemma replay_covered: "covered (fst (snd c)) rs \<Longrightarrow> replay_core sm c rs = c"
  by (induction rs arbitrary: c)
    (auto simp: covered_def replay_core_def core_step_covered split: option.splits)

text \<open>Replaying records keeps the marks well-formed, never lowers them, and covers every record.\<close>

lemma replay_core_hw:
  "bt_wf (fst (snd c)) \<Longrightarrow> bt_wf (fst (snd (replay_core sm c rs)))
     \<and> hw_le (fst (snd c)) (fst (snd (replay_core sm c rs))) \<and> covered (fst (snd (replay_core sm c rs))) rs"
proof (induction rs rule: rev_induct)
  case (snoc r rs)
  obtain ts b where r: "r = (ts, b)" by (cases r)
  let ?c = "replay_core sm c rs"
  from snoc have IH: "bt_wf (fst (snd ?c))" "hw_le (fst (snd c)) (fst (snd ?c))" "covered (fst (snd ?c)) rs"
    by simp_all
  show ?case
  proof (cases "decode b")
    case (Some op)
    then show ?thesis using IH core_step_hw [OF IH(1), where sm = sm and ts = ts and op = op]
      by (auto simp: r covered_one [OF Some] intro: hw_le_trans covered_mono)
  qed (use IH in \<open>simp add: r covered_def\<close>)
qed (simp add: hw_le_def)

lemma run_core_simps [simp]:
  "run_core sm c [] = c" "run_core sm c (h @ h') = run_core sm (run_core sm c h) h'"
  "run_core sm c (x # h) = run_core sm (core_step sm c x) h"
  by (simp_all add: run_core_def)

lemma run_core_wf: "bt_wf (fst (snd c)) \<Longrightarrow> bt_wf (fst (snd (run_core sm c h)))"
proof (induction h arbitrary: c)
  case (Cons x h)
  then show ?case by (cases x) (simp add: core_step_hw)
qed simp

lemma reference_loop_run:
  "reference_loop sm (map snd h) (s, m) = (s', m') \<Longrightarrow> \<exists>t'. run_core sm (s, m, t) h = (s', m', t')"
proof (induction h arbitrary: s m t)
  case (Cons x h)
  then show ?case by (cases x) (auto simp: not_less split: if_splits)
qed simp

lemma reference_apply_run: "reference_apply sm (map snd h) = fst (run_core sm (init_core sm) h)"
  using reference_loop_run [of sm h "sm_default sm" "[]" _ _ 0]
  by (fastforce simp: reference_apply_def init_core_def intro: prod.collapse [symmetric])

section \<open>The snapshot round trip\<close>

lemma yields_hw: "yields (\<lambda>r. Option.bind (rd_u32 r) (\<lambda>(c, r). Option.bind (rd_u64 r) (\<lambda>(s, r). Some ((c, s), r))))
    (enc_hw (c, s)) (c, s)"
  unfolding enc_hw_def by (simp, rule yields_bind [OF yields_words(2)], rule yields_map [OF yields_words(3)]) simp

lemma load_hw_entries:
  "rd_at r (concat (map enc_hw es) @ ys) \<Longrightarrow>
   \<exists>r'. load_hw (length es) r m = (foldl (\<lambda>m (c, s). bt_insert c s m) m es, r') \<and> rd_at r' ys"
proof (induction es arbitrary: r m)
  case (Cons p es)
  obtain c s where p: "p = (c, s)" by (cases p)
  have "rd_at r (enc_hw (c, s) @ concat (map enc_hw es) @ ys)"
    using Cons.prems by (simp add: p)
  from yieldsD [OF yields_hw this]
  obtain r1 r2 where "rd_u32 r = Some (c, r1)" "rd_u64 r1 = Some (s, r2)" "rd_at r2 (concat (map enc_hw es) @ ys)"
    by (auto elim!: bind_eq_SomeE)
  then show ?case using Cons.IH [of r2 "bt_insert c s m"] by (simp add: p)
qed simp

text \<open>The engines whose snapshot fits its length fields and whose state machine can be restored.\<close>

definition snap_fits :: "('s \<Rightarrow> bool) \<Rightarrow> 's engine \<Rightarrow> bool" where
  "snap_fits good e \<longleftrightarrow> good (e_state e) \<and> bt_wf (e_applied e) \<and> length (e_applied e) < 2 ^ 32"

context state_machine
begin

lemma load_encode:
  assumes "snap_fits good e"
  shows "core (load_snapshot sm (encode_snapshot sm e) e0) = core e"
proof -
  let ?ss = "sm_snapshot sm (e_state e)"
  have fits: "good (e_state e)" "bt_wf (e_applied e)" "length (e_applied e) < 2 ^ 32" "length ?ss < 2 ^ 32"
    using assms snapshot_length by (simp_all add: snap_fits_def)
  have n: "unat (len_u32 (length (e_applied e))) = length (e_applied e)" "unat (len_u32 (length ?ss)) = length ?ss"
    using fits by simp_all
  obtain r1 where 1: "rd_u64 (rd_new (encode_snapshot sm e)) = Some (e_last_ts e, r1)"
      "rd_at r1 (u32_le (len_u32 (length (e_applied e))) @ concat (map enc_hw (e_applied e)) @ enc_val ?ss)"
    using yieldsD [OF yields_words(3) rd_at_new [of "encode_snapshot sm e", unfolded encode_snapshot_def]]
    by (auto simp: encode_snapshot_def)
  obtain r2 where 2: "rd_u32 r1 = Some (len_u32 (length (e_applied e)), r2)"
      "rd_at r2 (concat (map enc_hw (e_applied e)) @ enc_val ?ss)"
    using yieldsD [OF yields_words(2) 1(2)] by blast
  obtain r3 where 3: "load_hw (length (e_applied e)) r2 [] = (e_applied e, r3)"
      "rd_at r3 (u32_le (len_u32 (length ?ss)) @ ?ss @ [])"
    using load_hw_entries [OF 2(2), of "[]"] bt.rebuild [OF fits(2)] by (auto simp: enc_val_def)
  obtain r4 where 4: "rd_u32 r3 = Some (len_u32 (length ?ss), r4)" "rd_at r4 (?ss @ [])"
    using yieldsD [OF yields_words(2) 3(2)] by blast
  obtain r5 where "rd_bytes (length ?ss) r4 = Some (?ss, r5)"
    using yieldsD [OF yields_bytes [OF refl] 4(2)] by blast
  then show ?thesis using 1(1) 2(1) 3(1) 4(1) n restore_snapshot [OF fits(1)]
    by (simp add: load_snapshot_def core_def)
qed

lemma load_core_encode: "snap_fits good e \<Longrightarrow> load_core sm (Some (encode_snapshot sm e)) = core e"
  by (simp add: load_core_def Let_def load_encode)

end

lemma load_hw_wf: "bt_wf m \<Longrightarrow> bt_wf (fst (load_hw n r m))"
  by (induction n arbitrary: r m) (auto simp: bt_simps split: option.splits)

lemma load_core_wf: "bt_wf (fst (snd (load_core sm sn)))"
  using load_hw_wf [of "[]"]
  by (auto simp: load_core_def Let_def init_core_def load_snapshot_def core_def new_engine_def bt_simps
      split: option.splits prod.splits) (metis fst_conv)

lemma recovered_hw:
  shows "bt_wf (fst (snd (recovered sm d)))" and "covered (fst (snd (recovered sm d))) (dur_records d)"
  using replay_core_hw [OF load_core_wf, of sm] by (auto simp: recovered_def)

section \<open>What one operation does to memory and files\<close>

lemma engine_snapshotE:
  assumes "engine_snapshot sm e = (res, e')"
  obtains "write_snapshot (encode_snapshot sm e) (e_dur e) = (res, e_dur e')" and "core e' = core e"
    and "res = Inr () \<Longrightarrow> e_ops_since_snap e' = 0"
  using assms unfolding engine_snapshot_def
  by (auto elim!: io_bindE with_durE)

text \<open>
  A delivery is a duplicate, and then changes nothing but a counter; or it steps the core in memory and
  then persists the record and, when the interval is reached, the snapshot of the new core.
\<close>

lemma deliverE:
  assumes "deliver sm ts op e = (res, e')"
  obtains (dup) "op_seq op \<le> hw_get (e_applied e) (op_client op)" "res = Inr Suppressed"
      "core e' = core e" "e_dur e' = e_dur e"
      "e' = e\<lparr>e_stats := (e_stats e)\<lparr>st_suppressed := st_suppressed (e_stats e) + 1\<rparr>\<rparr>"
    | (fresh) sn r where "\<not> op_seq op \<le> hw_get (e_applied e) (op_client op)"
      "core e' = core_step sm (core e) (ts, op)"
      "ds.persist ts (encode op) sn (e_dur e) = (r, e_dur e')"
      "sn = None \<or> sn = Some (encode_snapshot sm e')"
      "res = (case r of Inl x \<Rightarrow> Inl x | Inr _ \<Rightarrow> Inr (snd (sm_apply sm (e_state e) op)))"
      "sn = (if e_snap_interval e \<le> e_ops_since_snap e + 1 then Some (encode_snapshot sm e') else None)"
      "r = Inr () \<Longrightarrow> e_ops_since_snap e' = (if e_snap_interval e \<le> e_ops_since_snap e + 1 then 0 else e_ops_since_snap e + 1)"
proof (cases "op_seq op \<le> hw_get (e_applied e) (op_client op)")
  case True
  then have "res = Inr Suppressed" "e' = e\<lparr>e_stats := (e_stats e)\<lparr>st_suppressed := st_suppressed (e_stats e) + 1\<rparr>\<rparr>"
    using assms by (simp_all add: deliver_def apply_dedup_def)
  then show thesis using True by (intro dup) simp_all
next
  case False
  let ?out = "snd (sm_apply sm (e_state e) op)"
  obtain a where a: "apply_dedup sm ts op e = (Some ?out, a)"
    using apply_dedup_fresh [OF False] by blast
  have ca: "core a = core_step sm (core e) (ts, op)" "e_dur a = e_dur e"
    using apply_dedup_core(1,2) [OF a] by simp_all
  have sa: "e_snap_interval a = e_snap_interval e" "e_ops_since_snap a = e_ops_since_snap e"
    using apply_dedup_core(3,4) [OF a] by simp_all
  define a1 where "a1 = a\<lparr>e_stats := (e_stats a)\<lparr>st_applied := st_applied (e_stats a) + 1\<rparr>\<rparr>"
  have "io_bind (with_dur (dur_append ts (encode op))) (\<lambda>_.
      io_bind (\<lambda>e. (Inr (), e\<lparr>e_ops_since_snap := e_ops_since_snap e + 1\<rparr>)) (\<lambda>_.
      io_bind (\<lambda>e. if e_snap_interval e \<le> e_ops_since_snap e then engine_snapshot sm e else (Inr (), e)) (\<lambda>_.
      io_return ?out))) a1 = (res, e')"
    using assms a by (simp add: deliver_def a1_def)
  then show thesis
  proof (cases rule: io_bindE)
    case (err x)
    then show thesis using fresh [of "if e_snap_interval e \<le> e_ops_since_snap e + 1 then Some (encode_snapshot sm e') else None" "Inl x"] False ca
      by (auto simp: a1_def ds.persist_def io_bind_def elim!: with_durE)
  next
    case (step u e1)
    then obtain d1 where d1: "dur_append ts (encode op) (e_dur e) = (Inr (), d1)" "e1 = a1\<lparr>e_dur := d1\<rparr>"
      using ca by (auto simp: a1_def elim!: with_durE)
    define e2 where "e2 = e1\<lparr>e_ops_since_snap := e_ops_since_snap e1 + 1\<rparr>"
    have c2: "core e2 = core a" "e_dur e2 = d1" by (simp_all add: e2_def d1 a1_def)
    have s2: "e_snap_interval e2 = e_snap_interval e" "e_ops_since_snap e2 = e_ops_since_snap e + 1"
      using sa by (simp_all add: e2_def d1 a1_def)
    have "io_bind (\<lambda>e. if e_snap_interval e \<le> e_ops_since_snap e then engine_snapshot sm e else (Inr (), e))
        (\<lambda>_. io_return ?out) e2 = (res, e')"
      using step(2) by (simp add: io_bind_def e2_def)
    then obtain r where r: "(if e_snap_interval e2 \<le> e_ops_since_snap e2 then engine_snapshot sm e2 else (Inr (), e2)) = (r, e')"
        "res = (case r of Inl x \<Rightarrow> Inl x | Inr _ \<Rightarrow> Inr ?out)"
      by (cases rule: io_bindE) (auto simp: io_return_def)
    show thesis
    proof (cases "e_snap_interval e2 \<le> e_ops_since_snap e2")
      case True
      with r(1) have w: "write_snapshot (encode_snapshot sm e2) d1 = (r, e_dur e')" and c: "core e' = core a"
        and z: "r = Inr () \<longrightarrow> e_ops_since_snap e' = 0"
        using c2 by (auto elim!: engine_snapshotE)
      have "ds.persist ts (encode op) (Some (encode_snapshot sm e')) (e_dur e) = (r, e_dur e')"
        using w d1(1) encode_snapshot_core [of e' e2] c c2 by (simp add: ds.persist_def io_bind_def)
      then show thesis using fresh False c ca r(2) True s2 z by simp
    next
      case nosnap: False
      with r(1) have "r = Inr ()" "e' = e2" by simp_all
      then show thesis using fresh [of None r] False c2 ca r(2) d1 nosnap s2
        by (simp add: ds.persist_def io_bind_def io_return_def)
    qed
  qed
qed

text \<open>The operations that are logged whole: their fields fit, and the record's length fits its field.\<close>

definition op_logs :: "op \<Rightarrow> bool" where
  "op_logs op \<longleftrightarrow> wf_op op \<and> length (encode op) < 2 ^ 32"

lemma op_logsD: "op_logs op \<Longrightarrow> rec_ok (ts, encode op)" "op_logs op \<Longrightarrow> decode (encode op) = Some op"
  by (simp_all add: op_logs_def rec_ok_def decode_encode)

context state_machine
begin

text \<open>Installing the snapshot of \<open>e\<close>: what the files describe is unchanged, or is the core of \<open>e\<close>.\<close>

lemma snapshot_files:
  assumes "snap_fits good e" "covered (e_applied e) (dur_records d)"
    and "dur_snap d' = Some (encode_snapshot sm e)" "dur_records d' = dur_records d \<or> dur_records d' = []"
  shows "recovered sm d' = core e"
proof -
  have "covered (fst (snd (core e))) (dur_records d')" using assms by (auto simp: core_def)
  then show ?thesis using assms by (simp add: recovered_def load_core_encode replay_covered)
qed

lemma deliver_files:
  assumes "deliver sm ts op e = (res, e')" and fresh: "\<not> op_seq op \<le> hw_get (e_applied e) (op_client op)"
    and "dur_clean (e_dur e)" "op_logs op" "snap_fits good e'" "bt_wf (e_applied e)"
    and cov: "covered (e_applied e) (dur_records (e_dur e))"
  shows "core e' = core_step sm (core e) (ts, op)"
    and "covered (e_applied e') (dur_records (e_dur e'))"
    and "recovered sm (e_dur e') \<in> {recovered sm (e_dur e), core_step sm (recovered sm (e_dur e)) (ts, op), core e'}"
    and "res = Inr out \<Longrightarrow> dur_clean (e_dur e') \<and>
      recovered sm (e_dur e') \<in> {core_step sm (recovered sm (e_dur e)) (ts, op), core e'}"
proof -
  let ?b = "encode op" and ?d = "e_dur e" and ?d' = "e_dur e'"
  from assms(1) obtain sn r where f: "core e' = core_step sm (core e) (ts, op)"
      "ds.persist ts ?b sn ?d = (r, ?d')" "sn = None \<or> sn = Some (encode_snapshot sm e')"
      "res = (case r of Inl x \<Rightarrow> Inl x | Inr _ \<Rightarrow> Inr (snd (sm_apply sm (e_state e) op)))"
    using fresh by (cases rule: deliverE) auto
  show step: "core e' = core_step sm (core e) (ts, op)" by (fact f(1))
  have hw: "hw_le (e_applied e) (e_applied e')" "op_seq op \<le> hw_get (e_applied e') (op_client op)"
    using core_step_hw(2,3) [where c = "core e" and sm = sm and ts = ts and op = op] assms(6) f(1) [symmetric] by (simp_all add: core_def)
  have cov': "covered (e_applied e') (dur_records ?d @ [(ts, ?b)])"
    using covered_mono [OF cov hw(1)] hw(2) op_logsD(2) [OF assms(4)] by (simp add: covered_def)
  have ext: "recovered sm ?d' = core_step sm (recovered sm ?d) (ts, op)"
    if "dur_snap ?d' = dur_snap ?d" "dur_records ?d' = dur_records ?d @ [(ts, ?b)]"
    using that op_logsD(2) [OF assms(4)] by (simp add: recovered_def)
  have snp: "recovered sm ?d' = core e'"
    if "dur_snap ?d' = Some (encode_snapshot sm e')" "dur_records ?d' = dur_records ?d @ [(ts, ?b)] \<or> dur_records ?d' = []"
    using that cov' assms(5) load_core_encode by (auto simp: recovered_def core_def intro!: replay_covered)
  note cases = ds.persist_cases [OF assms(3) op_logsD(1) [OF assms(4)] f(2)]
  show "covered (e_applied e') (dur_records ?d')" using cases cov' by auto
  show "recovered sm ?d' \<in> {recovered sm ?d, core_step sm (recovered sm ?d) (ts, op), core e'}"
    using cases f(3) ext snp by (auto simp: recovered_def)
  show "dur_clean ?d' \<and> recovered sm ?d' \<in> {core_step sm (recovered sm ?d) (ts, op), core e'}" if "res = Inr out"
  proof -
    have "ds.persist ts ?b sn ?d = (Inr (), ?d')" using that f(2,4) by (cases r) auto
    note ok = ds.persist_ok [OF assms(3) op_logsD(1) [OF assms(4)] this]
    then show ?thesis using f(3) ext snp by auto
  qed
qed

end

end
