(* ===== verification/OB_Crash.thy ===== *)
theory OB_Crash
  imports OB_Engine
begin

text \<open>
  Histories of one node: deliveries, explicit snapshots, crashes at any system call and recoveries, as
  a step relation over the engine's operations. The files may fail or tear a write at every call. The
  relation is generic in the deliveries it admits, \<open>adm\<close>, and in the engines it may reach, \<open>fits\<close>: with both
  always true it has every behaviour of the code. For histories in which no record is appended behind a
  torn one and every operation fits the record format (\<open>intact\<close>), and the snapshots fit theirs, the invariant
  relates memory and files to the events, and gives that no acknowledged operation is lost and none takes
  effect twice, across any number of crashes.
\<close>

section \<open>Events and what they leave\<close>

text \<open>
  An event is a delivery that was not a duplicate: the flag says whether it was acknowledged, that is,
  whether \<open>deliver\<close> returned \<open>Ok\<close>. A history is left by events when it keeps their order, keeps every
  acknowledged delivery, and each other one or not.
\<close>

type_synonym event = "bool \<times> u64 \<times> op"

fun leaves :: "event list \<Rightarrow> (u64 \<times> op) list \<Rightarrow> bool" where
  "leaves [] h \<longleftrightarrow> h = []"
| "leaves ((ack, x) # evs) h \<longleftrightarrow> (h \<noteq> [] \<and> hd h = x \<and> leaves evs (tl h)) \<or> (\<not> ack \<and> leaves evs h)"

lemma leaves_snoc: "leaves evs h \<Longrightarrow> leaves (evs @ [(ack, x)]) (h @ [x])"
proof (induction evs h rule: leaves.induct)
  case (2 ack x evs h)
  then show ?case by (cases h) auto
qed simp

lemma leaves_skip: "leaves evs h \<Longrightarrow> leaves (evs @ [(False, x)]) h"
  by (induction evs h rule: leaves.induct) auto

lemma leaves_acked: "leaves evs h \<Longrightarrow> (True, x) \<in> set evs \<Longrightarrow> x \<in> set h"
proof (induction evs h rule: leaves.induct)
  case (2 ack y evs h)
  then show ?case by (cases h) auto
qed simp

lemma leaves_sound: "leaves evs h \<Longrightarrow> x \<in> set h \<Longrightarrow> x \<in> snd ` set evs"
proof (induction evs h rule: leaves.induct)
  case (2 ack y evs h)
  then show ?case by (cases h) auto
qed simp

section \<open>The node\<close>

datatype 's node = Up "'s engine" | Down directory

definition set_outcomes :: "outcome list \<Rightarrow> 's engine \<Rightarrow> 's engine" where
  "set_outcomes os e = e\<lparr>e_dur := (e_dur e)\<lparr>d_dir := (d_dir (e_dur e))\<lparr>outcomes := os\<rparr>\<rparr>\<rparr>"

text \<open>
  The condition under which the code keeps what it acknowledges: the log ends in a complete record, and
  the fields of the operation fit those of a record. The code checks neither.
\<close>

definition intact :: "'s engine \<Rightarrow> op \<Rightarrow> bool" where
  "intact e op \<longleftrightarrow> dur_clean (e_dur e) \<and> op_logs op"

text \<open>
  One step, with the events it adds. Every step chooses the outcomes of its system calls. A crash
  inside an operation is the operation failing at that call, followed by \<open>crash\<close>.
\<close>

inductive node_step :: "'s sm_ops \<Rightarrow> ('s engine \<Rightarrow> op \<Rightarrow> bool) \<Rightarrow> ('s engine \<Rightarrow> bool) \<Rightarrow> u64 \<Rightarrow> bool \<Rightarrow> 's node \<Rightarrow> event list \<Rightarrow> 's node \<Rightarrow> bool"
  for sm adm fits interval fsync where
  dup: "op_seq op \<le> hw_get (e_applied e) (op_client op) \<Longrightarrow>
     deliver sm ts op (set_outcomes os e) = (res, e') \<Longrightarrow>
     node_step sm adm fits interval fsync (Up e) [] (Up e')"
| acked: "\<not> op_seq op \<le> hw_get (e_applied e) (op_client op) \<Longrightarrow> adm e op \<Longrightarrow>
     deliver sm ts op (set_outcomes os e) = (Inr out, e') \<Longrightarrow> fits e' \<Longrightarrow>
     node_step sm adm fits interval fsync (Up e) [(True, ts, op)] (Up e')"
| failed: "\<not> op_seq op \<le> hw_get (e_applied e) (op_client op) \<Longrightarrow> adm e op \<Longrightarrow>
     deliver sm ts op (set_outcomes os e) = (Inl err, e') \<Longrightarrow> fits e' \<Longrightarrow>
     node_step sm adm fits interval fsync (Up e) [(False, ts, op)] (Up e')"
| snapshot: "fits e \<Longrightarrow> engine_snapshot sm (set_outcomes os e) = (res, e') \<Longrightarrow>
     node_step sm adm fits interval fsync (Up e) [] (Up e')"
| crash: "node_step sm adm fits interval fsync (Up e) [] (Down (d_dir (e_dur e)))"
| recover: "engine_recover sm (w\<lparr>outcomes := os\<rparr>) interval fsync = (Inr (), e) \<Longrightarrow>
     node_step sm adm fits interval fsync (Down w) [] (Up e)"
| recover_failed: "engine_recover sm (w\<lparr>outcomes := os\<rparr>) interval fsync = (Inl err, e) \<Longrightarrow>
     node_step sm adm fits interval fsync (Down w) [] (Down (d_dir (e_dur e)))"

inductive node_run :: "'s sm_ops \<Rightarrow> ('s engine \<Rightarrow> op \<Rightarrow> bool) \<Rightarrow> ('s engine \<Rightarrow> bool) \<Rightarrow> u64 \<Rightarrow> bool \<Rightarrow> event list \<Rightarrow> 's node \<Rightarrow> bool"
  for sm adm fits interval fsync where
  create: "engine_create sm (empty_dir\<lparr>outcomes := os\<rparr>) interval fsync = (Inr (), e) \<Longrightarrow>
     node_run sm adm fits interval fsync [] (Up e)"
| step: "node_run sm adm fits interval fsync evs n \<Longrightarrow> node_step sm adm fits interval fsync n new n' \<Longrightarrow>
     node_run sm adm fits interval fsync (evs @ new) n'"

inductive_cases node_step_UpE: "node_step sm adm fits i fs (Up e) new n'"
inductive_cases node_step_DownE: "node_step sm adm fits i fs (Down w) new n'"

section \<open>The invariant\<close>

definition as_dur :: "directory \<Rightarrow> durable" where
  "as_dur w = \<lparr>d_fsync = False, d_log = False, d_dir = w\<rparr>"

definition files_inv :: "'s sm_ops \<Rightarrow> event list \<Rightarrow> durable \<Rightarrow> bool" where
  "files_inv sm evs d \<longleftrightarrow> (\<exists>h. leaves evs h \<and> recovered sm d = run_core sm (init_core sm) h)"

definition memory_inv :: "'s sm_ops \<Rightarrow> event list \<Rightarrow> 's engine \<Rightarrow> bool" where
  "memory_inv sm evs e \<longleftrightarrow> (\<exists>h. leaves evs h \<and> core e = run_core sm (init_core sm) h)
     \<and> covered (e_applied e) (dur_records (e_dur e)) \<and> bt_wf (e_applied e)"

fun node_inv :: "'s sm_ops \<Rightarrow> event list \<Rightarrow> 's node \<Rightarrow> bool" where
  "node_inv sm evs (Up e) \<longleftrightarrow> memory_inv sm evs e \<and> files_inv sm evs (e_dur e)"
| "node_inv sm evs (Down w) \<longleftrightarrow> files_inv sm evs (as_dur w)"

lemma set_outcomes_simps [simp]:
  "core (set_outcomes os e) = core e" "e_applied (set_outcomes os e) = e_applied e"
  "e_state (set_outcomes os e) = e_state e"
  "dur_records (e_dur (set_outcomes os e)) = dur_records (e_dur e)"
  "dur_snap (e_dur (set_outcomes os e)) = dur_snap (e_dur e)"
  "dur_clean (e_dur (set_outcomes os e)) = dur_clean (e_dur e)"
  "recovered sm (e_dur (set_outcomes os e)) = recovered sm (e_dur e)"
  "snap_fits good (set_outcomes os e) = snap_fits good e"
  by (simp_all add: set_outcomes_def core_def dur_records_def dur_snap_def dur_clean_def recovered_def snap_fits_def)

lemma recovered_files:
  "f_snapshot (d_dir d') = f_snapshot (d_dir d) \<Longrightarrow> f_oplog (d_dir d') = f_oplog (d_dir d) \<Longrightarrow>
   recovered sm d' = recovered sm d \<and> dur_records d' = dur_records d"
  by (simp add: recovered_def dur_snap_def dur_records_def)

lemma files_inv_as_dur: "files_inv sm evs (as_dur (d_dir d)) = files_inv sm evs d"
  using recovered_files [of d "as_dur (d_dir d)" sm] by (simp add: files_inv_def as_dur_def)

lemma core_applied: "e_applied e = fst (snd (core e))"
  by (simp add: core_def)

lemma engine_create_inv:
  assumes "engine_create sm (empty_dir\<lparr>outcomes := os\<rparr>) interval fsync = (Inr (), e)"
  shows "node_inv sm [] (Up e)"
proof -
  obtain d where d: "durable_open (empty_dir\<lparr>outcomes := os\<rparr>) fsync = (Inr (), d)" and e: "e = new_engine sm d interval"
    using assms by (auto simp: engine_create_def split: prod.splits)
  have "f_snapshot (d_dir d) = None" "f_oplog (d_dir d) = None"
    using syscall_pure [OF d [unfolded durable_open_def sys_create_dir_all_def]] by (simp_all add: empty_dir_def)
  then have "dur_records d = []" "dur_snap d = None"
    by (simp_all add: dur_records_def dur_snap_def file_bytes_def)
  moreover have "core e = init_core sm" "e_dur e = d" by (simp add: e) (simp add: e new_engine_def)
  ultimately show ?thesis
    by (simp add: memory_inv_def files_inv_def recovered_def load_core_def Let_def)
      (simp add: core_applied init_core_def bt_simps)
qed

lemma recover_inv:
  assumes "engine_recover sm (w\<lparr>outcomes := os\<rparr>) interval fsync = (res, e)" and "files_inv sm evs (as_dur w)"
  shows "files_inv sm evs (e_dur e)" and "res = Inr () \<Longrightarrow> memory_inv sm evs e"
proof -
  let ?d = "\<lparr>d_fsync = fsync, d_log = False, d_dir = w\<lparr>outcomes := os\<rparr>\<rparr>"
  note rc = engine_recover_cases [OF assms(1) refl]
  have r: "recovered sm ?d = recovered sm (as_dur w)"
    using recovered_files [of ?d "as_dur w" sm] by (simp add: as_dur_def)
  have same: "recovered sm (e_dur e) = recovered sm ?d" "dur_records (e_dur e) = dur_records ?d"
    using rc(1) by (simp_all add: recovered_same dur_records_same)
  show "files_inv sm evs (e_dur e)" using assms(2) r same by (simp add: files_inv_def)
  show "memory_inv sm evs e" if "res = Inr ()"
    using rc(2) [OF that] assms(2) r same recovered_hw [of sm ?d]
    by (simp add: memory_inv_def files_inv_def core_applied)
qed

section \<open>Every step keeps it\<close>

lemma run_snoc: "leaves evs h \<Longrightarrow> c = run_core sm (init_core sm) h \<Longrightarrow>
   \<exists>h. leaves (evs @ [(ack, x)]) h \<and> core_step sm c x = run_core sm (init_core sm) h"
  using leaves_snoc by (intro exI [of _ "h @ [x]"]) simp

lemma run_skip: "leaves evs h \<Longrightarrow> c = run_core sm (init_core sm) h \<Longrightarrow>
   \<exists>h. leaves (evs @ [(False, x)]) h \<and> c = run_core sm (init_core sm) h"
  using leaves_skip by (intro exI [of _ h]) simp

lemma dup_inv:
  assumes "op_seq op \<le> hw_get (e_applied e) (op_client op)"
    and "deliver sm ts op (set_outcomes os e) = (res, e')" and "node_inv sm evs (Up e)"
  shows "node_inv sm evs (Up e')"
  using assms(2)
proof (cases rule: deliverE)
  case dup
  then have "core e' = core e" "e_dur e' = e_dur (set_outcomes os e)" by simp_all
  moreover have "files_inv sm evs (e_dur (set_outcomes os e)) = files_inv sm evs (e_dur e)"
    by (simp add: files_inv_def)
  ultimately show ?thesis using assms(3) by (simp add: memory_inv_def core_applied)
qed (use assms(1) in simp)

context state_machine
begin

lemma deliver_inv:
  assumes "\<not> op_seq op \<le> hw_get (e_applied e) (op_client op)" "intact e op"
    and "deliver sm ts op (set_outcomes os e) = (res, e')" "snap_fits good e'" "node_inv sm evs (Up e)"
    and ack: "ack \<Longrightarrow> \<exists>out. res = Inr out"
  shows "node_inv sm (evs @ [(ack, ts, op)]) (Up e')"
proof -
  let ?e = "set_outcomes os e" and ?x = "(ts, op)"
  have m: "bt_wf (e_applied ?e)" "covered (e_applied ?e) (dur_records (e_dur ?e))"
    using assms(5) by (simp_all add: memory_inv_def)
  have ok: "dur_clean (e_dur e)" "op_logs op" using assms(2) by (simp_all add: intact_def)
  note f = deliver_files [OF assms(3) _ _ ok(2) assms(4) m]
  have f': "core e' = core_step sm (core e) ?x" "covered (e_applied e') (dur_records (e_dur e'))"
    "recovered sm (e_dur e') \<in> {recovered sm (e_dur e), core_step sm (recovered sm (e_dur e)) ?x, core e'}"
    "ack \<Longrightarrow> recovered sm (e_dur e') \<in> {core_step sm (recovered sm (e_dur e)) ?x, core e'}"
    using f(1-3) f(4) ack assms(1) ok(1) by auto
  from assms(5) obtain h g where h: "leaves evs h" "core e = run_core sm (init_core sm) h"
    and g: "leaves evs g" "recovered sm (e_dur e) = run_core sm (init_core sm) g"
    by (auto simp: memory_inv_def files_inv_def)
  have mem: "\<exists>h. leaves (evs @ [(ack, ?x)]) h \<and> core e' = run_core sm (init_core sm) h"
    using run_snoc [OF h] f'(1) by metis
  have "\<exists>h. leaves (evs @ [(ack, ?x)]) h \<and> recovered sm (e_dur e') = run_core sm (init_core sm) h"
    using f'(3,4) mem run_snoc [OF g, of ack ?x] run_skip [OF g, of ?x] by (cases ack) auto
  then show ?thesis using mem f'(2) assms(4)
    by (simp add: memory_inv_def files_inv_def snap_fits_def)
qed

lemma snapshot_inv:
  assumes "snap_fits good e" "engine_snapshot sm (set_outcomes os e) = (res, e')" "node_inv sm evs (Up e)"
  shows "node_inv sm evs (Up e')"
proof -
  let ?e = "set_outcomes os e"
  from assms(2) have w: "write_snapshot (encode_snapshot sm ?e) (e_dur ?e) = (res, e_dur e')" and c: "core e' = core e"
    by (auto elim!: engine_snapshotE)
  have cov: "covered (e_applied ?e) (dur_records (e_dur ?e))" using assms(3) by (simp add: memory_inv_def)
  have snp: "recovered sm (e_dur e') = core ?e"
    if "dur_snap (e_dur e') = Some (encode_snapshot sm ?e)"
      "dur_records (e_dur e') = dur_records (e_dur ?e) \<or> dur_records (e_dur e') = []"
    using snapshot_files [OF _ cov that] assms(1) by simp
  have "recovered sm (e_dur e') = recovered sm (e_dur e) \<or> recovered sm (e_dur e') = core e"
    "dur_records (e_dur e') = dur_records (e_dur e) \<or> dur_records (e_dur e') = []"
    using ds.put_old_or_new [OF w] snp by (auto simp: recovered_def)
  then show ?thesis using assms(3) c cov
    by (auto simp: memory_inv_def files_inv_def core_applied)
qed

lemma node_step_inv: "node_step sm intact (snap_fits good) i fs n new n' \<Longrightarrow> node_inv sm evs n \<Longrightarrow> node_inv sm (evs @ new) n'"
proof (induction rule: node_step.induct)
  case (crash e)
  then show ?case by (simp add: files_inv_as_dur)
next
  case (recover w os e)
  then show ?case using recover_inv [OF recover(1)] by simp
next
  case (recover_failed w os err e)
  then show ?case using recover_inv [OF recover_failed(1)] by (simp add: files_inv_as_dur)
qed (simp_all add: dup_inv deliver_inv snapshot_inv del: node_inv.simps)

lemma node_run_inv: "node_run sm intact (snap_fits good) i fs evs n \<Longrightarrow> node_inv sm evs n"
  by (induction rule: node_run.induct) (blast intro: engine_create_inv node_step_inv)+

text \<open>What a running node holds is a run over a history that keeps every acknowledged delivery.\<close>

lemma run_up: "node_run sm intact (snap_fits good) i fs evs (Up e) \<Longrightarrow>
   \<exists>h. leaves evs h \<and> core e = run_core sm (init_core sm) h"
  by (auto simp: memory_inv_def dest: node_run_inv)

lemma run_down:
  assumes "node_run sm intact (snap_fits good) i fs evs (Down w)" "engine_recover sm (w\<lparr>outcomes := os\<rparr>) i' fs' = (Inr (), e)"
  shows "\<exists>h. leaves evs h \<and> core e = run_core sm (init_core sm) h"
  using recover_inv [OF assms(2)] node_run_inv [OF assms(1)] by (simp add: memory_inv_def)

end

section \<open>The key-value node\<close>

text \<open>
  For the key-value store the limits follow from the amount of data logged: an entry of the snapshot is
  never longer than the log record that wrote it.
\<close>

definition log_bytes :: "(u64 \<times> op) list \<Rightarrow> nat" where
  "log_bytes h = (\<Sum>x\<leftarrow>h. length (log_record (fst x, encode (snd x))))"

definition entry_size :: "rstring \<times> bytes \<Rightarrow> nat" where
  "entry_size p = 6 + length (fst p) + length (snd p)"

definition store_size :: "kv_store \<Rightarrow> nat" where
  "store_size m = (\<Sum>p\<leftarrow>m. entry_size p)"

lemma length_kv_snapshot: "length (kv_snapshot m) = 4 + store_size m"
  by (simp add: kv_snapshot_def store_size_def length_concat enc_entry_def enc_key_def enc_val_def entry_size_def
      o_def add.assoc)

lemma store_size_insert: "store_size (bt_insert k v m) \<le> store_size m + entry_size (k, v)"
  by (induction k v m rule: bt_insert.induct) (auto simp: store_size_def)

lemma store_size_remove: "store_size (bt_remove k m) \<le> store_size m"
  by (induction k m rule: bt_remove.induct) (auto simp: store_size_def)

lemma store_size_write: "store_size (kv_write m w) \<le> store_size m + length (enc_write w)"
proof (cases "(m, w)" rule: kv_write.cases)
  case (1 m k v)
  then show ?thesis using store_size_insert [of k v m]
    by (simp add: enc_key_def enc_val_def entry_size_def)
next
  case (2 m k)
  then show ?thesis using store_size_remove [of k m] by simp
qed

lemma store_size_writes: "store_size (foldl kv_write m ws) \<le> store_size m + length (concat (map enc_write ws))"
proof (induction ws arbitrary: m)
  case (Cons w ws)
  show ?case using Cons [of "kv_write m w"] store_size_write [of m w] by simp
qed simp

lemma store_size_apply: "store_size (fst (kv_apply m op)) + 9 \<le> store_size m + length (log_record (ts, encode op))"
proof (cases "op_kind op")
  case (Incr k d)
  let ?v = "show_i64 (incr_cur m k + d)"
  have "length ?v \<le> 20" by (rule length_show_i64)
  then show ?thesis using Incr store_size_insert [of k ?v m]
    by (simp add: kv_apply_def Let_def encode_def enc_key_def length_log_record entry_size_def)
next
  case (Set k v)
  then show ?thesis using store_size_insert [of k v m]
    by (simp add: kv_apply_def encode_def enc_key_def enc_val_def length_log_record entry_size_def)
next
  case (Txn ws)
  then show ?thesis using store_size_writes [of m ws]
    by (simp add: kv_apply_def encode_def enc_key_def length_log_record)
next
  case (Del k)
  then show ?thesis using store_size_remove [of k m]
    by (simp add: kv_apply_def encode_def enc_key_def length_log_record)
qed (simp add: kv_apply_def encode_def enc_key_def length_log_record)

lemma entry_okI [wf_intro]: "key_ok k \<Longrightarrow> val_ok v \<Longrightarrow> entry_ok (k, v)"
  by (simp add: entry_ok_def)

lemma val_ok_show [wf_intro]: "val_ok (show_i64 w)"
  using length_show_i64 [of w] by (simp add: val_ok_def)

lemma kv_fits_insert [wf_intro]: "list_all entry_ok m \<Longrightarrow> entry_ok (k, v) \<Longrightarrow> list_all entry_ok (bt_insert k v m)"
  using bt_insert_set [of k v m] by (auto simp: list_all_iff)

lemma kv_fits_remove [wf_intro]: "list_all entry_ok m \<Longrightarrow> list_all entry_ok (bt_remove k m)"
  by (induction k m rule: bt_remove.induct) auto

lemma kv_fits_writes [wf_intro]: "list_all entry_ok m \<Longrightarrow> list_all write_ok ws \<Longrightarrow> list_all entry_ok (foldl kv_write m ws)"
proof (induction ws arbitrary: m)
  case (Cons w ws)
  obtain k v where "w = (k, v)" by (cases w)
  then have "list_all entry_ok (kv_write m w)" using Cons.prems
    by (cases v) (auto simp: write_ok_def intro: wf_intro)
  with Cons show ?case by simp
qed simp

text \<open>Every entry an operation writes is within the limits of the snapshot's entries.\<close>

lemma kv_apply_entries:
  assumes "list_all entry_ok m" "wf_op op"
  shows "list_all entry_ok (fst (kv_apply m op))"
  using assms by (cases "op_kind op") (auto simp: kv_apply_def wf_op_def Let_def intro!: wf_intro)

definition kv_bounded :: "nat \<Rightarrow> kv_store core \<Rightarrow> bool" where
  "kv_bounded n c \<longleftrightarrow> bt_wf (fst c) \<and> list_all entry_ok (fst c) \<and> store_size (fst c) + 9 * length (fst (snd c)) \<le> n
     \<and> bt_wf (fst (snd c))"

lemma kv_bounded_step:
  assumes "kv_bounded n c" "wf_op op"
  shows "kv_bounded (n + length (log_record (ts, encode op))) (core_step kv_sm c (ts, op))"
proof -
  obtain s m t where c: "c = (s, m, t)" by (cases c)
  have "length (bt_insert (op_client op) (op_seq op) m) \<le> Suc (length m)" by (rule bt_insert_length)
  then show ?thesis using assms store_size_apply [of s op ts]
    by (auto simp: c kv_bounded_def kv_apply_wf kv_apply_entries bt_simps)
qed

lemma kv_bounded_run:
  "list_all (\<lambda>x. wf_op (snd x)) h \<Longrightarrow> kv_bounded (log_bytes h) (run_core kv_sm (init_core kv_sm) h)"
proof (induction h rule: rev_induct)
  case (snoc x h)
  then show ?case using kv_bounded_step [of "log_bytes h" _ "snd x" "fst x"] by (simp add: log_bytes_def)
qed (simp add: kv_bounded_def log_bytes_def init_core_def bt_simps store_size_def)

lemma kv_bounded_fits:
  assumes "kv_bounded n (core e)" "n + 4 < 2 ^ 32"
  shows "snap_fits kv_good e"
proof -
  have "length m \<le> store_size m" for m :: kv_store
    by (induction m) (simp_all add: store_size_def entry_size_def)
  from this [of "e_state e"] show ?thesis using assms
    by (simp add: kv_bounded_def snap_fits_def kv_good_def kv_fits_def core_def length_kv_snapshot)
qed

subsection \<open>A bounded history stays within the limits\<close>

lemma node_run_wf: "node_run sm intact fits i fs evs n \<Longrightarrow> list_all (\<lambda>x. wf_op (snd (snd x))) evs"
  by (induction rule: node_run.induct) (auto simp: intact_def op_logs_def elim!: node_step.cases)

lemma leaves_bytes: "leaves evs h \<Longrightarrow> log_bytes h \<le> log_bytes (map snd evs)"
proof (induction evs h rule: leaves.induct)
  case (2 ack x evs h)
  then show ?case by (cases h) (auto simp: log_bytes_def)
qed (simp add: log_bytes_def)

lemma kv_bounded_up:
  assumes "node_inv kv_sm evs (Up e)" "list_all (\<lambda>x. wf_op (snd (snd x))) evs"
  shows "kv_bounded (log_bytes (map snd evs)) (core e)"
proof -
  obtain h where h: "leaves evs h" "core e = run_core kv_sm (init_core kv_sm) h"
    using assms(1) by (auto simp: memory_inv_def)
  have "list_all (\<lambda>x. wf_op (snd x)) h" using leaves_sound [OF h(1)] assms(2) by (fastforce simp: list_all_iff)
  from kv_bounded_run [OF this] show ?thesis
    using h leaves_bytes [OF h(1)] by (simp add: kv_bounded_def)
qed

lemma kv_deliver_fits:
  assumes "kv_bounded n (core e)" "wf_op op" "n + length (log_record (ts, encode op)) + 4 < 2 ^ 32"
    and "deliver kv_sm ts op (set_outcomes os e) = (res, e')"
  shows "snap_fits kv_good e'"
  using assms(4)
proof (cases rule: deliverE)
  case dup
  then show ?thesis using assms(1,3) by (intro kv_bounded_fits [of n]) simp_all
next
  case (fresh sn r)
  then show ?thesis using kv_bounded_step [OF assms(1,2), of ts] assms(3)
    by (intro kv_bounded_fits) simp_all
qed

lemma kv_step_fits:
  assumes "node_step kv_sm intact (\<lambda>_. True) i fs n new n'" "node_inv kv_sm evs n" "list_all (\<lambda>x. wf_op (snd (snd x))) evs"
    and "log_bytes (map snd (evs @ new)) + 4 < 2 ^ 32"
  shows "node_step kv_sm intact (snap_fits kv_good) i fs n new n'"
  using assms
proof (induction rule: node_step.induct)
  case (acked op e ts os out e')
  have "snap_fits kv_good e'"
    using kv_deliver_fits [OF kv_bounded_up [OF acked(5,6)] _ _ acked(3)] acked(2,7) by (simp add: intact_def op_logs_def log_bytes_def)
  with acked show ?case by (blast intro: node_step.acked)
next
  case (failed op e ts os err e')
  have "snap_fits kv_good e'"
    using kv_deliver_fits [OF kv_bounded_up [OF failed(5,6)] _ _ failed(3)] failed(2,7) by (simp add: intact_def op_logs_def log_bytes_def)
  with failed show ?case by (blast intro: node_step.failed)
next
  case (snapshot e os res e')
  then show ?case using kv_bounded_fits [OF kv_bounded_up [OF snapshot(3,4)]] by (auto intro: node_step.snapshot)
qed (blast intro: node_step.intros)+

lemma kv_run_fits:
  assumes "node_run kv_sm intact (\<lambda>_. True) i fs evs n" "log_bytes (map snd evs) + 4 < 2 ^ 32"
  shows "node_run kv_sm intact (snap_fits kv_good) i fs evs n"
  using assms
proof (induction rule: node_run.induct)
  case (step evs n new n')
  then have r: "node_run kv_sm intact (snap_fits kv_good) i fs evs n" by (simp add: log_bytes_def)
  show ?case using step kv_step_fits [OF step(2) kv.node_run_inv [OF r] node_run_wf [OF r]] r by (blast intro: node_run.step)
qed (rule node_run.create)

end
