(* ===== verification/OB_Once.thy ===== *)
theory OB_Once
  imports OB_Crash
begin

text \<open>
  Which deliveries of a history take effect, without the high-water marks: those whose sequence number
  is above every earlier one of the same client. The engine's marks compute exactly this set, so no
  \<open>(client, seq)\<close> pair takes effect twice, and an operation delivered in its client's order takes effect
  once.
\<close>

section \<open>The operations that take effect\<close>

definition new_at :: "op list \<Rightarrow> nat \<Rightarrow> bool" where
  "new_at ops i \<longleftrightarrow> 0 < op_seq (ops ! i) \<and>
     list_all (\<lambda>o'. op_client o' = op_client (ops ! i) \<longrightarrow> op_seq o' < op_seq (ops ! i)) (take i ops)"

definition effective :: "op list \<Rightarrow> op list" where
  "effective ops = map (\<lambda>i. ops ! i) (filter (new_at ops) [0..<length ops])"

lemma new_at_prefix: "i < length xs \<Longrightarrow> new_at (xs @ ys) i = new_at xs i"
  by (simp add: new_at_def nth_append)

lemma effective_snoc:
  "effective (ops @ [x]) = effective ops @ (if new_at (ops @ [x]) (length ops) then [x] else [])"
proof -
  have "filter (new_at (ops @ [x])) [0..<length ops] = filter (new_at ops) [0..<length ops]"
    by (rule filter_cong) (simp_all add: new_at_prefix)
  moreover have "map (\<lambda>i. (ops @ [x]) ! i) (filter P [0..<length ops]) = map (\<lambda>i. ops ! i) (filter P [0..<length ops])" for P
    by (rule map_cong) (simp_all add: nth_append)
  ultimately show ?thesis by (simp add: effective_def)
qed

lemma new_at_last:
  "new_at (ops @ [x]) (length ops) \<longleftrightarrow>
     0 < op_seq x \<and> (\<forall>o' \<in> set ops. op_client o' = op_client x \<longrightarrow> op_seq o' < op_seq x)"
  by (simp add: new_at_def list_all_iff)

lemma effective_subset: "set (effective ops) \<subseteq> set ops"
  by (auto simp: effective_def)

text \<open>
  The marks after a history: nothing is above them, and each positive one is attained. So a sequence
  number is above its client's mark exactly when it is above all earlier ones.
\<close>

definition marks_of :: "op list \<Rightarrow> hw_map \<Rightarrow> bool" where
  "marks_of ops m \<longleftrightarrow> bt_wf m \<and> (\<forall>x \<in> set ops. op_seq x \<le> hw_get m (op_client x))
     \<and> (\<forall>c. hw_get m c = 0 \<or> (\<exists>x \<in> set ops. op_client x = c \<and> op_seq x = hw_get m c))"

lemma new_at_mark:
  assumes "marks_of ops m"
  shows "new_at (ops @ [x]) (length ops) \<longleftrightarrow> \<not> op_seq x \<le> hw_get m (op_client x)"
proof
  assume "new_at (ops @ [x]) (length ops)"
  then have "0 < op_seq x" "\<forall>o' \<in> set ops. op_client o' = op_client x \<longrightarrow> op_seq o' < op_seq x"
    by (simp_all add: new_at_last)
  moreover have "hw_get m (op_client x) = 0 \<or>
      (\<exists>y \<in> set ops. op_client y = op_client x \<and> op_seq y = hw_get m (op_client x))"
    using assms by (simp add: marks_of_def)
  ultimately have "hw_get m (op_client x) < op_seq x" by force
  then show "\<not> op_seq x \<le> hw_get m (op_client x)" by (simp add: not_le)
next
  assume "\<not> op_seq x \<le> hw_get m (op_client x)"
  then have lt: "hw_get m (op_client x) < op_seq x" by (simp add: not_le)
  have "op_seq x \<noteq> 0" using lt by auto
  moreover have "op_seq y < op_seq x" if "y \<in> set ops" "op_client y = op_client x" for y
  proof -
    have "op_seq y \<le> hw_get m (op_client y)" using assms that(1) by (simp add: marks_of_def)
    then show ?thesis using lt that(2) by simp
  qed
  ultimately show "new_at (ops @ [x]) (length ops)" by (simp add: new_at_last word_gt_0)
qed

lemma marks_of_insert:
  assumes "marks_of ops m" "\<not> op_seq x \<le> hw_get m (op_client x)"
  shows "marks_of (ops @ [x]) (bt_insert (op_client x) (op_seq x) m)"
  using assms by (auto simp: marks_of_def bt_simps hw_get_insert intro: order_trans less_imp_le split: if_splits)

lemma run_marks:
  "run_core sm (init_core sm) h = (s, m, t) \<Longrightarrow> marks_of (map snd h) m \<and>
     s = foldl (\<lambda>s op. fst (sm_apply sm s op)) (sm_default sm) (effective (map snd h))"
proof (induction h arbitrary: s m t rule: rev_induct)
  case Nil
  then show ?case by (simp add: init_core_def effective_def marks_of_def bt_simps hw_get_def)
next
  case (snoc p h)
  obtain ts x where p: "p = (ts, x)" by (cases p)
  obtain s0 m0 t0 where r: "run_core sm (init_core sm) h = (s0, m0, t0)" by (cases "run_core sm (init_core sm) h")
  note IH = snoc.IH [OF r]
  have eff: "effective (map snd (h @ [p])) = effective (map snd h) @ (if op_seq x \<le> hw_get m0 (op_client x) then [] else [x])"
    using effective_snoc [of "map snd h" x] new_at_mark [of "map snd h" m0 x] IH by (simp add: p)
  from snoc.prems r have step: "core_step sm (s0, m0, t0) (ts, x) = (s, m, t)" by (simp add: p)
  show ?case
  proof (cases "op_seq x \<le> hw_get m0 (op_client x)")
    case True
    then show ?thesis using step IH eff p by (auto simp: marks_of_def)
  next
    case False
    then show ?thesis using step IH eff p marks_of_insert [of "map snd h" m0 x] by auto
  qed
qed

lemma run_effective:
  "fst (run_core sm (init_core sm) h) = foldl (\<lambda>s op. fst (sm_apply sm s op)) (sm_default sm) (effective (map snd h))"
  using run_marks [of sm h] by (cases "run_core sm (init_core sm) h") auto

text \<open>Per client the sequence numbers that take effect increase strictly.\<close>

lemma effective_sorted:
  "sorted_wrt (\<lambda>x y. op_client x = op_client y \<longrightarrow> op_seq x < op_seq y) (effective ops)"
proof (induction ops rule: rev_induct)
  case (snoc x ops)
  then show ?case using effective_subset [of ops]
    by (auto simp: effective_snoc sorted_wrt_append new_at_last)
qed (simp add: effective_def)

lemma effective_distinct: "distinct (map (\<lambda>x. (op_client x, op_seq x)) (effective ops))"
proof -
  have "sorted_wrt (\<lambda>x y. (op_client x, op_seq x) \<noteq> (op_client y, op_seq y)) (effective ops)"
    by (rule sorted_wrt_mono_rel [OF _ effective_sorted]) auto
  then show ?thesis by (simp add: distinct_map sorted_wrt_map distinct_conv_nth sorted_wrt_iff_nth_less nat_neq_iff) metis
qed

text \<open>A client that numbers its operations upwards from one has each of them take effect.\<close>

lemma effective_all:
  "sorted_wrt (\<lambda>x y. op_client x = op_client y \<longrightarrow> op_seq x < op_seq y) ops \<Longrightarrow>
   \<forall>x \<in> set ops. 0 < op_seq x \<Longrightarrow> effective ops = ops"
proof (induction ops rule: rev_induct)
  case (snoc x ops)
  then show ?case by (auto simp: effective_snoc sorted_wrt_append new_at_last)
qed (simp add: effective_def)

lemma effective_first:
  "x \<in> set ops \<Longrightarrow> 0 < op_seq x \<Longrightarrow>
   \<exists>y \<in> set (effective ops). op_client y = op_client x \<and> op_seq x \<le> op_seq y"
proof (induction ops arbitrary: x rule: rev_induct)
  case (snoc z ops)
  show ?case
  proof (cases "x \<in> set ops")
    case True
    then show ?thesis using snoc by (auto simp: effective_snoc)
  next
    case False
    then have x: "x = z" using snoc.prems by simp
    show ?thesis
    proof (cases "new_at (ops @ [z]) (length ops)")
      case False
      then obtain y where y: "y \<in> set ops" "op_client y = op_client z" "op_seq z \<le> op_seq y"
        using snoc.prems x by (auto simp: new_at_last not_less)
      moreover have "0 < op_seq y" using y(3) snoc.prems x by (metis less_le_trans)
      ultimately show ?thesis using x snoc.IH [of y] by (auto simp: effective_snoc intro: order_trans)
    qed (simp add: effective_snoc x)
  qed
qed simp

end
