(* ===== verification/OB_Transfer.thy ===== *)
theory OB_Transfer
  imports OB_Once
begin

text \<open>
  State transfer between replicas (\<open>export_state\<close>, \<open>import_state\<close>), recovery when the files can be
  read, and three situations in which what is in memory and what is on disk come apart: an append behind
  a torn record, a retry after a failed append, and the import of bytes that are not a snapshot.
\<close>

section \<open>Import of a peer's state\<close>

lemma import_stateE:
  assumes "import_state sm b e = (res, e')"
  obtains "core e' = core (load_snapshot sm b e)" and "write_snapshot b (e_dur e) = (res, e_dur e')"
  using assms unfolding import_state_def
  by (auto simp: load_snapshot_frame elim!: io_bindE with_durE)

context state_machine
begin

lemma import_export:
  assumes "import_state sm (export_state sm p) e = (res, e')" "snap_fits good p"
  shows "core e' = core p"
    and "covered (e_applied p) (dur_records (e_dur e)) \<Longrightarrow>
      recovered sm (e_dur e') \<in> {recovered sm (e_dur e), core p}"
    and "covered (e_applied p) (dur_records (e_dur e)) \<Longrightarrow> res = Inr () \<Longrightarrow> recovered sm (e_dur e') = core p"
proof -
  from assms(1) have c: "core e' = core (load_snapshot sm (encode_snapshot sm p) e)"
    and w: "write_snapshot (encode_snapshot sm p) (e_dur e) = (res, e_dur e')"
    by (auto simp: export_state_def elim: import_stateE)
  show "core e' = core p" using c load_encode [OF assms(2)] by simp
  assume cov: "covered (e_applied p) (dur_records (e_dur e))"
  have snp: "recovered sm (e_dur e') = core p"
    if "dur_snap (e_dur e') = Some (encode_snapshot sm p)"
      "dur_records (e_dur e') = dur_records (e_dur e) \<or> dur_records (e_dur e') = []"
    using snapshot_files [OF assms(2) cov that] .
  show "recovered sm (e_dur e') \<in> {recovered sm (e_dur e), core p}"
    using ds.put_old_or_new [OF w] snp by (auto simp: recovered_def)
  show "recovered sm (e_dur e') = core p" if "res = Inr ()"
    using ds.put_old_or_new [OF w] ds.put_ok [OF w [unfolded that]] snp by auto
qed

end

section \<open>Recovery\<close>

lemma syscall_Done [simp]: "outcomes (d_dir d) = [] \<Longrightarrow> syscall ok part d = (Inr (), d\<lparr>d_dir := ok (d_dir d)\<rparr>)"
  by (simp add: syscall_def Let_def) (metis directory.surjective directory.update_convs(4))

definition quiet :: "durable \<Rightarrow> bool" where
  "quiet d \<longleftrightarrow> outcomes (d_dir d) = []"

text \<open>With every system call succeeding, recovery succeeds whatever bytes the files hold.\<close>

lemma engine_recover_total:
  "\<exists>e. engine_recover sm (w\<lparr>outcomes := []\<rparr>) i fs = (Inr (), e)"
  by (auto simp: engine_recover_def durable_open_def sys_defs read_snapshot_def read_log_def with_dur_def
      io_bind_def io_return_def new_engine_def load_snapshot_frame split: option.splits prod.splits)

lemma engine_recover_quiet:
  "engine_recover sm (w\<lparr>outcomes := []\<rparr>) i fs = (Inr (), e) \<Longrightarrow> quiet (e_dur e)"
  by (auto simp: engine_recover_def durable_open_def sys_defs read_snapshot_def read_log_def with_dur_def quiet_def
      io_bind_def io_return_def new_engine_def load_snapshot_frame split: option.splits prod.splits
      dest!: replay_replay_core)

lemma engine_recover_core:
  "engine_recover sm w i fs = (Inr (), e) \<Longrightarrow> core e = recovered sm (as_dur w)"
  using engine_recover_cases(2) [of sm w i fs "Inr ()" e, OF _ refl]
    recovered_files [of "as_dur w" "\<lparr>d_fsync = fs, d_log = False, d_dir = w\<rparr>" sm]
  by (simp add: as_dur_def)

text \<open>Recovering twice is recovering once, whatever the interval and the sync mode.\<close>

lemma engine_recover_again:
  assumes "engine_recover sm w i fs = (res, e)" "engine_recover sm (d_dir (e_dur e)) i' fs' = (Inr (), e')"
  shows "core e' = recovered sm (as_dur w)"
proof -
  have "same_files \<lparr>d_fsync = fs, d_log = False, d_dir = w\<rparr> (e_dur e)"
    by (rule engine_recover_cases(1) [OF assms(1) refl])
  then have "recovered sm (as_dur (d_dir (e_dur e))) = recovered sm (as_dur w)"
    using recovered_files [of "as_dur w" "as_dur (d_dir (e_dur e))" sm] by (simp add: same_files_def as_dur_def)
  then show ?thesis using engine_recover_core [OF assms(2)] by simp
qed

section \<open>Calls that all succeed\<close>

lemma dur_append_quiet: "quiet d \<Longrightarrow> \<exists>d'. dur_append ts b d = (Inr (), d') \<and> quiet d'"
  by (simp add: quiet_def dur_append_def io_bind_def sys_defs cache_handle_def sync_if_fsync_def)

lemma write_snapshot_quiet: "quiet d \<Longrightarrow> \<exists>d'. write_snapshot b d = (Inr (), d') \<and> quiet d'"
  by (simp add: quiet_def write_snapshot_def io_bind_def sys_defs sync_if_fsync_def drop_handle_def io_ignore_def)

lemma engine_snapshot_quiet:
  assumes "quiet (e_dur e)"
  shows "\<exists>e'. engine_snapshot sm e = (Inr (), e') \<and> quiet (e_dur e') \<and> core e' = core e"
  using write_snapshot_quiet [OF assms, of "encode_snapshot sm e"]
  by (auto simp: engine_snapshot_def io_bind_def with_dur_def)

text \<open>Delivery then succeeds, with the output of the state machine or as a duplicate.\<close>

lemma deliver_quiet:
  assumes "quiet (e_dur e)"
  shows "\<exists>e'. deliver sm ts op e = (Inr (if op_seq op \<le> hw_get (e_applied e) (op_client op) then Suppressed
      else snd (sm_apply sm (e_state e) op)), e') \<and> core e' = core_step sm (core e) (ts, op) \<and> quiet (e_dur e')"
proof (cases "op_seq op \<le> hw_get (e_applied e) (op_client op)")
  case True
  then show ?thesis using assms by (auto simp: deliver_def apply_dedup_def core_def)
next
  case False
  obtain a where a: "apply_dedup sm ts op e = (Some (snd (sm_apply sm (e_state e) op)), a)"
    using apply_dedup_fresh [OF False] by blast
  note c = apply_dedup_core [OF a]
  obtain d1 where d1: "dur_append ts (encode op) (e_dur e) = (Inr (), d1)" "quiet d1"
    using dur_append_quiet [OF assms] by blast
  let ?e2 = "a\<lparr>e_stats := (e_stats a)\<lparr>st_applied := st_applied (e_stats a) + 1\<rparr>, e_dur := d1,
    e_ops_since_snap := e_ops_since_snap a + 1\<rparr>"
  obtain e3 where "engine_snapshot sm ?e2 = (Inr (), e3)" "quiet (e_dur e3)" "core e3 = core a"
    using engine_snapshot_quiet [of ?e2 sm] d1(2) by auto
  then show ?thesis using a c d1 False
    by (auto simp: deliver_def io_bind_def with_dur_def io_return_def)
qed

section \<open>Where memory and files come apart\<close>

subsection \<open>An append behind a torn record\<close>

lemma parse_log_swallow:
  assumes "rec_ok r" "12 \<le> n" "n + length ys < length (log_record r)"
  shows "parse_log (take n (log_record r) @ ys) = []"
proof -
  let ?t = "take n (log_record r) @ ys"
  have "take 4 (drop 8 ?t) = take 4 (drop 8 (log_record r))"
    using assms(2,3) by (simp add: drop_take)
  then have "nat (le_val (take 4 (drop 8 ?t))) = length (snd r)"
    using log_record_fields(2) [OF assms(1), of "[]"] by simp
  moreover have "length (drop 12 ?t) < length (snd r)"
    using assms(2,3) by (simp add: length_log_record)
  ultimately show ?thesis by (simp add: parse_log.simps [of ?t] del: length_drop)
qed

text \<open>
  When the log ends in a torn record whose missing part is longer than the next record, appending the
  next record succeeds, and the records that recovery reads do not include it.
\<close>

lemma append_behind_torn:
  assumes "file_bytes (f_oplog (d_dir d)) = raw @ take n (log_record r)" "log_tail raw = []" "rec_ok r" "12 \<le> n"
    and "n + length (log_record (ts, b)) < length (log_record r)" "dur_append ts b d = (Inr (), d')"
  shows "dur_records d' = dur_records d" and "dur_snap d' = dur_snap d"
proof -
  from assms(6) have f: "file_bytes (f_oplog (d_dir d')) = raw @ take n (log_record r) @ log_record (ts, b)"
    by (elim append_log_bytes) (simp add: assms(1))
  have "parse_log (take n (log_record r)) = []"
    using assms(3,5) by (intro parse_log_torn(1)) simp_all
  then show "dur_records d' = dur_records d"
    using parse_log_append [OF assms(2)] parse_log_swallow [OF assms(3,4,5)] by (simp add: dur_records_def f assms(1))
  show "dur_snap d' = dur_snap d" using ds.append_snap [OF assms(6)] .
qed

lemma deliver_behind_torn:
  assumes "file_bytes (f_oplog (d_dir (e_dur e))) = raw @ take n (log_record r)" "log_tail raw = []" "rec_ok r"
    and "12 \<le> n" "n + length (log_record (ts, encode op)) < length (log_record r)"
    and "\<not> op_seq op \<le> hw_get (e_applied e) (op_client op)" "outcomes (d_dir (e_dur e)) = []"
    and "e_ops_since_snap e + 1 < e_snap_interval e"
  shows "\<exists>e'. deliver sm ts op e = (Inr (snd (sm_apply sm (e_state e) op)), e') \<and>
    core e' = core_step sm (core e) (ts, op) \<and> recovered sm (e_dur e') = recovered sm (e_dur e)"
proof -
  obtain res e' where d: "deliver sm ts op e = (res, e')" by (cases "deliver sm ts op e")
  have ap: "\<exists>d'. dur_append ts (encode op) d = (Inr (), d')" if "outcomes (d_dir d) = []" for d
    using that by (simp add: dur_append_def io_bind_def sys_defs cache_handle_def sync_if_fsync_def)
  from ap [OF assms(7)] obtain d1 where d1: "dur_append ts (encode op) (e_dur e) = (Inr (), d1)" by blast
  have r: "recovered sm d1 = recovered sm (e_dur e)"
    using append_behind_torn [OF assms(1-5) d1] by (simp add: recovered_def)
  have ns: "\<not> e_snap_interval e \<le> e_ops_since_snap e + 1" using assms(8) by (simp only: not_le)
  have "res = Inr (snd (sm_apply sm (e_state e) op)) \<and> e_dur e' = d1"
    using d d1 assms(6) ns
    by (auto simp: deliver_def apply_dedup_def Let_def io_bind_def with_dur_def io_return_def split: prod.splits)
  moreover have "core e' = core_step sm (core e) (ts, op)"
    using d by (cases rule: deliverE) (use assms(6) in simp_all)
  ultimately show ?thesis using d r by auto
qed

subsection \<open>A retry after a failed append\<close>

lemma deliver_retry:
  assumes "deliver sm ts op e = (Inl err, e')" "bt_wf (e_applied e)"
  shows "\<exists>e''. deliver sm ts' op (set_outcomes os e') = (Inr Suppressed, e'') \<and> core e'' = core e'
     \<and> recovered sm (e_dur e'') = recovered sm (e_dur e')"
proof -
  have "op_seq op \<le> hw_get (e_applied e') (op_client op)"
    using assms(1)
  proof (cases rule: deliverE)
    case (fresh sn r)
    then show ?thesis
      using core_step_hw(3) [where c = "core e" and sm = sm and ts = ts and op = op] assms(2)
      by (simp add: core_applied)
  qed simp
  then show ?thesis by (simp add: deliver_def apply_dedup_def)
qed

subsection \<open>Import of bytes that are not a snapshot\<close>

text \<open>
  The bytes \<open>load_snapshot\<close> gives up on: too short for the horizon or the number of marks, or with no length
  of the state behind the marks, or a state that is cut off.
\<close>

definition snapshot_rejected :: "bytes \<Rightarrow> bool" where
  "snapshot_rejected b \<longleftrightarrow> (case rd_u64 (rd_new b) of None \<Rightarrow> True | Some (_, r) \<Rightarrow>
     case rd_u32 r of None \<Rightarrow> True | Some (n, r) \<Rightarrow>
     case rd_u32 (snd (load_hw (unat n) r [])) of None \<Rightarrow> True | Some (smlen, r) \<Rightarrow> rd_bytes (unat smlen) r = None)"

text \<open>These are exactly the bytes that leave every engine as it is.\<close>

lemma snapshot_rejected_iff: "snapshot_rejected b \<longleftrightarrow> (\<forall>e. load_snapshot sm b e = e)"
proof
  show "snapshot_rejected b \<Longrightarrow> \<forall>e. load_snapshot sm b e = e"
    by (auto simp: snapshot_rejected_def load_snapshot_def split: option.splits prod.splits)
  assume all: "\<forall>e. load_snapshot sm b e = e"
  show "snapshot_rejected b"
  proof (rule ccontr)
    assume "\<not> snapshot_rejected b"
    then obtain t where "e_last_ts (load_snapshot sm b e) = t" for e
      by (auto simp: snapshot_rejected_def load_snapshot_def case_prod_beta split: option.splits)
    then have "e_last_ts e = t" for e :: "'a engine" using all by metis
    from this [of "undefined\<lparr>e_last_ts := t + 1\<rparr>"] show False by simp
  qed
qed

lemma import_garbage:
  assumes "snapshot_rejected b" "outcomes (d_dir (e_dur e)) = []"
  shows "\<exists>e'. import_state sm b e = (Inr (), e') \<and> core e' = core e \<and> recovered sm (e_dur e') = init_core sm"
proof -
  have l: "load_snapshot sm b e0 = e0" for e0 :: "'a engine" using assms(1) snapshot_rejected_iff [of b sm] by blast
  obtain e' where i: "import_state sm b e = (Inr (), e')"
    "f_snapshot (d_dir (e_dur e')) = Some b" "f_oplog (d_dir (e_dur e')) = None" "core e' = core e"
    using assms(2)
    by (cases "d_fsync (e_dur e)") (simp_all add: import_state_def l with_dur_def io_bind_def write_snapshot_def
        sys_defs sync_if_fsync_def drop_handle_def io_ignore_def file_bytes_def)
  then show ?thesis
    by (intro exI [of _ e']) (simp add: recovered_def dur_snap_def dur_records_def file_bytes_def load_core_def Let_def l)
qed

end
