(* ===== verification/OB_Stable.thy ===== *)
theory OB_Stable
  imports OB_Crash "HOL-Library.Sublist"
begin

text \<open>
  Stable storage: what \<open>append\<close> and \<open>write_snapshot\<close> of \<open>durable.rs\<close> have made safe from a power failure. The files
  a machine finds afterwards follow from the system calls made before: a synced file has the bytes it had
  when it was synced, one written since has any prefix of the rest. Names come and go in the order of the
  calls, and on a journaling file system a sync of any file settles the names changed before it; POSIX
  alone promises neither. The contract \<open>power_store\<close> adds this to the contract of the store; the files
  opened with \<open>fsync\<close> on a journaling file system are its interpretation.
\<close>

section \<open>Stable storage\<close>

text \<open>
  A file is its contents and how many bytes of them are on stable storage. The names are the pairs of what
  \<open>snapshot\<close> and \<open>oplog\<close> have stood for since the last settled pair, the present one first. A log is
  written through an open handle while older names may lead to it, so names give its number; a
  snapshot is complete when it gets its name.
\<close>

type_synonym sfile = "bytes \<times> nat"

record disk =
  k_logs :: "sfile list"
  k_names :: "(sfile option \<times> nat option) list"
  k_tmp :: "sfile option"

definition disk_init :: disk where
  "disk_init = \<lparr>k_logs = [], k_names = [(None, None)], k_tmp = None\<rparr>"

definition settled :: "bytes \<Rightarrow> sfile" where
  "settled b = (b, length b)"

fun write_file :: "bytes \<Rightarrow> sfile \<Rightarrow> sfile" where
  "write_file b (c, n) = (c @ b, n)"

fun sync_file :: "sfile \<Rightarrow> sfile" where
  "sync_file (c, n) = (c, length c)"

definition on_log :: "(sfile \<Rightarrow> sfile) \<Rightarrow> disk \<Rightarrow> disk" where
  "on_log f k = (case snd (hd (k_names k)) of None \<Rightarrow> k | Some i \<Rightarrow> k\<lparr>k_logs := (k_logs k)[i := f (k_logs k ! i)]\<rparr>)"

definition commit :: "bool \<Rightarrow> disk \<Rightarrow> disk" where
  "commit journal k = (if journal then k\<lparr>k_names := take 1 (k_names k)\<rparr> else k)"

primrec disk_step :: "bool \<Rightarrow> call \<Rightarrow> disk \<Rightarrow> disk" where
  "disk_step journal OpenLog k = (case hd (k_names k) of
     (s, None) \<Rightarrow> k\<lparr>k_logs := k_logs k @ [([], 0)], k_names := (s, Some (length (k_logs k))) # k_names k\<rparr>
   | _ \<Rightarrow> k)"
| "disk_step journal (WriteLog b) k = on_log (write_file b) k"
| "disk_step journal SyncLog k = commit journal (on_log sync_file k)"
| "disk_step journal CreateTmp k = k\<lparr>k_tmp := Some ([], 0)\<rparr>"
| "disk_step journal (WriteTmp b) k = k\<lparr>k_tmp := map_option (write_file b) (k_tmp k)\<rparr>"
| "disk_step journal SyncTmp k = commit journal (k\<lparr>k_tmp := map_option sync_file (k_tmp k)\<rparr>)"
| "disk_step journal RenameTmp k = k\<lparr>k_names := (k_tmp k, snd (hd (k_names k))) # k_names k, k_tmp := None\<rparr>"
| "disk_step journal RemoveLog k = k\<lparr>k_names := (fst (hd (k_names k)), None) # k_names k\<rparr>"
| "disk_step journal (Mounted s l t) k = \<lparr>k_logs = (case l of None \<Rightarrow> [] | Some b \<Rightarrow> [settled b]),
     k_names = [(map_option settled s, map_option (\<lambda>_. 0) l)], k_tmp = map_option settled t\<rparr>"

primrec disk_of :: "bool \<Rightarrow> call list \<Rightarrow> disk" where
  "disk_of journal [] = disk_init"
| "disk_of journal (c # cs) = disk_step journal c (disk_of journal cs)"

text \<open>The contents a file can have after a power failure, and the pairs of snapshot and log.\<close>

fun cuts :: "sfile \<Rightarrow> bytes list" where
  "cuts (c, n) = map (\<lambda>m. take m c) [n ..< Suc (length c)]"

definition file_cuts :: "sfile option \<Rightarrow> bytes option list" where
  "file_cuts f = (case f of None \<Rightarrow> [None] | Some f \<Rightarrow> map Some (cuts f))"

definition bindings :: "bool \<Rightarrow> disk \<Rightarrow> (sfile option \<times> nat option) list" where
  "bindings journal k = (if journal then k_names k else List.product (map fst (k_names k)) (map snd (k_names k)))"

definition power_states :: "bool \<Rightarrow> disk \<Rightarrow> (bytes option \<times> bytes option) list" where
  "power_states journal k = concat (map (\<lambda>(s, i). List.product (file_cuts s) (file_cuts (map_option (\<lambda>i. k_logs k ! i) i)))
     (bindings journal k))"

definition mounted :: "bytes option \<Rightarrow> bytes option \<Rightarrow> bytes option \<Rightarrow> directory" where
  "mounted s l t = \<lparr>f_snapshot = s, f_oplog = l, f_tmp = t, outcomes = [], calls = [Mounted s l t]\<rparr>"

text \<open>What a power failure can leave of a directory; the temporary file is never read.\<close>

definition power_left :: "bool \<Rightarrow> directory \<Rightarrow> (bytes option \<times> bytes option) list" where
  "power_left journal w = power_states journal (disk_of journal (calls w))"

section \<open>What the calls do to it\<close>

lemma cuts_iff: "c \<in> set (cuts f) \<longleftrightarrow> (\<exists>m. snd f \<le> m \<and> m \<le> length (fst f) \<and> c = take m (fst f))"
  by (cases f) (auto simp: image_iff less_Suc_eq_le simp del: upt_Suc)

lemma cuts_settled: "snd f = length (fst f) \<Longrightarrow> set (cuts f) = {fst f}"
  by (cases f) simp

lemma file_cuts_iff:
  "x \<in> set (file_cuts f) \<longleftrightarrow> (case f of None \<Rightarrow> x = None | Some f \<Rightarrow> \<exists>c \<in> set (cuts f). x = Some c)"
  by (auto simp: file_cuts_def split: option.splits)

lemma power_states_iff:
  "(x, y) \<in> set (power_states True k) \<longleftrightarrow> (\<exists>s i. (s, i) \<in> set (k_names k) \<and> x \<in> set (file_cuts s) \<and>
     y \<in> set (file_cuts (map_option (\<lambda>i. k_logs k ! i) i)))"
  by (force simp: power_states_def bindings_def)

lemma power_statesI:
  "(s, i) \<in> set (k_names k) \<Longrightarrow> x \<in> set (file_cuts s) \<Longrightarrow>
   y \<in> set (file_cuts (map_option (\<lambda>i. k_logs k ! i) i)) \<Longrightarrow> (x, y) \<in> set (power_states True k)"
  unfolding power_states_iff by blast

lemma file_cuts_None [simp]: "x \<in> set (file_cuts None) \<longleftrightarrow> x = None"
  by (simp add: file_cuts_def)

lemma power_states_posix_iff:
  "(x, y) \<in> set (power_states False k) \<longleftrightarrow> (\<exists>s i j t. (s, j) \<in> set (k_names k) \<and> (t, i) \<in> set (k_names k) \<and>
     x \<in> set (file_cuts s) \<and> y \<in> set (file_cuts (map_option (\<lambda>i. k_logs k ! i) i)))"
  by (force simp: power_states_def bindings_def)

text \<open>The disk shows the files of a directory, and no snapshot has its name before it is synced.\<close>

definition disk_ok :: "disk \<Rightarrow> bool" where
  "disk_ok k \<longleftrightarrow> k_names k \<noteq> [] \<and> list_all (\<lambda>f. snd f \<le> length (fst f)) (k_logs k) \<and>
     list_all (\<lambda>(s, i). pred_option (\<lambda>f. snd f = length (fst f)) s \<and> pred_option (\<lambda>i. i < length (k_logs k)) i) (k_names k)"

definition shows_files :: "directory \<Rightarrow> disk \<Rightarrow> bool" where
  "shows_files w k \<longleftrightarrow> f_snapshot w = map_option fst (fst (hd (k_names k))) \<and> f_tmp w = map_option fst (k_tmp k) \<and>
     f_oplog w = map_option (\<lambda>i. fst (k_logs k ! i)) (snd (hd (k_names k)))"

lemma file_cuts_whole: "pred_option (\<lambda>f. snd f \<le> length (fst f)) f \<Longrightarrow> map_option fst f \<in> set (file_cuts f)"
  by (cases f) (auto simp: file_cuts_iff cuts_iff)

lemma disk_ok_hd:
  assumes "disk_ok k"
  obtains s i ns where "k_names k = (s, i) # ns" "pred_option (\<lambda>f. snd f = length (fst f)) s"
    "pred_option (\<lambda>i. i < length (k_logs k)) i"
  using assms by (cases "k_names k") (auto simp: disk_ok_def)

lemma power_states_now:
  assumes "disk_ok k" "shows_files w k"
  shows "(f_snapshot w, f_oplog w) \<in> set (power_states True k)"
proof -
  from assms(1) obtain s i ns where n: "k_names k = (s, i) # ns" "pred_option (\<lambda>f. snd f = length (fst f)) s"
    "pred_option (\<lambda>i. i < length (k_logs k)) i" by (rule disk_ok_hd)
  have "f_snapshot w \<in> set (file_cuts s)" using assms(2) n(1,2) file_cuts_whole [of s]
    by (cases s) (auto simp: shows_files_def)
  moreover have "f_oplog w \<in> set (file_cuts (map_option (\<lambda>i. k_logs k ! i) i))"
    using assms n(1,3) file_cuts_whole [of "map_option (\<lambda>i. k_logs k ! i) i"]
    by (cases i) (auto simp: shows_files_def disk_ok_def list_all_length)
  ultimately show ?thesis unfolding power_states_iff using n(1) by fastforce
qed

subsection \<open>Each call on a disk that shows the files\<close>

definition stored :: "directory \<Rightarrow> disk \<Rightarrow> bool" where
  "stored w k \<longleftrightarrow> disk_ok k \<and> shows_files w k"

lemma storedE:
  assumes "stored w k"
  obtains s i ns where "k_names k = (s, i) # ns" "pred_option (\<lambda>f. snd f = length (fst f)) s"
    "pred_option (\<lambda>i. i < length (k_logs k)) i" "f_snapshot w = map_option fst s"
    "f_oplog w = map_option (\<lambda>i. fst (k_logs k ! i)) i" "f_tmp w = map_option fst (k_tmp k)"
  using assms by (auto simp: stored_def shows_files_def elim!: disk_ok_hd)

lemma stored_outcomes [simp]: "stored (w\<lparr>outcomes := os\<rparr>) k = stored w k" "stored (w\<lparr>calls := cs\<rparr>) k = stored w k"
  by (simp_all add: stored_def shows_files_def)

lemma stored_cong:
  "stored w k \<Longrightarrow> f_snapshot w' = f_snapshot w \<Longrightarrow> f_oplog w' = f_oplog w \<Longrightarrow> f_tmp w' = f_tmp w \<Longrightarrow> stored w' k"
  by (simp add: stored_def shows_files_def)

lemma pred_option_mono_less: "pred_option (\<lambda>i. i < n) i \<Longrightarrow> n \<le> m \<Longrightarrow> pred_option (\<lambda>i. i < m) i" for n m :: nat
  by (cases i) auto

lemma step_OpenLog:
  assumes "stored w k"
  shows "stored (w\<lparr>f_oplog := Some (file_bytes (f_oplog w))\<rparr>) (disk_step True OpenLog k)"
    and "(x, y) \<in> set (power_states True (disk_step True OpenLog k)) \<Longrightarrow>
      (x, y) \<in> set (power_states True k) \<or> (y = Some [] \<and> (x, None) \<in> set (power_states True k))"
proof -
  from assms obtain s i ns where n: "k_names k = (s, i) # ns" "f_snapshot w = map_option fst s"
    "f_oplog w = map_option (\<lambda>i. fst (k_logs k ! i)) i" by (elim storedE)
  have ok: "disk_ok k" using assms by (simp add: stored_def)
  then have old: "(k_logs k @ [([], 0)]) ! j = k_logs k ! j" if "(t, Some j) \<in> set (k_names k)" for t j
    using that by (auto simp: disk_ok_def list_all_iff nth_append)
  show "stored (w\<lparr>f_oplog := Some (file_bytes (f_oplog w))\<rparr>) (disk_step True OpenLog k)"
    using assms n
    by (cases i) (auto simp: stored_def shows_files_def disk_ok_def file_bytes_def nth_append list_all_iff
        intro: pred_option_mono_less)
  show "(x, y) \<in> set (power_states True k) \<or> (y = Some [] \<and> (x, None) \<in> set (power_states True k))"
    if xy: "(x, y) \<in> set (power_states True (disk_step True OpenLog k))"
  proof (cases i)
    case None
    with xy n(1) obtain t j where t: "(t, j) = (s, Some (length (k_logs k))) \<or> (t, j) \<in> set (k_names k)"
      "x \<in> set (file_cuts t)" "y \<in> set (file_cuts (map_option (\<lambda>i. (k_logs k @ [([], 0)]) ! i) j))"
      by (auto simp: power_states_iff)
    then show ?thesis
    proof (elim disjE)
      assume "(t, j) = (s, Some (length (k_logs k)))"
      then have x: "x \<in> set (file_cuts s)" and "y = Some []" using t by (auto simp: file_cuts_iff)
      moreover have "(x, None) \<in> set (power_states True k)" by (rule power_statesI [OF _ x, of None]) (simp_all add: n(1) None)
      ultimately show ?thesis by simp
    next
      assume m: "(t, j) \<in> set (k_names k)"
      then have "map_option (\<lambda>i. (k_logs k @ [([], 0)]) ! i) j = map_option (\<lambda>i. k_logs k ! i) j"
        using old by (cases j) auto
      then show ?thesis using m t by (auto simp: power_states_iff)
    qed
  qed (use xy n(1) in simp)
qed

text \<open>A write to the log: a file found later is one that could be found before, or the whole log with some of the new bytes.\<close>

lemma step_WriteLog:
  assumes "stored w k" "f_oplog w = Some raw"
  shows "stored (w\<lparr>f_oplog := Some (raw @ b)\<rparr>) (disk_step True (WriteLog b) k)"
    and "(x, y) \<in> set (power_states True (disk_step True (WriteLog b) k)) \<Longrightarrow> (x, y) \<in> set (power_states True k) \<or>
      (\<exists>m. y = Some (raw @ take m b) \<and> (x, Some raw) \<in> set (power_states True k))"
proof -
  from assms(1) obtain s i0 ns where k0: "k_names k = (s, i0) # ns" "pred_option (\<lambda>i. i < length (k_logs k)) i0"
    "f_snapshot w = map_option fst s" "f_oplog w = map_option (\<lambda>i. fst (k_logs k ! i)) i0" by (elim storedE)
  with assms(2) obtain i n where k: "k_names k = (s, Some i) # ns" "i < length (k_logs k)" "k_logs k ! i = (raw, n)"
    "f_snapshot w = map_option fst s" using that [of "the i0" "snd (k_logs k ! the i0)"]
    by (cases i0) (simp_all add: prod_eq_iff)
  have ok: "disk_ok k" using assms by (simp add: stored_def)
  then have le: "n \<le> length raw" using nth_mem [OF k(2)] k(3) by (auto simp: disk_ok_def list_all_iff)
  have step: "disk_step True (WriteLog b) k = k\<lparr>k_logs := (k_logs k)[i := (raw @ b, n)]\<rparr>"
    using k by (simp add: on_log_def)
  have "list_all (\<lambda>f. snd f \<le> length (fst f)) ((k_logs k)[i := (raw @ b, n)])"
    using ok le by (auto simp: disk_ok_def list_all_iff dest!: subsetD [OF set_update_subset_insert])
  then show "stored (w\<lparr>f_oplog := Some (raw @ b)\<rparr>) (disk_step True (WriteLog b) k)"
    using assms k ok unfolding step by (simp add: stored_def shows_files_def disk_ok_def)
  assume "(x, y) \<in> set (power_states True (disk_step True (WriteLog b) k))"
  then obtain t j where t: "(t, j) \<in> set (k_names k)" "x \<in> set (file_cuts t)"
    "y \<in> set (file_cuts (map_option (\<lambda>j. ((k_logs k)[i := (raw @ b, n)]) ! j) j))"
    unfolding step by (auto simp: power_states_iff)
  show "(x, y) \<in> set (power_states True k) \<or> (\<exists>m. y = Some (raw @ take m b) \<and> (x, Some raw) \<in> set (power_states True k))"
  proof (cases "j = Some i")
    case False
    then have "y \<in> set (file_cuts (map_option (\<lambda>j. k_logs k ! j) j))" using t(3) by (cases j) auto
    then show ?thesis using t by (auto simp: power_states_iff)
  next
    case True
    then obtain m where m: "n \<le> m" "y = Some (take m (raw @ b))" using t(3) k(2) by (auto simp: file_cuts_iff cuts_iff)
    have cut: "Some (take p raw) \<in> set (file_cuts (map_option (\<lambda>j. k_logs k ! j) j))" if "n \<le> p" "p \<le> length raw" for p
      using that True k(3) by (auto simp: file_cuts_iff cuts_iff)
    show ?thesis
    proof (cases "m \<le> length raw")
      case small: True
      then show ?thesis using t m cut [of m] by (auto simp: power_states_iff)
    next
      case False
      then show ?thesis using t m cut [of "length raw"] le by (auto simp: power_states_iff)
    qed
  qed
qed

text \<open>A synced log leaves no choice: the files are as they are.\<close>

lemma step_SyncLog:
  assumes "stored w k" "f_oplog w = Some raw"
  shows "stored w (disk_step True SyncLog k)"
    and "set (power_states True (disk_step True SyncLog k)) = {(f_snapshot w, f_oplog w)}"
proof -
  from assms(1) obtain s i0 ns where k0: "k_names k = (s, i0) # ns" "pred_option (\<lambda>i. i < length (k_logs k)) i0"
    "pred_option (\<lambda>f. snd f = length (fst f)) s"
    "f_snapshot w = map_option fst s" "f_oplog w = map_option (\<lambda>i. fst (k_logs k ! i)) i0" by (elim storedE)
  with assms(2) obtain i n where k: "k_names k = (s, Some i) # ns" "i < length (k_logs k)" "k_logs k ! i = (raw, n)"
    using that [of "the i0" "snd (k_logs k ! the i0)"] by (cases i0) (simp_all add: prod_eq_iff)
  have step: "disk_step True SyncLog k = k\<lparr>k_logs := (k_logs k)[i := (raw, length raw)], k_names := [(s, Some i)]\<rparr>"
    using k by (simp add: on_log_def commit_def)
  have ok: "disk_ok k" using assms by (simp add: stored_def)
  then have "list_all (\<lambda>f. snd f \<le> length (fst f)) ((k_logs k)[i := (raw, length raw)])"
    by (auto simp: disk_ok_def list_all_iff dest!: subsetD [OF set_update_subset_insert])
  then show "stored w (disk_step True SyncLog k)"
    using assms k k0 ok unfolding step by (simp add: stored_def shows_files_def disk_ok_def)
  have "set (file_cuts s) = {map_option fst s}" using k0(3) by (cases s) (simp_all add: file_cuts_def cuts_settled)
  then show "set (power_states True (disk_step True SyncLog k)) = {(f_snapshot w, f_oplog w)}"
    using k k0 assms(2) unfolding step by (simp add: power_states_def bindings_def file_cuts_def)
qed

lemma step_CreateTmp:
  assumes "stored w k"
  shows "stored (w\<lparr>f_tmp := Some []\<rparr>) (disk_step True CreateTmp k)"
    and "set (power_states True (disk_step True CreateTmp k)) = set (power_states True k)"
  using assms by (simp_all add: stored_def shows_files_def disk_ok_def power_states_def bindings_def)

lemma step_WriteTmp:
  assumes "stored w k" "f_tmp w = Some c"
  shows "stored (w\<lparr>f_tmp := Some (c @ b)\<rparr>) (disk_step True (WriteTmp b) k)"
    and "set (power_states True (disk_step True (WriteTmp b) k)) = set (power_states True k)"
  using assms by (cases "k_tmp k"; auto simp: stored_def shows_files_def disk_ok_def power_states_def bindings_def)+

lemma step_SyncTmp:
  assumes "stored w k"
  shows "stored w (disk_step True SyncTmp k)" and "pred_option (\<lambda>f. snd f = length (fst f)) (k_tmp (disk_step True SyncTmp k))"
    and "set (power_states True (disk_step True SyncTmp k)) \<subseteq> set (power_states True k)"
  using assms
  by (elim storedE; cases "k_tmp k"; force simp: stored_def shows_files_def disk_ok_def commit_def power_states_def bindings_def)+

lemma cut_log: "y \<in> set (file_cuts f) \<Longrightarrow> \<exists>n. file_bytes y = take n (file_bytes (map_option fst f))"
  by (cases f) (auto simp: file_cuts_iff cuts_iff file_bytes_def)

lemma step_RenameTmp:
  assumes "stored w k" "pred_option (\<lambda>f. snd f = length (fst f)) (k_tmp k)"
  shows "stored (w\<lparr>f_snapshot := f_tmp w, f_tmp := None\<rparr>) (disk_step True RenameTmp k)"
    and "(x, y) \<in> set (power_states True (disk_step True RenameTmp k)) \<Longrightarrow> (x, y) \<in> set (power_states True k) \<or>
      (x = f_tmp w \<and> (\<exists>n. file_bytes y = take n (file_bytes (f_oplog w))))"
proof -
  from assms(1) obtain s i ns where k: "k_names k = (s, i) # ns" "pred_option (\<lambda>i. i < length (k_logs k)) i"
    "f_oplog w = map_option (\<lambda>i. fst (k_logs k ! i)) i" "f_tmp w = map_option fst (k_tmp k)" by (elim storedE)
  show "stored (w\<lparr>f_snapshot := f_tmp w, f_tmp := None\<rparr>) (disk_step True RenameTmp k)"
    using assms k by (simp add: stored_def shows_files_def disk_ok_def)
  assume "(x, y) \<in> set (power_states True (disk_step True RenameTmp k))"
  then obtain t j where t: "(t, j) = (k_tmp k, i) \<or> (t, j) \<in> set (k_names k)" "x \<in> set (file_cuts t)"
    "y \<in> set (file_cuts (map_option (\<lambda>i. k_logs k ! i) j))" using k(1) by (auto simp: power_states_iff)
  have "x = f_tmp w" if "t = k_tmp k" using that t(2) assms(2) k(4)
    by (cases "k_tmp k") (simp_all add: file_cuts_def cuts_settled)
  moreover have "\<exists>n. file_bytes y = take n (file_bytes (f_oplog w))" if "j = i"
    using cut_log [OF t(3)] that k(3) by (simp add: option.map_comp o_def)
  ultimately show "(x, y) \<in> set (power_states True k) \<or> (x = f_tmp w \<and> (\<exists>n. file_bytes y = take n (file_bytes (f_oplog w))))"
    using t power_statesI [of t j k x y] by blast
qed

lemma step_RemoveLog:
  assumes "stored w k"
  shows "stored (w\<lparr>f_oplog := None\<rparr>) (disk_step True RemoveLog k)"
    and "(x, y) \<in> set (power_states True (disk_step True RemoveLog k)) \<Longrightarrow> (x, y) \<in> set (power_states True k) \<or>
      (x = f_snapshot w \<and> y = None)"
proof -
  from assms(1) obtain s i ns where k: "k_names k = (s, i) # ns" "pred_option (\<lambda>f. snd f = length (fst f)) s"
    "f_snapshot w = map_option fst s" by (elim storedE)
  show "stored (w\<lparr>f_oplog := None\<rparr>) (disk_step True RemoveLog k)"
    using assms k by (simp add: stored_def shows_files_def disk_ok_def)
  have "x = f_snapshot w" if "x \<in> set (file_cuts s)" for x using that k(2,3)
    by (cases s) (simp_all add: file_cuts_def cuts_settled)
  then show "(x, y) \<in> set (power_states True k) \<or> (x = f_snapshot w \<and> y = None)"
    if "(x, y) \<in> set (power_states True (disk_step True RemoveLog k))"
    using that k(1) by (auto simp: power_states_iff)
qed

lemma mounted_stored:
  "stored (mounted s l t) (disk_of True (calls (mounted s l t)))" "set (power_left True (mounted s l t)) = {(s, l)}"
  by (cases s; cases l; cases t; simp add: mounted_def stored_def shows_files_def disk_ok_def settled_def power_left_def
      power_states_def bindings_def file_cuts_def)+

lemma empty_stored:
  "stored empty_dir (disk_of True (calls empty_dir))" "set (power_left True empty_dir) = {(None, None)}"
  by (simp_all add: empty_dir_def stored_def shows_files_def disk_ok_def disk_init_def power_left_def
      power_states_def bindings_def file_cuts_def)

section \<open>The contract of a store that syncs\<close>

text \<open>
  What a power failure leaves is a snapshot and records. After an append that reports success it is exactly what
  the store holds; whatever the append reports, what it leaves was left before, perhaps with the new record
  behind it. A snapshot adds itself with some of the records it covers.
\<close>

locale power_store = durable_store append_rec put_snap recs snap clean whole
  for append_rec :: "u64 \<Rightarrow> bytes \<Rightarrow> (unit, 'd) io" and put_snap :: "bytes \<Rightarrow> (unit, 'd) io"
    and recs :: "'d \<Rightarrow> (u64 \<times> bytes) list" and snap :: "'d \<Rightarrow> bytes option"
    and clean :: "'d \<Rightarrow> bool" and whole :: "'d \<Rightarrow> bool" +
  fixes ready :: "'d \<Rightarrow> bool"
    and left :: "'d \<Rightarrow> (bytes option \<times> (u64 \<times> bytes) list) set"
  assumes append_ready: "ready d \<Longrightarrow> append_rec ts b d = (res, d') \<Longrightarrow> ready d'"
    and put_ready: "ready d \<Longrightarrow> put_snap b d = (res, d') \<Longrightarrow> ready d'"
    and append_left: "ready d \<Longrightarrow> clean d \<Longrightarrow> rec_ok (ts, b) \<Longrightarrow> append_rec ts b d = (res, d') \<Longrightarrow> (s, r) \<in> left d' \<Longrightarrow>
      \<exists>r0. (s, r0) \<in> left d \<and> (r = r0 \<or> r = r0 @ [(ts, b)])"
    and append_synced: "ready d \<Longrightarrow> append_rec ts b d = (Inr (), d') \<Longrightarrow> left d' = {(snap d', recs d')}"
    and put_left: "ready d \<Longrightarrow> put_snap b d = (res, d') \<Longrightarrow> (s, r) \<in> left d' \<Longrightarrow>
      (s, r) \<in> left d \<or> (s = Some b \<and> prefix r (recs d))"
begin

lemma persist_ready: "ready d \<Longrightarrow> persist ts r sn d = (res, d') \<Longrightarrow> ready d'"
  unfolding persist_def
  by (elim io_bindE) (auto simp: io_return_def split: option.splits intro: append_ready put_ready)

text \<open>After a delivery that fails, what is left may lack the record; after one that is acknowledged it never does.\<close>

lemma persist_left:
  assumes "ready d" "clean d" "rec_ok (ts, b)" "persist ts b sn d = (res, d')" "(s, r) \<in> left d'"
  shows "(\<exists>r0. (s, r0) \<in> left d \<and> (r = r0 \<or> r = r0 @ [(ts, b)])) \<or>
    (\<exists>z. sn = Some z \<and> s = Some z \<and> prefix r (recs d @ [(ts, b)]))"
  using assms(4) unfolding persist_def
proof (cases rule: io_bindE)
  case (err e)
  then show ?thesis using append_left assms by blast
next
  case (step u d1)
  have d1: "ready d1" "recs d1 = recs d @ [(ts, b)]"
    using append_ready append_ok [of d ts b d1] step(1) assms(1-3) by auto
  from step(2) assms(5) consider "(s, r) \<in> left d1" | z where "sn = Some z" "s = Some z" "prefix r (recs d1)"
    using put_left [OF d1(1), of _ res d' s r] by (cases sn) (auto simp: io_return_def)
  then show ?thesis using append_left [OF assms(1-3) step(1)] d1(2) by cases auto
qed

lemma persist_synced:
  assumes "ready d" "clean d" "rec_ok (ts, b)" "persist ts b sn d = (Inr (), d')" "(s, r) \<in> left d'"
  shows "(s = snap d \<and> r = recs d @ [(ts, b)]) \<or> (\<exists>z. sn = Some z \<and> s = Some z \<and> prefix r (recs d @ [(ts, b)]))"
proof -
  from assms(4) obtain d1 where d1: "append_rec ts b d = (Inr (), d1)"
      and rest: "(case sn of None \<Rightarrow> io_return () | Some b \<Rightarrow> put_snap b) d1 = (Inr (), d')"
    unfolding persist_def by (cases rule: io_bindE) auto
  have a: "recs d1 = recs d @ [(ts, b)]" "snap d1 = snap d" "ready d1" "left d1 = {(snap d1, recs d1)}"
    using append_ok [OF assms(2,3) d1] append_snap [OF d1] append_ready [OF assms(1) d1] append_synced [OF assms(1) d1]
    by auto
  show ?thesis
  proof (cases sn)
    case None
    then show ?thesis using rest a assms(5) by (simp add: io_return_def)
  next
    case (Some z)
    then show ?thesis using rest a put_left [OF a(3) _ assms(5), of z] by auto
  qed
qed

end

subsection \<open>The files implement it\<close>

definition power_ok :: "durable \<Rightarrow> bool" where
  "power_ok d \<longleftrightarrow> d_fsync d \<and> (d_log d \<longrightarrow> f_oplog (d_dir d) \<noteq> None) \<and> stored (d_dir d) (disk_of True (calls (d_dir d)))"

definition dur_left :: "durable \<Rightarrow> (bytes option \<times> (u64 \<times> bytes) list) set" where
  "dur_left d = (\<lambda>(s, l). (s, parse_log (file_bytes l))) ` set (power_left True (d_dir d))"

lemma open_power:
  assumes "power_ok d" "(if d_log d then (Inr (), d) else io_bind sys_open_append (\<lambda>_. cache_handle) d) = (res, d')"
  shows "power_ok d'" and "res = Inr () \<Longrightarrow> f_oplog (d_dir d') = Some (file_bytes (f_oplog (d_dir d)))"
    and "(x, y) \<in> set (power_left True (d_dir d')) \<Longrightarrow>
      \<exists>y0. (x, y0) \<in> set (power_left True (d_dir d)) \<and> file_bytes y = file_bytes y0"
proof -
  let ?k = "disk_of True (calls (d_dir d))"
  have st: "stored (d_dir d) ?k" using assms(1) by (simp add: power_ok_def)
  note o = step_OpenLog [OF st]
  have "power_ok d' \<and> (res = Inr () \<longrightarrow> f_oplog (d_dir d') = Some (file_bytes (f_oplog (d_dir d)))) \<and>
    (\<forall>x y. (x, y) \<in> set (power_left True (d_dir d')) \<longrightarrow>
      (\<exists>y0. (x, y0) \<in> set (power_left True (d_dir d)) \<and> file_bytes y = file_bytes y0))"
  proof (cases "d_log d")
    case True
    then show ?thesis using assms by (auto simp: power_ok_def file_bytes_def)
  next
    case False
    with assms(2) have "io_bind sys_open_append (\<lambda>_. cache_handle) d = (res, d')" by simp
    then show ?thesis
    proof (cases rule: io_bindE)
      case (err e)
      from err(1) have "calls (d_dir d') = calls (d_dir d)" "f_oplog (d_dir d') = f_oplog (d_dir d)" "d_log d' = d_log d"
        "power_ok d'" using assms(1) unfolding sys_open_append_def by (auto elim!: syscallE simp: power_ok_def)
      then show ?thesis using err(2) by (auto simp: power_left_def)
    next
      case (step u d1)
      from step(1) have d1: "calls (d_dir d1) = OpenLog # calls (d_dir d)" "f_tmp (d_dir d1) = f_tmp (d_dir d)"
        "f_oplog (d_dir d1) = Some (file_bytes (f_oplog (d_dir d)))" "f_snapshot (d_dir d1) = f_snapshot (d_dir d)"
        "d_fsync d1 = d_fsync d"
        unfolding sys_open_append_def by (auto elim!: syscallE)
      have d': "d' = d1\<lparr>d_log := True\<rparr>" "res = Inr ()" using step(2) by (auto simp: cache_handle_def)
      have "stored (d_dir d1) (disk_of True (calls (d_dir d1)))"
        unfolding d1(1) disk_of.simps using o(1) by (rule stored_cong) (simp_all add: d1)
      then show ?thesis using assms(1) o(2) d1 d' by (force simp: power_ok_def power_left_def file_bytes_def simp del: disk_step.simps)
    qed
  qed
  then show "power_ok d'" "res = Inr () \<Longrightarrow> f_oplog (d_dir d') = Some (file_bytes (f_oplog (d_dir d)))"
    "(x, y) \<in> set (power_left True (d_dir d')) \<Longrightarrow>
      \<exists>y0. (x, y0) \<in> set (power_left True (d_dir d)) \<and> file_bytes y = file_bytes y0" by auto
qed

lemma write_log_power:
  assumes "power_ok d" "f_oplog (d_dir d) = Some raw" "sys_write_log b d = (res, d')"
  shows "power_ok d'" and "\<exists>m. f_oplog (d_dir d') = Some (raw @ take m b)"
    and "(x, y) \<in> set (power_left True (d_dir d')) \<Longrightarrow> (x, y) \<in> set (power_left True (d_dir d)) \<or>
      (\<exists>m. y = Some (raw @ take m b) \<and> (x, Some raw) \<in> set (power_left True (d_dir d)))"
proof -
  have st: "stored (d_dir d) (disk_of True (calls (d_dir d)))" using assms(1) by (simp add: power_ok_def)
  from assms(3) obtain m where d': "calls (d_dir d') = WriteLog (take m b) # calls (d_dir d)" "f_tmp (d_dir d') = f_tmp (d_dir d)"
    "f_oplog (d_dir d') = Some (raw @ take m b)" "f_snapshot (d_dir d') = f_snapshot (d_dir d)" "d_fsync d' = d_fsync d"
    unfolding sys_write_log_def
    by (elim syscallE) (auto simp: assms(2) file_bytes_def intro: that that [of "length b"])
  note w = step_WriteLog [OF st assms(2), where b = "take m b"]
  have "stored (d_dir d') (disk_of True (calls (d_dir d')))"
    unfolding d'(1) disk_of.simps using w(1) by (rule stored_cong) (simp_all add: d')
  then show "power_ok d'" using assms(1) d' by (simp add: power_ok_def)
  show "\<exists>m. f_oplog (d_dir d') = Some (raw @ take m b)" using d'(3) by blast
  show "(x, y) \<in> set (power_left True (d_dir d)) \<or>
      (\<exists>m. y = Some (raw @ take m b) \<and> (x, Some raw) \<in> set (power_left True (d_dir d)))"
    if "(x, y) \<in> set (power_left True (d_dir d'))"
    using w(2) [of x y] that by (auto simp: power_left_def d'(1) min_def simp del: disk_step.simps)
qed

lemma sync_log_power:
  assumes "power_ok d" "f_oplog (d_dir d) = Some raw" "sync_if_fsync SyncLog d = (res, d')"
  shows "power_ok d'" and "set (power_left True (d_dir d')) \<subseteq> set (power_left True (d_dir d))"
    and "res = Inr () \<Longrightarrow> set (power_left True (d_dir d')) = {(f_snapshot (d_dir d'), f_oplog (d_dir d'))}"
proof -
  have st: "stored (d_dir d) (disk_of True (calls (d_dir d)))" using assms(1) by (simp add: power_ok_def)
  note w = step_SyncLog [OF st assms(2)]
  have now: "(f_snapshot (d_dir d), f_oplog (d_dir d)) \<in> set (power_left True (d_dir d))"
    using st power_states_now by (simp add: stored_def power_left_def)
  have "sys_sync_all SyncLog d = (res, d')" using assms(1,3) by (simp add: sync_if_fsync_def power_ok_def)
  then have "power_ok d' \<and> set (power_left True (d_dir d')) \<subseteq> set (power_left True (d_dir d)) \<and>
    (res = Inr () \<longrightarrow> set (power_left True (d_dir d')) = {(f_snapshot (d_dir d'), f_oplog (d_dir d'))})"
    unfolding sys_sync_all_def
  proof (cases rule: syscallE)
    case (finished u)
    then show ?thesis using assms(1) w now by (auto simp: power_ok_def power_left_def simp del: disk_step.simps)
  next
    case (failed u n)
    then show ?thesis using assms(1) by (simp add: power_ok_def power_left_def)
  qed
  then show "power_ok d'" "set (power_left True (d_dir d')) \<subseteq> set (power_left True (d_dir d))"
    "res = Inr () \<Longrightarrow> set (power_left True (d_dir d')) = {(f_snapshot (d_dir d'), f_oplog (d_dir d'))}" by auto
qed

lemma append_power:
  assumes "power_ok d" "dur_append ts b d = (res, d')"
  shows "power_ok d'" and "res = Inr () \<Longrightarrow> set (power_left True (d_dir d')) = {(f_snapshot (d_dir d'), f_oplog (d_dir d'))}"
    and "(x, y) \<in> set (power_left True (d_dir d')) \<Longrightarrow> \<exists>y0. (x, y0) \<in> set (power_left True (d_dir d)) \<and>
      (file_bytes y = file_bytes y0 \<or> (file_bytes y0 = file_bytes (f_oplog (d_dir d)) \<and>
        (\<exists>m. file_bytes y = file_bytes y0 @ take m (log_record (ts, b)))))"
proof -
  let ?raw = "file_bytes (f_oplog (d_dir d))" and ?rec = "log_record (ts, b)"
  have "power_ok d' \<and> (res = Inr () \<longrightarrow> set (power_left True (d_dir d')) = {(f_snapshot (d_dir d'), f_oplog (d_dir d'))}) \<and>
    (\<forall>x y. (x, y) \<in> set (power_left True (d_dir d')) \<longrightarrow> (\<exists>y0. (x, y0) \<in> set (power_left True (d_dir d)) \<and>
      (file_bytes y = file_bytes y0 \<or> (file_bytes y0 = ?raw \<and> (\<exists>m. file_bytes y = file_bytes y0 @ take m ?rec)))))"
    using assms(2) unfolding dur_append_def
  proof (cases rule: io_bindE)
    case (err e)
    then show ?thesis using open_power [OF assms(1) err(1)] by blast
  next
    case (step u d1)
    note o = open_power [OF assms(1) step(1)]
    have log: "f_oplog (d_dir d1) = Some ?raw" using o(2) by simp
    from step(2) show ?thesis
    proof (cases rule: io_bindE)
      case (err e)
      note wr = write_log_power [OF o(1) log err(1)]
      show ?thesis using wr(1,3) o(3) err(2) by (fastforce simp: file_bytes_def)
    next
      case (step v d2)
      note wr = write_log_power [OF o(1) log step(1)]
      from wr(2) obtain raw' where "f_oplog (d_dir d2) = Some raw'" by blast
      note sy = sync_log_power [OF wr(1) this step(2)]
      show ?thesis using wr(3) o(3) sy by (fastforce simp: file_bytes_def)
    qed
  qed
  then show "power_ok d'" "res = Inr () \<Longrightarrow> set (power_left True (d_dir d')) = {(f_snapshot (d_dir d'), f_oplog (d_dir d'))}"
    "(x, y) \<in> set (power_left True (d_dir d')) \<Longrightarrow> \<exists>y0. (x, y0) \<in> set (power_left True (d_dir d)) \<and>
      (file_bytes y = file_bytes y0 \<or> (file_bytes y0 = ?raw \<and> (\<exists>m. file_bytes y = file_bytes y0 @ take m ?rec)))" by auto
qed

text \<open>Up to the rename a snapshot only adds to the temporary file.\<close>

definition no_more :: "durable \<Rightarrow> durable \<Rightarrow> bool" where
  "no_more d d' \<longleftrightarrow> power_ok d' \<and> set (power_left True (d_dir d')) \<subseteq> set (power_left True (d_dir d)) \<and>
     f_oplog (d_dir d') = f_oplog (d_dir d)"

lemma no_more_trans: "no_more a b \<Longrightarrow> no_more b c \<Longrightarrow> no_more a c"
  by (auto simp: no_more_def)

lemma create_tmp_power:
  assumes "power_ok d" "sys_create_tmp d = (res, d')"
  shows "no_more d d'" and "res = Inr () \<Longrightarrow> f_tmp (d_dir d') = Some []"
proof -
  have st: "stored (d_dir d) (disk_of True (calls (d_dir d)))" using assms(1) by (simp add: power_ok_def)
  note c = step_CreateTmp [OF st]
  from assms(2) have "no_more d d' \<and> (res = Inr () \<longrightarrow> f_tmp (d_dir d') = Some [])" unfolding sys_create_tmp_def
  proof (cases rule: syscallE)
    case (finished w)
    then have "stored (d_dir d') (disk_step True CreateTmp (disk_of True (calls (d_dir d))))"
      by (intro stored_cong [OF c(1)]) simp_all
    then show ?thesis using finished assms(1) c(2) by (simp add: no_more_def power_ok_def power_left_def del: disk_step.simps)
  qed (use assms(1) in \<open>simp add: no_more_def power_ok_def power_left_def\<close>)
  then show "no_more d d'" "res = Inr () \<Longrightarrow> f_tmp (d_dir d') = Some []" by auto
qed

lemma write_tmp_power:
  assumes "power_ok d" "f_tmp (d_dir d) = Some c" "sys_write_tmp b d = (res, d')"
  shows "no_more d d'" and "res = Inr () \<Longrightarrow> f_tmp (d_dir d') = Some (c @ b)"
proof -
  have st: "stored (d_dir d) (disk_of True (calls (d_dir d)))" using assms(1) by (simp add: power_ok_def)
  from assms(3) obtain m where d': "calls (d_dir d') = WriteTmp (take m b) # calls (d_dir d)" "f_tmp (d_dir d') = Some (c @ take m b)"
    "f_oplog (d_dir d') = f_oplog (d_dir d)" "f_snapshot (d_dir d') = f_snapshot (d_dir d)" "d_fsync d' = d_fsync d" "d_log d' = d_log d"
    and all: "res = Inr () \<Longrightarrow> take m b = b"
    unfolding sys_write_tmp_def by (elim syscallE) (auto simp: assms(2) file_bytes_def intro: that that [of "length b"])
  note w = step_WriteTmp [OF st assms(2), where b = "take m b"]
  have "stored (d_dir d') (disk_of True (calls (d_dir d')))"
    unfolding d'(1) disk_of.simps using w(1) by (rule stored_cong) (simp_all add: d')
  then show "no_more d d'" using assms(1) w(2) d' by (simp add: no_more_def power_ok_def power_left_def del: disk_step.simps)
  show "res = Inr () \<Longrightarrow> f_tmp (d_dir d') = Some (c @ b)" using d' all by simp
qed

lemma sync_tmp_power:
  assumes "power_ok d" "sync_if_fsync SyncTmp d = (res, d')"
  shows "no_more d d'" and "f_tmp (d_dir d') = f_tmp (d_dir d)"
    and "res = Inr () \<Longrightarrow> pred_option (\<lambda>f. snd f = length (fst f)) (k_tmp (disk_of True (calls (d_dir d'))))"
proof -
  have st: "stored (d_dir d) (disk_of True (calls (d_dir d)))" using assms(1) by (simp add: power_ok_def)
  note w = step_SyncTmp [OF st]
  have "sys_sync_all SyncTmp d = (res, d')" using assms by (simp add: sync_if_fsync_def power_ok_def)
  then have "no_more d d' \<and> f_tmp (d_dir d') = f_tmp (d_dir d) \<and>
    (res = Inr () \<longrightarrow> pred_option (\<lambda>f. snd f = length (fst f)) (k_tmp (disk_of True (calls (d_dir d')))))"
    unfolding sys_sync_all_def
  proof (cases rule: syscallE)
    case (finished u)
    then show ?thesis using assms(1) w by (simp add: no_more_def power_ok_def power_left_def del: disk_step.simps)
  qed (use assms(1) in \<open>simp add: no_more_def power_ok_def power_left_def\<close>)
  then show "no_more d d'" "f_tmp (d_dir d') = f_tmp (d_dir d)"
    "res = Inr () \<Longrightarrow> pred_option (\<lambda>f. snd f = length (fst f)) (k_tmp (disk_of True (calls (d_dir d'))))" by auto
qed

lemma rename_power:
  assumes "power_ok d" "pred_option (\<lambda>f. snd f = length (fst f)) (k_tmp (disk_of True (calls (d_dir d))))"
    and "sys_rename d = (res, d')"
  shows "power_ok d'" and "f_oplog (d_dir d') = f_oplog (d_dir d)" "res = Inr () \<Longrightarrow> f_snapshot (d_dir d') = f_tmp (d_dir d)"
    and "(x, y) \<in> set (power_left True (d_dir d')) \<Longrightarrow> (x, y) \<in> set (power_left True (d_dir d)) \<or>
      (x = f_tmp (d_dir d) \<and> (\<exists>n. file_bytes y = take n (file_bytes (f_oplog (d_dir d)))))"
proof -
  have st: "stored (d_dir d) (disk_of True (calls (d_dir d)))" using assms(1) by (simp add: power_ok_def)
  note w = step_RenameTmp [OF st assms(2)]
  from assms(3) have "power_ok d' \<and> f_oplog (d_dir d') = f_oplog (d_dir d) \<and>
    (res = Inr () \<longrightarrow> f_snapshot (d_dir d') = f_tmp (d_dir d)) \<and> (\<forall>x y. (x, y) \<in> set (power_left True (d_dir d')) \<longrightarrow>
      (x, y) \<in> set (power_left True (d_dir d)) \<or>
      (x = f_tmp (d_dir d) \<and> (\<exists>n. file_bytes y = take n (file_bytes (f_oplog (d_dir d))))))" unfolding sys_rename_def
  proof (cases rule: syscallE)
    case (finished u)
    then have "stored (d_dir d') (disk_step True RenameTmp (disk_of True (calls (d_dir d))))"
      by (intro stored_cong [OF w(1)]) simp_all
    then show ?thesis using finished assms(1) w(2) by (simp add: power_ok_def power_left_def del: disk_step.simps)
  qed (use assms(1) in \<open>simp add: power_ok_def power_left_def\<close>)
  then show "power_ok d'" "f_oplog (d_dir d') = f_oplog (d_dir d)" "res = Inr () \<Longrightarrow> f_snapshot (d_dir d') = f_tmp (d_dir d)"
    "(x, y) \<in> set (power_left True (d_dir d')) \<Longrightarrow> (x, y) \<in> set (power_left True (d_dir d)) \<or>
      (x = f_tmp (d_dir d) \<and> (\<exists>n. file_bytes y = take n (file_bytes (f_oplog (d_dir d)))))" by auto
qed

lemma remove_power:
  assumes "power_ok d" "\<not> d_log d" "io_ignore sys_remove_log d = (res, d')"
  shows "power_ok d'" and "(x, y) \<in> set (power_left True (d_dir d')) \<Longrightarrow> (x, y) \<in> set (power_left True (d_dir d)) \<or>
      (x = f_snapshot (d_dir d) \<and> y = None)"
proof -
  have st: "stored (d_dir d) (disk_of True (calls (d_dir d)))" using assms(1) by (simp add: power_ok_def)
  note w = step_RemoveLog [OF st]
  obtain r where "sys_remove_log d = (r, d')" using assms(3) by (cases "sys_remove_log d") (simp add: io_ignore_def)
  then have "power_ok d' \<and> (\<forall>x y. (x, y) \<in> set (power_left True (d_dir d')) \<longrightarrow> (x, y) \<in> set (power_left True (d_dir d)) \<or>
      (x = f_snapshot (d_dir d) \<and> y = None))" unfolding sys_remove_log_def
  proof (cases rule: syscallE)
    case (finished u)
    then have "stored (d_dir d') (disk_step True RemoveLog (disk_of True (calls (d_dir d))))"
      by (intro stored_cong [OF w(1)]) simp_all
    then show ?thesis using finished assms(1,2) w(2) by (simp add: power_ok_def power_left_def del: disk_step.simps)
  qed (use assms(1) in \<open>simp add: power_ok_def power_left_def\<close>)
  then show "power_ok d'" "(x, y) \<in> set (power_left True (d_dir d')) \<Longrightarrow> (x, y) \<in> set (power_left True (d_dir d)) \<or>
      (x = f_snapshot (d_dir d) \<and> y = None)" by auto
qed

lemma snapshot_power:
  assumes "power_ok d" "write_snapshot b d = (res, d')"
  shows "power_ok d'" and "(x, y) \<in> set (power_left True (d_dir d')) \<Longrightarrow> (x, y) \<in> set (power_left True (d_dir d)) \<or>
      (x = Some b \<and> (\<exists>n. file_bytes y = take n (file_bytes (f_oplog (d_dir d)))))"
proof -
  let ?new = "\<lambda>d' :: durable. \<forall>x y. (x, y) \<in> set (power_left True (d_dir d')) \<longrightarrow> (x, y) \<in> set (power_left True (d_dir d)) \<or>
      (x = Some b \<and> (\<exists>n. file_bytes y = take n (file_bytes (f_oplog (d_dir d)))))"
  have quiet: "power_ok d' \<and> ?new d'" if "no_more d d'" for d' using that by (auto simp: no_more_def)
  have "power_ok d' \<and> ?new d'"
    using assms(2) unfolding write_snapshot_def
  proof (cases rule: io_bindE)
    case (err e)
    then show ?thesis using quiet create_tmp_power(1) [OF assms(1) err(1)] by blast
  next
    case (step u1 d1)
    note c = create_tmp_power [OF assms(1) step(1)]
    have ok1: "power_ok d1" "f_tmp (d_dir d1) = Some []" using c by (auto simp: no_more_def)
    from step(2) show ?thesis
    proof (cases rule: io_bindE)
      case (err e)
      then show ?thesis using quiet no_more_trans [OF c(1)] write_tmp_power(1) [OF ok1 err(1)] by blast
    next
      case (step u2 d2)
      note w = write_tmp_power [OF ok1 step(1)]
      have ok2: "power_ok d2" "f_tmp (d_dir d2) = Some b" using w by (auto simp: no_more_def)
      from step(2) show ?thesis
      proof (cases rule: io_bindE)
        case (err e)
        then show ?thesis using quiet no_more_trans [OF no_more_trans [OF c(1) w(1)]] sync_tmp_power(1) [OF ok2(1) err(1)] by blast
      next
        case (step u3 d3)
        note y = sync_tmp_power [OF ok2(1) step(1)]
        have nm: "no_more d d3" using no_more_trans c(1) w(1) y(1) by blast
        then have ok3: "power_ok d3" "f_tmp (d_dir d3) = Some b" "f_oplog (d_dir d3) = f_oplog (d_dir d)"
          using y(2) ok2 by (auto simp: no_more_def)
        from step(2) show ?thesis
        proof (cases rule: io_bindE)
          case (err e)
          note r = rename_power [OF ok3(1) y(3) err(1)]
          show ?thesis using r(1,4) nm ok3 by (auto simp: no_more_def)
        next
          case (step u4 d4)
          note r = rename_power [OF ok3(1) y(3) step(1)]
          have ok4: "power_ok (d4\<lparr>d_log := False\<rparr>)" using r(1) by (simp add: power_ok_def)
          from step(2) have "io_ignore sys_remove_log (d4\<lparr>d_log := False\<rparr>) = (res, d')"
            by (simp add: drop_handle_def io_bind_def)
          note m = remove_power [OF ok4 _ this]
          show ?thesis using m r(3,4) nm ok3 by (fastforce simp: no_more_def file_bytes_def)
        qed
      qed
    qed
  qed
  then show "power_ok d'" "(x, y) \<in> set (power_left True (d_dir d')) \<Longrightarrow> (x, y) \<in> set (power_left True (d_dir d)) \<or>
      (x = Some b \<and> (\<exists>n. file_bytes y = take n (file_bytes (f_oplog (d_dir d)))))" by auto
qed

text \<open>The records of a log cut short are a prefix of its records.\<close>

lemma parse_log_take: "prefix (parse_log (take n raw)) (parse_log raw)"
proof (induction raw arbitrary: n rule: parse_log.induct)
  case (1 raw)
  let ?n = "nat (le_val (take 4 (drop 8 raw)))"
  show ?case
  proof (cases "length (take n raw) < 12 \<or> length (drop 12 (take n raw)) < nat (le_val (take 4 (drop 8 (take n raw))))")
    case True
    then show ?thesis by (auto simp: parse_log.simps [of "take n raw"])
  next
    case False
    then have len: "12 \<le> n" "\<not> length raw < 12" by auto
    then have same: "take 4 (drop 8 (take n raw)) = take 4 (drop 8 raw)" "take 8 (take n raw) = take 8 raw"
      "drop 12 (take n raw) = take (n - 12) (drop 12 raw)" by (simp_all add: drop_take)
    with False have l2: "\<not> length (drop 12 raw) < ?n" "?n \<le> n - 12" by auto
    then have "take ?n (take (n - 12) (drop 12 raw)) = take ?n (drop 12 raw)"
      "drop ?n (take (n - 12) (drop 12 raw)) = take (n - 12 - ?n) (drop ?n (drop 12 raw))" by (simp_all add: drop_take min_def)
    then show ?thesis using False same len(2) l2 1 [OF len(2) l2(1), of "n - 12 - ?n"]
      by (simp only: parse_log.simps [of raw] parse_log.simps [of "take n raw"] if_False same de_Morgan_disj) simp
  qed
qed

interpretation ps: power_store dur_append write_snapshot dur_records dur_snap dur_clean dur_whole power_ok dur_left
proof
  fix d d' :: durable and ts b res s r
  assume ok: "power_ok d"
  show "dur_append ts b d = (res, d') \<Longrightarrow> power_ok d'" by (rule append_power(1) [OF ok])
  show "write_snapshot b d = (res, d') \<Longrightarrow> power_ok d'" by (rule snapshot_power(1) [OF ok])
  show "dur_append ts b d = (Inr (), d') \<Longrightarrow> dur_left d' = {(dur_snap d', dur_records d')}"
    using append_power(2) [OF ok, of ts b "Inr ()" d'] by (simp add: dur_left_def dur_snap_def dur_records_def)
  show "(s, r) \<in> dur_left d \<or> (s = Some b \<and> prefix r (dur_records d))"
    if "write_snapshot b d = (res, d')" "(s, r) \<in> dur_left d'"
    using that(2) snapshot_power(2) [OF ok that(1)] parse_log_take by (force simp: dur_left_def dur_records_def)
  assume c: "dur_clean d" "rec_ok (ts, b)" and a: "dur_append ts b d = (res, d')" and l: "(s, r) \<in> dur_left d'"
  from l obtain y where y: "(s, y) \<in> set (power_left True (d_dir d'))" "r = parse_log (file_bytes y)" by (auto simp: dur_left_def)
  from append_power(3) [OF ok a y(1)] obtain y0 where y0: "(s, y0) \<in> set (power_left True (d_dir d))"
    and cases: "file_bytes y = file_bytes y0 \<or> (file_bytes y0 = file_bytes (f_oplog (d_dir d)) \<and>
        (\<exists>m. file_bytes y = file_bytes y0 @ take m (log_record (ts, b))))" by blast
  have "parse_log (file_bytes (f_oplog (d_dir d)) @ take m (log_record (ts, b))) \<in>
      {parse_log (file_bytes (f_oplog (d_dir d))), parse_log (file_bytes (f_oplog (d_dir d))) @ [(ts, b)]}" for m
    using append_records(1) [OF c, of "d\<lparr>d_dir := (d_dir d)\<lparr>f_oplog := Some (file_bytes (f_oplog (d_dir d)) @ take m (log_record (ts, b)))\<rparr>\<rparr>" m]
    by (simp add: dur_records_def file_bytes_def split: if_splits)
  then have "r = parse_log (file_bytes y0) \<or> r = parse_log (file_bytes y0) @ [(ts, b)]" using cases y(2) by force
  then show "\<exists>r0. (s, r0) \<in> dur_left d \<and> (r = r0 \<or> r = r0 @ [(ts, b)])" using y0 by (force simp: dur_left_def)
qed

end
