(* ===== verification/OB_Power.thy ===== *)
theory OB_Power
  imports OB_Stable OB_Transfer
begin

text \<open>
  The histories of a node with power failures: the engine runs on the files of \<open>durable.rs\<close>, and at any time the
  machine may lose power and find what stable storage kept. With \<open>fsync\<close> and a journaling file system
  every state it can find describes a history that keeps the acknowledged deliveries; without either
  the empty directory is always among them.
\<close>

section \<open>A node through power failures\<close>

fun node_dir :: "'s node \<Rightarrow> directory" where
  "node_dir (Up e) = d_dir (e_dur e)"
| "node_dir (Down w) = w"

inductive power_run :: "'s sm_ops \<Rightarrow> ('s engine \<Rightarrow> op \<Rightarrow> bool) \<Rightarrow> ('s engine \<Rightarrow> bool) \<Rightarrow> u64 \<Rightarrow> bool \<Rightarrow> bool \<Rightarrow> event list \<Rightarrow> 's node \<Rightarrow> bool"
  for sm adm fits interval fsync journal where
  create: "engine_create sm (empty_dir\<lparr>outcomes := os\<rparr>) interval fsync = (Inr (), e) \<Longrightarrow>
     power_run sm adm fits interval fsync journal [] (Up e)"
| step: "power_run sm adm fits interval fsync journal evs n \<Longrightarrow> node_step sm adm fits interval fsync n new n' \<Longrightarrow>
     power_run sm adm fits interval fsync journal (evs @ new) n'"
| power: "power_run sm adm fits interval fsync journal evs n \<Longrightarrow> (s, l) \<in> set (power_left journal (node_dir n)) \<Longrightarrow>
     power_run sm adm fits interval fsync journal evs (Down (mounted s l t))"

definition left_inv :: "'s sm_ops \<Rightarrow> event list \<Rightarrow> (bytes option \<times> (u64 \<times> bytes) list) set \<Rightarrow> bool" where
  "left_inv sm evs lft \<longleftrightarrow> (\<forall>(s, r) \<in> lft. \<exists>h. leaves evs h \<and> replay_core sm (load_core sm s) r = run_core sm (init_core sm) h)"

fun power_inv :: "'s sm_ops \<Rightarrow> event list \<Rightarrow> 's node \<Rightarrow> bool" where
  "power_inv sm evs (Up e) \<longleftrightarrow> node_inv sm evs (Up e) \<and> power_ok (e_dur e) \<and> left_inv sm evs (dur_left (e_dur e))"
| "power_inv sm evs (Down w) \<longleftrightarrow> node_inv sm evs (Down w) \<and> power_ok ((as_dur w)\<lparr>d_fsync := True\<rparr>) \<and>
     left_inv sm evs (dur_left (as_dur w))"

lemma left_invD:
  "left_inv sm evs lft \<Longrightarrow> (s, r) \<in> lft \<Longrightarrow> \<exists>h. leaves evs h \<and> replay_core sm (load_core sm s) r = run_core sm (init_core sm) h"
  by (auto simp: left_inv_def)

lemma as_dur_left [simp]: "dur_left (as_dur (d_dir d)) = dur_left d"
  by (simp add: dur_left_def as_dur_def)

lemma dur_left_calls: "calls (d_dir d') = calls (d_dir d) \<Longrightarrow> dur_left d' = dur_left d"
  by (simp add: dur_left_def power_left_def)

lemma power_ok_same:
  "calls (d_dir d') = calls (d_dir d) \<Longrightarrow> f_snapshot (d_dir d') = f_snapshot (d_dir d) \<Longrightarrow> f_oplog (d_dir d') = f_oplog (d_dir d) \<Longrightarrow>
   f_tmp (d_dir d') = f_tmp (d_dir d) \<Longrightarrow> d_fsync d' = d_fsync d \<Longrightarrow> d_log d' \<longrightarrow> d_log d \<Longrightarrow> power_ok d \<Longrightarrow> power_ok d'"
  by (auto simp: power_ok_def intro: stored_cong)

lemma set_outcomes_power [simp]:
  "power_ok (e_dur (set_outcomes os e)) = power_ok (e_dur e)" "dur_left (e_dur (set_outcomes os e)) = dur_left (e_dur e)"
  by (simp_all add: set_outcomes_def power_ok_def dur_left_def power_left_def)

lemma covered_prefix: "covered m rs \<Longrightarrow> prefix r rs \<Longrightarrow> covered m r"
  by (auto simp: prefix_def)

lemma engine_create_power:
  assumes "engine_create sm (empty_dir\<lparr>outcomes := os\<rparr>) interval True = (Inr (), e)"
  shows "power_inv sm [] (Up e)"
proof -
  obtain d where d: "durable_open (empty_dir\<lparr>outcomes := os\<rparr>) True = (Inr (), d)" and e: "e = new_engine sm d interval"
    using assms by (auto simp: engine_create_def split: prod.splits)
  have c: "calls (d_dir d) = calls empty_dir" "f_snapshot (d_dir d) = None" "f_oplog (d_dir d) = None" "f_tmp (d_dir d) = None"
    "d_fsync d" "\<not> d_log d"
    using syscall_pure [OF d [unfolded durable_open_def sys_create_dir_all_def]] by (simp_all add: empty_dir_def)
  then have "dur_left d = {(None, [])}" using empty_stored(2) by (simp add: dur_left_def power_left_def file_bytes_def)
  moreover have "power_ok d" using c stored_cong [OF empty_stored(1), of "d_dir d"] by (simp add: power_ok_def empty_dir_def)
  moreover have "e_dur e = d" by (simp add: e new_engine_def)
  ultimately show ?thesis using engine_create_inv [OF assms]
    by (simp add: left_inv_def load_core_def Let_def)
qed

lemma recover_power:
  assumes "engine_recover sm (w\<lparr>outcomes := os\<rparr>) interval True = (res, e)" "power_inv sm evs (Down w)"
  shows "power_ok (e_dur e)" and "left_inv sm evs (dur_left (e_dur e))"
proof -
  have "same_files \<lparr>d_fsync = True, d_log = False, d_dir = w\<lparr>outcomes := os\<rparr>\<rparr> (e_dur e)"
    by (rule engine_recover_cases(1) [OF assms(1) refl])
  then have c: "calls (d_dir (e_dur e)) = calls w" "f_snapshot (d_dir (e_dur e)) = f_snapshot w" "f_oplog (d_dir (e_dur e)) = f_oplog w"
    "f_tmp (d_dir (e_dur e)) = f_tmp w" "d_fsync (e_dur e)" "\<not> d_log (e_dur e)" by (simp_all add: same_files_def)
  show "power_ok (e_dur e)" using assms(2) c by (intro power_ok_same [of "e_dur e" "(as_dur w)\<lparr>d_fsync := True\<rparr>"]) (simp_all add: as_dur_def)
  show "left_inv sm evs (dur_left (e_dur e))" using assms(2) c dur_left_calls [of "e_dur e" "as_dur w"] by (simp add: as_dur_def)
qed

context state_machine
begin

text \<open>The snapshot of an engine with some of the records it covers describes that engine.\<close>

lemma snapshot_describes:
  assumes "snap_fits good e" "covered (e_applied e) rs" "prefix r rs"
  shows "replay_core sm (load_core sm (Some (encode_snapshot sm e))) r = core e"
  using covered_prefix [OF assms(2,3)] by (simp add: load_core_encode [OF assms(1)] replay_covered core_applied)

lemma deliver_power:
  assumes "\<not> op_seq op \<le> hw_get (e_applied e) (op_client op)" "intact e op"
    and "deliver sm ts op (set_outcomes os e) = (res, e')" "snap_fits good e'" "power_inv sm evs (Up e)"
    and ack: "ack \<Longrightarrow> \<exists>out. res = Inr out"
  shows "power_inv sm (evs @ [(ack, ts, op)]) (Up e')"
proof -
  let ?x = "(ts, op)" and ?d = "e_dur (set_outcomes os e)" and ?evs = "evs @ [(ack, ts, op)]"
  have ni: "node_inv sm ?evs (Up e')" using deliver_inv [OF assms(1-4) _ ack] assms(5) by simp
  from assms(3) obtain sn r where f: "core e' = core_step sm (core e) ?x" "ds.persist ts (encode op) sn ?d = (r, e_dur e')"
      "sn = None \<or> sn = Some (encode_snapshot sm e')" "res = Inr out \<Longrightarrow> r = Inr ()" for out
    using assms(1) by (cases rule: deliverE) (auto split: sum.splits)
  have ok: "power_ok ?d" "dur_clean ?d" "rec_ok (ts, encode op)" and l: "left_inv sm evs (dur_left ?d)"
    and dec: "decode (encode op) = Some op"
    using assms(2,5) op_logsD by (auto simp: intact_def)
  have m: "bt_wf (fst (snd (core e)))" "covered (e_applied e) (dur_records ?d)" "files_inv sm evs ?d"
    using assms(5) by (simp_all add: memory_inv_def files_inv_def core_applied)
  obtain g where g: "leaves ?evs g" "core e' = run_core sm (init_core sm) g" using ni by (auto simp: memory_inv_def)
  have "hw_le (e_applied e) (e_applied e')" "op_seq op \<le> hw_get (e_applied e') (op_client op)"
    using core_step_hw(2,3) [OF m(1), where sm = sm and ts = ts and op = op] f(1) by (simp_all add: core_applied)
  then have "covered (e_applied e') (dur_records ?d @ [(ts, encode op)])"
    using covered_mono m(2) dec by (simp add: covered_def [of _ "[_]"] covered_one)
  note snp = snapshot_describes [OF assms(4) this]
  have "\<exists>h. leaves ?evs h \<and> replay_core sm (load_core sm s) q = run_core sm (init_core sm) h" if q: "(s, q) \<in> dur_left (e_dur e')" for s q
  proof (cases ack)
    case False
    consider r0 where "(s, r0) \<in> dur_left ?d" "q = r0 \<or> q = r0 @ [(ts, encode op)]" | "replay_core sm (load_core sm s) q = core e'"
      using ps.persist_left [OF ok f(2) q] f(3) snp by auto
    then show ?thesis
    proof cases
      case 1
      obtain h where h: "leaves evs h" "replay_core sm (load_core sm s) r0 = run_core sm (init_core sm) h"
        using left_invD [OF l 1(1)] by blast
      show ?thesis using 1(2) run_snoc [OF h, of ack ?x] run_skip [OF h, of ?x] False dec by auto
    qed (use g in metis)
  next
    case True
    then have "ds.persist ts (encode op) sn ?d = (Inr (), e_dur e')" using ack f(2,4) by auto
    from ps.persist_synced [OF ok this q] f(3) snp
    consider "s = dur_snap ?d" "q = dur_records ?d @ [(ts, encode op)]" | "replay_core sm (load_core sm s) q = core e'" by auto
    then show ?thesis
    proof cases
      case 1
      from m(3) obtain h where h: "leaves evs h" "recovered sm ?d = run_core sm (init_core sm) h" by (auto simp: files_inv_def)
      show ?thesis using run_snoc [OF h, of ack ?x] dec 1 by (simp add: recovered_def)
    qed (use g in metis)
  qed
  then show ?thesis using ni ps.persist_ready [OF ok(1) f(2)] by (auto simp: left_inv_def)
qed

lemma snapshot_power_inv:
  assumes "snap_fits good e" "engine_snapshot sm (set_outcomes os e) = (res, e')" "power_inv sm evs (Up e)"
  shows "power_inv sm evs (Up e')"
proof -
  let ?e = "set_outcomes os e"
  have ni: "node_inv sm evs (Up e')" using snapshot_inv [OF assms(1,2)] assms(3) by simp
  from assms(2) have w: "write_snapshot (encode_snapshot sm ?e) (e_dur ?e) = (res, e_dur e')" and c: "core e' = core e"
    by (auto elim!: engine_snapshotE)
  have ok: "power_ok (e_dur ?e)" and l: "left_inv sm evs (dur_left (e_dur ?e))"
    and m: "covered (e_applied ?e) (dur_records (e_dur ?e))" "\<exists>h. leaves evs h \<and> core e = run_core sm (init_core sm) h"
    using assms(3) by (simp_all add: memory_inv_def)
  have "\<exists>h. leaves evs h \<and> replay_core sm (load_core sm s) q = run_core sm (init_core sm) h" if "(s, q) \<in> dur_left (e_dur e')" for s q
    using ps.put_left [OF ok w that] left_invD [OF l] snapshot_describes [of ?e, OF _ m(1)] assms(1) m(2) by auto
  then show ?thesis using ni ps.put_ready [OF ok w] by (auto simp: left_inv_def)
qed

lemma power_step_inv: "node_step sm intact (snap_fits good) i True n new n' \<Longrightarrow> power_inv sm evs n \<Longrightarrow> power_inv sm (evs @ new) n'"
proof (induction rule: node_step.induct)
  case (dup op e ts os res e')
  from dup(2) have "e_dur e' = e_dur (set_outcomes os e)" by (cases rule: deliverE) (use dup(1) in auto)
  then show ?case using dup dup_inv [OF dup(1,2)] by (simp del: node_inv.simps)
next
  case (crash e)
  have "power_ok ((as_dur (d_dir (e_dur e)))\<lparr>d_fsync := True\<rparr>)" using crash by (auto simp: power_ok_def as_dur_def)
  then show ?case using crash by (simp add: files_inv_as_dur)
next
  case (recover w os e)
  then show ?case using recover_inv [OF recover(1)] recover_power [OF recover] by simp
next
  case (recover_failed w os err e)
  have "power_ok ((as_dur (d_dir (e_dur e)))\<lparr>d_fsync := True\<rparr>)"
    using recover_power(1) [OF recover_failed] by (auto simp: power_ok_def as_dur_def)
  then show ?case using recover_failed(2) recover_inv [OF recover_failed(1)] recover_power(2) [OF recover_failed]
    by (simp add: files_inv_as_dur)
qed (auto intro: deliver_power snapshot_power_inv simp del: power_inv.simps)

lemma node_dir_left: "power_inv sm evs n \<Longrightarrow> left_inv sm evs (dur_left (as_dur (node_dir n)))"
  by (cases n) (simp_all add: dur_left_def as_dur_def)

lemma power_loss_inv:
  assumes "power_inv sm evs n" "(s, l) \<in> set (power_left True (node_dir n))"
  shows "power_inv sm evs (Down (mounted s l t))"
proof -
  let ?r = "parse_log (file_bytes l)"
  have "(s, ?r) \<in> dur_left (as_dur (node_dir n))" using assms(2) by (force simp: dur_left_def as_dur_def)
  then obtain h where h: "leaves evs h" "replay_core sm (load_core sm s) ?r = run_core sm (init_core sm) h"
    using left_invD [OF node_dir_left [OF assms(1)]] by blast
  have "recovered sm (as_dur (mounted s l t)) = replay_core sm (load_core sm s) ?r"
    by (simp add: recovered_def dur_snap_def dur_records_def as_dur_def mounted_def)
  moreover have "dur_left (as_dur (mounted s l t)) = {(s, ?r)}" by (simp add: dur_left_def as_dur_def mounted_stored(2))
  moreover have "power_ok ((as_dur (mounted s l t))\<lparr>d_fsync := True\<rparr>)" using mounted_stored(1) [of s l t] by (simp add: power_ok_def as_dur_def)
  ultimately show ?thesis using h by (auto simp: files_inv_def left_inv_def)
qed

lemma power_run_inv: "power_run sm intact (snap_fits good) i True True evs n \<Longrightarrow> power_inv sm evs n"
  by (induction rule: power_run.induct) (blast intro: engine_create_power power_step_inv power_loss_inv)+

end

subsection \<open>The key-value node\<close>

lemma power_run_wf: "power_run sm intact fits i fs j evs n \<Longrightarrow> list_all (\<lambda>x. wf_op (snd (snd x))) evs"
  by (induction rule: power_run.induct) (auto simp: intact_def op_logs_def elim!: node_step.cases)

lemma kv_power_fits:
  assumes "power_run kv_sm intact (\<lambda>_. True) i True True evs n" "log_bytes (map snd evs) + 4 < 2 ^ 32"
  shows "power_run kv_sm intact (snap_fits kv_good) i True True evs n"
  using assms
proof (induction rule: power_run.induct)
  case (step evs n new n')
  then have r: "power_run kv_sm intact (snap_fits kv_good) i True True evs n" by (simp add: log_bytes_def)
  have "node_inv kv_sm evs n" using kv.power_run_inv [OF r] by (cases n) simp_all
  then show ?case using step r kv_step_fits [OF step(2)] power_run_wf [OF r] by (blast intro: power_run.step)
qed (blast intro: power_run.create power_run.power)+

section \<open>Without syncs, or without a journal\<close>

text \<open>
  A store that does not sync, or a file system on which a sync of a file does not settle names: the empty
  directory the node began with stays among the states a power failure can leave.
\<close>

fun unsettling :: "bool \<Rightarrow> call \<Rightarrow> bool" where
  "unsettling journal (Mounted s l t) = False"
| "unsettling journal SyncLog = (\<not> journal)"
| "unsettling journal SyncTmp = (\<not> journal)"
| "unsettling journal c = True"

definition unsettled :: "bool \<Rightarrow> durable \<Rightarrow> bool" where
  "unsettled journal d \<longleftrightarrow> list_all (unsettling journal) (calls (d_dir d)) \<and> \<not> (d_fsync d \<and> journal)"

definition keeps :: "('s \<Rightarrow> bool) \<Rightarrow> ('a, 's) io \<Rightarrow> bool" where
  "keeps P m \<longleftrightarrow> (\<forall>s. P s \<longrightarrow> P (snd (m s)))"

lemma keepsD: "keeps P m \<Longrightarrow> P s \<Longrightarrow> m s = (res, s') \<Longrightarrow> P s'"
  by (metis keeps_def snd_conv)

lemma keeps_bind: "keeps P m \<Longrightarrow> (\<And>x. keeps P (f x)) \<Longrightarrow> keeps P (io_bind m f)"
  unfolding keeps_def by (metis io_bindE prod.collapse snd_conv)

lemma keeps_ignore: "keeps P m \<Longrightarrow> keeps P (io_ignore m)"
  by (simp add: keeps_def io_ignore_def)

lemma keeps_syscall:
  assumes "\<And>d n. P d \<Longrightarrow> P (d\<lparr>d_dir := ok ((d_dir d)\<lparr>outcomes := tl (outcomes (d_dir d))\<rparr>)\<rparr>) \<and>
      P (d\<lparr>d_dir := part n ((d_dir d)\<lparr>outcomes := tl (outcomes (d_dir d))\<rparr>)\<rparr>)"
  shows "keeps P (syscall ok part)"
  unfolding keeps_def
proof (intro allI impI)
  fix d assume "P d"
  obtain res d' where "syscall ok part d = (res, d')" by (cases "syscall ok part d")
  then show "P (snd (syscall ok part d))" using assms [OF \<open>P d\<close>] by (auto elim!: syscallE)
qed

lemma keeps_unsettled:
  "keeps (unsettled j) sys_open_append" "keeps (unsettled j) (sys_write_log b)" "keeps (unsettled j) sys_create_tmp"
  "keeps (unsettled j) (sys_write_tmp b)" "keeps (unsettled j) sys_rename" "keeps (unsettled j) sys_remove_log"
  "keeps (unsettled j) cache_handle" "keeps (unsettled j) drop_handle"
  unfolding sys_defs by (intro keeps_syscall; simp add: unsettled_def)+ (simp_all add: keeps_def cache_handle_def drop_handle_def unsettled_def)

lemma keeps_sync: "c = SyncLog \<or> c = SyncTmp \<Longrightarrow> keeps (unsettled j) (sync_if_fsync c)"
  unfolding keeps_def
  by (auto simp: sync_if_fsync_def sys_sync_all_def syscall_def unsettled_def Let_def split: list.splits outcome.splits)

lemma keeps_store: "keeps (unsettled j) (dur_append ts b)" "keeps (unsettled j) (write_snapshot b)"
proof -
  have "keeps (unsettled j) (\<lambda>d. if d_log d then (Inr (), d) else io_bind sys_open_append (\<lambda>_. cache_handle) d)"
    using keeps_bind [OF keeps_unsettled(1,7), of j] by (simp add: keeps_def)
  from keeps_bind [OF this keeps_bind [OF keeps_unsettled(2) keeps_sync [of SyncLog]]]
  show "keeps (unsettled j) (dur_append ts b)" by (simp add: keeps_def dur_append_def)
  show "keeps (unsettled j) (write_snapshot b)" unfolding write_snapshot_def
    by (intro keeps_bind keeps_unsettled keeps_ignore keeps_sync) simp
qed

fun node_unsettled :: "bool \<Rightarrow> 's node \<Rightarrow> bool" where
  "node_unsettled journal (Up e) = unsettled journal (e_dur e)"
| "node_unsettled journal (Down w) = list_all (unsettling journal) (calls w)"

lemma set_outcomes_unsettled [simp]: "unsettled j (e_dur (set_outcomes os e)) = unsettled j (e_dur e)"
  by (simp add: set_outcomes_def unsettled_def)

lemma deliver_unsettled:
  assumes "deliver sm ts op (set_outcomes os e) = (res, e')" "unsettled j (e_dur e)"
  shows "unsettled j (e_dur e')"
proof -
  have u: "unsettled j (e_dur (set_outcomes os e))" using assms(2) by simp
  have "keeps (unsettled j) (case sn of None \<Rightarrow> io_return () | Some z \<Rightarrow> write_snapshot z)" for sn
    by (cases sn) (simp_all add: keeps_store, simp add: keeps_def io_return_def)
  then have k: "keeps (unsettled j) (ds.persist ts b sn)" for b sn
    unfolding ds.persist_def by (intro keeps_bind keeps_store)
  from assms(1) show ?thesis by (cases rule: deliverE) (auto simp: assms(2) intro: keepsD [OF k u])
qed

lemma node_step_unsettled:
  assumes "node_step sm adm fits i fs n new n'" "\<not> (fs \<and> j)" "node_unsettled j n"
  shows "node_unsettled j n'"
  using assms
proof (induction rule: node_step.induct)
  case (snapshot e os res e')
  from snapshot(2) have "write_snapshot (encode_snapshot sm (set_outcomes os e)) (e_dur (set_outcomes os e)) = (res, e_dur e')"
    by (elim engine_snapshotE)
  from keepsD [OF keeps_store(2) _ this] show ?case using snapshot(4) by simp
next
  case (recover w os e)
  then show ?case using engine_recover_cases(1) [OF recover(1) refl] by (auto simp: same_files_def unsettled_def)
next
  case (recover_failed w os err e)
  then show ?case using engine_recover_cases(1) [OF recover_failed(1) refl] by (auto simp: same_files_def unsettled_def)
qed (auto dest: deliver_unsettled simp: unsettled_def)

lemma node_run_unsettled: "node_run sm adm fits i fs evs n \<Longrightarrow> \<not> (fs \<and> j) \<Longrightarrow> node_unsettled j n"
proof (induction rule: node_run.induct)
  case (create os e)
  then obtain d where d: "durable_open (empty_dir\<lparr>outcomes := os\<rparr>) fs = (Inr (), d)" and e: "e = new_engine sm d i"
    by (auto simp: engine_create_def split: prod.splits)
  have "calls (d_dir d) = []" "d_fsync d = fs"
    using syscall_pure [OF d [unfolded durable_open_def sys_create_dir_all_def]] by (simp_all add: empty_dir_def)
  then show ?case using create(2) e by (simp add: unsettled_def new_engine_def)
qed (blast intro: node_step_unsettled)

lemma unsettled_names: "list_all (unsettling j) cs \<Longrightarrow> (None, None) \<in> set (k_names (disk_of j cs))"
proof (induction cs)
  case (Cons c cs)
  then show ?case by (cases c) (auto simp: on_log_def commit_def split: option.splits prod.splits)
qed (simp add: disk_init_def)

lemma unsettled_left: "list_all (unsettling j) (calls w) \<Longrightarrow> (None, None) \<in> set (power_left j w)"
  using unsettled_names [of j "calls w"] by (cases j) (force simp: power_left_def power_states_iff power_states_posix_iff)+

lemma mounted_recover: "\<exists>e. engine_recover sm (mounted s l t) i fs = (Inr (), e)"
  using engine_recover_total [of sm "mounted s l t" i fs] by (simp add: mounted_def)

lemma mounted_empty:
  assumes "engine_recover sm (mounted None None t) i fs = (Inr (), e)"
  shows "core e = init_core sm"
  using engine_recover_core [OF assms]
  by (simp add: recovered_def dur_snap_def dur_records_def load_core_def file_bytes_def as_dur_def mounted_def Let_def)

text \<open>A history without power failures is a history.\<close>

lemma node_run_power: "node_run sm adm fits i fs evs n \<Longrightarrow> power_run sm adm fits i fs j evs n"
  by (induction rule: node_run.induct) (blast intro: power_run.intros)+

end
