(* ===== verification/OB_Lin.thy ===== *)
theory OB_Lin
  imports OB_Prelude "HOL-Library.Product_Lexorder"
begin

text \<open>
  The linearizability checker for a register history, \<open>linearizability.rs\<close>: the time-ordered call and
  return entries, the candidates that may be linearized next, and the memoised search. The checker
  decides linearizability: it answers true exactly when some order of the operations respects real
  time and is a legal run of the register.
\<close>

section \<open>The checker\<close>

datatype action = Write i64 | Read i64

record lin_op =
  l_proc_id :: u32
  l_action :: action
  l_inv :: u64
  l_res :: u64

type_synonym entry = "u64 \<times> bool \<times> nat"
type_synonym memo = "(nat list \<times> i64) set"

fun valid :: "action \<Rightarrow> i64 \<Rightarrow> bool" where
  "valid (Write w) v = True"
| "valid (Read w) v = (w = v)"

fun lin_apply :: "action \<Rightarrow> i64 \<Rightarrow> i64" where
  "lin_apply (Write w) v = w"
| "lin_apply (Read w) v = v"

text \<open>The comparison of the sort: by time, calls before returns at ties.\<close>

definition entry_key :: "entry \<Rightarrow> u64 \<times> bool" where
  "entry_key e = (fst e, \<not> fst (snd e))"

definition lin_entries :: "lin_op list \<Rightarrow> entry list" where
  "lin_entries ops = sort_key entry_key
     (concat (map (\<lambda>i. [(l_inv (ops ! i), True, i), (l_res (ops ! i), False, i)]) [0..<length ops]))"

fun candidates :: "entry list \<Rightarrow> nat list \<Rightarrow> nat list" where
  "candidates [] rem = []"
| "candidates ((_, is_call, i) # es) rem =
     (if i \<notin> set rem then candidates es rem
      else if is_call then i # candidates es rem
      else [])"

text \<open>The loop over the candidates, with what is done for one of them as an argument.\<close>

fun try_candidates :: "(nat \<Rightarrow> memo \<Rightarrow> bool \<times> memo) \<Rightarrow> nat list \<Rightarrow> memo \<Rightarrow> bool \<times> memo" where
  "try_candidates f [] memo = (False, memo)"
| "try_candidates f (i # ps) memo =
     (case f i memo of (True, memo) \<Rightarrow> (True, memo) | (False, memo) \<Rightarrow> try_candidates f ps memo)"

lemma try_candidates_cong [fundef_cong]:
  "ps = js \<Longrightarrow> m = n \<Longrightarrow> (\<And>i m. i \<in> set js \<Longrightarrow> f i m = g i m) \<Longrightarrow> try_candidates f ps m = try_candidates g js n"
  by (induction js arbitrary: ps m n) (auto split: bool.splits prod.splits)

lemma candidates_subset: "set (candidates es rem) \<subseteq> set rem"
  by (induction es rem rule: candidates.induct) auto

function recurse :: "lin_op list \<Rightarrow> entry list \<Rightarrow> nat list \<Rightarrow> i64 \<Rightarrow> memo \<Rightarrow> bool \<times> memo" where
  "recurse ops entries remaining value memo =
     (if remaining = [] then (True, memo)
      else if (remaining, value) \<in> memo then (False, memo)
      else (case try_candidates
          (\<lambda>i memo. if \<not> valid (l_action (ops ! i)) value then (False, memo)
             else recurse ops entries (filter (\<lambda>x. x \<noteq> i) remaining) (lin_apply (l_action (ops ! i)) value) memo)
          (candidates entries remaining) memo of
        (True, memo) \<Rightarrow> (True, memo)
      | (False, memo) \<Rightarrow> (False, insert (remaining, value) memo)))"
  by pat_completeness auto
termination
  by (relation "measure (\<lambda>(_, _, remaining, _). length remaining)")
    (auto intro!: length_filter_less dest: subsetD [OF candidates_subset])

declare recurse.simps [simp del]

definition is_linearizable :: "lin_op list \<Rightarrow> i64 \<Rightarrow> bool" where
  "is_linearizable ops init = fst (recurse ops (lin_entries ops) [0..<length ops] init {})"

section \<open>Linearizability\<close>

text \<open>
  An order of operations is legal from a register value when every read returns the value it meets,
  and it respects real time when no operation stands before one that had returned before its call.
\<close>

fun legal :: "lin_op list \<Rightarrow> i64 \<Rightarrow> nat list \<Rightarrow> bool" where
  "legal ops v [] \<longleftrightarrow> True"
| "legal ops v (i # ps) \<longleftrightarrow> valid (l_action (ops ! i)) v \<and> legal ops (lin_apply (l_action (ops ! i)) v) ps"

definition real_time :: "lin_op list \<Rightarrow> nat list \<Rightarrow> bool" where
  "real_time ops ps \<longleftrightarrow> sorted_wrt (\<lambda>i j. \<not> l_res (ops ! j) < l_inv (ops ! i)) ps"

definition lin_from :: "lin_op list \<Rightarrow> nat list \<Rightarrow> i64 \<Rightarrow> bool" where
  "lin_from ops rem v \<longleftrightarrow> (\<exists>ps. distinct ps \<and> set ps = set rem \<and> real_time ops ps \<and> legal ops v ps)"

definition linearizable :: "lin_op list \<Rightarrow> i64 \<Rightarrow> bool" where
  "linearizable ops init \<longleftrightarrow> lin_from ops [0..<length ops] init"

section \<open>The search is correct\<close>

lemma candidates_iff:
  assumes "sorted (map entry_key es)"
  shows "i \<in> set (candidates es rem) \<longleftrightarrow>
    i \<in> set rem \<and> (\<exists>t. (t, True, i) \<in> set es \<and> (\<forall>t' j. (t', False, j) \<in> set es \<and> j \<in> set rem \<longrightarrow> t \<le> t'))"
  using assms
proof (induction es rem rule: candidates.induct)
  case (2 t c k es rem)
  have later: "t \<le> t' \<and> (c' \<and> \<not> c \<longrightarrow> t < t')" if "(t', c', j) \<in> set es" for t' c' j
    using 2(3) that by (auto simp: entry_key_def less_eq_prod_def)
  have IH: "i \<in> set (candidates es rem) \<longleftrightarrow>
    i \<in> set rem \<and> (\<exists>t. (t, True, i) \<in> set es \<and> (\<forall>t' j. (t', False, j) \<in> set es \<and> j \<in> set rem \<longrightarrow> t \<le> t'))"
    if "k \<notin> set rem \<or> c"
    using 2 that by auto
  show ?case
  proof (cases "k \<in> set rem \<and> \<not> c")
    case True
    then have "\<not> t' \<le> t" if "(t', True, i) \<in> set es" for t' using later [OF that] by auto
    then show ?thesis using True by fastforce
  next
    case False
    show ?thesis
    proof (cases "k \<in> set rem")
      case True
      then show ?thesis using IH later False by auto
    next
      case notin: False
      then have "(\<forall>t' j. (t', False, j) \<in> set ((t, c, k) # es) \<and> j \<in> set rem \<longrightarrow> u \<le> t') \<longleftrightarrow>
          (\<forall>t' j. (t', False, j) \<in> set es \<and> j \<in> set rem \<longrightarrow> u \<le> t')" for u by auto
      moreover have "i \<in> set rem \<Longrightarrow> (u, True, i) \<in> set ((t, c, k) # es) \<longleftrightarrow> (u, True, i) \<in> set es" for u
        using notin by auto
      ultimately show ?thesis using IH notin by (simp del: set_simps) blast
    qed
  qed
qed simp

lemma set_lin_entries:
  "set (lin_entries ops) = {(l_inv (ops ! i), True, i) | i. i < length ops} \<union> {(l_res (ops ! i), False, i) | i. i < length ops}"
  by (auto simp: lin_entries_def)

lemma candidates_entries:
  assumes "set rem \<subseteq> {..<length ops}"
  shows "set (candidates (lin_entries ops) rem) = {i \<in> set rem. \<forall>j \<in> set rem. l_inv (ops ! i) \<le> l_res (ops ! j)}"
proof -
  have "sorted (map entry_key (lin_entries ops))" by (simp add: lin_entries_def)
  from candidates_iff [OF this] show ?thesis using assms
    by (auto simp: set_lin_entries)
qed

text \<open>An order starts with a candidate whose action is valid, and goes on from there.\<close>

lemma lin_from_step:
  assumes "rem \<noteq> []" "\<forall>i \<in> set rem. l_inv (ops ! i) \<le> l_res (ops ! i)"
  shows "lin_from ops rem v \<longleftrightarrow> (\<exists>i \<in> set rem. (\<forall>j \<in> set rem. l_inv (ops ! i) \<le> l_res (ops ! j)) \<and>
    valid (l_action (ops ! i)) v \<and> lin_from ops (filter (\<lambda>x. x \<noteq> i) rem) (lin_apply (l_action (ops ! i)) v))"
    (is "?l \<longleftrightarrow> ?r")
proof
  assume ?l
  then obtain ps where p: "distinct ps" "set ps = set rem" "real_time ops ps" "legal ops v ps"
    by (auto simp: lin_from_def)
  then obtain i js where ps: "ps = i # js" using assms(1) by (cases ps) auto
  have "set js = set (filter (\<lambda>x. x \<noteq> i) rem)" using p(1,2) ps by auto
  then have "lin_from ops (filter (\<lambda>x. x \<noteq> i) rem) (lin_apply (l_action (ops ! i)) v)"
    using p ps by (auto simp: lin_from_def real_time_def)
  moreover have "i \<in> set rem" "\<forall>j \<in> set rem. l_inv (ops ! i) \<le> l_res (ops ! j)"
    using p ps assms(2) by (auto simp: real_time_def not_less)
  ultimately show ?r using p(4) ps by auto
next
  assume ?r
  then obtain i js where i: "i \<in> set rem" "\<forall>j \<in> set rem. l_inv (ops ! i) \<le> l_res (ops ! j)"
      "valid (l_action (ops ! i)) v"
    and js: "distinct js" "set js = set (filter (\<lambda>x. x \<noteq> i) rem)" "real_time ops js"
      "legal ops (lin_apply (l_action (ops ! i)) v) js"
    by (auto simp: lin_from_def)
  then have "distinct (i # js)" "set (i # js) = set rem" "real_time ops (i # js)" "legal ops v (i # js)"
    by (auto simp: real_time_def not_less)
  then show ?l unfolding lin_from_def by blast
qed

text \<open>The memo table holds only pairs from which no order exists.\<close>

definition memo_ok :: "lin_op list \<Rightarrow> memo \<Rightarrow> bool" where
  "memo_ok ops memo \<longleftrightarrow> (\<forall>(r, w) \<in> memo. \<not> lin_from ops r w)"

lemma try_candidates_ok:
  assumes "\<And>i m. i \<in> set ps \<Longrightarrow> P m \<Longrightarrow> P (snd (f i m)) \<and> fst (f i m) = Q i" "P memo"
  shows "P (snd (try_candidates f ps memo)) \<and> fst (try_candidates f ps memo) = (\<exists>i \<in> set ps. Q i)"
  using assms
proof (induction ps arbitrary: memo)
  case (Cons i ps)
  obtain b m where f: "f i memo = (b, m)" by (cases "f i memo")
  then have "P m" "b = Q i" using Cons.prems(1) [of i memo] Cons.prems(2) by auto
  moreover have "P (snd (try_candidates f ps m)) \<and> fst (try_candidates f ps m) = (\<exists>i \<in> set ps. Q i)"
    using Cons.IH [OF Cons.prems(1) \<open>P m\<close>] by simp
  ultimately show ?case using f by (cases b) auto
qed simp

lemma recurse_ok:
  assumes "\<forall>op \<in> set ops. l_inv op \<le> l_res op"
  shows "set rem \<subseteq> {..<length ops} \<Longrightarrow> memo_ok ops memo \<Longrightarrow>
    memo_ok ops (snd (recurse ops (lin_entries ops) rem v memo)) \<and>
    fst (recurse ops (lin_entries ops) rem v memo) = lin_from ops rem v"
proof (induction "length rem" arbitrary: rem v memo rule: less_induct)
  case less
  let ?E = "lin_entries ops"
  let ?Q = "\<lambda>i. valid (l_action (ops ! i)) v \<and> lin_from ops (filter (\<lambda>x. x \<noteq> i) rem) (lin_apply (l_action (ops ! i)) v)"
  let ?f = "\<lambda>i memo. if \<not> valid (l_action (ops ! i)) v then (False, memo)
     else recurse ops ?E (filter (\<lambda>x. x \<noteq> i) rem) (lin_apply (l_action (ops ! i)) v) memo"
  have f: "memo_ok ops (snd (?f i m)) \<and> fst (?f i m) = ?Q i" if "i \<in> set (candidates ?E rem)" "memo_ok ops m" for i m
    using less.hyps [of "filter (\<lambda>x. x \<noteq> i) rem" m] less.prems(1) that candidates_subset [of ?E rem]
    by (auto intro: length_filter_less)
  have wf: "\<forall>i \<in> set rem. l_inv (ops ! i) \<le> l_res (ops ! i)" using assms less.prems(1) by auto
  show ?case
  proof (cases "rem = [] \<or> (rem, v) \<in> memo")
    case True
    then show ?thesis using less.prems(2)
      by (auto simp: recurse.simps [of ops ?E rem] memo_ok_def lin_from_def real_time_def)
  next
    case False
    have lin: "lin_from ops rem v \<longleftrightarrow> (\<exists>i \<in> set (candidates ?E rem). ?Q i)"
      using lin_from_step [OF _ wf, of v] False candidates_entries [OF less.prems(1)] by auto
    obtain b m where t: "try_candidates ?f (candidates ?E rem) memo = (b, m)"
      by (cases "try_candidates ?f (candidates ?E rem) memo")
    have "memo_ok ops m" "b = lin_from ops rem v"
      using try_candidates_ok [where P = "memo_ok ops" and f = ?f and Q = ?Q and ps = "candidates ?E rem", OF f less.prems(2)] t lin by simp_all
    then show ?thesis using False t by (cases b) (auto simp: recurse.simps [of ops ?E rem] memo_ok_def)
  qed
qed

lemma is_linearizable_iff:
  assumes "\<forall>op \<in> set ops. l_inv op \<le> l_res op"
  shows "is_linearizable ops init \<longleftrightarrow> linearizable ops init"
  using recurse_ok [OF assms, of "[0..<length ops]" "{}" init]
  by (simp add: is_linearizable_def linearizable_def memo_ok_def lessThan_atLeast0)

end
