(* ===== verification/OB_Wire.thy ===== *)
theory OB_Wire
  imports OB_Text
begin

text \<open>
  The input side of a connection, as the protocol handlers see it through \<open>BufReader\<close>: \<open>read_until\<close> and
  \<open>read_exact\<close> of the standard library over a stream with a read timeout, and the line readers the
  handlers build on them. Whatever a failing call has consumed is gone, as in the sources, where the
  buffer it filled is dropped with the error.
\<close>

section \<open>Streams\<close>

text \<open>
  A stream is what the socket yields, one item at a time, and then end of file: a byte, an expired read
  timeout (with the value the shutdown flag has when it is looked at), or a failing read.
\<close>

datatype item = B u8 | Timeout bool | Reset

text \<open>\<open>CapacityOverflow\<close> stands for the panic of an allocation larger than \<open>isize::MAX\<close> bytes.\<close>

datatype rd_error = TimedOut bool | UnexpectedEof | InvalidData | OtherError | CapacityOverflow

type_synonym 'a rd = "item list \<Rightarrow> (rd_error + 'a) \<times> item list"

definition rd_return :: "'a \<Rightarrow> 'a rd" where
  "rd_return x s = (Inr x, s)"

definition rd_fail :: "rd_error \<Rightarrow> 'a rd" where
  "rd_fail e s = (Inl e, s)"

definition rd_then :: "'a rd \<Rightarrow> ('a \<Rightarrow> 'b rd) \<Rightarrow> 'b rd" where
  "rd_then m f s = (case m s of (Inl e, s') \<Rightarrow> (Inl e, s') | (Inr x, s') \<Rightarrow> f x s')"

definition wire :: "bytes \<Rightarrow> item list" where
  "wire bs = map B bs"

fun read_until :: "bytes \<Rightarrow> bytes rd" where
  "read_until acc [] = (Inr acc, [])"
| "read_until acc (B b # s) = (if b = 10 then (Inr (acc @ [b]), s) else read_until (acc @ [b]) s)"
| "read_until acc (Timeout sd # s) = (Inl (TimedOut sd), s)"
| "read_until acc (Reset # s) = (Inl OtherError, s)"

fun read_exact :: "nat \<Rightarrow> bytes rd" where
  "read_exact 0 s = (Inr [], s)"
| "read_exact (Suc n) [] = (Inl UnexpectedEof, [])"
| "read_exact (Suc n) (B b # s) = (case read_exact n s of (Inl e, s) \<Rightarrow> (Inl e, s) | (Inr bs, s) \<Rightarrow> (Inr (b # bs), s))"
| "read_exact (Suc n) (Timeout sd # s) = (Inl (TimedOut sd), s)"
| "read_exact (Suc n) (Reset # s) = (Inl OtherError, s)"

text \<open>\<open>vec![0u8; n]\<close>: the largest \<open>Vec<u8>\<close> that can be allocated has \<open>isize::MAX\<close> bytes.\<close>

definition alloc :: "nat \<Rightarrow> unit rd" where
  "alloc n = (if int n \<le> 9223372036854775807 then rd_return () else rd_fail CapacityOverflow)"

definition strip_crlf :: "bytes \<Rightarrow> bytes" where
  "strip_crlf raw = rev (dropWhile (\<lambda>b. b = 10 \<or> b = 13) (rev raw))"

text \<open>
  \<open>read_line\<close> of \<open>resp.rs\<close> and \<open>memcache.rs\<close>: \<open>None\<close> is the return value 0, at end of file; otherwise
  the line without its trailing line ends.
\<close>

definition read_line :: "bytes option rd" where
  "read_line = rd_then (read_until []) (\<lambda>raw. rd_return (if raw = [] then None else Some (strip_crlf raw)))"

text \<open>\<open>read_line\<close> of \<open>txn.rs\<close> and \<open>read_line_str\<close> of \<open>http.rs\<close>: the raw line, made valid UTF-8.\<close>

definition read_line_str :: "rstring option rd" where
  "read_line_str = rd_then (read_until []) (\<lambda>raw. rd_return (if raw = [] then None else Some (from_utf8_lossy raw)))"

text \<open>\<open>line.split(p).filter(|s| !s.is_empty())\<close>: the maximal runs of bytes that do not satisfy \<open>p\<close>.\<close>

fun split_on :: "(u8 \<Rightarrow> bool) \<Rightarrow> bytes \<Rightarrow> bytes \<Rightarrow> bytes list" where
  "split_on p acc [] = [acc]"
| "split_on p acc (b # bs) = (if p b then acc # split_on p [] bs else split_on p (acc @ [b]) bs)"

definition split_nonempty :: "(u8 \<Rightarrow> bool) \<Rightarrow> bytes \<Rightarrow> bytes list" where
  "split_nonempty p bs = filter (\<lambda>s. s \<noteq> []) (split_on p [] bs)"

definition crlf :: bytes where
  "crlf = [13, 10]"

text \<open>\<open>str::split_once\<close> and the first piece of \<open>str::split\<close>, for an ASCII character.\<close>

definition split_once :: "u8 \<Rightarrow> bytes \<Rightarrow> (bytes \<times> bytes) option" where
  "split_once b s = (if b \<in> set s then Some (takeWhile (\<lambda>x. x \<noteq> b) s, tl (dropWhile (\<lambda>x. x \<noteq> b) s)) else None)"

definition split_first :: "u8 \<Rightarrow> bytes \<Rightarrow> bytes" where
  "split_first b s = takeWhile (\<lambda>x. x \<noteq> b) s"

text \<open>\<open>str::splitn\<close> for an ASCII character: at most \<open>n\<close> pieces, the last one with the rest of the string.\<close>

fun splitn :: "nat \<Rightarrow> u8 \<Rightarrow> bytes \<Rightarrow> bytes list" where
  "splitn 0 b s = []"
| "splitn (Suc 0) b s = [s]"
| "splitn (Suc (Suc n)) b s = (case split_once b s of None \<Rightarrow> [s] | Some (x, y) \<Rightarrow> x # splitn (Suc n) b y)"

lemmas wire_defs [unfold_model] = rd_return_def rd_fail_def rd_then_def wire_def alloc_def strip_crlf_def
  read_line_def read_line_str_def split_nonempty_def crlf_def
  split_once_def split_first_def

section \<open>How much is consumed\<close>

lemma read_until_length: "read_until acc s = (r, s') \<Longrightarrow> length s' \<le> length s"
  by (induction acc s arbitrary: r s' rule: read_until.induct) (auto split: if_splits simp: le_SucI)

lemma read_until_consumes: "read_until acc s = (r, s') \<Longrightarrow> s \<noteq> [] \<Longrightarrow> length s' < length s"
proof (cases s)
  case (Cons i s1)
  assume "read_until acc s = (r, s')"
  then show ?thesis using Cons by (cases i) (auto split: if_splits dest: read_until_length simp: less_Suc_eq_le)
qed simp

lemma read_exact_length: "read_exact n s = (r, s') \<Longrightarrow> length s' \<le> length s"
  by (induction n s arbitrary: r s' rule: read_exact.induct)
    (auto split: prod.splits sum.splits simp: le_SucI)

lemma rd_thenE:
  assumes "rd_then m f s = (r, s')"
  obtains (err) e where "m s = (Inl e, s')" and "r = Inl e"
    | (step) x s1 where "m s = (Inr x, s1)" and "f x s1 = (r, s')"
  using assms by (auto simp: rd_then_def split: prod.splits sum.splits)

lemma read_line_length:
  "read_line s = (r, s') \<Longrightarrow> length s' \<le> length s"
  "read_line s = (Inr (Some l), s') \<Longrightarrow> length s' < length s"
  "read_line s = (Inl e, s') \<Longrightarrow> length s' < length s"
proof -
  show "read_line s = (r, s') \<Longrightarrow> length s' \<le> length s"
    by (auto simp: read_line_def rd_return_def dest: read_until_length elim!: rd_thenE)
  show "read_line s = (Inr (Some l), s') \<Longrightarrow> length s' < length s"
    by (cases "s = []") (auto simp: read_line_def rd_return_def dest: read_until_consumes elim!: rd_thenE)
  show "read_line s = (Inl e, s') \<Longrightarrow> length s' < length s"
    by (cases "s = []") (auto simp: read_line_def rd_return_def dest: read_until_consumes elim!: rd_thenE)
qed

lemma read_line_str_length:
  "read_line_str s = (r, s') \<Longrightarrow> length s' \<le> length s"
  "read_line_str s = (Inr (Some l), s') \<Longrightarrow> length s' < length s"
  "read_line_str s = (Inl e, s') \<Longrightarrow> length s' < length s"
proof -
  show "read_line_str s = (r, s') \<Longrightarrow> length s' \<le> length s"
    by (auto simp: read_line_str_def rd_return_def dest: read_until_length elim!: rd_thenE)
  show "read_line_str s = (Inr (Some l), s') \<Longrightarrow> length s' < length s"
    by (cases "s = []") (auto simp: read_line_str_def rd_return_def dest: read_until_consumes elim!: rd_thenE)
  show "read_line_str s = (Inl e, s') \<Longrightarrow> length s' < length s"
    by (cases "s = []") (auto simp: read_line_str_def rd_return_def dest: read_until_consumes elim!: rd_thenE)
qed

text \<open>A line is no longer than what was consumed to read it, and has no more words than bytes.\<close>

lemma read_until_bound: "read_until acc s = (Inr raw, s') \<Longrightarrow> length raw + length s' \<le> length acc + length s"
  by (induction acc s arbitrary: raw s' rule: read_until.induct) (fastforce split: if_splits)+

lemma length_strip_crlf: "length (strip_crlf raw) \<le> length raw"
  by (simp add: strip_crlf_def) (metis length_dropWhile_le length_rev)

lemma read_line_bound: "read_line s = (Inr (Some l), s') \<Longrightarrow> length l + length s' \<le> length s"
  using length_strip_crlf
  by (auto simp: read_line_def rd_return_def dest!: read_until_bound split: if_splits elim!: rd_thenE)
    (meson add_le_mono1 order_trans)

lemma split_on_words: "length (filter (\<lambda>s. s \<noteq> []) (split_on p acc bs)) \<le> length bs + (if acc = [] then 0 else 1)"
  by (induction p acc bs rule: split_on.induct) auto

lemma split_nonempty_length: "length (split_nonempty p bs) \<le> length bs"
  using split_on_words [of p "[]" bs] by (simp add: split_nonempty_def)

section \<open>Reading what was written\<close>

lemma wire_simps [simp]: "wire [] = []" "wire (b # bs) = B b # wire bs" "wire (bs @ cs) = wire bs @ wire cs"
  by (simp_all add: wire_def)

lemma length_wire [simp]: "length (wire bs) = length bs"
  by (simp add: wire_def)

lemma read_until_line: "10 \<notin> set l \<Longrightarrow> read_until acc (wire l @ B 10 # s) = (Inr (acc @ l @ [10]), s)"
  by (induction l arbitrary: acc) auto

lemma strip_crlf_id: "bs = [] \<or> (last bs \<noteq> 10 \<and> last bs \<noteq> 13) \<Longrightarrow> strip_crlf (bs @ [13, 10]) = bs"
  by (cases bs rule: rev_cases) (auto simp: strip_crlf_def)

lemma read_line_wire:
  "10 \<notin> set l \<Longrightarrow> l = [] \<or> last l \<noteq> 13 \<Longrightarrow> read_line (wire (l @ [13, 10]) @ s) = (Inr (Some l), s)"
  using read_until_line [of "l @ [13]" "[]" s] strip_crlf_id [of l] last_in_set [of l]
  by (fastforce simp: read_line_def rd_then_def rd_return_def)

lemma read_exact_wire: "length bs = n \<Longrightarrow> read_exact n (wire bs @ s) = (Inr bs, s)"
  by (induction bs arbitrary: n) auto

text \<open>
  A read timeout in the middle of a line throws away the bytes before it: the next read starts with
  what comes after.
\<close>

lemma read_line_timeout: "10 \<notin> set l \<Longrightarrow> read_line (wire l @ Timeout sd # s) = (Inl (TimedOut sd), s)"
proof -
  have "10 \<notin> set l \<Longrightarrow> read_until acc (wire l @ Timeout sd # s) = (Inl (TimedOut sd), s)" for acc
    by (induction l arbitrary: acc) auto
  then show "10 \<notin> set l \<Longrightarrow> read_line (wire l @ Timeout sd # s) = (Inl (TimedOut sd), s)"
    by (simp add: read_line_def rd_then_def)
qed

end
