(* ===== verification/OB_Service.thy ===== *)
theory OB_Service
  imports OB_Transfer OB_Wire
begin

text \<open>
  The serial executor of \<open>server.rs\<close>, \<open>KvService\<close>, and the programs the protocol handlers run against it.
  A handler is a program that issues operations one at a time and goes on with their outputs. The locale
  states what handlers rely on: an operation numbered above all earlier ones of its connection behaves
  as on a plain in-memory store. The executor provides it while its disk does, so a handler that numbers
  its operations upwards computes on the durable service what it computes on the plain store.
\<close>

section \<open>The executor\<close>

text \<open>
  The engine owned by the executor thread, whether the thread is still running, its logical clock, and
  the process-wide tick. \<open>stamp\<close> is \<open>Timestamp::from_nanos\<close> followed by \<open>as_nanos\<close>, of the crate
  \<open>onepipe_core\<close>.
\<close>

record service =
  sv_engine :: "kv_store engine"
  sv_alive :: bool
  sv_clock :: u64
  sv_tick :: u64

definition svc_start :: "directory \<Rightarrow> u64 \<Rightarrow> bool \<Rightarrow> u64 \<Rightarrow> service \<times> u32" where
  "svc_start w interval fsync tick =
     (case (if f_snapshot w \<noteq> None \<or> f_oplog w \<noteq> None
            then engine_recover kv_sm w interval fsync else engine_create kv_sm w interval fsync) of
        (Inl _, e) \<Rightarrow> (\<lparr>sv_engine = e, sv_alive = False, sv_clock = 0, sv_tick = tick\<rparr>, 0)
      | (Inr _, e) \<Rightarrow> (\<lparr>sv_engine = e, sv_alive = True, sv_clock = e_last_ts e + 1, sv_tick = tick\<rparr>, max_client e))"

text \<open>
  The body of the executor loop for one job. An error of \<open>deliver\<close> ends the thread, so the job gets no
  reply and later ones are not taken.
\<close>

definition svc_execute :: "(u64 \<Rightarrow> u64) \<Rightarrow> op \<Rightarrow> service \<Rightarrow> op_output option \<times> service" where
  "svc_execute stamp op sv =
     (let clock = sv_clock sv + 1; g = sv_tick sv;
          sv = sv\<lparr>sv_clock := clock, sv_tick := g + 1\<rparr> in
      case deliver kv_sm (stamp (max clock g)) op (sv_engine sv) of
         (Inl _, e) \<Rightarrow> (None, sv\<lparr>sv_engine := e, sv_alive := False\<rparr>)
       | (Inr out, e) \<Rightarrow> (Some out, sv\<lparr>sv_engine := e\<rparr>))"

text \<open>\<open>KvService::apply\<close>: the send fails when the executor is gone.\<close>

definition svc_apply :: "(u64 \<Rightarrow> u64) \<Rightarrow> op \<Rightarrow> service \<Rightarrow> op_output option \<times> service" where
  "svc_apply stamp op sv = (if \<not> sv_alive sv then (None, sv) else svc_execute stamp op sv)"

definition svc_len :: "service \<Rightarrow> nat option" where
  "svc_len sv = (if sv_alive sv then Some (kv_len (e_state (sv_engine sv))) else None)"

text \<open>Connections are numbered from above every client id of the recovered state.\<close>

record server =
  srv_service :: service
  srv_conn_id :: u32

definition server_start :: "directory \<Rightarrow> u64 \<Rightarrow> bool \<Rightarrow> u64 \<Rightarrow> server" where
  "server_start w interval fsync tick =
     (case svc_start w interval fsync tick of (sv, m) \<Rightarrow> \<lparr>srv_service = sv, srv_conn_id = m + 1\<rparr>)"

definition server_accept :: "server \<Rightarrow> u32 \<times> server" where
  "server_accept s = (srv_conn_id s, s\<lparr>srv_conn_id := srv_conn_id s + 1\<rparr>)"

section \<open>Programs over a service\<close>

text \<open>
  A handler's thread issues an operation, asks for the number of keys, or writes and flushes a reply: the
  write succeeds, or fails after some bytes.
\<close>

datatype 'a prog =
    Return 'a
  | Apply op "op_output option \<Rightarrow> 'a prog"
  | Length "nat option \<Rightarrow> 'a prog"
  | Reply bytes "nat option \<Rightarrow> 'a prog"

primrec prog_bind :: "'a prog \<Rightarrow> ('a \<Rightarrow> 'b prog) \<Rightarrow> 'b prog" where
  "prog_bind (Return x) f = f x"
| "prog_bind (Apply op k) f = Apply op (\<lambda>r. prog_bind (k r) f)"
| "prog_bind (Length k) f = Length (\<lambda>r. prog_bind (k r) f)"
| "prog_bind (Reply b k) f = Reply b (\<lambda>w. prog_bind (k w) f)"

primrec run_prog :: "(op \<Rightarrow> 's \<Rightarrow> op_output option \<times> 's) \<Rightarrow> ('s \<Rightarrow> nat option) \<Rightarrow> 'a prog \<Rightarrow> 's \<Rightarrow> 'a \<times> 's" where
  "run_prog app len (Return x) s = (x, s)"
| "run_prog app len (Apply op k) s = (case app op s of (r, s) \<Rightarrow> run_prog app len (k r) s)"
| "run_prog app len (Length k) s = run_prog app len (k (len s)) s"
| "run_prog app len (Reply b k) s = run_prog app len (k None) s"

text \<open>\<open>run_prog\<close> is a run with a client that takes every reply; here the outcomes of the writes are given.\<close>

primrec run_writes :: "(op \<Rightarrow> 's \<Rightarrow> op_output option \<times> 's) \<Rightarrow> ('s \<Rightarrow> nat option) \<Rightarrow> 'a prog \<Rightarrow> nat option list \<Rightarrow> 's \<Rightarrow> 'a \<times> 's" where
  "run_writes app len (Return x) ws s = (x, s)"
| "run_writes app len (Apply op k) ws s = (case app op s of (r, s) \<Rightarrow> run_writes app len (k r) ws s)"
| "run_writes app len (Length k) ws s = run_writes app len (k (len s)) ws s"
| "run_writes app len (Reply b k) ws s = (case ws of
     [] \<Rightarrow> run_writes app len (k None) [] s | w # ws \<Rightarrow> run_writes app len (k w) ws s)"

lemma run_writes_Nil: "run_writes app len p [] s = run_prog app len p s"
  by (induction p arbitrary: s) (auto split: prod.splits)

lemma run_prog_bind:
  "run_prog app len (prog_bind p f) s = (case run_prog app len p s of (x, s) \<Rightarrow> run_prog app len (f x) s)"
  by (induction p arbitrary: s) (auto split: prod.splits)

lemma prog_bind_assoc: "prog_bind (prog_bind p f) g = prog_bind p (\<lambda>x. prog_bind (f x) g)"
  by (induction p) auto

lemma prog_bind_Return [simp]: "prog_bind p Return = p"
  by (induction p) auto

text \<open>The plain store, with every operation applied and none suppressed.\<close>

definition pure_apply :: "op \<Rightarrow> kv_store \<Rightarrow> op_output option \<times> kv_store" where
  "pure_apply op m = (case kv_apply m op of (m, out) \<Rightarrow> (Some out, m))"

definition pure_len :: "kv_store \<Rightarrow> nat option" where
  "pure_len m = Some (kv_len m)"

definition run_svc :: "(u64 \<Rightarrow> u64) \<Rightarrow> 'a prog \<Rightarrow> service \<Rightarrow> 'a \<times> service" where
  "run_svc stamp = run_prog (svc_apply stamp) svc_len"

definition run_pure :: "'a prog \<Rightarrow> kv_store \<Rightarrow> 'a \<times> kv_store" where
  "run_pure = run_prog pure_apply pure_len"

lemma run_pure_simps [simp]:
  "run_pure (Return x) m = (x, m)"
  "run_pure (Apply op k) m = (case kv_apply m op of (m, out) \<Rightarrow> run_pure (k (Some out)) m)"
  "run_pure (Length l) m = run_pure (l (Some (kv_len m))) m"
  "run_pure (Reply b w) m = run_pure (w None) m"
  "run_pure (prog_bind p f) m = (case run_pure p m of (x, m) \<Rightarrow> run_pure (f x) m)"
  by (simp_all add: run_pure_def pure_apply_def pure_len_def run_prog_bind split: prod.splits)

text \<open>
  The program issues its operations for client \<open>c\<close> with sequence numbers that increase strictly from
  above \<open>s\<close>, whatever the outputs; \<open>numbered_to\<close> also bounds them by a number computed from the result.
\<close>

primrec numbered_to :: "u32 \<Rightarrow> ('a \<Rightarrow> u64) \<Rightarrow> 'a prog \<Rightarrow> u64 \<Rightarrow> bool" where
  "numbered_to c f (Return x) s \<longleftrightarrow> s \<le> f x"
| "numbered_to c f (Apply op k) s \<longleftrightarrow> op_client op = c \<and> s < op_seq op \<and> (\<forall>r. numbered_to c f (k r) (op_seq op))"
| "numbered_to c f (Length k) s \<longleftrightarrow> (\<forall>r. numbered_to c f (k r) s)"
| "numbered_to c f (Reply b k) s \<longleftrightarrow> (\<forall>w. numbered_to c f (k w) s)"

lemma numbered_to_weaken: "numbered_to c f p s \<Longrightarrow> s' \<le> s \<Longrightarrow> numbered_to c f p s'"
proof (induction p arbitrary: s s')
  case (Length k)
  then show ?case by (metis numbered_to.simps(3) rangeI)
next
  case (Reply b k)
  then show ?case by (metis numbered_to.simps(4) rangeI)
qed auto

text \<open>Every result the program can return, whatever the outputs, satisfies \<open>P\<close>.\<close>

primrec results :: "('a \<Rightarrow> bool) \<Rightarrow> 'a prog \<Rightarrow> bool" where
  "results P (Return x) \<longleftrightarrow> P x"
| "results P (Apply op k) \<longleftrightarrow> (\<forall>r. results P (k r))"
| "results P (Length k) \<longleftrightarrow> (\<forall>r. results P (k r))"
| "results P (Reply b k) \<longleftrightarrow> (\<forall>w. results P (k w))"

lemma results_bind: "results P p \<Longrightarrow> (\<And>x. P x \<Longrightarrow> results Q (h x)) \<Longrightarrow> results Q (prog_bind p h)"
  by (induction p) auto

lemma results_weaken: "results P p \<Longrightarrow> (\<And>x. P x \<Longrightarrow> Q x) \<Longrightarrow> results Q p"
  by (induction p) auto

lemma results_True [simp]: "results (\<lambda>_. True) p"
  by (induction p) auto

lemma numbered_to_bind_results:
  "numbered_to c f p s \<Longrightarrow> results P p \<Longrightarrow> (\<And>x. P x \<Longrightarrow> numbered_to c g (h x) (f x)) \<Longrightarrow>
   numbered_to c g (prog_bind p h) s"
  by (induction p arbitrary: s) (auto intro: numbered_to_weaken)

lemma numbered_to_bind:
  "numbered_to c f p s \<Longrightarrow> (\<And>x. numbered_to c g (h x) (f x)) \<Longrightarrow> numbered_to c g (prog_bind p h) s"
  by (rule numbered_to_bind_results [where P = "\<lambda>_. True"]) auto

text \<open>Programs whose result does not report the last sequence number.\<close>

abbreviation numbered :: "u32 \<Rightarrow> 'a prog \<Rightarrow> u64 \<Rightarrow> bool" where
  "numbered c \<equiv> numbered_to c (\<lambda>_. - 1)"

lemma seq_next:
  assumes "unat (s :: u64) + 1 < 2 ^ 64"
  shows "unat (s + 1) = unat s + 1" and "s < s + 1"
proof -
  show u: "unat (s + 1) = unat s + 1" using assms unat_add_lem [of s 1] by simp
  show "s < s + 1" by (simp add: word_less_nat_alt u)
qed

section \<open>Connections\<close>

text \<open>
  How a connection ends, with everything written to it: closed in order, or given up with the error
  that \<open>serve_conn\<close> returns. A reply is written and flushed, then the handler goes on; when that fails it
  returns the error, and the client has the first bytes of the reply at most.
\<close>

datatype conn_end = Closed | Failed rd_error | WriteFailed

definition emit :: "bytes \<Rightarrow> (conn_end \<times> bytes) prog \<Rightarrow> (conn_end \<times> bytes) prog" where
  "emit b p = Reply b (\<lambda>w. case w of
     None \<Rightarrow> prog_bind p (\<lambda>(e, out). Return (e, b @ out))
   | Some n \<Rightarrow> Return (WriteFailed, take n b))"

lemma numbered_to_emit: "numbered_to c (\<lambda>_. q) p s \<Longrightarrow> s \<le> q \<Longrightarrow> numbered_to c (\<lambda>_. q) (emit b p) s"
  unfolding emit_def by (auto intro: numbered_to_bind [where f = "\<lambda>_. q"] split: option.splits)

lemma numbered_emit: "numbered c p s \<Longrightarrow> numbered c (emit b p) s"
  by (simp add: numbered_to_emit)

text \<open>Programs that write nothing, and runs up to a reply that cannot be written.\<close>

primrec silent :: "'a prog \<Rightarrow> bool" where
  "silent (Return x) \<longleftrightarrow> True"
| "silent (Apply op k) \<longleftrightarrow> (\<forall>r. silent (k r))"
| "silent (Length k) \<longleftrightarrow> (\<forall>r. silent (k r))"
| "silent (Reply b k) \<longleftrightarrow> False"

lemma run_writes_silent:
  "silent p \<Longrightarrow> run_writes app len (prog_bind p f) ws s = (case run_prog app len p s of (x, s) \<Rightarrow> run_writes app len (f x) ws s)"
  by (induction p arbitrary: s) (auto split: prod.splits)

lemma run_writes_failed: "run_writes app len (emit b p) (Some n # ws) s = ((WriteFailed, take n b), s)"
  by (simp add: emit_def)

section \<open>The operations of a run\<close>

text \<open>The operations a program issues on the plain store, and operations of one connection numbered upwards.\<close>

primrec pure_ops :: "'a prog \<Rightarrow> kv_store \<Rightarrow> op list" where
  "pure_ops (Return x) m = []"
| "pure_ops (Apply op k) m = op # pure_ops (k (Some (snd (kv_apply m op)))) (fst (kv_apply m op))"
| "pure_ops (Length k) m = pure_ops (k (Some (kv_len m))) m"
| "pure_ops (Reply b k) m = pure_ops (k None) m"

fun upwards :: "u32 \<Rightarrow> u64 \<Rightarrow> op list \<Rightarrow> bool" where
  "upwards c s [] \<longleftrightarrow> True"
| "upwards c s (op # ops) \<longleftrightarrow> op_client op = c \<and> s < op_seq op \<and> upwards c (op_seq op) ops"

lemma numbered_upwards: "numbered_to c f p s \<Longrightarrow> upwards c s (pure_ops p m)"
  by (induction p arbitrary: s m) auto

text \<open>
  Programs that number their operations one by one from \<open>s + 1\<close> on, wrapping around; \<open>P\<close> relates the result
  to the last number. As long as there are fewer of them than numbers left, they go upwards.
\<close>

primrec counted :: "u32 \<Rightarrow> ('a \<Rightarrow> u64 \<Rightarrow> bool) \<Rightarrow> 'a prog \<Rightarrow> u64 \<Rightarrow> bool" where
  "counted c P (Return x) s \<longleftrightarrow> P x s"
| "counted c P (Apply op k) s \<longleftrightarrow> op_client op = c \<and> op_seq op = s + 1 \<and> (\<forall>r. counted c P (k r) (s + 1))"
| "counted c P (Length k) s \<longleftrightarrow> (\<forall>r. counted c P (k r) s)"
| "counted c P (Reply b k) s \<longleftrightarrow> (\<forall>w. counted c P (k w) s)"

lemma counted_bind:
  "counted c P p s \<Longrightarrow> (\<And>x s. P x s \<Longrightarrow> counted c Q (f x) s) \<Longrightarrow> counted c Q (prog_bind p f) s"
  by (induction p arbitrary: s) auto

lemma counted_emit: "counted c (\<lambda>_ _. True) p s \<Longrightarrow> counted c (\<lambda>_ _. True) (emit b p) s"
  unfolding emit_def by (auto intro: counted_bind split: option.splits)

lemma counted_upwards: "counted c P p s \<Longrightarrow> unat s + length (pure_ops p m) < 2 ^ 64 \<Longrightarrow> upwards c s (pure_ops p m)"
proof (induction p arbitrary: s m)
  case (Apply op k)
  have n: "s < s + 1" "unat (s + 1) = unat s + 1" using seq_next [of s] Apply.prems(2) by simp_all
  then show ?case using Apply.IH [OF rangeI, of _ "s + 1" "fst (kv_apply m op)"] Apply.prems by simp
qed auto

section \<open>The contract of a service\<close>

locale store_service =
  fixes app :: "op \<Rightarrow> 's \<Rightarrow> op_output option \<times> 's"
    and len :: "'s \<Rightarrow> nat option"
    and store :: "'s \<Rightarrow> kv_store"
    and ready :: "u32 \<Rightarrow> u64 \<Rightarrow> 's \<Rightarrow> bool"
  assumes apply_ready: "ready c s \<sigma> \<Longrightarrow> op_client op = c \<Longrightarrow> s < op_seq op \<Longrightarrow>
      \<exists>\<sigma>'. app op \<sigma> = (Some (snd (kv_apply (store \<sigma>) op)), \<sigma>') \<and> store \<sigma>' = fst (kv_apply (store \<sigma>) op)
        \<and> ready c (op_seq op) \<sigma>'"
    and len_ready: "ready c s \<sigma> \<Longrightarrow> len \<sigma> = Some (kv_len (store \<sigma>))"
    and ready_mono: "ready c s \<sigma> \<Longrightarrow> s \<le> s' \<Longrightarrow> ready c s' \<sigma>"
begin

text \<open>A program that numbers its operations upwards computes what it computes on the plain store.\<close>

lemma run_numbered:
  "numbered_to c f p s \<Longrightarrow> ready c s \<sigma> \<Longrightarrow>
   \<exists>x \<sigma>'. run_prog app len p \<sigma> = (x, \<sigma>') \<and> run_pure p (store \<sigma>) = (x, store \<sigma>') \<and> ready c (f x) \<sigma>'"
proof (induction p arbitrary: s \<sigma>)
  case (Return x)
  then show ?case using ready_mono by auto
next
  case (Apply op k)
  then obtain \<sigma>' where a: "app op \<sigma> = (Some (snd (kv_apply (store \<sigma>) op)), \<sigma>')"
      "store \<sigma>' = fst (kv_apply (store \<sigma>) op)" "ready c (op_seq op) \<sigma>'"
    using apply_ready [of c s \<sigma> op] by auto
  then show ?case
    using Apply.IH [OF rangeI _ a(3)] Apply.prems(1)
    by (fastforce simp: case_prod_beta)
next
  case (Length k)
  then show ?case using Length.IH [OF rangeI _ Length.prems(2)] len_ready [of c s \<sigma>] by simp
next
  case (Reply b k)
  then show ?case using Reply.IH [OF rangeI _ Reply.prems(2)] by simp
qed

text \<open>It is enough that the operations issued from this state are numbered upwards.\<close>

lemma run_upwards:
  "upwards c s (pure_ops p (store \<sigma>)) \<Longrightarrow> ready c s \<sigma> \<Longrightarrow>
   \<exists>x \<sigma>' s'. run_prog app len p \<sigma> = (x, \<sigma>') \<and> run_pure p (store \<sigma>) = (x, store \<sigma>') \<and> ready c s' \<sigma>'"
proof (induction p arbitrary: s \<sigma>)
  case (Apply op k)
  then obtain \<sigma>' where a: "app op \<sigma> = (Some (snd (kv_apply (store \<sigma>) op)), \<sigma>')"
      "store \<sigma>' = fst (kv_apply (store \<sigma>) op)" "ready c (op_seq op) \<sigma>'"
    using apply_ready [of c s \<sigma> op] by auto
  then show ?case
    using Apply.IH [OF rangeI _ a(3)] Apply.prems(1) by (simp add: case_prod_beta)
next
  case (Length k)
  then show ?case using Length.IH [OF rangeI _ Length.prems(2)] len_ready [of c s \<sigma>] by simp
next
  case (Reply b k)
  then show ?case using Reply.IH [OF rangeI _ Reply.prems(2)] by simp
qed auto

end

subsection \<open>The executor provides it\<close>

definition svc_store :: "service \<Rightarrow> kv_store" where
  "svc_store sv = e_state (sv_engine sv)"

definition svc_ready :: "u32 \<Rightarrow> u64 \<Rightarrow> service \<Rightarrow> bool" where
  "svc_ready c s sv \<longleftrightarrow> sv_alive sv \<and> quiet (e_dur (sv_engine sv)) \<and> bt_wf (e_applied (sv_engine sv))
     \<and> bt_wf (svc_store sv) \<and> hw_get (e_applied (sv_engine sv)) c \<le> s"

lemma svc_apply_quiet:
  assumes "sv_alive sv" "quiet (e_dur (sv_engine sv))"
  shows "\<exists>sv'. svc_apply stamp op sv = (Some (if op_seq op \<le> hw_get (e_applied (sv_engine sv)) (op_client op)
        then Suppressed else snd (kv_apply (svc_store sv) op)), sv') \<and> sv_alive sv' \<and> quiet (e_dur (sv_engine sv')) \<and>
      core (sv_engine sv') = core_step kv_sm (core (sv_engine sv)) (stamp (max (sv_clock sv + 1) (sv_tick sv)), op)"
  using deliver_quiet [OF assms(2), of kv_sm "stamp (max (sv_clock sv + 1) (sv_tick sv))" op] assms(1)
  by (auto simp: svc_apply_def svc_execute_def Let_def svc_store_def split: if_splits)

lemma svc_apply_ready:
  assumes "svc_ready c s sv" "op_client op = c" "s < op_seq op"
  shows "\<exists>sv'. svc_apply stamp op sv = (Some (snd (kv_apply (svc_store sv) op)), sv')
     \<and> svc_store sv' = fst (kv_apply (svc_store sv) op) \<and> svc_ready c (op_seq op) sv'"
proof -
  let ?e = "sv_engine sv"
  have hw: "\<not> op_seq op \<le> hw_get (e_applied ?e) (op_client op)"
    using assms by (auto simp: svc_ready_def not_le)
  obtain sv' where sv': "svc_apply stamp op sv = (Some (snd (kv_apply (svc_store sv) op)), sv')" "sv_alive sv'"
      "quiet (e_dur (sv_engine sv'))"
      "core (sv_engine sv') = core_step kv_sm (core ?e) (stamp (max (sv_clock sv + 1) (sv_tick sv)), op)"
    using svc_apply_quiet [of sv stamp op] assms(1) hw by (auto simp: svc_ready_def)
  then show ?thesis using hw assms
    by (auto simp: core_def svc_store_def svc_ready_def bt_simps hw_get_insert kv_apply_wf)
qed

interpretation svc: store_service "svc_apply stamp" svc_len svc_store svc_ready for stamp
proof
  show "\<exists>sv'. svc_apply stamp op sv = (Some (snd (kv_apply (svc_store sv) op)), sv') \<and>
      svc_store sv' = fst (kv_apply (svc_store sv) op) \<and> svc_ready c (op_seq op) sv'"
    if "svc_ready c s sv" "op_client op = c" "s < op_seq op" for c s sv op
    using that by (rule svc_apply_ready)
qed (auto simp: svc_len_def svc_ready_def svc_store_def)

interpretation pure: store_service pure_apply pure_len "\<lambda>m. m" "\<lambda>_ _ _. True"
  by unfold_locales (auto simp: pure_apply_def pure_len_def split: prod.splits)

text \<open>A freshly accepted connection starts above every operation of the recovered state.\<close>

lemma max_client_ge: "c \<in> fst ` set m \<Longrightarrow> c \<le> fold (\<lambda>p m. max (fst p) m) m (a :: u32)"
proof (induction m arbitrary: a)
  case (Cons p m)
  have "b \<le> fold (\<lambda>p m. max (fst p) m) m b" for b :: u32
    by (induction m arbitrary: b) (auto intro: order_trans [OF max.cobounded2])
  then show ?case using Cons by (auto intro: order_trans [OF max.cobounded1])
qed simp

lemma hw_above_max_client: "max_client e < c \<Longrightarrow> hw_get (e_applied e) c = 0"
proof -
  assume "max_client e < c"
  then have "c \<notin> fst ` set (e_applied e)"
    using max_client_ge [of c "e_applied e" 0] leD unfolding max_client_def by blast
  then have "map_of (e_applied e) c = None" by (simp add: map_of_eq_None_iff)
  then show ?thesis by (simp add: hw_get_def bt_get_def)
qed

lemma load_core_kv_wf: "bt_wf (fst (load_core kv_sm sn))"
proof -
  have "bt_wf (kv_restore b)" for b using kv_restore_fits [of b] by (simp add: kv_fits_def)
  then show ?thesis
    by (auto simp: load_core_def Let_def init_core_def load_snapshot_def core_def new_engine_def bt_simps
        split: option.splits prod.splits)
qed

lemma recovered_kv_wf: "bt_wf (fst (recovered kv_sm d))"
proof -
  have step: "bt_wf (fst c) \<Longrightarrow> bt_wf (fst (core_step kv_sm c x))" for c x
    by (cases c; cases x) (simp add: kv_apply_wf)
  have "bt_wf (fst c) \<Longrightarrow> bt_wf (fst (replay_core kv_sm c rs))" for c rs
    by (induction rs arbitrary: c) (auto simp: replay_core_def step split: option.splits)
  then show ?thesis using load_core_kv_wf by (simp add: recovered_def)
qed

lemma start_quiet:
  "\<exists>e. (if f_snapshot w \<noteq> None \<or> f_oplog w \<noteq> None then engine_recover kv_sm (w\<lparr>outcomes := []\<rparr>) interval fsync
      else engine_create kv_sm (w\<lparr>outcomes := []\<rparr>) interval fsync) = (Inr (), e) \<and> quiet (e_dur e) \<and> bt_wf (e_applied e)
        \<and> bt_wf (e_state e)"
proof (cases "f_snapshot w \<noteq> None \<or> f_oplog w \<noteq> None")
  case True
  obtain e where e: "engine_recover kv_sm (w\<lparr>outcomes := []\<rparr>) interval fsync = (Inr (), e)"
    using engine_recover_total by blast
  moreover have "bt_wf (e_applied e)" "bt_wf (e_state e)"
    using engine_recover_core [OF e] recovered_hw(1) recovered_kv_wf by (metis core_applied, metis core_state)
  ultimately show ?thesis using True engine_recover_quiet by auto
next
  case False
  then show ?thesis
    by (auto simp: engine_create_def durable_open_def sys_defs new_engine_def quiet_def bt_simps)
qed

lemma server_start_alive: "sv_alive (srv_service (server_start (w\<lparr>outcomes := []\<rparr>) interval fsync tick))"
  using start_quiet [of w interval fsync] by (auto simp: server_start_def svc_start_def split: if_splits)

lemma conn_ready:
  assumes "s = server_start (w\<lparr>outcomes := []\<rparr>) interval fsync tick" "srv_conn_id s \<le> c" "srv_conn_id s \<noteq> 0"
  shows "svc_ready c 0 (srv_service s)"
proof -
  obtain e where e: "(if f_snapshot w \<noteq> None \<or> f_oplog w \<noteq> None then engine_recover kv_sm (w\<lparr>outcomes := []\<rparr>) interval fsync
      else engine_create kv_sm (w\<lparr>outcomes := []\<rparr>) interval fsync) = (Inr (), e)" "quiet (e_dur e)" "bt_wf (e_applied e)"
    "bt_wf (e_state e)"
    using start_quiet by blast
  then have s: "srv_conn_id s = max_client e + 1" "sv_engine (srv_service s) = e" "sv_alive (srv_service s)"
    using assms(1) by (auto simp: server_start_def svc_start_def split: if_splits)
  have "max_client e < max_client e + 1" using assms(3) s(1) by (intro word_less_inc) simp
  then have "max_client e < c" using assms(2) s(1) by simp
  then show ?thesis using e s hw_above_max_client [of e c] by (simp add: svc_ready_def svc_store_def)
qed

end
