(* ===== verification/OB_Resp.thy ===== *)
theory OB_Resp
  imports OB_Wire
begin

text \<open>
  The RESP2 codec, \<open>resp.rs\<close>: replies and their wire form, and the command reader with the array form
  and the inline fallback. A command written as an array of bulk strings is read back exactly, whatever
  bytes its arguments hold and whatever follows it; the reader always makes progress.
\<close>

section \<open>Replies\<close>

datatype reply = Simple rstring | Error rstring | IntR i64 | Bulk "bytes option" | Array "reply list"

definition reply_ok :: reply where
  "reply_ok = Simple (ascii ''OK'')"

definition reply_pong :: reply where
  "reply_pong = Simple (ascii ''PONG'')"

fun to_bytes :: "reply \<Rightarrow> bytes" where
  "to_bytes (Simple s) = ascii ''+'' @ s @ crlf"
| "to_bytes (Error s) = ascii ''-'' @ s @ crlf"
| "to_bytes (IntR n) = ascii '':'' @ show_i64 n @ crlf"
| "to_bytes (Bulk None) = ascii ''$-1'' @ crlf"
| "to_bytes (Bulk (Some b)) = ascii ''$'' @ show_usize (length b) @ crlf @ b @ crlf"
| "to_bytes (Array rs) = ascii ''*'' @ show_usize (length rs) @ crlf @ concat (map to_bytes rs)"

section \<open>Commands\<close>

definition parse_int :: "bytes \<Rightarrow> i64 rd" where
  "parse_int b = (case do { s \<leftarrow> from_utf8 b; parse_i64 (trim s) } of
      Some v \<Rightarrow> rd_return v | None \<Rightarrow> rd_fail InvalidData)"

text \<open>The bulk strings of an array; \<open>len as usize + 2\<close> cannot overflow for a length that is not negative.\<close>

fun read_args :: "nat \<Rightarrow> bytes list rd" where
  "read_args 0 = rd_return []"
| "read_args (Suc n) = rd_then read_line (\<lambda>hdr.
     case hdr of None \<Rightarrow> rd_fail UnexpectedEof | Some hdr \<Rightarrow>
       if hdr = [] \<or> hd hdr \<noteq> of_char (CHR ''$'') then rd_fail InvalidData
       else rd_then (parse_int (tl hdr)) (\<lambda>len.
         if sint len < 0 then rd_then (read_args n) (\<lambda>args. rd_return ([] # args))
         else rd_then (alloc (nat (sint len) + 2)) (\<lambda>_.
              rd_then (read_exact (nat (sint len) + 2)) (\<lambda>buf.
              rd_then (read_args n) (\<lambda>args. rd_return (take (nat (sint len)) buf # args))))))"

definition is_ascii_whitespace :: "u8 \<Rightarrow> bool" where
  "is_ascii_whitespace b \<longleftrightarrow> b \<in> {0x09, 0x0A, 0x0C, 0x0D, 0x20}"

text \<open>\<open>Vec::with_capacity(n)\<close> for vectors of 24 bytes each panics like any allocation that is too large.\<close>

definition read_command :: "bytes list option rd" where
  "read_command = rd_then read_line (\<lambda>line.
     case line of None \<Rightarrow> rd_return None | Some line \<Rightarrow>
       if line = [] then rd_return (Some [])
       else if hd line = of_char (CHR ''*'') then
         rd_then (parse_int (tl line)) (\<lambda>n.
           if sint n \<le> 0 then rd_return (Some [])
           else rd_then (alloc (24 * nat (sint n))) (\<lambda>_.
                rd_then (read_args (nat (sint n))) (\<lambda>args. rd_return (Some args))))
       else rd_return (Some (split_nonempty is_ascii_whitespace line)))"

lemmas resp_defs [unfold_model] = reply_ok_def reply_pong_def parse_int_def is_ascii_whitespace_def
  read_command_def

section \<open>Round trip\<close>

lemma parse_i64_usize: "int n \<le> 9223372036854775807 \<Longrightarrow> parse_i64 (show_usize n) = Some (word_of_int (int n))"
  using parse_signed_dec [of "int n"] by (simp add: parse_i64_def show_usize_def)

lemma sint_len: "int n \<le> 9223372036854775807 \<Longrightarrow> sint (word_of_int (int n) :: i64) = int n"
  by (simp add: signed_take_bit_int_eq_self signed_of_int del: of_int_of_nat_eq)

lemma parse_int_usize:
  "int n \<le> 9223372036854775807 \<Longrightarrow> parse_int (show_usize n) = rd_return (word_of_int (int n))"
  by (simp add: parse_int_def show_usize_text parse_i64_usize)

lemma read_line_len:
  assumes "c \<noteq> 10"
  shows "read_line (wire ([c] @ show_usize n @ crlf) @ s) = (Inr (Some (c # show_usize n)), s)"
proof -
  have "10 \<notin> set (c # show_usize n)" "last (c # show_usize n) \<noteq> 13"
    using show_usize_chars [of 10 n] show_usize_chars [of "last (show_usize n)" n] assms
    by (auto simp: last_in_set)
  from read_line_wire [OF this(1), of s] this(2) show ?thesis by (simp add: crlf_def)
qed

definition arg_ok :: "bytes \<Rightarrow> bool" where
  "arg_ok a \<longleftrightarrow> int (length a) + 2 \<le> 9223372036854775807"

lemma read_args_bulk:
  "list_all arg_ok args \<Longrightarrow>
   read_args (length args) (wire (concat (map (\<lambda>a. to_bytes (Bulk (Some a))) args)) @ s) = (Inr args, s)"
proof (induction args)
  case (Cons a args)
  let ?rest = "wire (concat (map (\<lambda>a. to_bytes (Bulk (Some a))) args)) @ s"
  have a: "int (length a) \<le> 9223372036854775807" "int (length a + 2) \<le> 9223372036854775807"
    using Cons.prems by (simp_all add: arg_ok_def)
  have hdr: "read_line (wire (ascii ''$'' @ show_usize (length a) @ crlf) @ wire (a @ crlf) @ ?rest) =
      (Inr (Some (36 # show_usize (length a))), wire (a @ crlf) @ ?rest)"
    using read_line_len [of 36 "length a" "wire (a @ crlf) @ ?rest"] by simp
  have body: "read_exact (length a + 2) (wire (a @ crlf) @ ?rest) = (Inr (a @ crlf), ?rest)"
    by (rule read_exact_wire) (simp add: crlf_def)
  have "nat (sint (word_of_int (int (length a)) :: i64)) = length a" "\<not> sint (word_of_int (int (length a)) :: i64) < 0"
    using sint_len [OF a(1)] by simp_all
  then show ?case using hdr body a Cons
    by (simp add: rd_then_def parse_int_usize rd_return_def alloc_def)
qed (simp add: rd_return_def)

lemma read_command_array:
  assumes "args \<noteq> []" "list_all arg_ok args" "24 * int (length args) \<le> 9223372036854775807"
  shows "read_command (wire (to_bytes (Array (map (\<lambda>a. Bulk (Some a)) args))) @ s) = (Inr (Some args), s)"
proof -
  let ?rest = "wire (concat (map (\<lambda>a. to_bytes (Bulk (Some a))) args)) @ s"
  have n: "int (length args) \<le> 9223372036854775807" using assms(3) by simp
  have hdr: "read_line (wire (ascii ''*'' @ show_usize (length args) @ crlf) @ ?rest) =
      (Inr (Some (42 # show_usize (length args))), ?rest)"
    using read_line_len [of 42 "length args" ?rest] by simp
  have "nat (sint (word_of_int (int (length args)) :: i64)) = length args" "\<not> sint (word_of_int (int (length args)) :: i64) \<le> 0"
    using sint_len [OF n] assms(1) by simp_all
  then show ?thesis using hdr read_args_bulk [OF assms(2), of s] assms(3) n
    by (simp add: read_command_def rd_then_def parse_int_usize rd_return_def alloc_def o_def)
qed

section \<open>Progress\<close>

lemma read_args_length: "read_args n s = (r, s') \<Longrightarrow> length s' \<le> length s"
proof (induction n arbitrary: s r)
  case (Suc n)
  then show ?case
    by (auto simp: rd_fail_def rd_return_def parse_int_def alloc_def elim!: rd_thenE
        dest!: read_line_length(1) read_exact_length split: option.splits if_splits)
      (fastforce dest: Suc.IH intro: order_trans)+
qed (simp add: rd_return_def)

lemma read_command_progress:
  assumes "read_command s = (r, s')" "r \<noteq> Inr None"
  shows "length s' < length s"
proof -
  have le: "read_args n s1 = (r1, s2) \<Longrightarrow> length s1 < length s \<Longrightarrow> length s2 < length s" for n s1 r1 s2
    using read_args_length by (meson le_less_trans)
  show ?thesis using assms
    by (auto simp: read_command_def rd_fail_def rd_return_def parse_int_def alloc_def elim!: rd_thenE
        dest!: read_line_length(2,3) split: option.splits if_splits) (use le in blast)+
qed

end
