(* ===== verification/OB_Server.thy ===== *)
theory OB_Server
  imports OB_Service OB_Resp
begin

text \<open>
  The RESP front end of \<open>server.rs\<close>: the command dispatcher and the connection loop, as programs over the
  service. A pipelined connection is read command by command to its end; every command but a
  multi-key \<open>DEL\<close> behaves as on the plain store.
\<close>

section \<open>Dispatch\<close>

definition unavailable :: reply where
  "unavailable = Error (ascii ''ERR executor unavailable'')"

definition not_an_integer :: reply where
  "not_an_integer = Error (ascii ''ERR value is not an integer or out of range'')"

fun resp_del :: "u32 \<Rightarrow> u64 \<Rightarrow> bytes list \<Rightarrow> i64 \<Rightarrow> reply prog" where
  "resp_del client seq [] count = Return (IntR count)"
| "resp_del client seq (k # ks) count = Apply (op_del client seq (from_utf8_lossy k)) (\<lambda>r.
     resp_del client seq ks (case r of Some (Value (Some n)) \<Rightarrow> count + n | _ \<Rightarrow> count))"

definition resp_incr :: "bytes list \<Rightarrow> bytes \<Rightarrow> u32 \<Rightarrow> u64 \<Rightarrow> reply prog" where
  "resp_incr args name client seq =
     (case (if name = ascii ''INCRBY'' \<or> name = ascii ''DECRBY''
            then (if length args > 2 then do { s \<leftarrow> from_utf8 (args ! 2); parse_i64 s } else None)
            else Some 1) of
        None \<Rightarrow> Return not_an_integer
      | Some mag \<Rightarrow>
          Apply (op_incr client seq (from_utf8_lossy (args ! 1))
              (if name = ascii ''DECR'' \<or> name = ascii ''DECRBY'' then - mag else mag))
            (\<lambda>r. Return (case r of Some (Value (Some n)) \<Rightarrow> IntR n | _ \<Rightarrow> unavailable)))"

definition info_text :: bytes where
  "info_text = ascii ''# Server'' @ crlf @ ascii ''redis_version:onebarrier-0.1'' @ crlf"

definition resp_dispatch :: "bytes list \<Rightarrow> u32 \<Rightarrow> u64 \<Rightarrow> reply prog" where
  "resp_dispatch args client seq =
     (let name = ascii_upper (args ! 0) in
      if name = ascii ''PING'' then
        Return (if length args > 1 then Bulk (Some (args ! 1)) else reply_pong)
      else if name = ascii ''SET'' \<and> length args \<ge> 3 then
        Apply (op_set_bytes client seq (from_utf8_lossy (args ! 1)) (args ! 2))
          (\<lambda>r. Return (case r of Some _ \<Rightarrow> reply_ok | None \<Rightarrow> unavailable))
      else if name = ascii ''GET'' \<and> length args \<ge> 2 then
        Apply (op_get client seq (from_utf8_lossy (args ! 1)))
          (\<lambda>r. Return (case r of Some (Bytes b) \<Rightarrow> Bulk b | _ \<Rightarrow> Bulk None))
      else if name \<in> {ascii ''INCR'', ascii ''DECR'', ascii ''INCRBY'', ascii ''DECRBY''} \<and> length args \<ge> 2 then
        resp_incr args name client seq
      else if name = ascii ''DEL'' \<and> length args \<ge> 2 then resp_del client seq (tl args) 0
      else if name = ascii ''DBSIZE'' then
        Length (\<lambda>n. Return (IntR (word_of_nat (case n of Some n \<Rightarrow> n | None \<Rightarrow> 0))))
      else if name \<in> {ascii ''COMMAND'', ascii ''CONFIG''} then Return (Array [])
      else if name \<in> {ascii ''SELECT'', ascii ''FLUSHALL'', ascii ''FLUSHDB'', ascii ''CLIENT''} then Return reply_ok
      else if name = ascii ''RESET'' then Return (Simple (ascii ''RESET''))
      else if name = ascii ''INFO'' then Return (Bulk (Some info_text))
      else Return (Error (ascii ''ERR unknown command '' @ [39] @ from_utf8_lossy name @ [39])))"

section \<open>The connection loop\<close>

function resp_serve :: "u32 \<Rightarrow> u64 \<Rightarrow> item list \<Rightarrow> (conn_end \<times> bytes) prog" where
  "resp_serve c seq s =
     (case read_command s of
        (Inr None, _) \<Rightarrow> Return (Closed, [])
      | (Inr (Some args), s') \<Rightarrow>
          if args = [] then resp_serve c seq s'
          else if eq_ignore_ascii_case (args ! 0) (ascii ''QUIT'') then emit (to_bytes reply_ok) (Return (Closed, []))
          else prog_bind (resp_dispatch args c (seq + 1)) (\<lambda>r. emit (to_bytes r) (resp_serve c (seq + 1) s'))
      | (Inl (TimedOut shutdown), s') \<Rightarrow> if shutdown then Return (Closed, []) else resp_serve c seq s'
      | (Inl UnexpectedEof, _) \<Rightarrow> Return (Closed, [])
      | (Inl e, _) \<Rightarrow> Return (Failed e, []))"
  by pat_completeness auto
termination
  by (relation "measure (\<lambda>(_, _, s). length s)") (auto dest: read_command_progress [OF sym])

declare resp_serve.simps [simp del]

lemmas server_defs [unfold_model] = unavailable_def not_an_integer_def resp_incr_def info_text_def resp_dispatch_def

section \<open>Commands on the service\<close>

text \<open>Every command but a \<open>DEL\<close> of several keys numbers its operations upwards.\<close>

lemma resp_dispatch_numbered:
  assumes "s < seq" "ascii_upper (args ! 0) = ascii ''DEL'' \<longrightarrow> length args \<le> 2"
  shows "numbered_to c (\<lambda>_. seq) (resp_dispatch args c seq) s"
proof (cases "ascii_upper (args ! 0) = ascii ''DEL'' \<and> 2 \<le> length args")
  case True
  then have "length args = 2" using assms(2) by simp
  then obtain a k where "args = [a, k]" by (auto simp: numeral_2_eq_2 length_Suc_conv)
  then show ?thesis using True assms(1)
    by (auto simp: resp_dispatch_def op_del_def Let_def ascii_upper_def less_imp_le)
next
  case False
  then show ?thesis using assms(1)
    by (auto simp: resp_dispatch_def resp_incr_def op_defs Let_def less_imp_le split: option.splits)
qed

lemma resp_dispatch_svc:
  assumes "svc_ready c s sv" "s < seq" "ascii_upper (args ! 0) = ascii ''DEL'' \<longrightarrow> length args \<le> 2"
  shows "\<exists>r sv'. run_svc stamp (resp_dispatch args c seq) sv = (r, sv') \<and>
    run_pure (resp_dispatch args c seq) (svc_store sv) = (r, svc_store sv') \<and> svc_ready c seq sv'"
  using svc.run_numbered [OF resp_dispatch_numbered [OF assms(2,3)] assms(1)] by (simp add: run_svc_def)

text \<open>The keys after the first reuse its sequence number, and are suppressed.\<close>

lemma resp_del_rest:
  assumes "sv_alive sv" "quiet (e_dur (sv_engine sv))" "seq \<le> hw_get (e_applied (sv_engine sv)) c"
  shows "\<exists>sv'. run_svc stamp (resp_del c seq ks count) sv = (IntR count, sv') \<and> svc_store sv' = svc_store sv"
  using assms
proof (induction ks arbitrary: sv)
  case (Cons k ks)
  let ?op = "op_del c seq (from_utf8_lossy k)"
  have "seq \<le> hw_get (e_applied (sv_engine sv)) (op_client ?op)" "op_seq ?op = seq"
    using Cons.prems by (simp_all add: op_del_def)
  then obtain sv1 where sv1: "svc_apply stamp ?op sv = (Some Suppressed, sv1)" "sv_alive sv1"
      "quiet (e_dur (sv_engine sv1))" "core (sv_engine sv1) = core (sv_engine sv)"
    using svc_apply_quiet [OF Cons.prems(1,2), of stamp ?op] by (auto simp: core_def)
  then show ?case using Cons.IH [of sv1] Cons.prems(3)
    by (auto simp: run_svc_def core_def svc_store_def)
qed (simp add: run_svc_def)

lemma resp_del_first:
  assumes "svc_ready c s sv" "s < seq"
  shows "\<exists>sv'. run_svc stamp (resp_del c seq (k # ks) 0) sv =
      (IntR (if bt_get (svc_store sv) (from_utf8_lossy k) \<noteq> None then 1 else 0), sv')
    \<and> svc_store sv' = bt_remove (from_utf8_lossy k) (svc_store sv)"
proof -
  let ?op = "op_del c seq (from_utf8_lossy k)"
  obtain sv1 where sv1: "svc_apply stamp ?op sv = (Some (snd (kv_apply (svc_store sv) ?op)), sv1)"
      "svc_store sv1 = fst (kv_apply (svc_store sv) ?op)"
      "sv_alive sv1" "quiet (e_dur (sv_engine sv1))"
      "core (sv_engine sv1) = core_step kv_sm (core (sv_engine sv)) (stamp (max (sv_clock sv + 1) (sv_tick sv)), ?op)"
    using svc_apply_quiet [of sv stamp ?op] assms
    by (auto simp: svc_ready_def op_del_def core_def svc_store_def not_le split: if_splits)
  have "seq \<le> hw_get (e_applied (sv_engine sv1)) c"
    using core_step_hw(3) [of "core (sv_engine sv)" ?op kv_sm "stamp (max (sv_clock sv + 1) (sv_tick sv))"]
      sv1(5) assms(1) by (simp add: core_applied svc_ready_def op_del_def)
  then show ?thesis
    using resp_del_rest [OF sv1(3,4), of seq c stamp ks] sv1(1,2)
    by (force simp: run_svc_def kv_apply_def op_del_def)
qed

text \<open>A deletion of several keys does not behave as on the plain store.\<close>

lemma resp_dispatch_del:
  assumes "svc_ready c s sv" "s < seq" "ascii_upper name = ascii ''DEL''"
  shows "\<exists>sv'. run_svc stamp (resp_dispatch (name # k # ks) c seq) sv =
      (IntR (if bt_get (svc_store sv) (from_utf8_lossy k) \<noteq> None then 1 else 0), sv')
    \<and> svc_store sv' = bt_remove (from_utf8_lossy k) (svc_store sv)"
  using resp_del_first [OF assms(1,2), of stamp k ks] assms(3)
  by (simp add: resp_dispatch_def Let_def ascii_upper_def)

section \<open>Pipelined connections\<close>

definition resp_cmd :: "bytes list \<Rightarrow> bytes" where
  "resp_cmd args = to_bytes (Array (map (\<lambda>a. Bulk (Some a)) args))"

definition cmd_ok :: "bytes list \<Rightarrow> bool" where
  "cmd_ok args \<longleftrightarrow> args \<noteq> [] \<and> list_all arg_ok args \<and> 24 * int (length args) \<le> 9223372036854775807"

lemma resp_serve_cmd:
  assumes "cmd_ok args" "\<not> eq_ignore_ascii_case (args ! 0) (ascii ''QUIT'')"
  shows "resp_serve c seq (wire (resp_cmd args) @ s) =
    prog_bind (resp_dispatch args c (seq + 1)) (\<lambda>r. emit (to_bytes r) (resp_serve c (seq + 1) s))"
  using assms read_command_array [of args s]
  by (subst resp_serve.simps) (simp add: cmd_ok_def resp_cmd_def)

lemma resp_serve_eof: "resp_serve c seq [] = Return (Closed, [])"
  by (subst resp_serve.simps) (simp add: read_command_def read_line_def rd_then_def rd_return_def)

lemma resp_serve_timeout:
  "10 \<notin> set l \<Longrightarrow> resp_serve c seq (wire l @ Timeout False # s) = resp_serve c seq s"
  by (subst resp_serve.simps) (simp add: read_command_def rd_then_def read_line_timeout)

text \<open>A command whose reply cannot be written has been carried out; what is behind it in the pipeline is not.\<close>

lemma resp_del_silent: "silent (resp_del c seq ks count)"
  by (induction ks arbitrary: count) auto

lemma resp_dispatch_silent: "silent (resp_dispatch args c seq)"
  by (simp add: resp_dispatch_def resp_incr_def resp_del_silent Let_def split: option.splits)

lemma resp_serve_unwritten:
  assumes "svc_ready c s sv" "s < s + 1" "cmd_ok args" "\<not> eq_ignore_ascii_case (args ! 0) (ascii ''QUIT'')"
    and "ascii_upper (args ! 0) = ascii ''DEL'' \<longrightarrow> length args \<le> 2"
  shows "\<exists>r sv'. run_writes (svc_apply stamp) svc_len (resp_serve c s (wire (resp_cmd args) @ rest)) (Some n # ws) sv =
      ((WriteFailed, take n (to_bytes r)), sv') \<and>
    run_pure (resp_dispatch args c (s + 1)) (svc_store sv) = (r, svc_store sv') \<and> svc_ready c (s + 1) sv'"
  using resp_dispatch_svc [OF assms(1,2,5), of stamp]
  by (auto simp: resp_serve_cmd [OF assms(3,4)] run_writes_silent [OF resp_dispatch_silent] run_writes_failed run_svc_def)

text \<open>A value that was set is read back over the same connection, byte for byte.\<close>

lemma resp_set_get:
  assumes "svc_ready c s sv" "s < s + 1" "s + 1 < s + 2"
    and "cmd_ok [ascii ''SET'', k, v]" "cmd_ok [ascii ''GET'', k]"
  shows "fst (run_svc stamp (resp_serve c s (wire (resp_cmd [ascii ''SET'', k, v]) @ wire (resp_cmd [ascii ''GET'', k]))) sv)
    = (Closed, to_bytes reply_ok @ to_bytes (Bulk (Some v)))"
proof -
  let ?k = "from_utf8_lossy k"
  have set: "resp_dispatch [ascii ''SET'', k, v] c q = Apply (op_set_bytes c q ?k v)
      (\<lambda>r. Return (case r of Some _ \<Rightarrow> reply_ok | None \<Rightarrow> unavailable))"
    and get: "resp_dispatch [ascii ''GET'', k] c q = Apply (op_get c q ?k)
      (\<lambda>r. Return (case r of Some (Bytes b) \<Rightarrow> Bulk b | _ \<Rightarrow> Bulk None))" for q
    by (simp_all add: resp_dispatch_def ascii_upper_def)
  have quit: "\<not> eq_ignore_ascii_case (ascii ''SET'') (ascii ''QUIT'')" "\<not> eq_ignore_ascii_case (ascii ''GET'') (ascii ''QUIT'')"
    by (simp_all add: eq_ignore_ascii_case_def ascii_lower_def)
  have serve: "resp_serve c s (wire (resp_cmd [ascii ''SET'', k, v]) @ wire (resp_cmd [ascii ''GET'', k])) =
      Apply (op_set_bytes c (s + 1) ?k v) (\<lambda>r. prog_bind
        (Return (case r of Some _ \<Rightarrow> reply_ok | None \<Rightarrow> unavailable)) (\<lambda>r. emit (to_bytes r)
        (Apply (op_get c (s + 2) ?k) (\<lambda>r. prog_bind (Return (case r of Some (Bytes b) \<Rightarrow> Bulk b | _ \<Rightarrow> Bulk None))
          (\<lambda>r. emit (to_bytes r) (Return (Closed, [])))))))"
    using resp_serve_cmd [OF assms(4), of c s "wire (resp_cmd [ascii ''GET'', k])"]
      resp_serve_cmd [OF assms(5), of c "s + 1" "[]"] quit
    by (simp add: set get resp_serve_eof add.assoc del: ascii_Cons)
  have num: "numbered_to c (\<lambda>_. s + 2) (resp_serve c s (wire (resp_cmd [ascii ''SET'', k, v]) @ wire (resp_cmd [ascii ''GET'', k]))) s"
    using assms(2,3) by (auto simp: serve op_defs simp del: ascii_Cons intro!: numbered_to_emit)
  have "fst (run_pure (resp_serve c s (wire (resp_cmd [ascii ''SET'', k, v]) @ wire (resp_cmd [ascii ''GET'', k]))) (svc_store sv))
      = (Closed, to_bytes reply_ok @ to_bytes (Bulk (Some v)))"
    using assms(1) by (simp add: serve emit_def kv_apply_def op_defs svc_ready_def bt_simps del: ascii_Cons)
  then show ?thesis using svc.run_numbered [OF num assms(1), of stamp] by (auto simp: run_svc_def)
qed

end
