(* ===== verification/OB_Memcache.thy ===== *)
theory OB_Memcache
  imports OB_Service
begin

text \<open>
  The Memcached text protocol, \<open>memcache.rs\<close>: the commands and the connection loop. The loop numbers
  its operations upwards, so a whole connection computes on the durable service what it computes on the
  plain store. The remaining lemmas are the behaviour of the commands there.
\<close>

section \<open>Commands\<close>

definition line_out :: "string \<Rightarrow> bytes" where
  "line_out s = ascii s @ crlf"

definition mc_parse_usize :: "bytes \<Rightarrow> nat" where
  "mc_parse_usize b = (case do { s \<leftarrow> from_utf8 b; parse_usize s } of Some n \<Rightarrow> n | None \<Rightarrow> 0)"

definition mc_parse_i64 :: "bytes \<Rightarrow> i64" where
  "mc_parse_i64 b = (case do { s \<leftarrow> from_utf8 b; parse_i64 s } of Some n \<Rightarrow> n | None \<Rightarrow> 0)"

text \<open>The data block of a storage command; \<open>nbytes + 2\<close> wraps at the width of \<open>usize\<close>.\<close>

definition mc_data :: "bytes \<Rightarrow> bytes rd" where
  "mc_data b = (let nbytes = mc_parse_usize b; size = (nbytes + 2) mod 2 ^ 64 in
     rd_then (alloc size) (\<lambda>_. rd_then (read_exact size) (\<lambda>data. rd_return (take nbytes data))))"

definition mc_set :: "bytes list \<Rightarrow> bytes \<Rightarrow> u32 \<Rightarrow> u64 \<Rightarrow> bytes prog" where
  "mc_set parts data c seq = Apply (op_set_bytes c seq (from_utf8_lossy (parts ! 1)) data)
     (\<lambda>_. Return (if last parts = ascii ''noreply'' then [] else line_out ''STORED''))"

fun mc_get :: "u32 \<Rightarrow> u64 \<Rightarrow> bytes list \<Rightarrow> (bytes \<times> u64) prog" where
  "mc_get c seq [] = Return (line_out ''END'', seq)"
| "mc_get c seq (k # ks) = (let key = from_utf8_lossy k in
     Apply (op_get c (seq + 1) key) (\<lambda>r. prog_bind (mc_get c (seq + 1) ks) (\<lambda>(out, seq). Return
       ((case r of Some (Bytes (Some v)) \<Rightarrow>
           ascii ''VALUE '' @ key @ ascii '' 0 '' @ show_usize (length v) @ crlf @ v @ crlf
         | _ \<Rightarrow> []) @ out, seq))))"

definition mc_incr :: "bytes \<Rightarrow> bytes list \<Rightarrow> u32 \<Rightarrow> u64 \<Rightarrow> (bytes \<times> u64) prog" where
  "mc_incr cmd parts c seq = (let key = from_utf8_lossy (parts ! 1); mag = mc_parse_i64 (parts ! 2) in
     Apply (op_get c (seq + 1) key) (\<lambda>r. case r of
       Some (Bytes (Some _)) \<Rightarrow>
         Apply (op_incr c (seq + 1 + 1) key (if cmd = ascii ''decr'' then - mag else mag)) (\<lambda>r. Return
           (case r of
              Some (Value (Some n)) \<Rightarrow> show_i64 (if sint n < 0 then 0 else n) @ crlf
            | _ \<Rightarrow> line_out ''ERROR'', seq + 1 + 1))
     | _ \<Rightarrow> Return (line_out ''NOT_FOUND'', seq + 1)))"

definition mc_delete :: "bytes list \<Rightarrow> u32 \<Rightarrow> u64 \<Rightarrow> (bytes \<times> u64) prog" where
  "mc_delete parts c seq = Apply (op_del c (seq + 1) (from_utf8_lossy (parts ! 1))) (\<lambda>r. Return
     (if r = Some (Value (Some 1)) then line_out ''DELETED'' else line_out ''NOT_FOUND'', seq + 1))"

definition mc_command :: "bytes \<Rightarrow> bytes list \<Rightarrow> u32 \<Rightarrow> u64 \<Rightarrow> (bytes \<times> u64) prog" where
  "mc_command cmd parts c seq =
     (if cmd = ascii ''get'' \<or> cmd = ascii ''gets'' then mc_get c seq (tl parts)
      else if (cmd = ascii ''incr'' \<or> cmd = ascii ''decr'') \<and> length parts \<ge> 3 then mc_incr cmd parts c seq
      else if cmd = ascii ''delete'' \<and> length parts \<ge> 2 then mc_delete parts c seq
      else if cmd = ascii ''version'' then Return (line_out ''VERSION onebarrier-0.1'', seq)
      else Return (line_out ''ERROR'', seq))"

section \<open>The connection loop\<close>

lemma mc_data_length: "mc_data b s = (r, s') \<Longrightarrow> length s' \<le> length s"
  by (auto simp: mc_data_def Let_def alloc_def rd_return_def rd_fail_def elim!: rd_thenE dest!: read_exact_length
      split: if_splits)

function mc_serve :: "u32 \<Rightarrow> u64 \<Rightarrow> item list \<Rightarrow> (conn_end \<times> bytes) prog" where
  "mc_serve c seq s =
     (case read_line s of
        (Inr None, _) \<Rightarrow> Return (Closed, [])
      | (Inr (Some line), s') \<Rightarrow>
          let parts = split_nonempty (\<lambda>b. b = 32) line; cmd = ascii_lower (parts ! 0) in
          if parts = [] then mc_serve c seq s'
          else if cmd \<in> {ascii ''set'', ascii ''add'', ascii ''replace''} then
            (if length parts < 5 then emit (line_out ''ERROR'') (mc_serve c seq s')
             else (case mc_data (parts ! 4) s' of
                 (Inl e, _) \<Rightarrow> Return (Failed e, [])
               | (Inr data, s'') \<Rightarrow>
                   prog_bind (mc_set parts data c (seq + 1)) (\<lambda>out. emit out (mc_serve c (seq + 1) s''))))
          else if cmd = ascii ''quit'' then Return (Closed, [])
          else prog_bind (mc_command cmd parts c seq) (\<lambda>(out, seq). emit out (mc_serve c seq s'))
      | (Inl (TimedOut shutdown), s') \<Rightarrow> if shutdown then Return (Closed, []) else mc_serve c seq s'
      | (Inl UnexpectedEof, _) \<Rightarrow> Return (Closed, [])
      | (Inl e, _) \<Rightarrow> Return (Failed e, []))"
  by pat_completeness auto
termination
  by (relation "measure (\<lambda>(_, _, s). length s)")
    (auto dest!: read_line_length(2,3) [OF sym] mc_data_length [OF sym])

declare mc_serve.simps [simp del]

lemmas mc_defs [unfold_model] = line_out_def mc_parse_usize_def mc_parse_i64_def mc_data_def mc_set_def mc_incr_def
  mc_delete_def mc_command_def

section \<open>The whole connection on the durable service\<close>

text \<open>A command issues at most as many operations as its line has words.\<close>

lemma mc_get_numbered:
  "unat seq + length ks < 2 ^ 64 \<Longrightarrow> numbered_to c snd (mc_get c seq ks) seq \<and>
     results (\<lambda>x. unat (snd x) \<le> unat seq + length ks) (mc_get c seq ks)"
proof (induction ks arbitrary: seq)
  case (Cons k ks)
  have n: "seq < seq + 1" "unat (seq + 1) = unat seq + 1"
    using seq_next [of seq] Cons.prems by simp_all
  have IH: "numbered_to c snd (mc_get c (seq + 1) ks) (seq + 1)"
    "results (\<lambda>x. unat (snd x) \<le> unat seq + length (k # ks)) (mc_get c (seq + 1) ks)"
    using Cons.IH [of "seq + 1"] Cons.prems n by simp_all
  show ?case using n IH
    by (auto simp: Let_def op_get_def intro!: numbered_to_bind [where f = snd]
        results_bind [where P = "\<lambda>x. unat (snd x) \<le> unat seq + length (k # ks)"])
qed simp

lemma mc_command_numbered:
  assumes "unat seq + length parts < 2 ^ 64" "parts \<noteq> []"
  shows "numbered_to c snd (mc_command cmd parts c seq) seq"
    and "results (\<lambda>x. unat (snd x) \<le> unat seq + length parts) (mc_command cmd parts c seq)"
proof -
  have 1: "seq < seq + 1" "unat (seq + 1) = unat seq + 1" if "2 \<le> length parts"
    using seq_next [of seq] assms that by simp_all
  have 2: "seq + 1 < seq + 1 + 1" "unat (seq + 1 + 1) = unat seq + 2" if "3 \<le> length parts"
    using seq_next [of "seq + 1"] 1 assms that by simp_all
  have g: "numbered_to c snd (mc_get c seq (tl parts)) seq"
    "results (\<lambda>x. unat (snd x) \<le> unat seq + length parts) (mc_get c seq (tl parts))"
    using mc_get_numbered [of seq "tl parts" c] assms(1)
      results_weaken [of "\<lambda>x. unat (snd x) \<le> unat seq + length (tl parts)" "mc_get c seq (tl parts)"
        "\<lambda>x. unat (snd x) \<le> unat seq + length parts"]
    by auto
  show "numbered_to c snd (mc_command cmd parts c seq) seq"
    using 1 2 g(1) by (auto simp: mc_command_def mc_incr_def mc_delete_def Let_def op_defs
        split: option.splits op_output.splits)
  show "results (\<lambda>x. unat (snd x) \<le> unat seq + length parts) (mc_command cmd parts c seq)"
    using 1 2 g(2) by (auto simp: mc_command_def mc_incr_def mc_delete_def Let_def op_defs
        split: option.splits op_output.splits)
qed

lemma mc_line_numbered:
  assumes IH: "\<And>seq s1. length s1 < length s \<Longrightarrow> unat seq + length s1 < 2 ^ 64 \<Longrightarrow> numbered c (mc_serve c seq s1) seq"
    and rl: "read_line s = (Inr (Some line), s')" and bound: "unat seq + length s < 2 ^ 64"
  shows "numbered c (mc_serve c seq s) seq"
proof -
  let ?parts = "split_nonempty (\<lambda>b. b = 32) line"
  have len: "length ?parts + length s' \<le> length s" "length s' < length s"
    using read_line_bound [OF rl] read_line_length(2) [OF rl] split_nonempty_length [of "\<lambda>b. b = 32" line] by simp_all
  have next_line: "numbered c (mc_serve c seq s') seq" using IH len(2) bound by simp
  have set: "numbered c (prog_bind (mc_set ?parts data c (seq + 1)) (\<lambda>out. emit out (mc_serve c (seq + 1) s''))) seq"
    if "mc_data b s' = (Inr data, s'')" "\<not> length ?parts < 5" for b data s''
  proof -
    have "length s'' \<le> length s'" by (rule mc_data_length [OF that(1)])
    moreover have "seq < seq + 1" "unat (seq + 1) = unat seq + 1" using seq_next [of seq] bound len that(2) by simp_all
    ultimately show ?thesis using IH [of s'' "seq + 1"] bound len that(2)
      by (simp add: mc_set_def op_set_bytes_def numbered_emit)
  qed
  have cmd: "numbered c (prog_bind (mc_command cmd ?parts c seq) (\<lambda>(out, seq). emit out (mc_serve c seq s'))) seq"
    if "?parts \<noteq> []" for cmd
  proof (rule numbered_to_bind_results)
    show "numbered_to c snd (mc_command cmd ?parts c seq) seq"
      "results (\<lambda>x. unat (snd x) \<le> unat seq + length ?parts) (mc_command cmd ?parts c seq)"
      using mc_command_numbered [of seq ?parts] that len(1) bound by simp_all
  next
    fix x :: "bytes \<times> u64" assume "unat (snd x) \<le> unat seq + length ?parts"
    then show "numbered c (case x of (out, seq) \<Rightarrow> emit out (mc_serve c seq s')) (snd x)"
      using IH [of s' "snd x"] len bound by (cases x) (simp add: numbered_emit)
  qed
  show ?thesis using rl next_line set cmd
    by (subst mc_serve.simps) (auto simp: Let_def numbered_emit split: prod.splits sum.splits)
qed

lemma mc_serve_numbered: "unat seq + length s < 2 ^ 64 \<Longrightarrow> numbered c (mc_serve c seq s) seq"
proof (induction "length s" arbitrary: seq s rule: less_induct)
  case less
  obtain r s' where rl: "read_line s = (r, s')" by (cases "read_line s")
  consider (err) e where "r = Inl e" | (eof) "r = Inr None" | (line) line where "r = Inr (Some line)"
    by (cases r) auto
  then show ?case
  proof cases
    case err
    then show ?thesis using rl less read_line_length(3) [of s]
      by (subst mc_serve.simps) (auto split: rd_error.splits)
  next
    case eof
    then show ?thesis using rl by (subst mc_serve.simps) simp
  next
    case line
    then show ?thesis using mc_line_numbered [of s c line s' seq] less rl by simp
  qed
qed

text \<open>A connection computes on the service what it computes on the plain store.\<close>

lemma mc_serve_svc:
  assumes "svc_ready c seq sv" "unat seq + length s < 2 ^ 64"
  shows "\<exists>x sv'. run_svc stamp (mc_serve c seq s) sv = (x, sv') \<and>
    run_pure (mc_serve c seq s) (svc_store sv) = (x, svc_store sv')"
  using svc.run_numbered [OF mc_serve_numbered [OF assms(2)] assms(1), of stamp] by (auto simp: run_svc_def)

section \<open>The commands on the plain store\<close>

text \<open>
  Increment and decrement: nothing for a missing key; otherwise the sum is stored, while the reply is
  the sum or zero, whichever is larger.
\<close>

lemma mc_incr_pure:
  fixes parts cmd
  defines "key \<equiv> from_utf8_lossy (parts ! 1)" and "delta \<equiv> (if cmd = ascii ''decr'' then - mc_parse_i64 (parts ! 2) else mc_parse_i64 (parts ! 2))"
  shows "run_pure (mc_incr cmd parts c seq) m =
    (if bt_get m key = None then ((line_out ''NOT_FOUND'', seq + 1), m)
     else let n = incr_cur m key + delta in
       ((show_i64 (if sint n < 0 then 0 else n) @ crlf, seq + 1 + 1), bt_insert key (show_i64 n) m))"
  by (auto simp: mc_incr_def key_def delta_def op_defs kv_apply_def Let_def split: option.splits)

text \<open>The retrieval of several keys: one block for each that is present, in the order of the request.\<close>

definition mc_value :: "kv_store \<Rightarrow> bytes \<Rightarrow> bytes" where
  "mc_value m k = (let key = from_utf8_lossy k in case bt_get m key of None \<Rightarrow> []
     | Some v \<Rightarrow> ascii ''VALUE '' @ key @ ascii '' 0 '' @ show_usize (length v) @ crlf @ v @ crlf)"

lemma mc_get_pure: "\<exists>seq'. run_pure (mc_get c seq ks) m = ((concat (map (mc_value m) ks) @ line_out ''END'', seq'), m)"
proof (induction ks arbitrary: seq)
  case (Cons k ks)
  obtain seq' where "run_pure (mc_get c (seq + 1) ks) m = ((concat (map (mc_value m) ks) @ line_out ''END'', seq'), m)"
    using Cons by blast
  then show ?case by (auto simp: Let_def op_get_def kv_apply_def mc_value_def [of m k] split: option.splits)
qed simp

text \<open>Words joined by single spaces are the words of the line.\<close>

fun unwords :: "bytes list \<Rightarrow> bytes" where
  "unwords [] = []"
| "unwords [w] = w"
| "unwords (w # ws) = w @ [32] @ unwords ws"

definition word_ok :: "bytes \<Rightarrow> bool" where
  "word_ok w \<longleftrightarrow> w \<noteq> [] \<and> 32 \<notin> set w \<and> 10 \<notin> set w \<and> 13 \<notin> set w"

lemma split_on_word: "\<forall>b \<in> set w. \<not> p b \<Longrightarrow> split_on p acc (w @ bs) = split_on p (acc @ w) bs"
  by (induction w arbitrary: acc) auto

lemma split_unwords: "list_all word_ok ws \<Longrightarrow> split_nonempty (\<lambda>b. b = 32) (unwords ws) = ws"
proof (induction ws rule: unwords.induct)
  case (2 w)
  then have "\<forall>b \<in> set w. b \<noteq> 32" "w \<noteq> []" by (auto simp: word_ok_def)
  then show ?case using split_on_word [of w "\<lambda>b. b = 32" "[]" "[]"] by (simp add: split_nonempty_def)
next
  case (3 w w' ws)
  then have "\<forall>b \<in> set w. b \<noteq> 32" "w \<noteq> []" by (auto simp: word_ok_def)
  then show ?case using split_on_word [of w "\<lambda>b. b = 32" "[]" "32 # unwords (w' # ws)"] 3
    by (simp add: split_nonempty_def)
qed (simp add: split_nonempty_def)

lemma unwords_chars: "list_all word_ok ws \<Longrightarrow> 10 \<notin> set (unwords ws) \<and> 13 \<notin> set (unwords ws)"
  by (induction ws rule: unwords.induct) (auto simp: word_ok_def)

lemma read_line_unwords:
  assumes "list_all word_ok ws"
  shows "read_line (wire (unwords ws @ crlf) @ s) = (Inr (Some (unwords ws)), s)"
proof -
  have "10 \<notin> set (unwords ws)" "unwords ws = [] \<or> last (unwords ws) \<noteq> 13"
    using unwords_chars [OF assms] last_in_set by force+
  then show ?thesis using read_line_wire [of "unwords ws" s] by (simp add: crlf_def)
qed

subsection \<open>Storing and retrieving\<close>

definition mc_set_request :: "bytes \<Rightarrow> bytes \<Rightarrow> bytes" where
  "mc_set_request k v = unwords [ascii ''set'', k, ascii ''0'', ascii ''0'', show_usize (length v)] @ crlf @ v @ crlf"

definition mc_get_request :: "bytes \<Rightarrow> bytes" where
  "mc_get_request k = unwords [ascii ''get'', k] @ crlf"

lemma word_ok_usize: "word_ok (show_usize n)"
proof -
  have "b \<in> set (show_usize n) \<Longrightarrow> 48 \<le> b" for b
    using dec_digits_range [of "int n" b] by (simp add: show_usize_def)
  then have "32 \<notin> set (show_usize n)" "10 \<notin> set (show_usize n)" "13 \<notin> set (show_usize n)" by fastforce+
  then show ?thesis by (simp add: word_ok_def show_usize_def)
qed

lemma mc_data_wire:
  assumes "int (length v) + 2 \<le> 9223372036854775807"
  shows "mc_data (show_usize (length v)) (wire (v @ crlf) @ s) = (Inr v, s)"
proof -
  have n: "mc_parse_usize (show_usize (length v)) = length v"
    using assms by (simp add: mc_parse_usize_def show_usize_text parse_show_usize)
  have "(length v + 2) mod 2 ^ 64 = length v + 2" using assms by (intro mod_less) simp
  moreover have "read_exact (length v + 2) (wire (v @ crlf) @ s) = (Inr (v @ crlf), s)"
    by (rule read_exact_wire) (simp add: crlf_def)
  ultimately show ?thesis using assms by (simp add: mc_data_def Let_def n alloc_def rd_then_def rd_return_def)
qed

lemma mc_serve_set:
  assumes "word_ok k" "int (length v) + 2 \<le> 9223372036854775807"
  shows "mc_serve c seq (wire (mc_set_request k v) @ s) =
    Apply (op_set_bytes c (seq + 1) (from_utf8_lossy k) v) (\<lambda>_. emit (line_out ''STORED'') (mc_serve c (seq + 1) s))"
proof -
  let ?ws = "[ascii ''set'', k, ascii ''0'', ascii ''0'', show_usize (length v)]"
  have ws: "list_all word_ok ?ws" using assms(1) word_ok_usize by (simp add: word_ok_def)
  have "read_line (wire (mc_set_request k v) @ s) = (Inr (Some (unwords ?ws)), wire (v @ crlf) @ s)"
    using read_line_unwords [OF ws, of "wire (v @ crlf) @ s"] by (simp add: mc_set_request_def)
  moreover have "show_usize (length v) \<noteq> ascii ''noreply''"
  proof
    assume "show_usize (length v) = ascii ''noreply''"
    then have "110 \<in> set (show_usize (length v))" by simp
    then show False using show_usize_chars [of 110 "length v"] by simp
  qed
  moreover have "split_nonempty (\<lambda>b. b = 32) (unwords ?ws) = ?ws" by (rule split_unwords [OF ws])
  ultimately show ?thesis
    by (subst mc_serve.simps) (simp add: mc_data_wire [OF assms(2), of s, simplified] mc_set_def ascii_lower_def del: unwords.simps)
qed

lemma mc_serve_get:
  assumes "word_ok k"
  shows "mc_serve c seq (wire (mc_get_request k) @ s) =
    prog_bind (mc_get c seq [k]) (\<lambda>(out, seq). emit out (mc_serve c seq s))"
proof -
  let ?ws = "[ascii ''get'', k]"
  have ws: "list_all word_ok ?ws" using assms(1) by (simp add: word_ok_def)
  have "read_line (wire (mc_get_request k) @ s) = (Inr (Some (unwords ?ws)), s)"
    using read_line_unwords [OF ws, of s] by (simp add: mc_get_request_def)
  moreover have "split_nonempty (\<lambda>b. b = 32) (unwords ?ws) = ?ws" by (rule split_unwords [OF ws])
  ultimately show ?thesis
    by (subst mc_serve.simps) (simp add: mc_command_def ascii_lower_def del: unwords.simps mc_get.simps)
qed

text \<open>What is stored is retrieved, byte for byte, over a connection of the durable service.\<close>

lemma mc_set_get:
  assumes "svc_ready c seq sv" "word_ok k" "int (length v) + 2 \<le> 9223372036854775807"
    and "unat seq + length (mc_set_request k v @ mc_get_request k) < 2 ^ 64"
  shows "fst (run_svc stamp (mc_serve c seq (wire (mc_set_request k v @ mc_get_request k))) sv) =
    (Closed, line_out ''STORED'' @ ascii ''VALUE '' @ from_utf8_lossy k @ ascii '' 0 '' @ show_usize (length v) @ crlf
       @ v @ crlf @ line_out ''END'')"
proof -
  let ?s = "wire (mc_set_request k v @ mc_get_request k)"
  have eof: "mc_serve c q [] = Return (Closed, [])" for q
    by (subst mc_serve.simps) (simp add: read_line_def rd_then_def rd_return_def)
  have wf: "bt_wf (svc_store sv)" using assms(1) by (simp add: svc_ready_def)
  have "fst (run_pure (mc_serve c seq ?s) (svc_store sv)) = (Closed, line_out ''STORED'' @ ascii ''VALUE '' @ from_utf8_lossy k
      @ ascii '' 0 '' @ show_usize (length v) @ crlf @ v @ crlf @ line_out ''END'')"
    using wf mc_serve_get [OF assms(2), of c "seq + 1" "[]"]
    by (simp add: mc_serve_set [OF assms(2,3)] eof emit_def kv_apply_def op_defs Let_def bt_simps del: ascii_Cons)
  moreover have "unat seq + length ?s < 2 ^ 64" using assms(4) by simp
  ultimately show ?thesis using mc_serve_svc [OF assms(1), of ?s stamp] by auto
qed

end
