(* ===== verification/OB_Http.thy ===== *)
theory OB_Http
  imports OB_Service
begin

text \<open>
  The HTTP front end, \<open>http.rs\<close>: request line, headers and body, the router, the response, and the
  keep-alive loop. Every request issues at most one operation, numbered upwards, so a connection
  computes on the durable service what it computes on the plain store; the lemmas on the router give
  what that is, the ignored query string included.
\<close>

section \<open>Requests\<close>

definition http_header :: "rstring \<Rightarrow> nat \<times> bool \<Rightarrow> nat \<times> bool" where
  "http_header t st = (case st of (content_len, keep_alive) \<Rightarrow>
     (case split_once 58 t of
        None \<Rightarrow> (content_len, keep_alive)
      | Some (k, v) \<Rightarrow> (let k = ascii_lower (trim k); v = trim v in
          if k = ascii ''content-length'' then (case parse_usize v of Some n \<Rightarrow> n | None \<Rightarrow> 0, keep_alive)
          else if k = ascii ''connection'' then (content_len, \<not> eq_ignore_ascii_case v (ascii ''close''))
          else (content_len, keep_alive))))"

function http_headers :: "nat \<times> bool \<Rightarrow> (nat \<times> bool) rd" where
  "http_headers st s =
     (case read_line_str s of
        (Inl e, s') \<Rightarrow> (Inl e, s')
      | (Inr None, s') \<Rightarrow> (Inr st, s')
      | (Inr (Some h), s') \<Rightarrow> (let t = trim_end h in
          if t = [] then (Inr st, s') else http_headers (http_header t st) s'))"
  by pat_completeness auto
termination
  by (relation "measure (\<lambda>(_, s). length s)") (auto dest: read_line_str_length(2) [OF sym])

declare http_headers.simps [simp del]

definition http_body :: "nat \<Rightarrow> bytes rd" where
  "http_body content_len = rd_then (alloc content_len) (\<lambda>_.
     if content_len > 0 then read_exact content_len else rd_return [])"

section \<open>Routing\<close>

definition trim_slashes :: "rstring \<Rightarrow> rstring" where
  "trim_slashes = dropWhile (\<lambda>b. b = 47)"

definition incr_prefix :: bytes where
  "incr_prefix = ascii ''/incr/''"

definition http_route :: "rstring \<Rightarrow> rstring \<Rightarrow> bytes \<Rightarrow> u32 \<Rightarrow> u64 \<Rightarrow> (nat \<times> bytes) prog" where
  "http_route meth path body client seq =
     (let path = split_first 63 path; is_incr = take (length incr_prefix) path = incr_prefix in
      if meth = ascii ''GET'' then
        Apply (op_get client seq (trim_slashes path))
          (\<lambda>r. Return (case r of Some (Bytes (Some v)) \<Rightarrow> (200, v) | _ \<Rightarrow> (404, ascii ''not found'')))
      else if (meth = ascii ''PUT'' \<or> meth = ascii ''POST'') \<and> \<not> is_incr then
        Apply (op_set_bytes client seq (trim_slashes path) body)
          (\<lambda>r. Return (case r of Some _ \<Rightarrow> (200, ascii ''OK'') | None \<Rightarrow> (503, ascii ''unavailable'')))
      else if meth = ascii ''POST'' then
        Apply (op_incr client seq (drop (length incr_prefix) path) 1)
          (\<lambda>r. Return (case r of Some (Value (Some n)) \<Rightarrow> (200, show_i64 n) | _ \<Rightarrow> (503, ascii ''unavailable'')))
      else if meth = ascii ''DELETE'' then
        Apply (op_del client seq (trim_slashes path))
          (\<lambda>r. Return (case r of Some (Value (Some n)) \<Rightarrow> (200, show_i64 n) | _ \<Rightarrow> (200, ascii ''0'')))
      else Return (405, ascii ''method not allowed''))"

definition http_reason :: "nat \<Rightarrow> bytes" where
  "http_reason status =
     (if status = 404 then ascii ''Not Found''
      else if status = 405 then ascii ''Method Not Allowed''
      else if status = 503 then ascii ''Service Unavailable''
      else ascii ''OK'')"

definition write_response :: "nat \<Rightarrow> bytes \<Rightarrow> bool \<Rightarrow> bytes" where
  "write_response status body keep_alive =
     ascii ''HTTP/1.1 '' @ show_usize status @ ascii '' '' @ http_reason status @ crlf
     @ ascii ''Content-Length: '' @ show_usize (length body) @ crlf
     @ ascii ''Content-Type: application/octet-stream'' @ crlf
     @ ascii ''Connection: '' @ (if keep_alive then ascii ''keep-alive'' else ascii ''close'') @ crlf @ crlf
     @ body"

section \<open>The connection loop\<close>

lemma http_headers_length: "http_headers st s = (r, s') \<Longrightarrow> length s' \<le> length s"
proof (induction st s rule: http_headers.induct)
  case (1 st s)
  obtain x s1 where rl: "read_line_str s = (x, s1)" by (cases "read_line_str s")
  have le: "length s1 \<le> length s" using read_line_str_length(1) [OF rl] .
  show ?case
  proof (cases "\<exists>h. x = Inr (Some h) \<and> trim_end h \<noteq> []")
    case True
    then obtain h where h: "x = Inr (Some h)" "trim_end h \<noteq> []" by blast
    then have "http_headers (http_header (trim_end h) st) s1 = (r, s')"
      using 1(2) rl by (simp add: http_headers.simps [of st s])
    then show ?thesis using 1(1) [OF rl [symmetric] h(1) refl refl h(2)] le by simp
  next
    case False
    then show ?thesis using 1(2) rl le
      by (auto simp: http_headers.simps [of st s] split: sum.splits option.splits if_splits)
  qed
qed

lemma http_body_length: "http_body n s = (r, s') \<Longrightarrow> length s' \<le> length s"
  by (auto simp: http_body_def alloc_def rd_return_def rd_fail_def dest!: read_exact_length elim!: rd_thenE
      split: if_splits)

function http_serve :: "u32 \<Rightarrow> u64 \<Rightarrow> item list \<Rightarrow> (conn_end \<times> bytes) prog" where
  "http_serve c seq s =
     (case read_line_str s of
        (Inr None, _) \<Rightarrow> Return (Closed, [])
      | (Inr (Some line), s1) \<Rightarrow>
          (case split_whitespace line of
             meth # path # _ \<Rightarrow>
               (case http_headers (0, True) s1 of
                  (Inl e, _) \<Rightarrow> Return (Failed e, [])
                | (Inr (content_len, keep_alive), s2) \<Rightarrow>
                    (case http_body content_len s2 of
                       (Inl e, _) \<Rightarrow> Return (Failed e, [])
                     | (Inr body, s3) \<Rightarrow>
                         prog_bind (http_route meth path body c (seq + 1)) (\<lambda>(status, payload).
                           emit (write_response status payload keep_alive)
                             (if keep_alive then http_serve c (seq + 1) s3 else Return (Closed, [])))))
           | _ \<Rightarrow> http_serve c seq s1)
      | (Inl (TimedOut shutdown), s1) \<Rightarrow> if shutdown then Return (Closed, []) else http_serve c seq s1
      | (Inl UnexpectedEof, _) \<Rightarrow> Return (Closed, [])
      | (Inl e, _) \<Rightarrow> Return (Failed e, []))"
  by pat_completeness auto
termination
  by (relation "measure (\<lambda>(_, _, s). length s)")
    (fastforce dest!: read_line_str_length(2,3) [OF sym] http_headers_length [OF sym] http_body_length [OF sym])+

declare http_serve.simps [simp del]

lemmas http_defs [unfold_model] = http_header_def http_body_def trim_slashes_def
  incr_prefix_def http_route_def http_reason_def write_response_def

section \<open>The whole connection on the durable service\<close>

lemma http_route_numbered: "s < seq \<Longrightarrow> numbered_to c (\<lambda>_. seq) (http_route meth path body c seq) s"
  by (auto simp: http_route_def Let_def op_defs less_imp_le)

lemma http_serve_numbered: "unat seq + length s < 2 ^ 64 \<Longrightarrow> numbered c (http_serve c seq s) seq"
proof (induction "length s" arbitrary: seq s rule: less_induct)
  case less
  obtain r s1 where rl: "read_line_str s = (r, s1)" by (cases "read_line_str s")
  have err: "length s1 < length s" if "r = Inl e" for e using that rl read_line_str_length(3) by blast
  have next_line: "numbered c (http_serve c seq s1) seq" if "length s1 < length s"
    using less that by simp
  have request: "numbered c (prog_bind (http_route m p body c (seq + 1)) (\<lambda>(status, payload).
      emit (write_response status payload ka) (if ka then http_serve c (seq + 1) s3 else Return (Closed, [])))) seq"
    if "r = Inr (Some line)" "http_headers (0, True) s1 = (Inr (n, ka), s2)" "http_body n s2 = (Inr body, s3)"
    for line m p body n ka s2 s3
  proof -
    have len: "length s3 < length s"
      using that rl read_line_str_length(2) [of s line s1] http_headers_length [OF that(2)] http_body_length [OF that(3)]
      by simp
    then have n: "seq < seq + 1" "unat (seq + 1) = unat seq + 1" using seq_next [of seq] less.prems by simp_all
    then have "numbered c (if ka then http_serve c (seq + 1) s3 else Return (Closed, [])) (seq + 1)"
      using less.hyps [OF len, of "seq + 1"] less.prems len by simp
    then show ?thesis using n(1)
      by (intro numbered_to_bind [OF http_route_numbered]) (auto intro: numbered_emit)
  qed
  show ?case using rl less err next_line request
    by (subst http_serve.simps)
      (auto split: prod.splits sum.splits option.splits list.splits rd_error.splits dest: read_line_str_length(2))
qed

lemma http_serve_svc:
  assumes "svc_ready c seq sv" "unat seq + length s < 2 ^ 64"
  shows "\<exists>x sv'. run_svc stamp (http_serve c seq s) sv = (x, sv') \<and>
    run_pure (http_serve c seq s) (svc_store sv) = (x, svc_store sv')"
  using svc.run_numbered [OF http_serve_numbered [OF assms(2)] assms(1), of stamp] by (auto simp: run_svc_def)

section \<open>The router on the plain store\<close>

lemma split_first_query: "split_first b (p @ b # q) = split_first b p"
  by (induction p) (auto simp: split_first_def)

text \<open>The query string never reaches the operation: an increment is by one whatever it says.\<close>

lemma http_route_query: "http_route meth (path @ 63 # query) body c seq = http_route meth path body c seq"
  by (simp add: http_route_def split_first_query)

lemma http_put_get:
  assumes "bt_wf m" "take (length incr_prefix) (split_first 63 path) \<noteq> incr_prefix"
    and "run_pure (http_route (ascii ''PUT'') path body c seq) m = (r, m')"
  shows "r = (200, ascii ''OK'') \<and> run_pure (http_route (ascii ''GET'') path b' c' seq') m' = ((200, body), m')
    \<and> run_pure (http_route (ascii ''DELETE'') path b' c' seq') m' = ((200, ascii ''1''), bt_remove (trim_slashes (split_first 63 path)) m')"
  using assms by (auto simp: http_route_def Let_def op_defs kv_apply_def bt_simps show_i64_def dec_digits.simps)

end
