(* ===== verification/OB_Txn.thy ===== *)
theory OB_Txn
  imports OB_Service
begin

text \<open>
  The transactional front end, \<open>txn.rs\<close>: a connection queues writes between \<open>BEGIN\<close> and \<open>COMMIT\<close> and
  issues them as one operation. The lemmas: nothing of a transaction reaches the store before its
  commit, the commit applies all of it in one step, an abort applies none; and what the handler answers
  when the executor is gone.
\<close>

section \<open>Commands\<close>

record txn_state =
  t_seq :: u64
  t_buf :: "(rstring \<times> bytes option) list"
  t_in_txn :: bool

definition txn_init :: txn_state where
  "txn_init = \<lparr>t_seq = 0, t_buf = [], t_in_txn = False\<rparr>"

definition txn_line :: "string \<Rightarrow> bytes" where
  "txn_line s = ascii s @ crlf"

text \<open>The common part of \<open>SET\<close> and \<open>DEL\<close>: queue inside a transaction, apply at once outside.\<close>

definition txn_write :: "rstring \<times> bytes option \<Rightarrow> u32 \<Rightarrow> txn_state \<Rightarrow> (bytes \<times> txn_state) prog" where
  "txn_write entry c st =
     (if t_in_txn st then Return (txn_line ''QUEUED'', st\<lparr>t_buf := t_buf st @ [entry]\<rparr>)
      else let st = st\<lparr>t_seq := t_seq st + 1\<rparr> in
        Apply (op_txn c (t_seq st) [entry]) (\<lambda>_. Return (txn_line ''OK'', st)))"

definition txn_commit :: "u32 \<Rightarrow> txn_state \<Rightarrow> (bytes \<times> txn_state) prog" where
  "txn_commit c st =
     (if \<not> t_in_txn st then Return (txn_line ''ERR no transaction'', st)
      else let n = length (t_buf st); seq = t_seq st + 1 in
        Apply (op_txn c seq (t_buf st)) (\<lambda>_. Return
          (ascii ''COMMIT '' @ show_usize n @ crlf, \<lparr>t_seq = seq, t_buf = [], t_in_txn = False\<rparr>)))"

definition txn_command :: "rstring list \<Rightarrow> u32 \<Rightarrow> txn_state \<Rightarrow> (bytes \<times> txn_state) prog" where
  "txn_command parts c st =
     (let name = ascii_upper (parts ! 0) in
      if name = ascii ''BEGIN'' then Return (txn_line ''BEGIN'', st\<lparr>t_in_txn := True, t_buf := []\<rparr>)
      else if name = ascii ''SET'' \<and> length parts \<ge> 3 then txn_write (parts ! 1, Some (parts ! 2)) c st
      else if name = ascii ''DEL'' \<and> length parts \<ge> 2 then txn_write (parts ! 1, None) c st
      else if name = ascii ''GET'' \<and> length parts \<ge> 2 then
        let st = st\<lparr>t_seq := t_seq st + 1\<rparr> in
        Apply (op_get c (t_seq st) (parts ! 1)) (\<lambda>r. Return
          (case r of Some (Bytes (Some v)) \<Rightarrow> ascii ''VALUE '' @ show_usize (length v) @ crlf @ v @ crlf
           | _ \<Rightarrow> txn_line ''NIL'', st))
      else if name = ascii ''COMMIT'' then txn_commit c st
      else if name = ascii ''ABORT'' then Return (txn_line ''ABORT'', st\<lparr>t_buf := [], t_in_txn := False\<rparr>)
      else Return (txn_line ''ERR unknown command'', st))"

section \<open>The connection loop\<close>

function txn_serve :: "u32 \<Rightarrow> txn_state \<Rightarrow> item list \<Rightarrow> (conn_end \<times> bytes) prog" where
  "txn_serve c st s =
     (case read_line_str s of
        (Inr None, _) \<Rightarrow> Return (Closed, [])
      | (Inr (Some line), s') \<Rightarrow>
          let parts = split_whitespace line in
          if parts = [] then txn_serve c st s'
          else if ascii_upper (parts ! 0) = ascii ''QUIT'' then Return (Closed, [])
          else prog_bind (txn_command parts c st) (\<lambda>(out, st). emit out (txn_serve c st s'))
      | (Inl (TimedOut shutdown), s') \<Rightarrow> if shutdown then Return (Closed, []) else txn_serve c st s'
      | (Inl UnexpectedEof, _) \<Rightarrow> Return (Closed, [])
      | (Inl e, _) \<Rightarrow> Return (Failed e, []))"
  by pat_completeness auto
termination
  by (relation "measure (\<lambda>(_, _, s). length s)") (auto dest!: read_line_str_length(2,3) [OF sym])

declare txn_serve.simps [simp del]

lemmas txn_defs [unfold_model] = txn_init_def txn_line_def txn_write_def txn_commit_def txn_command_def

section \<open>The whole connection on the durable service\<close>

lemma txn_command_numbered:
  assumes "unat (t_seq st) + 1 < 2 ^ 64"
  shows "numbered_to c (\<lambda>x. t_seq (snd x)) (txn_command parts c st) (t_seq st)"
    and "results (\<lambda>x. unat (t_seq (snd x)) \<le> unat (t_seq st) + 1) (txn_command parts c st)"
  using seq_next [OF assms]
  by (auto simp: txn_command_def txn_write_def txn_commit_def op_defs Let_def)

lemma txn_serve_numbered: "unat (t_seq st) + length s < 2 ^ 64 \<Longrightarrow> numbered c (txn_serve c st s) (t_seq st)"
proof (induction "length s" arbitrary: st s rule: less_induct)
  case less
  obtain r s' where rl: "read_line_str s = (r, s')" by (cases "read_line_str s")
  have err: "length s' < length s" if "r = Inl e" for e using that rl read_line_str_length(3) by blast
  have line: "length s' < length s" if "r = Inr (Some l)" for l using that rl read_line_str_length(2) by blast
  have next_line: "numbered c (txn_serve c st s') (t_seq st)" if "length s' < length s"
    using less that by simp
  have cmd: "numbered c (prog_bind (txn_command parts c st) (\<lambda>(out, st). emit out (txn_serve c st s'))) (t_seq st)"
    if "length s' < length s" for parts
  proof (rule numbered_to_bind_results)
    show "numbered_to c (\<lambda>x. t_seq (snd x)) (txn_command parts c st) (t_seq st)"
      "results (\<lambda>x. unat (t_seq (snd x)) \<le> unat (t_seq st) + 1) (txn_command parts c st)"
      using txn_command_numbered [of st] that less.prems by simp_all
  next
    fix x :: "bytes \<times> txn_state" assume "unat (t_seq (snd x)) \<le> unat (t_seq st) + 1"
    then show "numbered c (case x of (out, st) \<Rightarrow> emit out (txn_serve c st s')) (t_seq (snd x))"
      using less.hyps [OF that, of "snd x"] less.prems that by (cases x) (simp add: numbered_emit)
  qed
  show ?case using rl less err line next_line cmd
    by (subst txn_serve.simps) (auto simp: Let_def split: prod.splits sum.splits option.splits rd_error.splits)
qed

lemma txn_serve_svc:
  assumes "svc_ready c (t_seq st) sv" "unat (t_seq st) + length s < 2 ^ 64"
  shows "\<exists>x sv'. run_svc stamp (txn_serve c st s) sv = (x, sv') \<and>
    run_pure (txn_serve c st s) (svc_store sv) = (x, svc_store sv')"
  using svc.run_numbered [OF txn_serve_numbered [OF assms(2)] assms(1), of stamp] by (auto simp: run_svc_def)

section \<open>Transactions\<close>

text \<open>A sequence of commands on one connection, with what each of them answers.\<close>

fun txn_script :: "rstring list list \<Rightarrow> u32 \<Rightarrow> txn_state \<Rightarrow> (bytes \<times> txn_state) prog" where
  "txn_script [] c st = Return ([], st)"
| "txn_script (parts # ps) c st = prog_bind (txn_command parts c st) (\<lambda>(out, st).
     prog_bind (txn_script ps c st) (\<lambda>(out', st). Return (out @ out', st)))"

fun txn_request :: "rstring \<times> bytes option \<Rightarrow> rstring list" where
  "txn_request (k, Some v) = [ascii ''SET'', k, v]"
| "txn_request (k, None) = [ascii ''DEL'', k]"

lemma txn_request_command: "txn_command (txn_request w) c st = txn_write w c st"
  by (cases w rule: txn_request.cases) (simp_all add: txn_command_def ascii_upper_def)

lemma txn_queue:
  "t_in_txn st \<Longrightarrow> txn_script (map txn_request ws) c st =
     Return (concat (replicate (length ws) (txn_line ''QUEUED'')), st\<lparr>t_buf := t_buf st @ ws\<rparr>)"
  by (induction ws arbitrary: st) (simp_all add: txn_request_command txn_write_def)

lemma txn_script_append:
  "txn_script (ps @ qs) c st = prog_bind (txn_script ps c st) (\<lambda>(out, st).
     prog_bind (txn_script qs c st) (\<lambda>(out', st). Return (out @ out', st)))"
proof (induction ps arbitrary: st)
  case Nil
  have "(\<lambda>x. Return (case x of (out', st) \<Rightarrow> ([] @ out', st))) = (Return :: bytes \<times> txn_state \<Rightarrow> _)" by (auto simp: fun_eq_iff)
  then show ?case by (simp add: case_prod_beta)
next
  case (Cons p ps)
  then show ?case by (simp add: prog_bind_assoc split_def)
qed

text \<open>
  A transaction is one operation: begin, queue and commit issue a single \<open>Txn\<close> with all the writes, and
  begin, queue and abort issue nothing.
\<close>

lemma txn_begin: "txn_command [ascii ''BEGIN''] c st = Return (txn_line ''BEGIN'', st\<lparr>t_in_txn := True, t_buf := []\<rparr>)"
  by (simp add: txn_command_def ascii_upper_def)

lemma txn_commit_script:
  "txn_script ([ascii ''BEGIN''] # map txn_request ws @ [[ascii ''COMMIT'']]) c st =
     Apply (op_txn c (t_seq st + 1) ws) (\<lambda>_. Return (txn_line ''BEGIN'' @
       concat (replicate (length ws) (txn_line ''QUEUED'')) @ ascii ''COMMIT '' @ show_usize (length ws) @ crlf,
       \<lparr>t_seq = t_seq st + 1, t_buf = [], t_in_txn = False\<rparr>))"
  by (simp add: txn_begin txn_script_append txn_queue del: ascii_Cons)
    (simp add: txn_command_def txn_commit_def ascii_upper_def Let_def)

lemma txn_abort_script:
  "\<exists>out. txn_script ([ascii ''BEGIN''] # map txn_request ws @ [[ascii ''ABORT'']]) c st =
     Return (out, st\<lparr>t_buf := [], t_in_txn := False\<rparr>)"
  by (simp add: txn_begin txn_script_append txn_queue del: ascii_Cons)
    (simp add: txn_command_def ascii_upper_def Let_def)

text \<open>
  When the executor is gone the commit is still answered as committed: the result of \<open>apply\<close> is dropped.
\<close>

lemma txn_commit_dead:
  assumes "\<not> sv_alive sv" "t_in_txn st"
  shows "\<exists>st'. run_svc stamp (txn_command [ascii ''COMMIT''] c st) sv =
    ((ascii ''COMMIT '' @ show_usize (length (t_buf st)) @ crlf, st'), sv)"
  using assms by (simp add: txn_command_def txn_commit_def ascii_upper_def Let_def run_svc_def svc_apply_def svc_execute_def)

end
