(* ===== verification/OB_Streamlog.thy ===== *)
theory OB_Streamlog
  imports OB_Service
begin

text \<open>
  The publish/subscribe log, \<open>streamlog.rs\<close>: each topic is a counter key and one key per message, built
  from the store's operations. The abstract topic is the list of its messages: publishing appends to it
  and answers its new length, subscribing reads a suffix of it, and topics do not disturb one another.
\<close>

section \<open>Commands\<close>

definition topic_key :: "rstring \<Rightarrow> bytes \<Rightarrow> rstring" where
  "topic_key topic suffix = ascii ''t:'' @ topic @ [58] @ suffix"

definition counter_key :: "rstring \<Rightarrow> rstring" where
  "counter_key topic = topic_key topic (ascii ''n'')"

definition message_key :: "rstring \<Rightarrow> i64 \<Rightarrow> rstring" where
  "message_key topic off = topic_key topic (show_i64 off)"

definition sl_line :: "string \<Rightarrow> bytes" where
  "sl_line s = ascii s @ crlf"

definition sl_pub :: "rstring \<Rightarrow> bytes \<Rightarrow> u32 \<Rightarrow> u64 \<Rightarrow> (bytes \<times> u64) prog" where
  "sl_pub topic msg c seq =
     Apply (op_incr c (seq + 1) (counter_key topic) 1) (\<lambda>r. case r of
       Some (Value (Some offset)) \<Rightarrow>
         Apply (op_set_bytes c (seq + 1 + 1) (message_key topic offset) msg)
           (\<lambda>_. Return (ascii ''OFFSET '' @ show_i64 offset @ crlf, seq + 1 + 1))
     | _ \<Rightarrow> Return (sl_line ''ERR unavailable'', seq + 1))"

text \<open>The topic's length, as \<open>SUB\<close> and \<open>LEN\<close> read it from the counter.\<close>

definition topic_len :: "op_output option \<Rightarrow> i64" where
  "topic_len r = (case r of
      Some (Bytes (Some v)) \<Rightarrow> (case do { s \<leftarrow> from_utf8 v; parse_i64 s } of Some n \<Rightarrow> n | None \<Rightarrow> 0)
    | _ \<Rightarrow> 0)"

fun sl_messages :: "rstring \<Rightarrow> int list \<Rightarrow> u32 \<Rightarrow> u64 \<Rightarrow> (bytes \<times> u64) prog" where
  "sl_messages topic [] c seq = Return (sl_line ''END'', seq)"
| "sl_messages topic (off # offs) c seq =
     Apply (op_get c (seq + 1) (message_key topic (word_of_int off))) (\<lambda>r.
       prog_bind (sl_messages topic offs c (seq + 1)) (\<lambda>(out, seq). Return
         ((case r of Some (Bytes (Some m)) \<Rightarrow>
             ascii ''MSG '' @ show_i64 (word_of_int off) @ ascii '' '' @ show_usize (length m) @ crlf @ m @ crlf
           | _ \<Rightarrow> []) @ out, seq)))"

definition sl_sub :: "rstring \<Rightarrow> bytes \<Rightarrow> u32 \<Rightarrow> u64 \<Rightarrow> (bytes \<times> u64) prog" where
  "sl_sub topic from c seq =
     (let from = (case parse_i64 (trim from) of Some n \<Rightarrow> n | None \<Rightarrow> 1) in
      Apply (op_get c (seq + 1) (counter_key topic)) (\<lambda>r.
        sl_messages topic [max (sint from) 1..sint (topic_len r)] c (seq + 1)))"

definition sl_len :: "rstring \<Rightarrow> u32 \<Rightarrow> u64 \<Rightarrow> (bytes \<times> u64) prog" where
  "sl_len topic c seq = Apply (op_get c (seq + 1) (counter_key topic)) (\<lambda>r.
     Return (ascii ''LEN '' @ show_i64 (topic_len r) @ crlf, seq + 1))"

definition sl_command :: "rstring list \<Rightarrow> u32 \<Rightarrow> u64 \<Rightarrow> (bytes \<times> u64) prog" where
  "sl_command parts c seq =
     (let name = ascii_upper (parts ! 0) in
      if name = ascii ''PUB'' \<and> length parts \<ge> 3 then sl_pub (parts ! 1) (parts ! 2) c seq
      else if name = ascii ''SUB'' \<and> length parts \<ge> 3 then sl_sub (parts ! 1) (parts ! 2) c seq
      else if name = ascii ''LEN'' \<and> length parts \<ge> 2 then sl_len (parts ! 1) c seq
      else Return (sl_line ''ERR unknown command'', seq))"

section \<open>The connection loop\<close>

definition sl_parts :: "rstring \<Rightarrow> rstring list" where
  "sl_parts line = map trim_end (splitn 3 32 (strip_crlf line))"

function sl_serve :: "u32 \<Rightarrow> u64 \<Rightarrow> item list \<Rightarrow> (conn_end \<times> bytes) prog" where
  "sl_serve c seq s =
     (case read_line_str s of
        (Inr None, _) \<Rightarrow> Return (Closed, [])
      | (Inr (Some line), s') \<Rightarrow>
          let parts = sl_parts line in
          if parts = [] \<or> parts ! 0 = [] then sl_serve c seq s'
          else if ascii_upper (parts ! 0) = ascii ''QUIT'' then Return (Closed, [])
          else prog_bind (sl_command parts c seq) (\<lambda>(out, seq). emit out (sl_serve c seq s'))
      | (Inl (TimedOut shutdown), s') \<Rightarrow> if shutdown then Return (Closed, []) else sl_serve c seq s'
      | (Inl UnexpectedEof, _) \<Rightarrow> Return (Closed, [])
      | (Inl e, _) \<Rightarrow> Return (Failed e, []))"
  by pat_completeness auto
termination
  by (relation "measure (\<lambda>(_, _, s). length s)") (auto dest!: read_line_str_length(2,3) [OF sym])

declare sl_serve.simps [simp del]

lemmas sl_defs [unfold_model] = topic_key_def counter_key_def message_key_def sl_line_def sl_pub_def topic_len_def
  sl_sub_def sl_len_def sl_command_def sl_parts_def

section \<open>Keys of topics\<close>

text \<open>The part of a key behind its last colon tells the counter from the messages, and one topic from another.\<close>

lemma topic_key_inj:
  assumes "topic_key t a = topic_key u b" "58 \<notin> set a" "58 \<notin> set b"
  shows "t = u \<and> a = b"
proof -
  have "rev a @ 58 # rev t = rev b @ 58 # rev u"
    using arg_cong [OF assms(1), of rev] by (simp add: topic_key_def)
  moreover have "58 \<notin> set (rev a)" "58 \<notin> set (rev b)" using assms(2,3) by simp_all
  ultimately have "rev a = rev b \<and> rev t = rev u"
  proof (induction "rev a" arbitrary: a b)
    case Nil
    then show ?case by (cases "rev b") auto
  next
    case (Cons x xs)
    note hyp = Cons
    show ?case
    proof (cases "rev b")
      case Nil
      then show ?thesis using hyp by (metis append_Cons append_Nil list.inject list.set_intros(1))
    next
      case (Cons y ys)
      have "xs = ys \<and> rev t = rev u"
        using hyp(1) [of "rev xs" "rev ys"] hyp(2-) Cons
        by (metis append_Cons list.inject list.set_intros(2) rev_rev_ident)
      then show ?thesis using hyp(2,3) Cons by (metis append_Cons list.inject)
    qed
  qed
  then show ?thesis by simp
qed

lemma show_i64_no_colon: "58 \<notin> set (show_i64 w)"
proof
  assume "58 \<in> set (show_i64 w)"
  then show False using dec_digits_range [of "- sint w" 58] dec_digits_range [of "sint w" 58]
    by (auto simp: show_i64_def split: if_splits)
qed

lemma show_i64_inj: "show_i64 a = show_i64 b \<Longrightarrow> a = b"
  by (metis option.inject parse_show_i64)

lemma show_i64_not_n: "show_i64 w \<noteq> ascii ''n''"
proof
  assume "show_i64 w = ascii ''n''"
  then have "110 \<in> set (show_i64 w)" by simp
  then show False using dec_digits_range [of "- sint w" 110] dec_digits_range [of "sint w" 110]
    by (auto simp: show_i64_def split: if_splits)
qed

lemma topic_keys [simp]:
  "message_key t i = message_key u j \<longleftrightarrow> t = u \<and> i = j"
  "counter_key t = counter_key u \<longleftrightarrow> t = u"
  "message_key t i \<noteq> counter_key u" "counter_key u \<noteq> message_key t i"
proof -
  have n: "58 \<notin> set (ascii ''n'')" by simp
  show "message_key t i = message_key u j \<longleftrightarrow> t = u \<and> i = j"
    using topic_key_inj [OF _ show_i64_no_colon show_i64_no_colon] show_i64_inj by (auto simp: message_key_def)
  show "counter_key t = counter_key u \<longleftrightarrow> t = u"
    using topic_key_inj [OF _ n n] by (auto simp: counter_key_def)
  show "message_key t i \<noteq> counter_key u" "counter_key u \<noteq> message_key t i"
    using topic_key_inj [OF _ show_i64_no_colon n] topic_key_inj [OF _ n show_i64_no_colon] show_i64_not_n
    by (metis counter_key_def message_key_def)+
qed

section \<open>The abstract log of a topic\<close>

definition topic_log :: "kv_store \<Rightarrow> rstring \<Rightarrow> bytes list \<Rightarrow> bool" where
  "topic_log m t msgs \<longleftrightarrow>
     bt_get m (counter_key t) = (if msgs = [] then None else Some (show_i64 (word_of_nat (length msgs))))
     \<and> (\<forall>i < length msgs. bt_get m (message_key t (word_of_nat (Suc i))) = Some (msgs ! i))
     \<and> length msgs < 2 ^ 63"

lemma incr_cur_log: "topic_log m t msgs \<Longrightarrow> incr_cur m (counter_key t) = word_of_nat (length msgs)"
  by (auto simp: topic_log_def incr_cur_def kv_get_int_def)

lemma word_of_nat_inj63:
  "n < 2 ^ 63 \<Longrightarrow> k < 2 ^ 63 \<Longrightarrow> (word_of_nat (Suc n) :: i64) = word_of_nat (Suc k) \<longleftrightarrow> n = k"
proof -
  have "unat (word_of_nat (Suc j) :: i64) = Suc j" if "j < 2 ^ 63" for j
    using that by (simp add: unat_of_nat del: of_nat_Suc)
  then show "n < 2 ^ 63 \<Longrightarrow> k < 2 ^ 63 \<Longrightarrow> (word_of_nat (Suc n) :: i64) = word_of_nat (Suc k) \<longleftrightarrow> n = k"
    by (metis Suc_inject)
qed

text \<open>Publishing appends the message, answers its offset, and leaves every other topic as it is.\<close>

lemma sl_pub_pure:
  assumes "bt_wf m" "topic_log m t msgs" "length msgs + 1 < 2 ^ 63"
  defines "off \<equiv> word_of_nat (length msgs + 1) :: i64"
  shows "run_pure (sl_pub t msg c seq) m = ((ascii ''OFFSET '' @ show_i64 off @ crlf, seq + 1 + 1),
      bt_insert (message_key t off) msg (bt_insert (counter_key t) (show_i64 off) m))"
    and "topic_log (bt_insert (message_key t off) msg (bt_insert (counter_key t) (show_i64 off) m)) t (msgs @ [msg])"
    and "u \<noteq> t \<Longrightarrow> topic_log m u l \<Longrightarrow>
      topic_log (bt_insert (message_key t off) msg (bt_insert (counter_key t) (show_i64 off) m)) u l"
proof -
  have off: "word_of_nat (length msgs) + 1 = off" by (simp add: off_def add.commute)
  show "run_pure (sl_pub t msg c seq) m = ((ascii ''OFFSET '' @ show_i64 off @ crlf, seq + 1 + 1),
      bt_insert (message_key t off) msg (bt_insert (counter_key t) (show_i64 off) m))"
    using incr_cur_log [OF assms(2)] by (simp add: sl_pub_def op_defs kv_apply_def Let_def off)
  have ne: "word_of_nat (Suc i) \<noteq> off" if "i < length msgs" for i
    using word_of_nat_inj63 [of i "length msgs"] that assms(3) by (simp add: off_def)
  show "topic_log (bt_insert (message_key t off) msg (bt_insert (counter_key t) (show_i64 off) m)) t (msgs @ [msg])"
    using assms(1-3) ne by (auto simp: topic_log_def bt_simps nth_append less_Suc_eq off_def)
  show "u \<noteq> t \<Longrightarrow> topic_log m u l \<Longrightarrow>
      topic_log (bt_insert (message_key t off) msg (bt_insert (counter_key t) (show_i64 off) m)) u l"
    using assms(1) by (auto simp: topic_log_def bt_simps)
qed

definition sl_message :: "int \<Rightarrow> bytes \<Rightarrow> bytes" where
  "sl_message off m = ascii ''MSG '' @ show_i64 (word_of_int off) @ ascii '' '' @ show_usize (length m) @ crlf @ m @ crlf"

lemma sl_messages_pure:
  assumes "topic_log m t msgs" "\<forall>off \<in> set offs. 1 \<le> off \<and> off \<le> int (length msgs)"
  shows "\<exists>seq'. run_pure (sl_messages t offs c seq) m =
    ((concat (map (\<lambda>off. sl_message off (msgs ! nat (off - 1))) offs) @ sl_line ''END'', seq'), m)"
  using assms(2)
proof (induction offs arbitrary: seq)
  case (Cons off offs)
  then obtain seq' where IH: "run_pure (sl_messages t offs c (seq + 1)) m =
      ((concat (map (\<lambda>off. sl_message off (msgs ! nat (off - 1))) offs) @ sl_line ''END'', seq'), m)"
    by auto
  have "int (Suc (nat (off - 1))) = off" using Cons.prems by simp
  then have off: "word_of_int off = (word_of_nat (Suc (nat (off - 1))) :: i64)"
    by (metis of_int_of_nat_eq)
  moreover have "nat (off - 1) < length msgs" using Cons.prems by auto
  ultimately have "bt_get m (message_key t (word_of_int off)) = Some (msgs ! nat (off - 1))"
    using assms(1) by (simp add: topic_log_def del: of_nat_Suc)
  then show ?case using IH
    by (auto simp: op_get_def kv_apply_def sl_message_def [of off])
qed simp

lemma topic_len_log:
  assumes "topic_log m t msgs"
  shows "topic_len (Some (Bytes (bt_get m (counter_key t)))) = word_of_nat (length msgs)"
  using assms by (auto simp: topic_log_def topic_len_def)

text \<open>Subscribing from an offset reads the messages from there on, in order, and changes nothing.\<close>

lemma sl_sub_pure:
  assumes "topic_log m t msgs" "parse_i64 (trim from) = Some f" "1 \<le> sint f"
  shows "\<exists>seq'. run_pure (sl_sub t from c seq) m =
    ((concat (map (\<lambda>off. sl_message off (msgs ! nat (off - 1))) [sint f..int (length msgs)]) @ sl_line ''END'', seq'), m)"
proof -
  have "sint (word_of_nat (length msgs) :: i64) = int (length msgs)"
    using assms(1) by (simp add: topic_log_def signed_of_nat signed_take_bit_int_eq_self)
  then have "run_pure (sl_sub t from c seq) m = run_pure (sl_messages t [sint f..int (length msgs)] c (seq + 1)) m"
    using assms topic_len_log [OF assms(1)] by (simp add: sl_sub_def op_get_def kv_apply_def max_def)
  then show ?thesis using sl_messages_pure [OF assms(1), of "[sint f..int (length msgs)]"] assms(3) by auto
qed

section \<open>Between the two operations of a publish\<close>

text \<open>What a subscriber reads from any store: offsets without a message are passed over.\<close>

lemma sl_messages_any:
  "\<exists>seq'. run_pure (sl_messages t offs c seq) m =
    ((concat (map (\<lambda>off. case bt_get m (message_key t (word_of_int off)) of None \<Rightarrow> [] | Some x \<Rightarrow> sl_message off x) offs)
       @ sl_line ''END'', seq'), m)"
proof (induction offs arbitrary: seq)
  case (Cons off offs)
  obtain seq' where IH: "run_pure (sl_messages t offs c (seq + 1)) m =
      ((concat (map (\<lambda>off. case bt_get m (message_key t (word_of_int off)) of None \<Rightarrow> [] | Some x \<Rightarrow> sl_message off x) offs)
         @ sl_line ''END'', seq'), m)" using Cons by blast
  then show ?case by (auto simp: op_get_def kv_apply_def sl_message_def [of off] split: option.split)
qed simp

lemma sl_sub_any:
  assumes "bt_get m (counter_key t) = Some (show_i64 (word_of_nat n))" "n < 2 ^ 63" "parse_i64 (trim from) = Some f" "1 \<le> sint f"
  shows "\<exists>seq'. run_pure (sl_sub t from c seq) m =
    ((concat (map (\<lambda>off. case bt_get m (message_key t (word_of_int off)) of None \<Rightarrow> [] | Some x \<Rightarrow> sl_message off x) [sint f..int n])
       @ sl_line ''END'', seq'), m)"
proof -
  have "sint (word_of_nat n :: i64) = int n" using assms(2) by (simp add: signed_of_nat signed_take_bit_int_eq_self)
  then have "run_pure (sl_sub t from c seq) m = run_pure (sl_messages t [sint f..int n] c (seq + 1)) m"
    using assms by (simp add: sl_sub_def op_get_def kv_apply_def max_def topic_len_def)
  then show ?thesis using sl_messages_any by simp
qed

text \<open>The store after the first operation of a publish, and after another publisher has come in between.\<close>

definition half_published :: "rstring \<Rightarrow> nat \<Rightarrow> kv_store \<Rightarrow> kv_store" where
  "half_published t n m = bt_insert (counter_key t) (show_i64 (word_of_nat (n + 1))) m"

lemma half_publish:
  assumes "topic_log m t msgs"
  shows "\<exists>op k. sl_pub t msg c seq = Apply op k \<and> fst (kv_apply m op) = half_published t (length msgs) m \<and>
    k (Some (snd (kv_apply m op))) = Apply (op_set_bytes c (seq + 1 + 1) (message_key t (word_of_nat (length msgs + 1))) msg)
      (\<lambda>_. Return (ascii ''OFFSET '' @ show_i64 (word_of_nat (length msgs + 1)) @ crlf, seq + 1 + 1))"
  using incr_cur_log [OF assms] by (simp add: sl_pub_def op_defs kv_apply_def half_published_def Let_def add.commute)

lemma half_published_sub:
  assumes "bt_wf m" "n + 1 < 2 ^ 63" "bt_get m (message_key t (word_of_nat (n + 1))) = None"
  shows "\<exists>seq'. run_pure (sl_sub t (show_i64 (word_of_nat (n + 1))) c seq) (half_published t n m) = ((sl_line ''END'', seq'), half_published t n m)"
proof -
  let ?m = "half_published t n m" and ?f = "word_of_nat (n + 1) :: i64"
  have f: "sint ?f = int (n + 1)" using assms(2) by (simp only: signed_of_nat) (simp add: signed_take_bit_int_eq_self)
  have "bt_get ?m (counter_key t) = Some (show_i64 ?f)" "bt_get ?m (message_key t ?f) = None"
    using assms(1,3) by (simp_all add: half_published_def bt_simps)
  moreover have "word_of_int (int (n + 1)) = ?f" by simp
  ultimately show ?thesis using sl_sub_any [of ?m t "n + 1" "show_i64 ?f" ?f c seq] assms(2) f by (simp del: of_nat_add of_nat_Suc)
qed

lemma half_published_overtaken:
  assumes "bt_wf m" "n + 2 < 2 ^ 63" "bt_get m (message_key t (word_of_nat (n + 1))) = None"
  shows "\<exists>x m2 seq'. run_pure (sl_pub t msg c seq) (half_published t n m) =
      ((ascii ''OFFSET '' @ show_i64 (word_of_nat (n + 2)) @ crlf, x), m2) \<and>
    run_pure (sl_sub t (show_i64 (word_of_nat (n + 1))) c' seq'') m2 = ((sl_message (int (n + 2)) msg @ sl_line ''END'', seq'), m2)"
proof -
  let ?m = "half_published t n m" and ?f = "word_of_nat (n + 1) :: i64" and ?g = "word_of_nat (n + 2) :: i64"
  let ?m2 = "bt_insert (message_key t ?g) msg (bt_insert (counter_key t) (show_i64 ?g) ?m)"
  have wf: "bt_wf ?m" using assms(1) by (simp add: half_published_def bt_simps)
  have "incr_cur ?m (counter_key t) = ?f" using assms(1) by (simp add: incr_cur_def kv_get_int_def half_published_def bt_simps)
  moreover have "?f + 1 = ?g" by simp
  ultimately have pub: "run_pure (sl_pub t msg c seq) ?m = ((ascii ''OFFSET '' @ show_i64 ?g @ crlf, seq + 1 + 1), ?m2)"
    by (simp add: sl_pub_def op_defs kv_apply_def Let_def del: of_nat_add of_nat_Suc)
  have f: "sint ?f = int (n + 1)" using assms(2) by (simp only: signed_of_nat) (simp add: signed_take_bit_int_eq_self)
  have ne: "?f \<noteq> ?g" using word_of_nat_inj63 [of n "n + 1"] assms(2) by simp
  have w: "word_of_int (int (n + 1)) = ?f" "word_of_int (int (n + 2)) = ?g" by simp_all
  have get: "bt_get ?m2 (counter_key t) = Some (show_i64 ?g)" "bt_get ?m2 (message_key t ?f) = None" "bt_get ?m2 (message_key t ?g) = Some msg"
    using wf assms(1,3) ne by (simp_all add: half_published_def bt_simps del: of_nat_add of_nat_Suc)
  have range: "[int (n + 1)..int (n + 2)] = [int (n + 1), int (n + 2)]" by (simp add: upto_rec1)
  obtain seq' where "run_pure (sl_sub t (show_i64 ?f) c' seq'') ?m2 =
      ((concat (map (\<lambda>off. case bt_get ?m2 (message_key t (word_of_int off)) of None \<Rightarrow> [] | Some x \<Rightarrow> sl_message off x) [int (n + 1)..int (n + 2)])
       @ sl_line ''END'', seq'), ?m2)"
    using sl_sub_any [of ?m2 t "n + 2" "show_i64 ?f" ?f c' seq'', OF get(1)] assms(2) f by auto
  then have "run_pure (sl_sub t (show_i64 ?f) c' seq'') ?m2 = ((sl_message (int (n + 2)) msg @ sl_line ''END'', seq'), ?m2)"
    unfolding range by (simp only: list.map concat.simps w get option.case append_Nil append_Nil2)
  then show ?thesis using pub by blast
qed

section \<open>Commands on the durable service\<close>

lemma sl_messages_numbered:
  "unat seq + length offs < 2 ^ 64 \<Longrightarrow> numbered_to c snd (sl_messages t offs c seq) seq"
proof (induction offs arbitrary: seq)
  case (Cons off offs)
  have n: "seq < seq + 1" "unat (seq + 1) = unat seq + 1" using seq_next [of seq] Cons.prems by simp_all
  then show ?case using Cons.IH [of "seq + 1"] Cons.prems
    by (auto simp: op_get_def intro!: numbered_to_bind [where f = snd])
qed simp

text \<open>The largest topic has \<open>2 ^ 63 - 1\<close> messages, so half the sequence numbers are enough for any command.\<close>

lemma sl_command_numbered:
  assumes "unat seq + 2 ^ 63 + 1 < 2 ^ 64"
  shows "numbered_to c snd (sl_command parts c seq) seq"
proof -
  have 1: "seq < seq + 1" "unat (seq + 1) = unat seq + 1" using seq_next [of seq] assms by simp_all
  have 2: "seq + 1 < seq + 1 + 1" "seq + 1 \<le> seq + 1 + 1" using seq_next [of "seq + 1"] 1 assms by simp_all
  have sub: "numbered_to c snd (sl_messages t [max f 1..sint w] c (seq + 1)) (seq + 1)" for t f and w :: i64
  proof -
    have "sint w < 2 ^ 63" using sint_lt [of w] by simp
    then have "length [max f 1..sint w] \<le> 2 ^ 63" by (simp add: nat_le_iff)
    then show ?thesis using sl_messages_numbered [of "seq + 1" "[max f 1..sint w]"] 1 assms by simp
  qed
  show ?thesis using 1 2 sub
    by (auto simp: sl_command_def sl_pub_def sl_sub_def sl_len_def op_defs Let_def less_imp_le
        split: option.splits op_output.splits)
qed

lemma sl_command_svc:
  assumes "svc_ready c seq sv" "unat seq + 2 ^ 63 + 1 < 2 ^ 64"
  shows "\<exists>x sv'. run_svc stamp (sl_command parts c seq) sv = (x, sv') \<and>
    run_pure (sl_command parts c seq) (svc_store sv) = (x, svc_store sv') \<and> svc_ready c (snd x) sv'"
  using svc.run_numbered [OF sl_command_numbered [OF assms(2)] assms(1), of stamp] by (simp add: run_svc_def)

text \<open>
  A whole connection numbers its operations one by one. How many there are depends on what is stored, as a
  subscription reads every message, so the bound is on the operations issued.
\<close>

lemma sl_messages_counted: "counted c (\<lambda>x s. snd x = s) (sl_messages t offs c seq) seq"
proof (induction offs arbitrary: seq)
  case (Cons off offs)
  then show ?case by (auto simp: op_get_def intro!: counted_bind [OF Cons])
qed simp

lemma sl_command_counted: "counted c (\<lambda>x s. snd x = s) (sl_command parts c seq) seq"
  using sl_messages_counted
  by (auto simp: sl_command_def sl_pub_def sl_sub_def sl_len_def op_defs Let_def split: option.splits op_output.splits)

lemma sl_serve_counted: "counted c (\<lambda>_ _. True) (sl_serve c seq s) seq"
proof (induction c seq s rule: sl_serve.induct)
  case (1 c seq s)
  show ?case unfolding sl_serve.simps [of c seq s]
    using 1 by (auto simp: Let_def split: prod.splits sum.splits option.splits rd_error.splits
        intro!: counted_bind [OF sl_command_counted] counted_emit)
qed

lemma sl_serve_svc:
  assumes "svc_ready c seq sv" "unat seq + length (pure_ops (sl_serve c seq s) (svc_store sv)) < 2 ^ 64"
  shows "\<exists>x sv'. run_svc stamp (sl_serve c seq s) sv = (x, sv') \<and> run_pure (sl_serve c seq s) (svc_store sv) = (x, svc_store sv')"
  using svc.run_upwards [OF counted_upwards [OF sl_serve_counted assms(2)] assms(1), of stamp] by (auto simp: run_svc_def)

end
