(* ===== verification/OB_Cluster.thy ===== *)
theory OB_Cluster
  imports OB_Transfer "HOL-Library.Product_Lexorder" "HOL-Library.Multiset"
begin

text \<open>
  The replicated cluster of \<open>cluster.rs\<close>: the increment workload, the expected final state, a replica's
  loop over what the fabric delivers, the report, and the run in which one replica crashes, recovers and
  takes over a survivor's state. The fabric is a parameter: the batches its polls return. A replica that
  was delivered every client's operations in the client's order ends in exactly the expected state,
  however the clients interleave.
\<close>

section \<open>The workload\<close>

definition key_name :: "nat \<Rightarrow> rstring" where
  "key_name k = ascii ''k'' @ show_usize k"

text \<open>\<open>None\<close> is the panic of \<open>i % keys\<close> for an empty key space.\<close>

definition client_ops :: "u32 \<Rightarrow> nat \<Rightarrow> nat \<Rightarrow> op list option" where
  "client_ops c ops keys = (if keys = 0 \<and> 0 < ops then None
     else Some (map (\<lambda>i. op_incr c (word_of_nat (i + 1)) (key_name (i mod keys)) 1) [0..<ops]))"

definition expected_sum :: "nat \<Rightarrow> nat \<Rightarrow> nat \<Rightarrow> nat \<Rightarrow> i64" where
  "expected_sum clients ops keys k =
     foldl (\<lambda>sum c. sum + word_of_nat (length (filter (\<lambda>i. i mod keys = k) [0..<ops]))) 0 [0..<clients]"

definition expected_state :: "nat \<Rightarrow> nat \<Rightarrow> nat \<Rightarrow> (rstring \<times> i64) list" where
  "expected_state clients ops keys = sort_key (\<lambda>(k, v). (k, sint v))
     (map (\<lambda>k. (key_name k, expected_sum clients ops keys k)) [0..<keys])"

section \<open>Replicas\<close>

record replica =
  r_engine :: "kv_store engine"
  r_applied :: u64

text \<open>One poll's deliveries: payloads that do not decode are skipped, an I/O error ends the replica.\<close>

fun replica_batch :: "(u64 \<times> bytes) list \<Rightarrow> replica \<Rightarrow> (io_error + unit) \<times> replica" where
  "replica_batch [] r = (Inr (), r)"
| "replica_batch ((ts, b) # ds) r =
     (case decode b of
        None \<Rightarrow> replica_batch ds r
      | Some op \<Rightarrow> (case deliver kv_sm ts op (r_engine r) of
          (Inl e, g) \<Rightarrow> (Inl e, r\<lparr>r_engine := g\<rparr>)
        | (Inr out, g) \<Rightarrow> replica_batch ds (r\<lparr>r_engine := g,
            r_applied := (if out = Suppressed then r_applied r else r_applied r + 1)\<rparr>)))"

fun replica_drain :: "(u64 \<times> bytes) list \<Rightarrow> kv_store engine \<Rightarrow> (io_error + unit) \<times> kv_store engine" where
  "replica_drain [] g = (Inr (), g)"
| "replica_drain ((ts, b) # ds) g =
     (case decode b of
        None \<Rightarrow> replica_drain ds g
      | Some op \<Rightarrow> (case deliver kv_sm ts op g of
          (Inl e, g) \<Rightarrow> (Inl e, g)
        | (Inr _, g) \<Rightarrow> replica_drain ds g))"

text \<open>
  The loop of a replica in \<open>run_cluster\<close>: the batches of its polls up to its timeout, then the
  deliveries of the drain. It stops polling when it has applied all operations.
\<close>

fun replica_loop :: "u64 \<Rightarrow> (u64 \<times> bytes) list list \<Rightarrow> (u64 \<times> bytes) list \<Rightarrow> replica \<Rightarrow>
    (io_error + unit) \<times> kv_store engine" where
  "replica_loop total_ops [] drain r = replica_drain drain (r_engine r)"
| "replica_loop total_ops (p # ps) drain r =
     (case replica_batch p r of
        (Inl e, r) \<Rightarrow> (Inl e, r_engine r)
      | (Inr _, r) \<Rightarrow> if total_ops \<le> r_applied r then replica_drain drain (r_engine r)
          else replica_loop total_ops ps drain r)"

definition run_replica :: "u64 \<Rightarrow> u64 \<Rightarrow> directory \<Rightarrow> (u64 \<times> bytes) list list \<Rightarrow> (u64 \<times> bytes) list \<Rightarrow>
    io_error + (rstring \<times> i64) list" where
  "run_replica total_ops interval w polls drain =
     (case engine_create kv_sm w interval False of
        (Inl e, _) \<Rightarrow> Inl e
      | (Inr _, g) \<Rightarrow> (case replica_loop total_ops polls drain \<lparr>r_engine = g, r_applied = 0\<rparr> of
          (Inl e, _) \<Rightarrow> Inl e
        | (Inr _, g) \<Rightarrow> Inr (kv_entries (e_state g))))"

section \<open>The report\<close>

record cluster_report =
  replica_states :: "(nat \<times> (rstring \<times> i64) list) list"
  expected :: "(rstring \<times> i64) list"
  converged :: bool
  correct :: bool
  timed_out :: bool

fun windows_equal :: "(nat \<times> (rstring \<times> i64) list) list \<Rightarrow> bool" where
  "windows_equal (a # b # xs) \<longleftrightarrow> snd a = snd b \<and> windows_equal (b # xs)"
| "windows_equal _ \<longleftrightarrow> True"

definition cluster_report_of :: "(nat \<times> (rstring \<times> i64) list) list \<Rightarrow> (rstring \<times> i64) list \<Rightarrow> cluster_report" where
  "cluster_report_of states exp = (let ok = list_all (\<lambda>x. snd x = exp) states in
     \<lparr>replica_states = states, expected = exp, converged = windows_equal states \<and> states \<noteq> [], correct = ok, timed_out = \<not> ok\<rparr>)"

text \<open>Joining the replicas: the first error is the result of the run.\<close>

fun join_replicas :: "(nat \<times> (io_error + (rstring \<times> i64) list)) list \<Rightarrow>
    io_error + (nat \<times> (rstring \<times> i64) list) list" where
  "join_replicas [] = Inr []"
| "join_replicas ((i, Inl e) # rs) = Inl e"
| "join_replicas ((i, Inr st) # rs) = (case join_replicas rs of Inl e \<Rightarrow> Inl e | Inr xs \<Rightarrow> Inr ((i, st) # xs))"

definition run_cluster :: "nat \<Rightarrow> nat \<Rightarrow> nat \<Rightarrow> nat \<Rightarrow> u64 \<Rightarrow> (nat \<Rightarrow> directory) \<Rightarrow>
    (nat \<Rightarrow> (u64 \<times> bytes) list list) \<Rightarrow> (nat \<Rightarrow> (u64 \<times> bytes) list) \<Rightarrow> io_error + cluster_report" where
  "run_cluster replicas clients ops keys interval dirs polls drains =
     (let total_ops = word_of_nat ops * word_of_nat clients in
      case join_replicas (map (\<lambda>i. (i, run_replica total_ops interval (dirs i) (polls i) (drains i))) [0..<replicas]) of
        Inl e \<Rightarrow> Inl e
      | Inr states \<Rightarrow> Inr (cluster_report_of states (expected_state clients ops keys)))"

section \<open>The run with a crash\<close>

text \<open>
  A replica of \<open>run_cluster_with_crash\<close>: the victim stops once it has applied enough, a survivor drains
  once it has applied everything, and either gives up when its polls are used up. The flag of the result
  says whether it is the crashed victim.
\<close>

fun crash_loop :: "bool \<Rightarrow> u64 \<Rightarrow> u64 \<Rightarrow> (u64 \<times> bytes) list list \<Rightarrow> (u64 \<times> bytes) list \<Rightarrow> replica \<Rightarrow>
    (io_error + bool) \<times> kv_store engine" where
  "crash_loop is_victim crash_after total_ops [] drain r = (Inr False, r_engine r)"
| "crash_loop is_victim crash_after total_ops (p # ps) drain r =
     (case replica_batch p r of
        (Inl e, r) \<Rightarrow> (Inl e, r_engine r)
      | (Inr _, r) \<Rightarrow>
          if is_victim \<and> crash_after \<le> r_applied r then (Inr True, r_engine r)
          else if \<not> is_victim \<and> total_ops \<le> r_applied r then
            (case replica_drain drain (r_engine r) of (Inl e, g) \<Rightarrow> (Inl e, g) | (Inr _, g) \<Rightarrow> (Inr False, g))
          else crash_loop is_victim crash_after total_ops ps drain r)"

record crash_report =
  cr_expected :: "(rstring \<times> i64) list"
  survivor_state :: "(rstring \<times> i64) list"
  victim_prefix :: "(rstring \<times> i64) list"
  victim_caught_up :: "(rstring \<times> i64) list"
  survivor_correct :: bool
  victim_prefix_consistent :: bool
  recovered_ok :: bool

definition prefix_consistent :: "(rstring \<times> i64) list \<Rightarrow> (rstring \<times> i64) list \<Rightarrow> bool" where
  "prefix_consistent prefix exp = list_all (\<lambda>(k, v). case map_of exp k of None \<Rightarrow> False | Some e \<Rightarrow> sint v \<le> sint e) prefix"

text \<open>
  The victim recovers from its directory and imports the survivor's state. \<open>victim\<close> holds the entries
  the crashed replica reported, none when no replica crashed.
\<close>

definition crash_finish :: "(rstring \<times> i64) list \<Rightarrow> kv_store engine \<Rightarrow> (rstring \<times> i64) list \<Rightarrow> directory \<Rightarrow> u64 \<Rightarrow>
    io_error + crash_report" where
  "crash_finish exp survivor victim w interval =
     (case engine_recover kv_sm w interval False of
        (Inl e, _) \<Rightarrow> Inl e
      | (Inr _, veng) \<Rightarrow> (case import_state kv_sm (export_state kv_sm survivor) veng of
          (Inl e, _) \<Rightarrow> Inl e
        | (Inr _, veng) \<Rightarrow>
            let sstate = kv_entries (e_state survivor); caught_up = kv_entries (e_state veng); ok = (sstate = exp) in
            Inr \<lparr>cr_expected = exp, survivor_state = sstate, victim_prefix = victim, victim_caught_up = caught_up,
              survivor_correct = ok, victim_prefix_consistent = prefix_consistent victim exp,
              recovered_ok = (caught_up = sstate \<and> ok)\<rparr>))"

lemmas cluster_defs [unfold_model] = key_name_def client_ops_def expected_sum_def expected_state_def run_replica_def
  cluster_report_of_def run_cluster_def
  prefix_consistent_def crash_finish_def

section \<open>What increments add up to\<close>

definition incr_count :: "rstring \<Rightarrow> op list \<Rightarrow> nat" where
  "incr_count k ops = length (filter (\<lambda>x. op_kind x = Incr k 1) ops)"

definition incr_only :: "op list \<Rightarrow> bool" where
  "incr_only ops \<longleftrightarrow> (\<forall>x \<in> set ops. \<exists>k. op_kind x = Incr k 1)"

lemma incr_fold:
  "incr_only ops \<Longrightarrow> bt_wf (foldl (\<lambda>s op. fst (kv_apply s op)) [] ops) \<and>
     (\<forall>k. bt_get (foldl (\<lambda>s op. fst (kv_apply s op)) [] ops) k =
       (if incr_count k ops = 0 then None else Some (show_i64 (word_of_nat (incr_count k ops)))))"
proof (induction ops rule: rev_induct)
  case (snoc x ops)
  then obtain j where j: "op_kind x = Incr j 1" by (auto simp: incr_only_def)
  let ?m = "foldl (\<lambda>s op. fst (kv_apply s op)) [] ops"
  have IH: "bt_wf ?m" "\<And>k. bt_get ?m k = (if incr_count k ops = 0 then None else Some (show_i64 (word_of_nat (incr_count k ops))))"
    using snoc by (auto simp: incr_only_def)
  have "incr_cur ?m j = word_of_nat (incr_count j ops)"
    by (simp add: incr_cur_def kv_get_int_def IH(2))
  then show ?case using IH j
    by (auto simp: kv_apply_def bt_simps Let_def incr_count_def add.commute)
qed (simp add: incr_count_def bt_simps)

text \<open>The sorted entries of a store whose values are the decimals of a function on the keys.\<close>

lemma kv_entries_map:
  assumes "bt_wf m" "\<And>k. bt_get m k = map_option show_i64 (f k)"
  shows "bt_wf (kv_entries m)" and "map_of (kv_entries m) = f"
proof -
  have get: "\<And>k v. (k, v) \<in> set m \<Longrightarrow> \<exists>n. f k = Some n \<and> v = show_i64 n"
  proof -
    fix k v assume "(k, v) \<in> set m"
    moreover have "distinct (map fst m)" using assms(1) by (simp add: bt_wf_def strict_sorted_iff)
    ultimately have "bt_get m k = Some v" by (simp add: bt_get_def)
    then show "\<exists>n. f k = Some n \<and> v = show_i64 n" using assms(2) [of k] by (cases "f k") auto
  qed
  have ents: "kv_entries m = map (\<lambda>(k, v). (k, the (bytes_to_i64 v))) m"
    unfolding kv_entries_def
    using get by (induction m) (fastforce simp: List.map_filter_def)+
  have fst: "map fst (kv_entries m) = map fst m" by (simp add: ents case_prod_beta)
  then show "bt_wf (kv_entries m)" using assms(1) by (simp add: bt_wf_def)
  show "map_of (kv_entries m) = f"
  proof
    fix k
    show "map_of (kv_entries m) k = f k"
      using assms(2) [of k] map_of_map [of "\<lambda>v. the (bytes_to_i64 v)" m] unfolding ents
      by (cases "f k") (simp_all add: bt_get_def)
  qed
qed

subsection \<open>The expected state\<close>

lemma show_usize_inj: "n < 2 ^ 64 \<Longrightarrow> k < 2 ^ 64 \<Longrightarrow> show_usize n = show_usize k \<Longrightarrow> n = k"
  by (metis option.inject parse_show_usize)

lemma key_name_inj: "keys < 2 ^ 64 \<Longrightarrow> inj_on key_name {..<keys}"
  by (auto simp: inj_on_def key_name_def dest!: show_usize_inj [rotated -1])

definition per_client :: "nat \<Rightarrow> nat \<Rightarrow> nat \<Rightarrow> nat" where
  "per_client ops keys k = length (filter (\<lambda>i. i mod keys = k) [0..<ops])"

lemma expected_sum_eq: "expected_sum clients ops keys k = word_of_nat (clients * per_client ops keys k)"
proof -
  have "foldl (\<lambda>sum c. sum + w) a [0..<n] = a + word_of_nat n * (w :: i64)" for w a n
    by (induction n) (simp_all add: algebra_simps)
  then show ?thesis by (simp add: expected_sum_def per_client_def)
qed

lemma expected_state_map:
  assumes "keys < 2 ^ 64"
  shows "bt_wf (expected_state clients ops keys)"
    and "set (expected_state clients ops keys) = (\<lambda>k. (key_name k, expected_sum clients ops keys k)) ` {..<keys}"
proof -
  let ?xs = "map (\<lambda>k. (key_name k, expected_sum clients ops keys k)) [0..<keys]"
  let ?ys = "expected_state clients ops keys"
  show "set ?ys = (\<lambda>k. (key_name k, expected_sum clients ops keys k)) ` {..<keys}"
    by (auto simp: expected_state_def)
  have "distinct (map fst ?xs)"
    using key_name_inj [OF assms] by (simp add: distinct_map inj_on_def)
  moreover have "mset (map fst ?ys) = mset (map fst ?xs)"
    unfolding expected_state_def mset_map mset_sort ..
  ultimately have d: "distinct (map fst ?ys)" using mset_eq_imp_distinct_iff by blast
  have "sorted (map (\<lambda>(k, v). (k, sint v)) ?ys)" by (simp add: expected_state_def)
  then have "sorted (map fst ?ys)"
    by (simp add: sorted_map case_prod_beta) (erule sorted_wrt_mono_rel [rotated], auto simp: less_eq_prod_def)
  with d show "bt_wf ?ys" by (simp add: bt_wf_def strict_sorted_iff)
qed

section \<open>What the fabric promises\<close>

text \<open>
  The operations delivered to a replica, in order: those of the given clients and no others, each
  client's exactly once and in the order it sent them.
\<close>

definition fabric_delivers :: "u32 list \<Rightarrow> nat \<Rightarrow> nat \<Rightarrow> op list \<Rightarrow> bool" where
  "fabric_delivers cids ops keys os \<longleftrightarrow>
     (\<forall>c \<in> set cids. client_ops c ops keys = Some (filter (\<lambda>x. op_client x = c) os)) \<and>
     (\<forall>x \<in> set os. op_client x \<in> set cids)"

definition in_order :: "op list \<Rightarrow> bool" where
  "in_order os \<longleftrightarrow> sorted_wrt (\<lambda>x y. op_client x = op_client y \<longrightarrow> op_seq x < op_seq y) os \<and> (\<forall>x \<in> set os. 0 < op_seq x)"

lemma count_by_client:
  "distinct cids \<Longrightarrow> \<forall>x \<in> set os. op_client x \<in> set cids \<Longrightarrow>
   length (filter P os) = (\<Sum>c\<leftarrow>cids. length (filter P (filter (\<lambda>x. op_client x = c) os)))"
proof (induction os)
  case (Cons x os)
  have "(\<Sum>c\<leftarrow>cids. length (filter P (filter (\<lambda>y. op_client y = c) (x # os)))) =
      (\<Sum>c\<leftarrow>cids. length (filter P (filter (\<lambda>y. op_client y = c) os)) + (if c = op_client x \<and> P x then 1 else 0))"
    by (intro arg_cong [of _ _ sum_list] map_cong) auto
  also have "\<dots> = length (filter P os) + (\<Sum>c\<leftarrow>cids. if c = op_client x \<and> P x then 1 else 0)"
    using Cons by (simp add: sum_list_addf)
  also have "(\<Sum>c\<leftarrow>cids. if c = op_client x \<and> P x then 1 else 0) = (if P x then 1 else 0 :: nat)"
    using Cons.prems by (cases "P x") (simp_all add: sum_list_distinct_conv_sum_set)
  finally show ?case by simp
qed simp

lemma client_ops_in_order:
  assumes "client_ops c ops keys = Some os" "ops < 2 ^ 64"
  shows "sorted_wrt (\<lambda>x y. op_seq x < op_seq y) os" and "\<forall>x \<in> set os. 0 < op_seq x"
proof -
  have u: "unat (word_of_nat (i + 1) :: u64) = i + 1" if "i < ops" for i
    using that assms(2) by (simp add: unat_of_nat del: of_nat_Suc of_nat_add)
  have lt: "(word_of_nat (i + 1) :: u64) < word_of_nat (j + 1)" if "i < j" "j < ops" for i j
    using u [of i] u [of j] that by (simp add: word_less_nat_alt del: of_nat_Suc of_nat_add)
  have os: "os = map (\<lambda>i. op_incr c (word_of_nat (i + 1)) (key_name (i mod keys)) 1) [0..<ops]"
    using assms(1) by (simp add: client_ops_def split: if_splits)
  show "sorted_wrt (\<lambda>x y. op_seq x < op_seq y) os"
    unfolding os sorted_wrt_map by (auto simp: sorted_wrt_iff_nth_less op_incr_def intro!: lt [unfolded Suc_eq_plus1 [symmetric]]
        simp del: of_nat_Suc of_nat_add)
  have "(word_of_nat (i + 1) :: u64) \<noteq> 0" if "i < ops" for i using u [OF that] by (metis Suc_eq_plus1 nat.simps(3) unat_0)
  then show "\<forall>x \<in> set os. 0 < op_seq x" by (auto simp: os op_incr_def word_gt_0 simp del: of_nat_Suc of_nat_add)
qed

lemma in_order_by_client:
  "(\<And>c. sorted_wrt (\<lambda>x y. op_seq x < op_seq y) (filter (\<lambda>x. op_client x = c) os)) \<Longrightarrow>
   sorted_wrt (\<lambda>x y. op_client x = op_client y \<longrightarrow> op_seq x < op_seq y) os"
proof (induction os)
  case (Cons x os)
  have "sorted_wrt (\<lambda>x y. op_seq x < op_seq y) (filter (\<lambda>y. op_client y = c) os)" for c
    using Cons.prems [of c] by (simp split: if_splits)
  then show ?case using Cons.IH Cons.prems [of "op_client x"] by auto
qed simp

lemma fabric_in_order:
  assumes "fabric_delivers cids ops keys os" "ops < 2 ^ 64"
  shows "in_order os"
proof -
  have f: "client_ops c ops keys = Some (filter (\<lambda>x. op_client x = c) os)" if "c \<in> set cids" for c
    using assms(1) that by (simp add: fabric_delivers_def)
  have "sorted_wrt (\<lambda>x y. op_seq x < op_seq y) (filter (\<lambda>x. op_client x = c) os)" for c
  proof (cases "c \<in> set cids")
    case True
    then show ?thesis using client_ops_in_order(1) [OF f assms(2)] by simp
  next
    case False
    then have "filter (\<lambda>x. op_client x = c) os = []" using assms(1) by (auto simp: fabric_delivers_def filter_empty_conv)
    then show ?thesis by simp
  qed
  moreover have "0 < op_seq x" if "x \<in> set os" for x
    using client_ops_in_order(2) [OF f assms(2)] assms(1) that by (auto simp: fabric_delivers_def)
  ultimately show ?thesis unfolding in_order_def using in_order_by_client by blast
qed

lemma client_ops_shape:
  assumes "client_ops c ops keys = Some os" "keys < 2 ^ 64"
  shows "incr_only os" and "k < keys \<Longrightarrow> incr_count (key_name k) os = per_client ops keys k"
    and "j \<notin> key_name ` {..<keys} \<Longrightarrow> incr_count j os = 0" and "length os = ops"
proof -
  have os: "os = map (\<lambda>i. op_incr c (word_of_nat (i + 1)) (key_name (i mod keys)) 1) [0..<ops]" "0 < ops \<Longrightarrow> 0 < keys"
    using assms(1) by (auto simp: client_ops_def split: if_splits)
  show "incr_only os" "length os = ops" by (auto simp: os(1) incr_only_def op_incr_def)
  have eq: "key_name (i mod keys) = key_name k \<longleftrightarrow> i mod keys = k" if "k < keys" for i k
    using key_name_inj [OF assms(2)] that by (auto simp: inj_on_def)
  show "incr_count (key_name k) os = per_client ops keys k" if "k < keys"
    by (simp add: os(1) incr_count_def per_client_def filter_map o_def op_incr_def eq [OF that])
  show "incr_count j os = 0" if "j \<notin> key_name ` {..<keys}"
    using that os(2) by (auto simp: os(1) incr_count_def filter_empty_conv op_incr_def)
qed

text \<open>The reference state of any delivery that keeps the promise is the expected one.\<close>

lemma fabric_counts:
  assumes "fabric_delivers cids ops keys os" "distinct cids" "keys < 2 ^ 64"
  shows "incr_only os" and "length os = length cids * ops"
    and "k < keys \<Longrightarrow> incr_count (key_name k) os = length cids * per_client ops keys k"
    and "j \<notin> key_name ` {..<keys} \<Longrightarrow> incr_count j os = 0"
proof -
  have f: "client_ops c ops keys = Some (filter (\<lambda>x. op_client x = c) os)" if "c \<in> set cids" for c
    using assms(1) that by (simp add: fabric_delivers_def)
  have clients: "\<forall>x \<in> set os. op_client x \<in> set cids" using assms(1) by (simp add: fabric_delivers_def)
  show "incr_only os"
    using client_ops_shape(1) [OF f assms(3)] clients by (fastforce simp: incr_only_def)
  have sum: "length (filter P os) = (\<Sum>c\<leftarrow>cids. n)"
    if "\<And>c. c \<in> set cids \<Longrightarrow> length (filter P (filter (\<lambda>x. op_client x = c) os)) = n" for P n
    unfolding count_by_client [OF assms(2) clients] using that by (intro arg_cong [of _ _ sum_list] map_cong) auto
  show "length os = length cids * ops"
    using sum [of "\<lambda>_. True" ops] client_ops_shape(4) [OF f assms(3)] by (simp add: sum_list_triv)
  show "incr_count (key_name k) os = length cids * per_client ops keys k" if "k < keys"
    using sum [of "\<lambda>x. op_kind x = Incr (key_name k) 1" "per_client ops keys k"]
      client_ops_shape(2) [OF f assms(3) that] by (simp add: incr_count_def sum_list_triv)
  show "incr_count j os = 0" if "j \<notin> key_name ` {..<keys}"
    using sum [of "\<lambda>x. op_kind x = Incr j 1" 0] client_ops_shape(3) [OF f assms(3) that]
    by (simp add: incr_count_def sum_list_triv)
qed

lemma per_client_pos: "k < keys \<Longrightarrow> keys \<le> ops \<Longrightarrow> 0 < per_client ops keys k"
proof -
  assume "k < keys" "keys \<le> ops"
  then have "k \<in> set (filter (\<lambda>i. i mod keys = k) [0..<ops])" by simp
  then show ?thesis unfolding per_client_def by (metis length_greater_0_conv list.distinct(1) list.set_cases)
qed

lemma expected_lookup:
  assumes "keys < 2 ^ 64"
  shows "k < keys \<Longrightarrow> map_of (expected_state n ops keys) (key_name k) = Some (expected_sum n ops keys k)"
    and "j \<notin> key_name ` {..<keys} \<Longrightarrow> map_of (expected_state n ops keys) j = None"
proof -
  note exp = expected_state_map [OF assms, of n ops]
  have "distinct (map fst (expected_state n ops keys))" using exp(1) by (simp add: bt_wf_def strict_sorted_iff)
  then show "k < keys \<Longrightarrow> map_of (expected_state n ops keys) (key_name k) = Some (expected_sum n ops keys k)"
    using exp(2) by (intro map_of_is_SomeI) auto
  show "j \<notin> key_name ` {..<keys} \<Longrightarrow> map_of (expected_state n ops keys) j = None"
    by (auto simp: map_of_eq_None_iff exp(2))
qed

text \<open>What an in-order stream of increments leaves in the store.\<close>

definition counts_of :: "op list \<Rightarrow> rstring \<Rightarrow> i64 option" where
  "counts_of os j = (if incr_count j os = 0 then None else Some (word_of_nat (incr_count j os)))"

lemma in_order_counts:
  assumes "in_order os" "incr_only os"
  shows "bt_wf (kv_entries (reference_apply kv_sm os))" "map_of (kv_entries (reference_apply kv_sm os)) = counts_of os"
proof -
  have "effective os = os" using assms(1) effective_all by (simp add: in_order_def)
  then have ref: "reference_apply kv_sm os = foldl (\<lambda>s op. fst (kv_apply s op)) [] os"
    using run_effective [of kv_sm "map (Pair 0) os"] reference_apply_run [of kv_sm "map (Pair 0) os"] by (simp add: o_def)
  show "bt_wf (kv_entries (reference_apply kv_sm os))" "map_of (kv_entries (reference_apply kv_sm os)) = counts_of os"
    using kv_entries_map [of "reference_apply kv_sm os" "counts_of os"] incr_fold [OF assms(2)] by (simp_all add: ref counts_of_def)
qed

lemma fabric_expected:
  assumes "fabric_delivers cids ops keys os" "distinct cids" "cids \<noteq> []" "keys \<le> ops" "ops < 2 ^ 64"
  shows "kv_entries (reference_apply kv_sm os) = expected_state (length cids) ops keys"
proof -
  have keys: "keys < 2 ^ 64" using assms(4,5) by simp
  note cnt = fabric_counts [OF assms(1,2) keys]
  have "map_of (expected_state (length cids) ops keys) j = counts_of os j" for j
  proof (cases "j \<in> key_name ` {..<keys}")
    case True
    then obtain k where k: "j = key_name k" "k < keys" by auto
    have "incr_count j os \<noteq> 0" using cnt(3) [OF k(2)] per_client_pos [OF k(2) assms(4)] assms(3) k(1) by simp
    then show ?thesis using cnt(3) [OF k(2)] k expected_lookup(1) [OF keys] by (simp add: counts_of_def expected_sum_eq)
  next
    case False
    then show ?thesis using cnt(4) expected_lookup(2) [OF keys] by (simp add: counts_of_def)
  qed
  then have "map_of (expected_state (length cids) ops keys) = counts_of os" by blast
  moreover note in_order_counts [OF fabric_in_order [OF assms(1,5)] cnt(1)]
  ultimately show ?thesis using bt_ext expected_state_map(1) [OF keys] by metis
qed

section \<open>A replica's run\<close>

definition decoded :: "(u64 \<times> bytes) list \<Rightarrow> (u64 \<times> op) list" where
  "decoded ds = List.map_filter (\<lambda>(ts, b). map_option (Pair ts) (decode b)) ds"

lemma decoded_simps [simp]:
  "decoded [] = []" "decoded (xs @ ys) = decoded xs @ decoded ys"
  "decoded ((ts, b) # ds) = (case decode b of None \<Rightarrow> decoded ds | Some op \<Rightarrow> (ts, op) # decoded ds)"
  by (simp_all add: decoded_def List.map_filter_def split: option.splits)

lemma kv_output [simp]: "snd (kv_apply m op) \<noteq> Suppressed"
  by (cases "op_kind op") (simp_all add: kv_apply_def Let_def)

lemma replica_drain_quiet:
  "quiet (e_dur g) \<Longrightarrow> \<exists>g'. replica_drain ds g = (Inr (), g') \<and> quiet (e_dur g') \<and>
     core g' = run_core kv_sm (core g) (decoded ds)"
proof (induction ds arbitrary: g)
  case (Cons d ds)
  obtain ts b where d: "d = (ts, b)" by (cases d)
  show ?case
  proof (cases "decode b")
    case None
    then show ?thesis using Cons by (simp add: d)
  next
    case (Some op)
    obtain out g1 where "deliver kv_sm ts op g = (Inr out, g1)" "core g1 = core_step kv_sm (core g) (ts, op)" "quiet (e_dur g1)"
      using deliver_quiet [OF Cons.prems, of kv_sm ts op] by blast
    then show ?thesis using Cons.IH [of g1] Some by (simp add: d)
  qed
qed simp

text \<open>
  A replica that has processed the history \<open>h\<close>, all of it in order, on a disk whose calls succeed.
\<close>

definition replica_at :: "(u64 \<times> op) list \<Rightarrow> replica \<Rightarrow> bool" where
  "replica_at h r \<longleftrightarrow> quiet (e_dur (r_engine r)) \<and> core (r_engine r) = run_core kv_sm (init_core kv_sm) h
     \<and> r_applied r = word_of_nat (length h)"

lemma in_order_prefix: "in_order (xs @ ys) \<Longrightarrow> in_order xs"
  by (auto simp: in_order_def sorted_wrt_append)

lemma in_order_fresh:
  assumes "in_order (map snd h @ [op])" "core g = run_core kv_sm (init_core kv_sm) h"
  shows "\<not> op_seq op \<le> hw_get (e_applied g) (op_client op)"
proof -
  have "marks_of (map snd h) (e_applied g)"
    using run_marks [of kv_sm h "e_state g" "e_applied g" "e_last_ts g"] assms(2) by (simp add: core_def)
  moreover have "new_at (map snd h @ [op]) (length (map snd h))"
    unfolding new_at_last using assms(1) by (auto simp: in_order_def sorted_wrt_append)
  ultimately show ?thesis using new_at_mark by blast
qed

lemma replica_batch_at:
  "replica_at h r \<Longrightarrow> in_order (map snd (h @ decoded ds)) \<Longrightarrow>
   \<exists>r'. replica_batch ds r = (Inr (), r') \<and> replica_at (h @ decoded ds) r'"
proof (induction ds arbitrary: h r)
  case (Cons d ds)
  obtain ts b where d: "d = (ts, b)" by (cases d)
  show ?case
  proof (cases "decode b")
    case None
    then show ?thesis using Cons by (simp add: d)
  next
    case (Some op)
    have r: "quiet (e_dur (r_engine r))" "core (r_engine r) = run_core kv_sm (init_core kv_sm) h"
      "r_applied r = word_of_nat (length h)" using Cons.prems(1) by (simp_all add: replica_at_def)
    have "in_order (map snd h @ [op])"
      using Cons.prems(2) Some in_order_prefix [of "map snd h @ [op]"] by (simp add: d)
    from in_order_fresh [OF this r(2)] obtain g where g: "deliver kv_sm ts op (r_engine r) = (Inr (snd (kv_apply (e_state (r_engine r)) op)), g)"
        "core g = core_step kv_sm (core (r_engine r)) (ts, op)" "quiet (e_dur g)"
      using deliver_quiet [OF r(1), of kv_sm ts op] by auto
    let ?r = "r\<lparr>r_engine := g, r_applied := r_applied r + 1\<rparr>"
    have "replica_at (h @ [(ts, op)]) ?r" using g(2,3) r by (simp add: replica_at_def add.commute)
    moreover have "replica_batch (d # ds) r = replica_batch ds ?r" using Some g(1) by (simp add: d)
    ultimately show ?thesis using Cons.IH [of "h @ [(ts, op)]" ?r] Cons.prems(2) Some by (simp add: d)
  qed
qed simp

text \<open>When all operations reach the replica before its timeout or in the drain, its loop processes exactly them.\<close>

lemma replica_loop_at:
  assumes "length (h @ decoded (concat ps @ drain)) = n" "n < 2 ^ 64"
  shows "replica_at h r \<Longrightarrow> in_order (map snd (h @ decoded (concat ps @ drain))) \<Longrightarrow>
    \<exists>g. replica_loop (word_of_nat n) ps drain r = (Inr (), g) \<and>
      core g = run_core kv_sm (init_core kv_sm) (h @ decoded (concat ps @ drain))"
  using assms
proof (induction ps arbitrary: h r)
  case Nil
  then show ?case using replica_drain_quiet [of "r_engine r" drain] by (auto simp: replica_at_def)
next
  case (Cons p ps)
  have "in_order (map snd (h @ decoded p))"
    using Cons.prems(2) in_order_prefix [of "map snd (h @ decoded p)"] by simp
  from replica_batch_at [OF Cons.prems(1) this]
  obtain r1 where r1: "replica_batch p r = (Inr (), r1)" "replica_at (h @ decoded p) r1" by blast
  have le: "length (h @ decoded p) \<le> n" using Cons.prems(3) by simp
  have app: "r_applied r1 = word_of_nat (length (h @ decoded p))" using r1(2) by (simp add: replica_at_def)
  show ?case
  proof (cases "word_of_nat n \<le> r_applied r1")
    case True
    then have "n \<le> length (h @ decoded p)"
      using le Cons.prems(4) unfolding app word_le_nat_alt by (simp add: unat_of_nat del: length_append)
    moreover have "n = length (h @ decoded p) + length (decoded (concat ps @ drain))" using Cons.prems(3) by simp
    ultimately have "length (decoded (concat ps @ drain)) = 0" by linarith
    then have rest: "decoded (concat ps @ drain) = []" by blast
    then have "decoded drain = []" by simp
    then show ?thesis using True r1 replica_drain_quiet [of "r_engine r1" drain] rest by (auto simp: replica_at_def)
  next
    case False
    then show ?thesis using Cons.IH [of "h @ decoded p" r1] Cons.prems r1 by simp
  qed
qed

lemma run_replica_expected:
  assumes "fabric_delivers cids ops keys (map snd (decoded (concat polls @ drain)))" "distinct cids" "cids \<noteq> []"
    and "keys \<le> ops" "length cids * ops < 2 ^ 64" "f_oplog w = None" "f_snapshot w = None" "outcomes w = []"
  shows "run_replica (word_of_nat ops * word_of_nat (length cids)) interval w polls drain =
    Inr (expected_state (length cids) ops keys)"
proof -
  let ?h = "decoded (concat polls @ drain)"
  have "1 * ops \<le> length cids * ops" using assms(3) by (intro mult_le_mono1) (simp add: Suc_le_eq)
  then have ops: "ops < 2 ^ 64" using assms(5) le_less_trans by (metis mult_1)
  have n: "length ?h = length cids * ops"
    using fabric_counts(2) [OF assms(1,2)] assms(4) ops by simp
  have tot: "(word_of_nat ops * word_of_nat (length cids) :: u64) = word_of_nat (length cids * ops)" by simp
  obtain d where d: "engine_create kv_sm w interval False = (Inr (), new_engine kv_sm d interval)" "quiet d"
    using assms(8) by (simp add: engine_create_def durable_open_def sys_defs quiet_def)
  let ?r = "\<lparr>r_engine = new_engine kv_sm d interval, r_applied = 0\<rparr>"
  have "replica_at [] ?r" using d(2) core_new [of kv_sm d interval]
    by (simp add: replica_at_def) (simp add: new_engine_def)
  from replica_loop_at [of "[]" polls drain "length cids * ops", OF _ assms(5) this] n fabric_in_order [OF assms(1) ops]
  obtain g where g: "replica_loop (word_of_nat (length cids * ops)) polls drain ?r = (Inr (), g)"
      "core g = run_core kv_sm (init_core kv_sm) ?h" by auto
  have "e_state g = reference_apply kv_sm (map snd ?h)" using g(2) reference_apply_run by (metis core_state)
  then show ?thesis using d(1) g(1) fabric_expected [OF assms(1-4) ops] unfolding tot by (simp add: run_replica_def)
qed

section \<open>The reports\<close>

lemma join_replicas_all: "join_replicas (map (\<lambda>i. (i, Inr (f i))) xs) = Inr (map (\<lambda>i. (i, f i)) xs)"
  by (induction xs) simp_all

lemma windows_equal_all: "\<forall>x \<in> set xs. snd x = st \<Longrightarrow> windows_equal xs"
  by (induction xs rule: windows_equal.induct) auto

lemma run_cluster_correct:
  assumes "replicas \<noteq> 0" "distinct cids" "cids \<noteq> []" "keys \<le> ops" "length cids * ops < 2 ^ 64"
    and "\<And>i. i < replicas \<Longrightarrow> fabric_delivers cids ops keys (map snd (decoded (concat (polls i) @ drains i)))"
    and "\<And>i. i < replicas \<Longrightarrow> f_oplog (dirs i) = None \<and> f_snapshot (dirs i) = None \<and> outcomes (dirs i) = []"
  shows "\<exists>rep. run_cluster replicas (length cids) ops keys interval dirs polls drains = Inr rep \<and>
    converged rep \<and> correct rep \<and> \<not> timed_out rep"
proof -
  let ?E = "expected_state (length cids) ops keys"
  have "run_replica (word_of_nat ops * word_of_nat (length cids)) interval (dirs i) (polls i) (drains i) = Inr ?E"
    if "i < replicas" for i
    using run_replica_expected [OF assms(6) [OF that] assms(2-5)] assms(7) [OF that] by simp
  then have "map (\<lambda>i. (i, run_replica (word_of_nat ops * word_of_nat (length cids)) interval (dirs i) (polls i) (drains i))) [0..<replicas]
      = map (\<lambda>i. (i, Inr ?E)) [0..<replicas]" by simp
  then have "run_cluster replicas (length cids) ops keys interval dirs polls drains =
      Inr (cluster_report_of (map (\<lambda>i. (i, ?E)) [0..<replicas]) ?E)"
    unfolding run_cluster_def Let_def using join_replicas_all [of "\<lambda>_. ?E" "[0..<replicas]"] by (simp only: sum.case)
  moreover have "windows_equal (map (\<lambda>i. (i, ?E)) [0..<replicas])" by (rule windows_equal_all) auto
  ultimately show ?thesis using assms(1) by (simp add: cluster_report_of_def list_all_iff)
qed

text \<open>
  A crashed replica that recovers and imports a survivor's state holds the survivor's state, and has it
  on disk when its own log is behind the survivor's.
\<close>

lemma crash_finish_ok:
  assumes "snap_fits kv_good survivor" "crash_finish exp survivor victim w interval = Inr rep"
  shows "victim_caught_up rep = survivor_state rep" and "recovered_ok rep = survivor_correct rep"
    and "survivor_state rep = kv_entries (e_state survivor)"
proof -
  obtain veng veng' where r: "engine_recover kv_sm w interval False = (Inr (), veng)"
      "import_state kv_sm (export_state kv_sm survivor) veng = (Inr (), veng')"
    using assms(2) by (auto simp: crash_finish_def split: prod.splits sum.splits)
  have "e_state veng' = e_state survivor"
    using kv.import_export(1) [OF r(2) assms(1)] by (simp add: core_def)
  then show "victim_caught_up rep = survivor_state rep" "recovered_ok rep = survivor_correct rep"
    "survivor_state rep = kv_entries (e_state survivor)"
    using assms(2) r by (auto simp: crash_finish_def Let_def)
qed

lemma crash_finish_total:
  assumes "outcomes w = []"
  shows "\<exists>rep. crash_finish exp survivor victim w interval = Inr rep"
proof -
  have w: "w\<lparr>outcomes := []\<rparr> = w" using assms by simp
  obtain veng where r: "engine_recover kv_sm w interval False = (Inr (), veng)" "quiet (e_dur veng)"
    using engine_recover_total [of kv_sm w interval False] engine_recover_quiet [of kv_sm w interval False]
    unfolding w by blast
  obtain d where "write_snapshot (export_state kv_sm survivor) (e_dur veng) = (Inr (), d)"
    using write_snapshot_quiet [OF r(2)] by blast
  then show ?thesis using r(1)
    by (simp add: crash_finish_def import_state_def io_bind_def with_dur_def load_snapshot_frame Let_def)
qed

end
