(* ===== verification/OB_Bench.thy ===== *)
theory OB_Bench
  imports OB_Cluster
begin

unbundle bit_operations_syntax

text \<open>
  The deterministic parts of \<open>bench.rs\<close>: the sweep over snapshot intervals, the executors and log-only
  backups of the passive-versus-active comparison, and the latency sample of one delivery. Clock readings
  are arguments, measured durations and percentiles are not modelled. The lemmas compute how many
  snapshots a run takes and how many records recovery replays, and show that a backup that never executed
  an operation recovers to the executor's state.
\<close>

section \<open>The workload\<close>

text \<open>
  The operation of iteration \<open>i\<close> and its timestamp; \<open>stamp\<close> is \<open>Timestamp::from_nanos\<close> followed by
  \<open>as_nanos\<close>. \<open>None\<close> is the panic of \<open>i % keys\<close> for an empty key space.
\<close>

definition bench_feed :: "(u64 \<Rightarrow> u64) \<Rightarrow> nat \<Rightarrow> nat \<Rightarrow> (u64 \<times> op) list option" where
  "bench_feed stamp ops keys = (if keys = 0 \<and> 0 < ops then None
     else Some (map (\<lambda>i. (stamp (word_of_nat (i + 1)), op_incr 1 (word_of_nat (i + 1)) (key_name (i mod keys)) 1)) [0..<ops]))"

text \<open>Delivering a list of operations; an error ends the run, as \<open>unwrap\<close> does.\<close>

fun deliver_all :: "(u64 \<times> op) list \<Rightarrow> (unit, kv_store engine) io" where
  "deliver_all [] e = (Inr (), e)"
| "deliver_all ((ts, op) # xs) e =
     (case deliver kv_sm ts op e of (Inl err, e) \<Rightarrow> (Inl err, e) | (Inr _, e) \<Rightarrow> deliver_all xs e)"

section \<open>The sweep over snapshot intervals\<close>

record snap_result =
  sr_interval :: u64
  sr_ops :: nat
  sr_snapshots :: u64
  sr_replay_records :: u64

text \<open>One interval, in the directory \<open>w\<close> that \<open>remove_dir_all\<close> left. \<open>None\<close> is a panic.\<close>

definition sweep_one :: "(u64 \<Rightarrow> u64) \<Rightarrow> directory \<Rightarrow> nat \<Rightarrow> nat \<Rightarrow> u64 \<Rightarrow> snap_result option" where
  "sweep_one stamp w ops keys interval =
     (case engine_create kv_sm w interval False of
        (Inl _, _) \<Rightarrow> None
      | (Inr _, e) \<Rightarrow> Option.bind (bench_feed stamp ops keys) (\<lambda>xs.
          case deliver_all xs e of
            (Inl _, _) \<Rightarrow> None
          | (Inr _, e) \<Rightarrow> (case engine_recover kv_sm (d_dir (e_dur e)) interval False of
              (Inl _, _) \<Rightarrow> None
            | (Inr _, er) \<Rightarrow> Some \<lparr>sr_interval = interval, sr_ops = ops, sr_snapshots = st_snapshots (e_stats e),
                sr_replay_records = st_replayed (e_stats er)\<rparr>)))"

definition sweep_snapshot_interval :: "(u64 \<Rightarrow> u64) \<Rightarrow> (u64 \<Rightarrow> directory) \<Rightarrow> u64 list \<Rightarrow> nat \<Rightarrow> nat \<Rightarrow> snap_result list option" where
  "sweep_snapshot_interval stamp dirs intervals ops keys =
     those (map (\<lambda>interval. sweep_one stamp (dirs interval) ops keys interval) intervals)"

section \<open>Executors and log-only backups\<close>

definition bench_executor :: "(u64 \<Rightarrow> u64) \<Rightarrow> nat \<Rightarrow> directory \<Rightarrow> kv_store engine option" where
  "bench_executor stamp ops w =
     (case engine_create kv_sm w 1000000 False of
        (Inl _, _) \<Rightarrow> None
      | (Inr _, e) \<Rightarrow> Option.bind (bench_feed stamp ops 64) (\<lambda>xs.
          case deliver_all xs e of (Inl _, _) \<Rightarrow> None | (Inr _, e) \<Rightarrow> Some e))"

fun append_all :: "(u64 \<times> op) list \<Rightarrow> (unit, durable) io" where
  "append_all [] d = (Inr (), d)"
| "append_all ((n, op) # xs) d =
     (case dur_append n (encode op) d of (Inl err, d) \<Rightarrow> (Inl err, d) | (Inr _, d) \<Rightarrow> append_all xs d)"

text \<open>A backup appends each encoded operation under its number and executes nothing.\<close>

definition bench_backup :: "nat \<Rightarrow> directory \<Rightarrow> durable option" where
  "bench_backup ops w =
     (case durable_open w False of
        (Inl _, _) \<Rightarrow> None
      | (Inr _, d) \<Rightarrow> Option.bind (bench_feed (\<lambda>n. n) ops 64) (\<lambda>xs.
          case append_all xs d of (Inl _, _) \<Rightarrow> None | (Inr _, d) \<Rightarrow> Some d))"

record cpu_run =
  active_replicas :: "kv_store engine list"
  passive_executor :: "kv_store engine"
  passive_backups :: "durable list"

text \<open>What the two schemes leave behind before the directory is removed; \<open>replicas\<close> is a \<open>usize\<close>.\<close>

definition bench_cpu_passive_vs_active :: "(u64 \<Rightarrow> u64) \<Rightarrow> (nat \<Rightarrow> directory) \<Rightarrow> directory \<Rightarrow> (nat \<Rightarrow> directory) \<Rightarrow>
    nat \<Rightarrow> nat \<Rightarrow> cpu_run option" where
  "bench_cpu_passive_vs_active stamp active_dirs exec_dir log_dirs ops replicas =
     Option.bind (those (map (\<lambda>r. bench_executor stamp ops (active_dirs r)) [0..<replicas])) (\<lambda>active.
     Option.bind (bench_executor stamp ops exec_dir) (\<lambda>exec.
     Option.bind (those (map (\<lambda>r. bench_backup ops (log_dirs r)) [0..<replicas - 1])) (\<lambda>backups.
       Some \<lparr>active_replicas = active, passive_executor = exec, passive_backups = backups\<rparr>)))"

section \<open>Latency samples\<close>

text \<open>
  One message of a poll, with the wall clock read when it is taken and the time that its delivery took.
  Timestamps are wall-clock nanoseconds cut to 48 bits, so the difference is taken modulo \<open>2 ^ 48\<close>.
\<close>

record taken =
  t_msg_ts :: u64
  t_payload :: bytes
  t_now :: u64
  t_elapsed :: u64

definition MASK48 :: u64 where
  "MASK48 = push_bit 48 1 - 1"

definition delivery_ns :: "u64 \<Rightarrow> u64 \<Rightarrow> u64" where
  "delivery_ns now ts = ((now AND MASK48) - ts) AND MASK48"

record sampler =
  s_engine :: "kv_store engine"
  s_samples :: "(u64 \<times> u64) list"
  s_applied :: u64

fun sample_batch :: "taken list \<Rightarrow> sampler \<Rightarrow> (io_error + unit) \<times> sampler" where
  "sample_batch [] s = (Inr (), s)"
| "sample_batch (t # ts) s =
     (case decode (t_payload t) of
        None \<Rightarrow> sample_batch ts s
      | Some op \<Rightarrow> (case deliver kv_sm (t_msg_ts t) op (s_engine s) of
          (Inl e, g) \<Rightarrow> (Inl e, s\<lparr>s_engine := g\<rparr>)
        | (Inr out, g) \<Rightarrow> sample_batch ts (if out = Suppressed then s\<lparr>s_engine := g\<rparr>
            else s\<lparr>s_engine := g, s_samples := s_samples s @ [(delivery_ns (t_now t) (t_msg_ts t), t_elapsed t)],
              s_applied := s_applied s + 1\<rparr>)))"

text \<open>The executor polls until it has applied everything or its time is up.\<close>

fun sample_loop :: "u64 \<Rightarrow> taken list list \<Rightarrow> sampler \<Rightarrow> (io_error + (u64 \<times> u64) list)" where
  "sample_loop total_ops [] s = Inr (s_samples s)"
| "sample_loop total_ops (p # ps) s =
     (case sample_batch p s of
        (Inl e, _) \<Rightarrow> Inl e
      | (Inr _, s) \<Rightarrow> if total_ops \<le> s_applied s then Inr (s_samples s) else sample_loop total_ops ps s)"

lemmas bench_defs [unfold_model] = bench_feed_def sweep_one_def sweep_snapshot_interval_def bench_executor_def
  bench_backup_def bench_cpu_passive_vs_active_def

section \<open>The workload is delivered in order and fits its records\<close>

lemma bench_feed_ops: "bench_feed stamp ops keys = Some xs \<Longrightarrow> client_ops 1 ops keys = Some (map snd xs)"
  by (auto simp: bench_feed_def client_ops_def o_def split: if_splits)

lemma bench_feed_total: "0 < keys \<Longrightarrow> \<exists>xs. bench_feed stamp ops keys = Some xs"
  by (simp add: bench_feed_def)

lemma bench_feed_length: "bench_feed stamp ops keys = Some xs \<Longrightarrow> length xs = ops"
  by (auto simp: bench_feed_def split: if_splits)

lemma bench_feed_fabric: "bench_feed stamp ops keys = Some xs \<Longrightarrow> fabric_delivers [1] ops keys (map snd xs)"
  by (auto simp: bench_feed_def client_ops_def fabric_delivers_def o_def op_incr_def filter_map split: if_splits)

lemma bench_feed_in_order: "bench_feed stamp ops keys = Some xs \<Longrightarrow> ops < 2 ^ 64 \<Longrightarrow> in_order (map snd xs)"
  using fabric_in_order [OF bench_feed_fabric] by blast

lemma length_key_name: "n < 2 ^ 64 \<Longrightarrow> length (key_name n) \<le> 21"
  using length_dec_digits [of "int n" 19] by (simp add: key_name_def show_usize_def)

lemma bench_feed_logs:
  assumes "bench_feed stamp ops keys = Some xs" "ops < 2 ^ 64" "x \<in> set xs"
  shows "op_logs (snd x)" and "length (log_record (ts, encode (snd x))) \<le> 56"
proof -
  obtain i where i: "i < ops" "snd x = op_incr 1 (word_of_nat (i + 1)) (key_name (i mod keys)) 1"
    using assms by (auto simp: bench_feed_def split: if_splits)
  have "i mod keys < 2 ^ 64" using i(1) assms(2) by (meson le_less_trans mod_less_eq_dividend less_trans)
  then have len: "length (key_name (i mod keys)) \<le> 21" by (rule length_key_name)
  have "utf8_valid (key_name (i mod keys))"
    using show_usize_text(1) by (simp add: key_name_def utf8_valid_ascii_byte)
  then show "op_logs (snd x)"
    using len by (simp add: i(2) op_logs_def wf_op_def op_defs key_ok_def encode_def enc_key_def)
  show "length (log_record (ts, encode (snd x))) \<le> 56"
    using len by (simp add: i(2) length_log_record op_defs encode_def enc_key_def)
qed

section \<open>Counting snapshots and records\<close>

lemma write_snapshot_clears:
  "quiet d \<Longrightarrow> write_snapshot b d = (Inr (), d') \<Longrightarrow> dur_snap d' = Some b \<and> dur_records d' = [] \<and> dur_clean d'"
  by (auto simp: quiet_def write_snapshot_def io_bind_def sys_defs sync_if_fsync_def drop_handle_def io_ignore_def
      dur_snap_def dur_records_def dur_clean_def file_bytes_def split: if_splits)

text \<open>
  A delivery that is no duplicate, with every call succeeding: below the interval the record joins the
  log, at the interval the snapshot of the new state replaces snapshot and log.
\<close>

lemma deliver_counts:
  assumes "quiet (e_dur e)" "dur_clean (e_dur e)" "op_logs op" "\<not> op_seq op \<le> hw_get (e_applied e) (op_client op)"
  obtains out e' where "deliver sm ts op e = (Inr out, e')" "core e' = core_step sm (core e) (ts, op)"
    "quiet (e_dur e')" "dur_clean (e_dur e')" "e_snap_interval e' = e_snap_interval e"
    "e_ops_since_snap e + 1 < e_snap_interval e \<Longrightarrow> e_ops_since_snap e' = e_ops_since_snap e + 1 \<and>
       st_snapshots (e_stats e') = st_snapshots (e_stats e) \<and> dur_snap (e_dur e') = dur_snap (e_dur e) \<and>
       dur_records (e_dur e') = dur_records (e_dur e) @ [(ts, encode op)]"
    "e_snap_interval e \<le> e_ops_since_snap e + 1 \<Longrightarrow> e_ops_since_snap e' = 0 \<and>
       st_snapshots (e_stats e') = st_snapshots (e_stats e) + 1 \<and>
       dur_snap (e_dur e') = Some (encode_snapshot sm e') \<and> dur_records (e_dur e') = []"
proof -
  obtain a where a: "apply_dedup sm ts op e = (Some (snd (sm_apply sm (e_state e) op)), a)"
    using apply_dedup_fresh [OF assms(4)] by blast
  note c = apply_dedup_core [OF a]
  obtain d1 where d1: "dur_append ts (encode op) (e_dur e) = (Inr (), d1)" "quiet d1"
    using dur_append_quiet [OF assms(1)] by blast
  note rec = ds.append_ok [OF assms(2) op_logsD(1) [OF assms(3)] d1(1)] ds.append_snap [OF d1(1)]
  define e2 where "e2 = a\<lparr>e_stats := (e_stats a)\<lparr>st_applied := st_applied (e_stats a) + 1\<rparr>, e_dur := d1,
    e_ops_since_snap := e_ops_since_snap a + 1\<rparr>"
  have e2: "core e2 = core a" "e_dur e2 = d1" by (simp_all add: e2_def)
  obtain d3 where d3: "write_snapshot (encode_snapshot sm e2) d1 = (Inr (), d3)" "quiet d3"
    using write_snapshot_quiet [OF d1(2)] by blast
  note cleared = write_snapshot_clears [OF d1(2) d3(1)]
  have wd: "with_dur (write_snapshot (encode_snapshot sm e2)) e2 = (Inr (), e2\<lparr>e_dur := d3\<rparr>)"
    using d3(1) by (simp add: with_dur_def e2(2))
  define e3 where "e3 = e2\<lparr>e_dur := d3, e_ops_since_snap := 0,
    e_stats := (e_stats e2)\<lparr>st_snapshots := st_snapshots (e_stats e2) + 1\<rparr>\<rparr>"
  have e3: "core e3 = core a" "encode_snapshot sm e3 = encode_snapshot sm e2"
    by (simp add: e3_def e2) (rule encode_snapshot_core, simp add: e3_def)
  have snap: "engine_snapshot sm e2 = (Inr (), e3)"
    by (simp add: engine_snapshot_def io_bind_def wd e3_def)
  show thesis
  proof (cases "e_snap_interval e \<le> e_ops_since_snap e + 1")
    case True
    have "deliver sm ts op e = (Inr (snd (sm_apply sm (e_state e) op)), e3)"
      using a d1(1) c True snap by (simp add: deliver_def io_bind_def with_dur_def io_return_def e2_def)
    then show thesis using that [of _ e3] True c e3 d3(2) cleared by (simp add: e3_def e2_def not_less)
  next
    case False
    have "deliver sm ts op e = (Inr (snd (sm_apply sm (e_state e) op)), e2)"
      using a d1(1) c False by (simp add: deliver_def io_bind_def with_dur_def io_return_def e2_def)
    then show thesis using that [of _ e2] False c rec d1(2) e2 by (simp add: e2_def)
  qed
qed

text \<open>
  The engine after the history \<open>h\<close> with interval \<open>n\<close>: \<open>length h div n\<close> snapshots were taken, the last
  one holds the history up to it, and the log holds the rest.
\<close>

definition log_of :: "(u64 \<times> op) list \<Rightarrow> (u64 \<times> bytes) list" where
  "log_of h = map (\<lambda>x. (fst x, encode (snd x))) h"

definition snapped :: "nat \<Rightarrow> (u64 \<times> op) list \<Rightarrow> nat" where
  "snapped n h = length h div n * n"

definition bench_inv :: "nat \<Rightarrow> (u64 \<times> op) list \<Rightarrow> kv_store engine \<Rightarrow> bool" where
  "bench_inv n h e \<longleftrightarrow> core e = run_core kv_sm (init_core kv_sm) h \<and> quiet (e_dur e) \<and> dur_clean (e_dur e)
     \<and> unat (e_snap_interval e) = n \<and> unat (e_ops_since_snap e) = length h mod n
     \<and> st_snapshots (e_stats e) = word_of_nat (length h div n)
     \<and> load_core kv_sm (dur_snap (e_dur e)) = run_core kv_sm (init_core kv_sm) (take (snapped n h) h)
     \<and> dur_records (e_dur e) = log_of (drop (snapped n h) h)"

lemma snapped_snoc:
  assumes "0 < n"
  shows "snapped n (h @ [x]) = (if Suc (length h mod n) = n then Suc (length h) else snapped n h)"
    and "snapped n h \<le> length h"
proof -
  show "snapped n h \<le> length h" by (simp add: snapped_def)
  have "Suc (length h mod n) = n \<Longrightarrow> n + length h div n * n = Suc (length h)"
    using div_mult_mod_eq [of "length h" n] by linarith
  then show "snapped n (h @ [x]) = (if Suc (length h mod n) = n then Suc (length h) else snapped n h)"
    using assms by (simp add: snapped_def div_Suc mod_Suc)
qed

lemma bench_inv_step:
  assumes "bench_inv n h e" "0 < n" "in_order (map snd (h @ [(ts, op)]))" "op_logs op"
    and fits: "\<And>e'. core e' = run_core kv_sm (init_core kv_sm) (h @ [(ts, op)]) \<Longrightarrow> snap_fits kv_good e'"
  shows "\<exists>out e'. deliver kv_sm ts op e = (Inr out, e') \<and> bench_inv n (h @ [(ts, op)]) e'"
proof -
  note I = assms(1) [unfolded bench_inv_def]
  have fresh: "\<not> op_seq op \<le> hw_get (e_applied e) (op_client op)"
    using in_order_fresh [of h op e] assms(3) I by simp
  from deliver_counts [OF _ _ assms(4) fresh, of kv_sm ts]
  obtain out e' where d: "deliver kv_sm ts op e = (Inr out, e')" "core e' = core_step kv_sm (core e) (ts, op)"
    "quiet (e_dur e')" "dur_clean (e_dur e')" "e_snap_interval e' = e_snap_interval e"
    and below: "e_ops_since_snap e + 1 < e_snap_interval e \<Longrightarrow> e_ops_since_snap e' = e_ops_since_snap e + 1 \<and>
       st_snapshots (e_stats e') = st_snapshots (e_stats e) \<and> dur_snap (e_dur e') = dur_snap (e_dur e) \<and>
       dur_records (e_dur e') = dur_records (e_dur e) @ [(ts, encode op)]"
    and reached: "e_snap_interval e \<le> e_ops_since_snap e + 1 \<Longrightarrow> e_ops_since_snap e' = 0 \<and>
       st_snapshots (e_stats e') = st_snapshots (e_stats e) + 1 \<and>
       dur_snap (e_dur e') = Some (encode_snapshot kv_sm e') \<and> dur_records (e_dur e') = []"
    using I by metis
  have core: "core e' = run_core kv_sm (init_core kv_sm) (h @ [(ts, op)])" using d(2) I by simp
  have "length h mod n < n" using assms(2) by simp
  then have lt: "Suc (unat (e_ops_since_snap e)) \<le> unat (e_snap_interval e)" using I by simp
  have u: "unat (e_ops_since_snap e + 1) = Suc (length h mod n)"
  proof -
    have "unat (e_snap_interval e) < 2 ^ 64" by (rule u64_bound)
    then have "unat (e_ops_since_snap e) + 1 < 2 ^ 64" using lt by simp
    then show ?thesis using unat_add_lem [of "e_ops_since_snap e" 1] I by simp
  qed
  have "bench_inv n (h @ [(ts, op)]) e'"
  proof (cases "Suc (length h mod n) = n")
    case True
    then have "e_snap_interval e \<le> e_ops_since_snap e + 1" using u I by (simp add: word_le_nat_alt)
    note r = reached [OF this]
    show ?thesis using True core d I r kv.load_core_encode [OF fits [OF core]] assms(2)
      by (simp add: bench_inv_def snapped_snoc log_of_def mod_Suc div_Suc)
  next
    case False
    then have "e_ops_since_snap e + 1 < e_snap_interval e" using u lt I by (simp add: word_less_nat_alt)
    note r = below [OF this]
    show ?thesis using False core d I r assms(2) snapped_snoc(2) [OF assms(2), of h] u
      by (simp add: bench_inv_def snapped_snoc log_of_def mod_Suc div_Suc)
  qed
  then show ?thesis using d(1) by blast
qed

text \<open>A run whose log would stay below the snapshot format's limits.\<close>

definition bench_run :: "(u64 \<times> op) list \<Rightarrow> bool" where
  "bench_run xs \<longleftrightarrow> in_order (map snd xs) \<and> (\<forall>x \<in> set xs. op_logs (snd x)) \<and> log_bytes xs + 4 < 2 ^ 32"

lemma bench_run_prefix: "bench_run (xs @ ys) \<Longrightarrow> bench_run xs"
  by (auto simp: bench_run_def log_bytes_def dest: in_order_prefix)

lemma bench_run_fits:
  "bench_run xs \<Longrightarrow> core e = run_core kv_sm (init_core kv_sm) xs \<Longrightarrow> snap_fits kv_good e"
  using kv_bounded_run [of xs] kv_bounded_fits [of "log_bytes xs" e]
  by (auto simp: bench_run_def op_logs_def list_all_iff)

lemma bench_feed_run:
  assumes "bench_feed stamp ops keys = Some xs" "ops \<le> 70000000"
  shows "bench_run xs"
proof -
  have "ops < 2 ^ 64" using assms(2) by simp
  note logs = bench_feed_logs [OF assms(1) this]
  have "log_bytes xs \<le> (\<Sum>x\<leftarrow>xs. 56)" unfolding log_bytes_def by (rule sum_list_mono) (simp add: logs(2))
  then have "log_bytes xs + 4 < 2 ^ 32" using bench_feed_length [OF assms(1)] assms(2) by (simp add: sum_list_triv)
  then show ?thesis using logs(1) bench_feed_in_order [OF assms(1) \<open>ops < 2 ^ 64\<close>] by (simp add: bench_run_def)
qed

lemma deliver_all_inv:
  "bench_run (h @ xs) \<Longrightarrow> bench_inv n h e \<Longrightarrow> 0 < n \<Longrightarrow>
   \<exists>e'. deliver_all xs e = (Inr (), e') \<and> bench_inv n (h @ xs) e'"
proof (induction xs arbitrary: h e)
  case (Cons x xs)
  obtain ts op where x: "x = (ts, op)" by (cases x)
  have run: "bench_run (h @ [(ts, op)])" using Cons.prems(1) bench_run_prefix [of "h @ [x]" xs] x by simp
  obtain out e1 where "deliver kv_sm ts op e = (Inr out, e1)" "bench_inv n (h @ [(ts, op)]) e1"
    using bench_inv_step [OF Cons.prems(2,3), of ts op] run bench_run_fits [OF run] by (auto simp: bench_run_def)
  then show ?case using Cons.IH [of "h @ [(ts, op)]" e1] Cons.prems x by simp
qed simp

lemma engine_create_bench:
  "\<exists>e. engine_create kv_sm empty_dir i False = (Inr (), e) \<and> bench_inv (unat (max i 1)) [] e"
  by (simp add: engine_create_def durable_open_def sys_create_dir_all_def bench_inv_def quiet_def dur_clean_def
      empty_dir_def new_engine_def init_core_def core_def snapped_def log_of_def dur_records_def dur_snap_def
      load_core_def file_bytes_def stats_default_def)

section \<open>What recovery replays\<close>

text \<open>Records of operations that are each new where they stand are all counted.\<close>

lemma replay_counts:
  "in_order (map snd (h @ xs)) \<Longrightarrow> \<forall>x \<in> set xs. op_logs (snd x) \<Longrightarrow> core e = run_core kv_sm (init_core kv_sm) h \<Longrightarrow>
   \<exists>e'. replay kv_sm (log_of xs) (n, e) = (n + word_of_nat (length xs), e')"
proof (induction xs arbitrary: h n e)
  case (Cons x xs)
  obtain ts op where x: "x = (ts, op)" by (cases x)
  have "in_order (map snd h @ [op])" using Cons.prems(1) in_order_prefix [of "map snd h @ [op]" "map snd xs"] x by simp
  then have "\<not> op_seq op \<le> hw_get (e_applied e) (op_client op)" using in_order_fresh Cons.prems(3) by blast
  then obtain e1 where a: "apply_dedup kv_sm ts op e = (Some (snd (sm_apply kv_sm (e_state e) op)), e1)"
    using apply_dedup_fresh by blast
  have "core e1 = run_core kv_sm (init_core kv_sm) (h @ [(ts, op)])" using apply_dedup_core(1) [OF a] Cons.prems(3) by simp
  moreover have "decode (encode op) = Some op" using Cons.prems(2) x by (simp add: op_logsD)
  ultimately show ?case using Cons.IH [of "h @ [(ts, op)]" e1 "n + 1"] Cons.prems a x
    by (auto simp: log_of_def add.assoc)
qed (simp add: log_of_def)

lemma replay_log_of: "\<forall>x \<in> set xs. op_logs (snd x) \<Longrightarrow> replay_core sm c (log_of xs) = run_core sm c xs"
  by (induction xs arbitrary: c) (auto simp: log_of_def replay_core_def run_core_def op_logsD)

lemma engine_recover_replays:
  assumes "outcomes w = []"
  obtains e0 n e1 e where "engine_recover sm w i fs = (Inr (), e)" "core e0 = load_core sm (f_snapshot w)"
    "replay sm (parse_log (file_bytes (f_oplog w))) (0, e0) = (n, e1)" "st_replayed (e_stats e) = n"
proof -
  let ?d = "\<lparr>d_fsync = fs, d_log = False, d_dir = w\<rparr>"
  define e0 where "e0 = (case f_snapshot w of None \<Rightarrow> new_engine sm ?d i | Some b \<Rightarrow> load_snapshot sm b (new_engine sm ?d i))"
  have d: "e_dur e0 = ?d" by (simp add: e0_def load_snapshot_frame new_engine_def split: option.splits)
  obtain n e1 where r: "replay sm (parse_log (file_bytes (f_oplog w))) (0, e0) = (n, e1)"
    by (cases "replay sm (parse_log (file_bytes (f_oplog w))) (0, e0)")
  have o: "durable_open w fs = (Inr (), ?d)" using assms by (simp add: durable_open_def sys_create_dir_all_def)
  have rs: "read_snapshot ?d = (Inr (f_snapshot w), ?d)"
    using assms by (simp add: read_snapshot_def sys_open_read_def sys_read_def io_bind_def io_return_def split: option.splits)
  have rl: "read_log ?d = (Inr (parse_log (file_bytes (f_oplog w))), ?d)"
    using assms by (simp add: read_log_def sys_read_def io_bind_def io_return_def file_bytes_def split: option.splits)
  have keep: "e0\<lparr>e_dur := ?d\<rparr> = e0" using d by (metis engine.surjective engine.update_convs(4))
  have "engine_recover sm w i fs = (Inr (), e1\<lparr>e_stats := (e_stats e1)\<lparr>st_replayed := n\<rparr>,
      e_ops_since_snap := n mod e_snap_interval e1\<rparr>)"
    using r by (simp add: d keep engine_recover_def o io_bind_def with_dur_def rs rl new_engine_def e0_def [unfolded new_engine_def, symmetric])
  moreover have "core e0 = load_core sm (f_snapshot w)"
    by (auto simp: e0_def load_core_def Let_def intro!: load_snapshot_core_cong split: option.splits)
  ultimately show thesis using that r by simp
qed

lemma bench_inv_recover:
  assumes "bench_inv n xs e" "bench_run xs" "0 < n"
  shows "\<exists>er. engine_recover kv_sm (d_dir (e_dur e)) i fs = (Inr (), er) \<and>
    st_replayed (e_stats er) = word_of_nat (length xs mod n) \<and> core er = core e"
proof -
  note I = assms(1) [unfolded bench_inv_def]
  let ?s = "snapped n xs" and ?w = "d_dir (e_dur e)"
  have q: "outcomes ?w = []" using I by (simp add: quiet_def)
  obtain e0 m e1 er where r: "engine_recover kv_sm ?w i fs = (Inr (), er)" "core e0 = load_core kv_sm (f_snapshot ?w)"
    "replay kv_sm (parse_log (file_bytes (f_oplog ?w))) (0, e0) = (m, e1)" "st_replayed (e_stats er) = m"
    using engine_recover_replays [OF q] by metis
  have c0: "core e0 = run_core kv_sm (init_core kv_sm) (take ?s xs)" using r(2) I by (simp add: dur_snap_def)
  have recs: "parse_log (file_bytes (f_oplog ?w)) = log_of (drop ?s xs)" using I by (simp add: dur_records_def)
  have logs: "\<forall>x \<in> set (drop ?s xs). op_logs (snd x)"
    using assms(2) set_drop_subset [of ?s xs] by (auto simp: bench_run_def)
  have "in_order (map snd (take ?s xs @ drop ?s xs))" using assms(2) by (simp add: bench_run_def)
  from replay_counts [OF this logs c0, of 0] r(3) recs have m: "m = word_of_nat (length (drop ?s xs))" by auto
  have len: "length (drop ?s xs) = length xs mod n" by (simp add: snapped_def minus_div_mult_eq_mod)
  have "core er = recovered kv_sm (as_dur ?w)" by (rule engine_recover_core [OF r(1)])
  also have "\<dots> = run_core kv_sm (run_core kv_sm (init_core kv_sm) (take ?s xs)) (drop ?s xs)"
    using I replay_log_of [OF logs] by (simp add: recovered_def as_dur_def dur_snap_def dur_records_def)
  also have "\<dots> = core e" using I by (simp flip: run_core_simps(2))
  finally show ?thesis using r(1,4) m len by auto
qed

lemma interval_pos: "0 < unat (max i 1 :: u64)"
  by (auto simp: unat_gt_0 max_def word_gt_0)

lemma sweep_one_counts:
  assumes "0 < keys" "ops \<le> 70000000"
  shows "sweep_one stamp empty_dir ops keys interval = Some \<lparr>sr_interval = interval, sr_ops = ops,
    sr_snapshots = word_of_nat (ops div unat (max interval 1)), sr_replay_records = word_of_nat (ops mod unat (max interval 1))\<rparr>"
proof -
  let ?n = "unat (max interval 1)"
  have n: "0 < ?n" by (rule interval_pos)
  obtain xs where xs: "bench_feed stamp ops keys = Some xs" using bench_feed_total [OF assms(1)] by blast
  note run = bench_feed_run [OF xs assms(2)]
  obtain e0 where e0: "engine_create kv_sm empty_dir interval False = (Inr (), e0)" "bench_inv ?n [] e0"
    using engine_create_bench by blast
  obtain e where e: "deliver_all xs e0 = (Inr (), e)" "bench_inv ?n xs e"
    using deliver_all_inv [of "[]" xs ?n e0] run e0(2) n by auto
  obtain er where "engine_recover kv_sm (d_dir (e_dur e)) interval False = (Inr (), er)"
    "st_replayed (e_stats er) = word_of_nat (length xs mod ?n)"
    using bench_inv_recover [OF e(2) run n] by blast
  then show ?thesis using e0(1) xs e bench_feed_length [OF xs] by (simp add: sweep_one_def bench_inv_def)
qed

section \<open>Log-only backups\<close>

lemma append_all_records:
  "quiet d \<Longrightarrow> dur_clean d \<Longrightarrow> \<forall>x \<in> set xs. op_logs (snd x) \<Longrightarrow>
   \<exists>d'. append_all xs d = (Inr (), d') \<and> quiet d' \<and> dur_snap d' = dur_snap d \<and>
     dur_records d' = dur_records d @ log_of xs"
proof (induction xs arbitrary: d)
  case (Cons x xs)
  obtain n op where x: "x = (n, op)" by (cases x)
  obtain d1 where d1: "dur_append n (encode op) d = (Inr (), d1)" "quiet d1" using dur_append_quiet [OF Cons.prems(1)] by blast
  have "rec_ok (n, encode op)" using Cons.prems(3) x by (simp add: op_logsD)
  note a = ds.append_ok [OF Cons.prems(2) this d1(1)] ds.append_snap [OF d1(1)]
  then show ?case using Cons.IH [of d1] Cons.prems(3) d1 x by (auto simp: log_of_def)
qed (simp add: log_of_def)

lemma bench_backup_total:
  assumes "bench_feed (\<lambda>n. n) ops 64 = Some xs" "ops \<le> 70000000"
  shows "\<exists>d. bench_backup ops empty_dir = Some d \<and> quiet d \<and> dur_snap d = None \<and> dur_records d = log_of xs"
proof -
  let ?d = "\<lparr>d_fsync = False, d_log = False, d_dir = empty_dir\<rparr>"
  have "quiet ?d" "dur_clean ?d" "dur_snap ?d = None" "dur_records ?d = []"
    by (simp_all add: quiet_def dur_clean_def dur_snap_def dur_records_def empty_dir_def file_bytes_def)
  moreover have "\<forall>x \<in> set xs. op_logs (snd x)" using bench_feed_run [OF assms] by (simp add: bench_run_def)
  ultimately obtain d where "append_all xs ?d = (Inr (), d)" "quiet d" "dur_snap d = None" "dur_records d = log_of xs"
    using append_all_records [of ?d xs] by auto
  then show ?thesis using assms(1)
    by (simp add: bench_backup_def durable_open_def sys_create_dir_all_def empty_dir_def)
qed

lemma bench_executor_total:
  assumes "bench_feed stamp ops 64 = Some xs" "ops \<le> 70000000"
  shows "\<exists>e. bench_executor stamp ops empty_dir = Some e \<and> core e = run_core kv_sm (init_core kv_sm) xs"
proof -
  obtain e0 where e0: "engine_create kv_sm empty_dir 1000000 False = (Inr (), e0)" "bench_inv (unat (max 1000000 1 :: u64)) [] e0"
    using engine_create_bench by blast
  have "0 < unat (max 1000000 1 :: u64)" by (simp add: max_def)
  then obtain e where "deliver_all xs e0 = (Inr (), e)" "bench_inv (unat (max 1000000 1 :: u64)) xs e"
    using deliver_all_inv [of "[]" xs _ e0] bench_feed_run [OF assms] e0(2) by fastforce
  then show ?thesis using assms(1) e0(1) by (simp add: bench_executor_def bench_inv_def)
qed

text \<open>The state machine of a run does not depend on the timestamps.\<close>

lemma run_core_state: "map snd h = map snd h' \<Longrightarrow>
  fst (run_core sm (init_core sm) h) = fst (run_core sm (init_core sm) h')"
  by (simp add: flip: reference_apply_run)

lemma backup_recovers:
  assumes "ops \<le> 70000000" "bench_backup ops empty_dir = Some d" "bench_executor stamp ops empty_dir = Some e"
  shows "\<exists>er. engine_recover kv_sm (d_dir d) i fs = (Inr (), er) \<and> e_state er = e_state e"
proof -
  obtain xs ys where f: "bench_feed (\<lambda>n. n) ops 64 = Some xs" "bench_feed stamp ops 64 = Some ys"
    using bench_feed_total [of 64] by fastforce
  have same: "map snd xs = map snd ys" using bench_feed_ops [OF f(1)] bench_feed_ops [OF f(2)] by simp
  have d: "quiet d" "dur_snap d = None" "dur_records d = log_of xs" using bench_backup_total [OF f(1) assms(1)] assms(2) by auto
  have e: "core e = run_core kv_sm (init_core kv_sm) ys" using bench_executor_total [OF f(2) assms(1)] assms(3) by auto
  have w: "(d_dir d)\<lparr>outcomes := []\<rparr> = d_dir d" using d(1) by (simp add: quiet_def)
  obtain er where er: "engine_recover kv_sm (d_dir d) i fs = (Inr (), er)"
    using engine_recover_total [of kv_sm "d_dir d" i fs] unfolding w by blast
  have logs: "\<forall>x \<in> set xs. op_logs (snd x)" using bench_feed_run [OF f(1) assms(1)] by (simp add: bench_run_def)
  have "load_core kv_sm None = init_core kv_sm" by (simp add: load_core_def)
  then have "core er = run_core kv_sm (init_core kv_sm) xs"
    using engine_recover_core [OF er] d(2,3) replay_log_of [OF logs]
    by (simp add: recovered_def as_dur_def dur_snap_def dur_records_def)
  then have "e_state er = e_state e" using run_core_state [OF same, of kv_sm] e by (simp add: core_state)
  then show ?thesis using er by blast
qed

lemma executor_entries:
  assumes "64 \<le> ops" "ops \<le> 70000000" "bench_executor stamp ops empty_dir = Some e"
  shows "kv_entries (e_state e) = expected_state 1 ops 64"
proof -
  obtain xs where f: "bench_feed stamp ops 64 = Some xs" using bench_feed_total [of 64] by fastforce
  have "core e = run_core kv_sm (init_core kv_sm) xs" using bench_executor_total [OF f assms(2)] assms(3) by auto
  then have "e_state e = reference_apply kv_sm (map snd xs)" by (simp add: reference_apply_run core_state)
  then show ?thesis using fabric_expected [OF bench_feed_fabric [OF f]] assms(1,2) by simp
qed

section \<open>Samples measure the elapsed time\<close>

lemma MASK48_mask: "MASK48 = mask 48"
  by (simp add: MASK48_def mask_eq_decr_exp push_bit_eq_mult)

lemma mask48_diff: "((now AND mask 48) - (sent AND mask 48)) AND mask 48 = (now - sent :: u64) AND mask 48"
  by (simp flip: take_bit_eq_mask) (transfer, simp add: min_def, metis take_bit_diff)

lemma mask48_small: "unat (x :: u64) < 2 ^ 48 \<Longrightarrow> x AND mask 48 = x"
  by (simp add: word_unat_eq_iff unsigned_take_bit_eq take_bit_nat_eq_self flip: take_bit_eq_mask)

lemma delivery_ns_elapsed:
  "unat (now - sent) < 2 ^ 48 \<Longrightarrow> delivery_ns now (sent AND MASK48) = now - sent"
  by (simp add: delivery_ns_def MASK48_mask mask48_diff mask48_small)

text \<open>A message of operation \<open>op\<close> sent at wall-clock time \<open>sent\<close>, less than \<open>2 ^ 48\<close> nanoseconds ago.\<close>

definition sent_as :: "taken \<Rightarrow> u64 \<times> op \<Rightarrow> bool" where
  "sent_as t x \<longleftrightarrow> t_msg_ts t = fst x AND MASK48 \<and> decode (t_payload t) = Some (snd x) \<and> unat (t_now t - fst x) < 2 ^ 48"

definition samples_of :: "taken list \<Rightarrow> (u64 \<times> op) list \<Rightarrow> (u64 \<times> u64) list" where
  "samples_of ts xs = map2 (\<lambda>t x. (t_now t - fst x, t_elapsed t)) ts xs"

definition taken_ops :: "taken list \<Rightarrow> (u64 \<times> op) list \<Rightarrow> (u64 \<times> op) list" where
  "taken_ops ts xs = map2 (\<lambda>t x. (t_msg_ts t, snd x)) ts xs"

lemma taken_ops_snd: "list_all2 sent_as ts xs \<Longrightarrow> map snd (taken_ops ts xs) = map snd xs"
  unfolding taken_ops_def by (induction ts xs rule: list_all2_induct) auto

lemma sample_batch_all:
  assumes "list_all2 sent_as ts xs" "in_order (map snd h @ map snd xs)" "quiet (e_dur (s_engine s))"
    and "core (s_engine s) = run_core kv_sm (init_core kv_sm) h"
  shows "\<exists>s'. sample_batch ts s = (Inr (), s') \<and> s_applied s' = s_applied s + word_of_nat (length xs) \<and>
    s_samples s' = s_samples s @ samples_of ts xs \<and> quiet (e_dur (s_engine s')) \<and>
    core (s_engine s') = run_core kv_sm (init_core kv_sm) (h @ taken_ops ts xs)"
  using assms
proof (induction ts xs arbitrary: h s rule: list_all2_induct)
  case (Cons t ts x xs)
  obtain sent op where x: "x = (sent, op)" by (cases x)
  have t: "t_msg_ts t = sent AND MASK48" "decode (t_payload t) = Some op" "unat (t_now t - sent) < 2 ^ 48"
    using Cons.hyps(1) by (simp_all add: sent_as_def x)
  have "in_order (map snd h @ [op])" using Cons.prems(1) in_order_prefix [of "map snd h @ [op]" "map snd xs"] x by simp
  then have fresh: "\<not> op_seq op \<le> hw_get (e_applied (s_engine s)) (op_client op)" using in_order_fresh Cons.prems(3) by blast
  obtain g where g: "deliver kv_sm (t_msg_ts t) op (s_engine s) = (Inr (snd (kv_apply (e_state (s_engine s)) op)), g)"
    "core g = core_step kv_sm (core (s_engine s)) (t_msg_ts t, op)" "quiet (e_dur g)"
    using deliver_quiet [OF Cons.prems(2), of kv_sm "t_msg_ts t" op] fresh by auto
  let ?s = "s\<lparr>s_engine := g, s_samples := s_samples s @ [(t_now t - sent, t_elapsed t)], s_applied := s_applied s + 1\<rparr>"
  have c: "core (s_engine ?s) = run_core kv_sm (init_core kv_sm) (h @ [(t_msg_ts t, op)])" using g(2) Cons.prems(3) by simp
  obtain s' where s': "sample_batch ts ?s = (Inr (), s')" "s_applied s' = s_applied ?s + word_of_nat (length xs)"
    "s_samples s' = s_samples ?s @ samples_of ts xs" "quiet (e_dur (s_engine s'))"
    "core (s_engine s') = run_core kv_sm (init_core kv_sm) ((h @ [(t_msg_ts t, op)]) @ taken_ops ts xs)"
    using Cons.IH [of "h @ [(t_msg_ts t, op)]" ?s] Cons.prems(1) g(3) c x by auto
  have "sample_batch (t # ts) s = sample_batch ts ?s"
    using t(2) g(1) delivery_ns_elapsed [OF t(3)] t(1) by simp
  then show ?case using s' x by (simp add: samples_of_def taken_ops_def add.assoc)
qed (simp add: samples_of_def taken_ops_def)

text \<open>The whole run: as many operations as the executor waits for, spread over its polls.\<close>

lemma concat_lengths: "list_all2 (list_all2 P) xss yss \<Longrightarrow> length (concat xss) = length (concat yss)"
  by (induction xss yss rule: list_all2_induct) (auto simp: list_all2_lengthD)

lemma sample_loop_all:
  assumes "list_all2 (list_all2 sent_as) ps xss" "in_order (map snd h @ map snd (concat xss))"
    and "quiet (e_dur (s_engine s))" "core (s_engine s) = run_core kv_sm (init_core kv_sm) h"
    and "unat (s_applied s) + length (concat xss) = unat n"
  shows "sample_loop n ps s = Inr (s_samples s @ samples_of (concat ps) (concat xss))"
  using assms
proof (induction ps xss arbitrary: h s rule: list_all2_induct)
  case (Cons p ps xs xss)
  have "in_order (map snd h @ map snd xs)"
    using Cons.prems(1) in_order_prefix [of "map snd h @ map snd xs" "map snd (concat xss)"] by simp
  from sample_batch_all [OF Cons.hyps(1) this Cons.prems(2,3)] obtain s' where
    s': "sample_batch p s = (Inr (), s')" "s_applied s' = s_applied s + word_of_nat (length xs)"
    "s_samples s' = s_samples s @ samples_of p xs" "quiet (e_dur (s_engine s'))"
    "core (s_engine s') = run_core kv_sm (init_core kv_sm) (h @ taken_ops p xs)" by blast
  have "unat (s_applied s) + length xs < 2 ^ 64"
    using Cons.prems(4) u64_bound [of n] by simp
  then have u: "unat (s_applied s') = unat (s_applied s) + length xs"
    by (simp add: s'(2) unat_word_ariths unat_of_nat)
  have len: "length (concat ps) = length (concat xss)" "length p = length xs"
    using Cons.hyps(1,2) by (simp_all add: concat_lengths list_all2_lengthD)
  have rest: "sample_loop n ps s' = Inr (s_samples s' @ samples_of (concat ps) (concat xss))"
    using Cons.IH [of "h @ taken_ops p xs" s'] Cons.prems u s' taken_ops_snd [OF Cons.hyps(1)] by simp
  have split: "samples_of (p @ concat ps) (xs @ concat xss) = samples_of p xs @ samples_of (concat ps) (concat xss)"
    using len(2) by (simp add: samples_of_def)
  show ?case
  proof (cases "n \<le> s_applied s'")
    case True
    then have "unat n \<le> unat (s_applied s')" by (simp add: word_le_nat_alt)
    moreover have "unat (s_applied s) + (length xs + length (concat xss)) = unat n" using Cons.prems(4) by simp
    ultimately have "length (concat xss) = 0" using u by linarith
    then have "concat xss = []" by (simp only: length_0_conv)
    then show ?thesis using True s' split by (simp add: samples_of_def)
  next
    case False
    then show ?thesis using s' split rest by simp
  qed
qed (simp add: samples_of_def)

section \<open>The whole comparison\<close>

lemma those_map_Some: "(\<And>x. x \<in> set xs \<Longrightarrow> f x = Some (g x)) \<Longrightarrow> those (map f xs) = Some (map g xs)"
  by (induction xs) auto

lemma those_replicate: "those (replicate n (Some x)) = Some (replicate n x)"
  by (induction n) auto

lemma cpu_run_total:
  assumes "ops \<le> 70000000"
  shows "\<exists>e d. bench_executor stamp ops empty_dir = Some e \<and> bench_backup ops empty_dir = Some d \<and>
    bench_cpu_passive_vs_active stamp (\<lambda>_. empty_dir) empty_dir (\<lambda>_. empty_dir) ops replicas =
      Some \<lparr>active_replicas = replicate replicas e, passive_executor = e, passive_backups = replicate (replicas - 1) d\<rparr>"
proof -
  obtain xs ys where f: "bench_feed (\<lambda>n. n) ops 64 = Some xs" "bench_feed stamp ops 64 = Some ys"
    using bench_feed_total [of 64] by fastforce
  obtain e d where ed: "bench_executor stamp ops empty_dir = Some e" "bench_backup ops empty_dir = Some d"
    using bench_executor_total [OF f(2) assms] bench_backup_total [OF f(1) assms] by blast
  then show ?thesis by (simp add: bench_cpu_passive_vs_active_def map_replicate_const those_replicate)
qed

end
