(* ===== verification/OB_Float.thy ===== *)
theory OB_Float
  imports OB_Prelude "HOL-Library.Log_Nat" "HOL-Library.Product_Lexorder"
begin

text \<open>
  What the cost models use of \<open>f64\<close>, the 64-bit binary floating-point numbers: values as rationals with
  the special values beside them, every operation rounded to the nearest representable number with ties
  to even, overflow to infinity, gradual underflow, signed zeros and NaN. Rounding is monotone and exact
  on representable numbers; so are the operations, and the proofs about the cost models need no more.
\<close>

section \<open>Rounding\<close>

text \<open>The exponent of a positive rational, from the bit lengths of numerator and denominator.\<close>

definition ilog2 :: "rat \<Rightarrow> int" where
  "ilog2 q = (case quotient_of q of (a, b) \<Rightarrow>
     let e = bitlen a - bitlen b in if 2 powi e \<le> q then e else e - 1)"

text \<open>The exponent of the last place: 53 bits of precision, and not below the subnormal numbers.\<close>

definition ulp_exp :: "rat \<Rightarrow> int" where
  "ulp_exp q = max (- 1074) (ilog2 q - 52)"

definition half_even :: "rat \<Rightarrow> int" where
  "half_even x = (let f = \<lfloor>x\<rfloor>; d = x - of_int f in
     if d < 1 / 2 then f else if 1 / 2 < d then f + 1 else if even f then f else f + 1)"

definition round_pos :: "rat \<Rightarrow> rat" where
  "round_pos q = of_int (half_even (q / 2 powi ulp_exp q)) * 2 powi ulp_exp q"

definition rnd :: "rat \<Rightarrow> rat" where
  "rnd q = (if q = 0 then 0 else if q < 0 then - round_pos (- q) else round_pos q)"

lemma pow2_le: "m \<le> n \<Longrightarrow> (2 :: rat) powi m \<le> 2 powi n"
  by (rule power_int_increasing) simp_all

lemma pow2_pos: "(0 :: rat) < 2 powi n"
  by simp

lemma pow2_not_neg [simp]: "\<not> (2 :: rat) powi n < 0"
  using pow2_pos [of n] by linarith

lemma pow2_add: "(2 :: rat) powi (m + n) = 2 powi m * 2 powi n"
  by (rule power_int_add) simp

lemma pow2_Suc: "(2 :: rat) powi (n + 1) = 2 * 2 powi n"
  by (simp add: power_int_add_1 mult.commute)

lemma pow2_int: "0 \<le> k \<Longrightarrow> (2 :: rat) powi k = of_int (2 ^ nat k)"
  by (simp add: power_int_nonneg_exp)

lemma ilog2_bounds:
  assumes "0 < q"
  shows "2 powi ilog2 q \<le> q" and "q < 2 powi (ilog2 q + 1)"
proof -
  obtain a b where ab: "quotient_of q = (a, b)" by (cases "quotient_of q")
  have q: "q = of_int a / of_int b" "0 < b" using quotient_of_div [OF ab] quotient_of_denom_pos [OF ab] by simp_all
  then have "0 < a" using assms by (simp add: zero_less_divide_iff)
  define m n where "m = bitlen a" and "n = bitlen b"
  have mn: "1 \<le> m" "1 \<le> n" using \<open>0 < a\<close> q(2) bitlen_eq_zero_iff bitlen_nonneg unfolding m_def n_def
    by (smt (verit))+
  have "(2 :: int) ^ nat (m - 1) \<le> a" "a < 2 ^ nat m" "2 ^ nat (n - 1) \<le> b" "b < 2 ^ nat n"
    using bitlen_bounds [OF \<open>0 < a\<close>] bitlen_bounds [OF q(2)] by (simp_all add: m_def n_def)
  then have r: "2 powi (m - 1) \<le> (of_int a :: rat)" "(of_int a :: rat) < 2 powi m" "2 powi (n - 1) \<le> (of_int b :: rat)"
    "(of_int b :: rat) < 2 powi n"
    using mn by (simp_all add: pow2_int del: of_int_power)
  have b: "(0 :: rat) < of_int b" using q(2) by simp
  have "2 powi (m - n - 1) * of_int b \<le> 2 powi (m - n - 1) * (2 powi n :: rat)" using r(4) by (intro mult_left_mono) simp_all
  also have "\<dots> = 2 powi (m - 1)" by (simp flip: pow2_add)
  also have "\<dots> \<le> of_int a" by (fact r(1))
  finally have lo: "2 powi (m - n - 1) \<le> q" using b by (simp add: q(1) pos_le_divide_eq)
  have "of_int a < (2 powi m :: rat)" by (fact r(2))
  also have "\<dots> = 2 powi (m - n + 1) * 2 powi (n - 1)" by (simp flip: pow2_add)
  also have "\<dots> \<le> 2 powi (m - n + 1) * of_int b" using r(3) by (intro mult_left_mono) simp_all
  finally have hi: "q < 2 powi (m - n + 1)" using b by (simp add: q(1) pos_divide_less_eq)
  have i: "ilog2 q = (if 2 powi (m - n) \<le> q then m - n else m - n - 1)"
    by (simp add: ilog2_def ab m_def n_def Let_def)
  show "2 powi ilog2 q \<le> q" "q < 2 powi (ilog2 q + 1)" using lo hi by (simp_all add: i)
qed

lemma ilog2_unique:
  assumes "2 powi e \<le> q" "q < 2 powi (e + 1)"
  shows "ilog2 q = e"
proof -
  have "0 < q" using assms(1) pow2_pos [of e] by linarith
  note b = ilog2_bounds [OF this]
  have "\<not> e + 1 \<le> ilog2 q" using pow2_le [of "e + 1" "ilog2 q"] b(1) assms(2) by linarith
  moreover have "\<not> ilog2 q + 1 \<le> e" using pow2_le [of "ilog2 q + 1" e] b(2) assms(1) by linarith
  ultimately show ?thesis by linarith
qed

lemma ilog2_mono: "0 < p \<Longrightarrow> p \<le> q \<Longrightarrow> ilog2 p \<le> ilog2 q"
proof (rule ccontr)
  assume a: "0 < p" "p \<le> q" "\<not> ilog2 p \<le> ilog2 q"
  then have "2 powi (ilog2 q + 1) \<le> (2 powi ilog2 p :: rat)" by (intro pow2_le) simp
  then show False using ilog2_bounds(1) [OF a(1)] ilog2_bounds(2) [of q] a by linarith
qed

subsection \<open>To the nearest integer\<close>

lemma half_even_int [simp]: "half_even (of_int n) = n"
  by (simp add: half_even_def)

lemma half_even_bounds: "\<lfloor>x\<rfloor> \<le> half_even x" "half_even x \<le> \<lfloor>x\<rfloor> + 1"
  by (simp_all add: half_even_def Let_def)

lemma half_even_mono: "x \<le> y \<Longrightarrow> half_even x \<le> half_even y"
proof (cases "\<lfloor>x\<rfloor> = \<lfloor>y\<rfloor>")
  case True
  then show "x \<le> y \<Longrightarrow> half_even x \<le> half_even y" by (auto simp: half_even_def Let_def)
next
  case False
  assume "x \<le> y"
  then have "\<lfloor>x\<rfloor> + 1 \<le> \<lfloor>y\<rfloor>" using False floor_mono [of x y] by linarith
  then show "half_even x \<le> half_even y" using half_even_bounds(2) [of x] half_even_bounds(1) [of y] by linarith
qed

lemma half_even_le: "x \<le> of_int n \<Longrightarrow> half_even x \<le> n"
  using half_even_mono [of x "of_int n"] by simp

lemma half_even_ge: "of_int n \<le> x \<Longrightarrow> n \<le> half_even x"
  using half_even_mono [of "of_int n" x] by simp

lemma half_even_above: "of_int n + 1 / 2 < x \<Longrightarrow> n + 1 \<le> half_even x"
proof -
  assume x: "of_int n + 1 / 2 < x"
  then have "n \<le> \<lfloor>x\<rfloor>" by (simp add: le_floor_iff)
  then consider "\<lfloor>x\<rfloor> = n" | "n + 1 \<le> \<lfloor>x\<rfloor>" by linarith
  then show ?thesis
  proof cases
    case 1
    then show ?thesis using x by (simp add: half_even_def)
  next
    case 2
    then show ?thesis using half_even_bounds(1) [of x] by linarith
  qed
qed

subsection \<open>To the nearest representable number\<close>

text \<open>A multiple of the last place that bounds a number bounds what it is rounded to.\<close>

lemma round_pos_le:
  assumes "q \<le> of_int n * 2 powi ulp_exp q"
  shows "round_pos q \<le> of_int n * 2 powi ulp_exp q"
proof -
  have "q / 2 powi ulp_exp q \<le> of_int n" using assms by (simp add: pos_divide_le_eq)
  then have "half_even (q / 2 powi ulp_exp q) \<le> n" by (rule half_even_le)
  then show ?thesis by (simp add: round_pos_def mult_right_mono)
qed

lemma round_pos_ge:
  assumes "of_int n * 2 powi ulp_exp q \<le> q"
  shows "of_int n * 2 powi ulp_exp q \<le> round_pos q"
proof -
  have "of_int n \<le> q / 2 powi ulp_exp q" using assms by (simp add: pos_le_divide_eq)
  then have "n \<le> half_even (q / 2 powi ulp_exp q)" by (rule half_even_ge)
  then show ?thesis by (simp add: round_pos_def mult_right_mono)
qed

lemma round_pos_multiple: "q = of_int n * 2 powi ulp_exp q \<Longrightarrow> round_pos q = q"
  using round_pos_le [of q n] round_pos_ge [of n q] by simp

text \<open>A power of two above the last place is a multiple of it.\<close>

lemma pow2_multiple: "m \<le> n \<Longrightarrow> (2 :: rat) powi n = of_int (2 ^ nat (n - m)) * 2 powi m"
  using pow2_add [of "n - m" m] pow2_int [of "n - m"] by simp

lemma round_pos_mono:
  assumes "0 < p" "p \<le> q"
  shows "round_pos p \<le> round_pos q"
proof (cases "ulp_exp p = ulp_exp q")
  case True
  have "p / 2 powi ulp_exp q \<le> q / 2 powi ulp_exp q" using assms(2) by (simp add: divide_right_mono)
  then have "half_even (p / 2 powi ulp_exp q) \<le> half_even (q / 2 powi ulp_exp q)" by (rule half_even_mono)
  then show ?thesis by (simp add: round_pos_def True mult_right_mono)
next
  case False
  have "ilog2 p \<le> ilog2 q" by (rule ilog2_mono [OF assms])
  then have e: "ulp_exp p \<le> ilog2 q" "ulp_exp q \<le> ilog2 q" "ilog2 p + 1 \<le> ilog2 q" using False by (simp_all add: ulp_exp_def max_def split: if_splits)
  have "p \<le> 2 powi ilog2 q" using ilog2_bounds(2) [OF assms(1)] pow2_le [OF e(3)] by linarith
  then have "round_pos p \<le> 2 powi ilog2 q"
    using round_pos_le [of p "2 ^ nat (ilog2 q - ulp_exp p)"] pow2_multiple [OF e(1)] by simp
  also have "\<dots> \<le> round_pos q"
    using round_pos_ge [of "2 ^ nat (ilog2 q - ulp_exp q)" q] pow2_multiple [OF e(2)] ilog2_bounds(1) [of q] assms by simp
  finally show ?thesis .
qed

lemma round_pos_nonneg: "0 < q \<Longrightarrow> 0 \<le> round_pos q"
  using round_pos_ge [of 0 q] by simp

lemma rnd_simps [simp]: "rnd 0 = 0" "rnd (- q) = - rnd q"
  by (simp_all add: rnd_def)

lemma rnd_nonneg: "0 \<le> q \<Longrightarrow> 0 \<le> rnd q"
  using round_pos_nonneg by (simp add: rnd_def)

lemma rnd_mono: "p \<le> q \<Longrightarrow> rnd p \<le> rnd q"
proof -
  assume pq: "p \<le> q"
  consider "0 < p" | "q < 0" | "p \<le> 0" "0 \<le> q" by linarith
  then show ?thesis
  proof cases
    case 1
    then show ?thesis using round_pos_mono pq by (simp add: rnd_def)
  next
    case 2
    then show ?thesis using round_pos_mono [of "- q" "- p"] pq by (simp add: rnd_def)
  next
    case 3
    then show ?thesis using rnd_nonneg [of q] rnd_nonneg [of "- p"] by simp
  qed
qed

text \<open>What is representable: 53 bits times a power of two that is not too small.\<close>

definition representable :: "rat \<Rightarrow> bool" where
  "representable q \<longleftrightarrow> rnd q = q"

lemma round_pos_exact:
  assumes "0 < m" "m \<le> 2 ^ 53" "- 1074 \<le> k"
  shows "round_pos (of_int m * 2 powi k) = of_int m * 2 powi k"
proof (cases "m = 2 ^ 53")
  case True
  let ?q = "of_int m * 2 powi k :: rat"
  have q: "?q = 2 powi (k + 53)" by (simp add: True pow2_add)
  have "ilog2 ?q = k + 53" unfolding q by (rule ilog2_unique) (simp_all add: power_int_strict_increasing)
  then have u: "ulp_exp ?q \<le> k + 53" using assms(3) by (simp add: ulp_exp_def)
  have "?q = of_int (2 ^ nat (k + 53 - ulp_exp ?q)) * 2 powi ulp_exp ?q" using pow2_multiple [OF u] q by simp
  then show ?thesis by (rule round_pos_multiple)
next
  case False
  let ?q = "of_int m * 2 powi k :: rat"
  have "m < 2 ^ 53" using False assms(2) by simp
  then have "(of_int m :: rat) < 2 powi 53" by (metis of_int_less_iff of_int_power of_int_numeral power_int_numeral)
  then have "?q < 2 powi 53 * 2 powi k" by (intro mult_strict_right_mono) simp_all
  then have lt: "?q < 2 powi (k + 53)" by (simp add: pow2_add mult.commute)
  have pos: "0 < ?q" using assms(1) by simp
  have "\<not> k + 53 \<le> ilog2 ?q" using pow2_le [of "k + 53" "ilog2 ?q"] ilog2_bounds(1) [OF pos] lt by linarith
  then have u: "ulp_exp ?q \<le> k" using assms(3) by (simp add: ulp_exp_def)
  have "?q = of_int (m * 2 ^ nat (k - ulp_exp ?q)) * 2 powi ulp_exp ?q" using pow2_multiple [OF u] by (simp add: mult.assoc)
  then show ?thesis by (rule round_pos_multiple)
qed

lemma representable_form:
  assumes "\<bar>m\<bar> \<le> 2 ^ 53" "- 1074 \<le> k"
  shows "representable (of_int m * 2 powi k)"
proof -
  consider "m = 0" | "0 < m" | "m < 0" by linarith
  then show ?thesis
  proof cases
    case 2
    then show ?thesis using round_pos_exact [of m k] assms
      by (simp add: representable_def rnd_def mult_less_0_iff)
  next
    case 3
    then show ?thesis using round_pos_exact [of "- m" k] assms
      by (simp add: representable_def rnd_def mult_less_0_iff)
  qed (simp add: representable_def)
qed

lemma round_pos_form:
  assumes "0 < q"
  shows "\<exists>m k. round_pos q = of_int m * 2 powi k \<and> 0 \<le> m \<and> m \<le> 2 ^ 53 \<and> - 1074 \<le> k"
proof (intro exI conjI)
  let ?k = "ulp_exp q" and ?x = "q / 2 powi ulp_exp q"
  show "round_pos q = of_int (half_even ?x) * 2 powi ?k" by (simp add: round_pos_def)
  show "0 \<le> half_even ?x" by (rule half_even_ge) (use assms in simp)
  have "ilog2 q + 1 \<le> 53 + ?k" by (simp add: ulp_exp_def)
  then have "q \<le> 2 powi (53 + ?k)" using ilog2_bounds(2) [OF assms] pow2_le [of "ilog2 q + 1" "53 + ?k"] by linarith
  then have "?x \<le> of_int (2 ^ 53)" by (simp add: pos_divide_le_eq pow2_add)
  then show "half_even ?x \<le> 2 ^ 53" by (rule half_even_le)
  show "- 1074 \<le> ?k" by (simp add: ulp_exp_def)
qed

lemma rnd_form: "\<exists>m k. rnd q = of_int m * 2 powi k \<and> \<bar>m\<bar> \<le> 2 ^ 53 \<and> - 1074 \<le> k"
proof -
  consider "q = 0" | "0 < q" | "q < 0" by linarith
  then show ?thesis
  proof cases
    case 1
    then show ?thesis by (intro exI [of _ 0]) simp
  next
    case 2
    then show ?thesis using round_pos_form [of q] by (force simp: rnd_def)
  next
    case 3
    then obtain m k where "round_pos (- q) = of_int m * 2 powi k" "0 \<le> m" "m \<le> 2 ^ 53" "- 1074 \<le> k"
      using round_pos_form [of "- q"] by auto
    then show ?thesis using 3 by (intro exI [of _ "- m"] exI [of _ k]) (simp add: rnd_def)
  qed
qed

lemma representable_rnd [simp]: "representable (rnd q)"
  using rnd_form [of q] representable_form by metis

lemma rnd_representable: "representable q \<Longrightarrow> rnd q = q"
  by (simp add: representable_def)

lemma representable_iff: "representable q \<longleftrightarrow> (\<exists>m k. q = of_int m * 2 powi k \<and> \<bar>m\<bar> \<le> 2 ^ 53 \<and> - 1074 \<le> k)"
  using rnd_form [of q] representable_form by (metis rnd_representable)

lemma representable_of_int: "\<bar>m\<bar> \<le> 2 ^ 53 \<Longrightarrow> representable (of_int m)"
  using representable_form [of m 0] by simp

lemma representable_minus [simp]: "representable (- q) = representable q"
  by (simp add: representable_def)

text \<open>Bounding by a representable number.\<close>

lemma rnd_le: "q \<le> b \<Longrightarrow> representable b \<Longrightarrow> rnd q \<le> b"
  using rnd_mono [of q b] by (simp add: rnd_representable)

lemma rnd_ge: "b \<le> q \<Longrightarrow> representable b \<Longrightarrow> b \<le> rnd q"
  using rnd_mono [of b q] by (simp add: rnd_representable)

section \<open>The values and operations\<close>

datatype f64 = Num rat | NegZero | PInf | NInf | NaN

fun fval :: "f64 \<Rightarrow> rat" where
  "fval (Num q) = q"
| "fval x = 0"

fun sign_bit :: "f64 \<Rightarrow> bool" where
  "sign_bit (Num q) = (q < 0)"
| "sign_bit NegZero = True"
| "sign_bit NInf = True"
| "sign_bit x = False"

text \<open>Where overflow begins.\<close>

definition f_limit :: rat where
  "f_limit = 2 ^ 1024"

text \<open>The result of an operation: its exact value rounded, with the sign of a zero given.\<close>

definition f_make :: "bool \<Rightarrow> rat \<Rightarrow> f64" where
  "f_make s q = (let r = rnd q in
     if r = 0 then (if s then NegZero else Num 0)
     else if f_limit \<le> r then PInf else if r \<le> - f_limit then NInf else Num r)"

definition f_inf :: "bool \<Rightarrow> f64" where
  "f_inf s = (if s then NInf else PInf)"

fun f_neg :: "f64 \<Rightarrow> f64" where
  "f_neg (Num q) = (if q = 0 then NegZero else Num (- q))"
| "f_neg NegZero = Num 0"
| "f_neg PInf = NInf"
| "f_neg NInf = PInf"
| "f_neg NaN = NaN"

fun is_inf :: "f64 \<Rightarrow> bool" where
  "is_inf PInf = True"
| "is_inf NInf = True"
| "is_inf x = False"

definition f_add :: "f64 \<Rightarrow> f64 \<Rightarrow> f64" where
  "f_add x y = (if x = NaN \<or> y = NaN then NaN
     else if is_inf x \<and> is_inf y \<and> x \<noteq> y then NaN
     else if is_inf x then x else if is_inf y then y
     else f_make (sign_bit x \<and> sign_bit y) (fval x + fval y))"

definition f_sub :: "f64 \<Rightarrow> f64 \<Rightarrow> f64" where
  "f_sub x y = f_add x (f_neg y)"

definition f_mul :: "f64 \<Rightarrow> f64 \<Rightarrow> f64" where
  "f_mul x y = (let s = (sign_bit x \<noteq> sign_bit y) in
     if x = NaN \<or> y = NaN then NaN
     else if is_inf x \<or> is_inf y then (if \<not> is_inf x \<and> fval x = 0 \<or> \<not> is_inf y \<and> fval y = 0 then NaN else f_inf s)
     else f_make s (fval x * fval y))"

definition f_div :: "f64 \<Rightarrow> f64 \<Rightarrow> f64" where
  "f_div x y = (let s = (sign_bit x \<noteq> sign_bit y) in
     if x = NaN \<or> y = NaN then NaN
     else if is_inf x then (if is_inf y then NaN else f_inf s)
     else if is_inf y then f_make s 0
     else if fval y = 0 then (if fval x = 0 then NaN else f_inf s)
     else f_make s (fval x / fval y))"

text \<open>Comparison: every comparison with NaN fails, the zeros are equal.\<close>

fun f_key :: "f64 \<Rightarrow> int \<times> rat" where
  "f_key NInf = (- 1, 0)"
| "f_key (Num q) = (0, q)"
| "f_key NegZero = (0, 0)"
| "f_key PInf = (1, 0)"
| "f_key NaN = (2, 0)"

definition f_le :: "f64 \<Rightarrow> f64 \<Rightarrow> bool" where
  "f_le x y \<longleftrightarrow> x \<noteq> NaN \<and> y \<noteq> NaN \<and> f_key x \<le> f_key y"

definition f_lt :: "f64 \<Rightarrow> f64 \<Rightarrow> bool" where
  "f_lt x y \<longleftrightarrow> x \<noteq> NaN \<and> y \<noteq> NaN \<and> f_key x < f_key y"

text \<open>\<open>f64::max\<close> ignores a NaN. Of two zeros it may return either; here the first.\<close>

definition f_max :: "f64 \<Rightarrow> f64 \<Rightarrow> f64" where
  "f_max x y = (if x = NaN then y else if y = NaN then x else if f_key x < f_key y then y else x)"

text \<open>
  A literal or an integer converted \<open>as f64\<close>, rounding half away from zero, and the saturating
  conversion \<open>as usize\<close>.
\<close>

definition f_of :: "rat \<Rightarrow> f64" where
  "f_of q = f_make False q"

definition half_away :: "rat \<Rightarrow> int" where
  "half_away q = (if q < 0 then - \<lfloor>- q + 1 / 2\<rfloor> else \<lfloor>q + 1 / 2\<rfloor>)"

fun f_round :: "f64 \<Rightarrow> f64" where
  "f_round (Num q) = f_make (q < 0) (of_int (half_away q))"
| "f_round x = x"

fun f_usize :: "f64 \<Rightarrow> nat" where
  "f_usize (Num q) = min (nat \<lfloor>q\<rfloor>) (2 ^ 64 - 1)"
| "f_usize PInf = 2 ^ 64 - 1"
| "f_usize x = 0"

lemma f_limit_pos: "0 < f_limit"
  by (simp add: f_limit_def)

lemmas f64_defs [unfold_model] = f_make_def f_inf_def f_add_def f_sub_def f_mul_def f_div_def f_le_def f_lt_def f_max_def f_of_def
  half_away_def

section \<open>Order\<close>

lemma f_le_refl: "x \<noteq> NaN \<Longrightarrow> f_le x x"
  by (simp add: f_le_def)

lemma f_le_trans [trans]: "f_le x y \<Longrightarrow> f_le y z \<Longrightarrow> f_le x z"
  by (auto simp: f_le_def)

lemma f_le_Num [simp]: "f_le (Num p) (Num q) \<longleftrightarrow> p \<le> q"
  by (simp add: f_le_def less_eq_prod_def)

lemma f_lt_Num [simp]: "f_lt (Num p) (Num q) \<longleftrightarrow> p < q"
  by (simp add: f_lt_def less_prod_def)

lemma f_not_le: "x \<noteq> NaN \<Longrightarrow> y \<noteq> NaN \<Longrightarrow> \<not> f_le x y \<longleftrightarrow> f_lt y x"
  by (auto simp: f_le_def f_lt_def)

text \<open>The numbers that are not negative, infinity among them.\<close>

definition nonneg :: "f64 \<Rightarrow> bool" where
  "nonneg x \<longleftrightarrow> f_le (Num 0) x"

lemma nonneg_cases: "nonneg x \<longleftrightarrow> x = PInf \<or> x = NegZero \<or> (\<exists>q \<ge> 0. x = Num q)"
  by (cases x) (auto simp: nonneg_def f_le_def less_eq_prod_def)

lemma f_le_cases:
  "nonneg x \<Longrightarrow> f_le x y \<longleftrightarrow> y = PInf \<or> x \<noteq> PInf \<and> nonneg y \<and> fval x \<le> fval y"
  by (cases x; cases y) (auto simp: nonneg_def f_le_def less_eq_prod_def)

lemma nonneg_up: "nonneg x \<Longrightarrow> f_le x y \<Longrightarrow> nonneg y"
  unfolding nonneg_def by (rule f_le_trans)

lemma f_key_make: "f_key (f_make s q) = (if f_limit \<le> rnd q then (1, 0) else if rnd q \<le> - f_limit then (- 1, 0) else (0, rnd q))"
  using f_limit_pos by (simp add: f_make_def Let_def)

lemma make_not_NaN [simp]: "f_make s q \<noteq> NaN"
  by (simp add: f_make_def Let_def)

lemma make_mono: "p \<le> q \<Longrightarrow> f_le (f_make s p) (f_make t q)"
  using rnd_mono [of p q] by (auto simp: f_le_def f_key_make less_eq_prod_def)

lemma make_nonneg: "0 \<le> q \<Longrightarrow> nonneg (f_make s q)"
  using rnd_nonneg [of q] by (auto simp: nonneg_def f_le_def f_key_make less_eq_prod_def)

lemma make_PInf: "f_le (f_make s q) PInf"
  by (simp add: f_le_def f_key_make less_eq_prod_def)

section \<open>Monotonicity\<close>

lemma f_add_nonneg: "nonneg x \<Longrightarrow> nonneg y \<Longrightarrow> nonneg (f_add x y)"
  by (auto simp: nonneg_cases f_add_def intro!: make_nonneg [unfolded nonneg_cases])

lemma f_add_mono:
  assumes "nonneg x" "nonneg y" "f_le x x'" "f_le y y'"
  shows "f_le (f_add x y) (f_add x' y')"
proof -
  have n: "nonneg x'" "nonneg y'" using assms nonneg_up by blast+
  have top: "f_le (f_add x y) PInf" using f_add_nonneg [OF assms(1,2)] by (simp add: f_le_cases)
  show ?thesis
  proof (cases "x' = PInf \<or> y' = PInf")
    case True
    then have "f_add x' y' = PInf" using n by (auto simp: f_add_def nonneg_cases)
    then show ?thesis using top by simp
  next
    case False
    then have v: "x \<noteq> PInf" "y \<noteq> PInf" "fval x \<le> fval x'" "fval y \<le> fval y'" using assms by (auto simp: f_le_cases)
    have "f_add x y = f_make (sign_bit x \<and> sign_bit y) (fval x + fval y)" "f_add x' y' = f_make (sign_bit x' \<and> sign_bit y') (fval x' + fval y')"
      using v n False assms(1,2) by (auto simp: f_add_def nonneg_cases)
    then show ?thesis using v make_mono [of "fval x + fval y" "fval x' + fval y'"] by simp
  qed
qed

lemma f_sub_mono:
  assumes "nonneg x" "f_le x x'" "nonneg y" "y \<noteq> PInf"
  shows "f_le (f_sub x y) (f_sub x' y)"
proof -
  have y: "f_neg y \<noteq> NaN" "\<not> is_inf (f_neg y)" "fval (f_neg y) = - fval y" using assms(3,4) by (auto simp: nonneg_cases split: if_splits)
  have fin: "f_sub z y = f_make (sign_bit z \<and> sign_bit (f_neg y)) (fval z - fval y)" if "nonneg z" "z \<noteq> PInf" for z
    using that y by (auto simp: f_sub_def f_add_def nonneg_cases)
  have inf: "f_sub PInf y = PInf" using y by (simp add: f_sub_def f_add_def)
  have x': "nonneg x'" using nonneg_up [OF assms(1,2)] .
  show ?thesis
  proof (cases "x' = PInf")
    case True
    then show ?thesis using inf fin [OF assms(1)] make_PInf by (cases "x = PInf") (simp_all add: f_le_refl)
  next
    case False
    then have v: "x \<noteq> PInf" "fval x \<le> fval x'" using assms(1,2) by (simp_all add: f_le_cases)
    then show ?thesis using fin [OF assms(1)] fin [OF x' False] make_mono [of "fval x - fval y" "fval x' - fval y"] by simp
  qed
qed

lemma f_sub_self:
  assumes "nonneg y" "y \<noteq> PInf"
  shows "f_sub y y = Num 0"
proof -
  consider "y = NegZero" | "y = Num 0" | q where "0 < q" "y = Num q"
    using assms unfolding nonneg_cases by (metis order_le_less)
  then show ?thesis by cases (simp_all add: f_sub_def f_add_def f_make_def)
qed

lemma f_sub_nonneg: "nonneg y \<Longrightarrow> y \<noteq> PInf \<Longrightarrow> f_le y x \<Longrightarrow> nonneg (f_sub x y)"
  using f_sub_mono [of y x y] by (simp add: f_sub_self nonneg_def)

text \<open>Products of finite numbers, and quotients by positive ones.\<close>

lemma f_mul_finite: "nonneg x \<Longrightarrow> x \<noteq> PInf \<Longrightarrow> nonneg y \<Longrightarrow> y \<noteq> PInf \<Longrightarrow>
    f_mul x y = f_make (sign_bit x \<noteq> sign_bit y) (fval x * fval y) \<and> 0 \<le> fval x * fval y"
  by (auto simp: f_mul_def nonneg_cases)

lemma f_mul_mono:
  assumes "nonneg x" "nonneg y" "f_le x x'" "f_le y y'" "x' \<noteq> PInf" "y' \<noteq> PInf"
  shows "f_le (f_mul x y) (f_mul x' y')"
proof -
  have n: "nonneg x'" "nonneg y'" using assms nonneg_up by blast+
  have v: "x \<noteq> PInf" "y \<noteq> PInf" "fval x \<le> fval x'" "fval y \<le> fval y'" using assms by (auto simp: f_le_cases)
  have "0 \<le> fval x'" "0 \<le> fval y" using n(1) assms(2) by (auto simp: nonneg_cases)
  then have "fval x * fval y \<le> fval x' * fval y'" using v by (intro mult_mono) simp_all
  then show ?thesis using f_mul_finite [OF assms(1) v(1) assms(2) v(2)] f_mul_finite [OF n(1) assms(5) n(2) assms(6)] make_mono by simp
qed

lemma f_mul_nonneg: "nonneg x \<Longrightarrow> x \<noteq> PInf \<Longrightarrow> nonneg y \<Longrightarrow> y \<noteq> PInf \<Longrightarrow> nonneg (f_mul x y)"
  using f_mul_finite [of x y] make_nonneg by simp

lemma f_div_finite: "nonneg x \<Longrightarrow> nonneg y \<Longrightarrow> y \<noteq> PInf \<Longrightarrow> 0 < fval y \<Longrightarrow>
    f_div x y = (if x = PInf then PInf else f_make (sign_bit x \<noteq> sign_bit y) (fval x / fval y))"
  by (auto simp: f_div_def nonneg_cases f_inf_def Let_def)

lemma f_div_nonneg: "nonneg x \<Longrightarrow> nonneg y \<Longrightarrow> y \<noteq> PInf \<Longrightarrow> 0 < fval y \<Longrightarrow> nonneg (f_div x y)"
  using f_div_finite [of x y] make_nonneg [of "fval x / fval y"] by (auto simp: nonneg_cases [of PInf] nonneg_cases [of x])

lemma f_div_mono:
  assumes "nonneg x" "f_le x x'" "nonneg y" "y \<noteq> PInf" "nonneg y'" "y' \<noteq> PInf" "0 < fval y'" "fval y' \<le> fval y"
  shows "f_le (f_div x y) (f_div x' y')"
proof -
  have x': "nonneg x'" using nonneg_up [OF assms(1,2)] .
  have y: "0 < fval y" using assms(7,8) by simp
  note d = f_div_finite [OF assms(1,3,4) y] and d' = f_div_finite [OF x' assms(5,6,7)]
  show ?thesis
  proof (cases "x' = PInf")
    case True
    then show ?thesis using d d' make_PInf by (auto simp: f_le_refl)
  next
    case False
    then have v: "x \<noteq> PInf" "fval x \<le> fval x'" using assms(1,2) by (simp_all add: f_le_cases)
    have "0 \<le> fval x'" using x' by (auto simp: nonneg_cases)
    then have "fval x / fval y \<le> fval x' / fval y'" using v(2) assms(7,8) by (intro frac_le) simp_all
    then show ?thesis using d d' v(1) False make_mono by simp
  qed
qed

section \<open>Bounds\<close>

text \<open>A finite number between zero and a bound.\<close>

definition f_upto :: "rat \<Rightarrow> f64 \<Rightarrow> bool" where
  "f_upto b x \<longleftrightarrow> nonneg x \<and> x \<noteq> PInf \<and> fval x \<le> b"

lemma uptoD: "f_upto b x \<Longrightarrow> nonneg x" "f_upto b x \<Longrightarrow> x \<noteq> PInf" "f_upto b x \<Longrightarrow> x \<noteq> NaN" "f_upto b x \<Longrightarrow> 0 \<le> fval x"
    "f_upto b x \<Longrightarrow> fval x \<le> b"
  by (auto simp: f_upto_def nonneg_cases)

lemma make_upto:
  assumes "0 \<le> q" "q \<le> b" "representable b" "b < f_limit"
  shows "f_upto b (f_make s q)"
proof -
  have r: "0 \<le> rnd q" "rnd q \<le> b" using rnd_nonneg [OF assms(1)] rnd_le [OF assms(2,3)] by simp_all
  then show ?thesis using assms(4) make_nonneg [OF assms(1), of s] by (auto simp: f_upto_def f_make_def Let_def)
qed

lemma f_add_upto:
  assumes "f_upto a x" "f_upto b y" "representable (a + b)" "a + b < f_limit"
  shows "f_upto (a + b) (f_add x y)"
proof -
  have "f_add x y = f_make (sign_bit x \<and> sign_bit y) (fval x + fval y)"
    using assms(1,2) by (auto simp: f_upto_def nonneg_cases f_add_def)
  moreover have "0 \<le> fval x + fval y" "fval x + fval y \<le> a + b" using uptoD [OF assms(1)] uptoD [OF assms(2)] by simp_all
  ultimately show ?thesis using make_upto assms(3,4) by simp
qed

lemma f_mul_upto:
  assumes "f_upto a x" "f_upto b y" "representable (a * b)" "a * b < f_limit"
  shows "f_upto (a * b) (f_mul x y)"
proof -
  note x = uptoD [OF assms(1)] and y = uptoD [OF assms(2)]
  have "fval x * fval y \<le> a * b" using x(4,5) y(4,5) by (intro mult_mono) simp_all
  then show ?thesis using f_mul_finite [OF x(1,2) y(1,2)] make_upto assms(3,4) by simp
qed

text \<open>The values of the type: representable and in range.\<close>

fun f_ok :: "f64 \<Rightarrow> bool" where
  "f_ok (Num q) \<longleftrightarrow> representable q \<and> \<bar>q\<bar> < f_limit"
| "f_ok x = True"

lemma representable_0 [simp]: "representable 0"
  by (simp add: representable_def)

lemma make_ok [simp]: "f_ok (f_make s q)"
  using f_limit_pos by (auto simp: f_make_def Let_def)

lemma f_ok_ops [simp]: "f_ok x \<Longrightarrow> f_ok y \<Longrightarrow> f_ok (f_add x y)" "f_ok (f_mul x y)" "f_ok (f_div x y)" "f_ok (f_of q)"
    "f_ok x \<Longrightarrow> f_ok y \<Longrightarrow> f_ok (f_max x y)" "f_ok (f_neg x) = f_ok x"
  by (simp_all add: f_add_def f_mul_def f_div_def f_inf_def f_of_def f_max_def Let_def) (use f_limit_pos in \<open>cases x; simp\<close>)

text \<open>Adding what is not negative does not make a number smaller, in spite of rounding.\<close>

lemma f_add_ge:
  assumes "nonneg x" "f_ok x" "nonneg y"
  shows "f_le x (f_add x y)"
proof -
  have "f_le x (f_add x (Num 0))"
  proof (cases x)
    case (Num q)
    then have "rnd q = q" "\<bar>q\<bar> < f_limit" using assms(2) by (simp_all add: rnd_representable)
    then show ?thesis using Num by (auto simp: f_add_def f_make_def Let_def)
  qed (use assms(1) in \<open>auto simp: f_add_def f_make_def f_le_def nonneg_def\<close>)
  also have "f_le \<dots> (f_add x y)" using assms(1,3) by (intro f_add_mono) (auto simp: nonneg_def f_le_refl f_le_def)
  finally show ?thesis .
qed

lemma f_add_commute: "f_add x y = f_add y x"
  by (auto simp: f_add_def add.commute conj_commute)

lemma f_max_nonneg: "nonneg x \<Longrightarrow> nonneg y \<Longrightarrow> nonneg (f_max x y)"
  by (simp add: f_max_def)

lemma f_max_ge: "nonneg x \<Longrightarrow> nonneg y \<Longrightarrow> f_le x (f_max x y)"
  by (auto simp: f_max_def f_le_def nonneg_def)

lemma f_max_mono: "nonneg x \<Longrightarrow> nonneg y \<Longrightarrow> f_le y y' \<Longrightarrow> f_le (f_max x y) (f_max x y')"
  by (auto simp: f_max_def f_le_def nonneg_def)

section \<open>Exact cases\<close>

lemma make_exact:
  assumes "representable q" "0 < q" "q < f_limit"
  shows "f_make s q = Num q"
  using assms f_limit_pos by (simp add: f_make_def rnd_representable)

lemma small_limit: "q \<le> 2 ^ 53 \<Longrightarrow> q < f_limit"
proof -
  have "(2 :: rat) ^ 53 < f_limit" unfolding f_limit_def by (rule power_strict_increasing) simp_all
  then show "q \<le> 2 ^ 53 \<Longrightarrow> q < f_limit" by simp
qed

lemma make_small: "n \<noteq> 0 \<Longrightarrow> \<bar>n\<bar> \<le> 2 ^ 53 \<Longrightarrow> f_make s (of_int n) = Num (of_int n)"
proof -
  assume n: "n \<noteq> 0" "\<bar>n\<bar> \<le> 2 ^ 53"
  have "\<bar>of_int n :: rat\<bar> \<le> 2 ^ 53" using n(2) by (metis of_int_abs of_int_le_iff of_int_numeral of_int_power)
  then have "\<bar>of_int n\<bar> < f_limit" by (rule small_limit)
  then show ?thesis using n by (auto simp: f_make_def Let_def abs_less_iff rnd_representable [OF representable_of_int])
qed

lemma make_numeral: "(numeral n :: int) \<le> 2 ^ 53 \<Longrightarrow> f_make s (numeral n) = Num (numeral n)"
  using make_small [of "numeral n" s] by simp

lemma make_one: "f_make s 1 = Num 1"
  using make_small [of 1 s] by simp

lemma make_zero: "f_make s 0 = (if s then NegZero else Num 0)"
  by (simp add: f_make_def)

lemma f_of_numeral: "(numeral n :: int) \<le> 2 ^ 53 \<Longrightarrow> f_of (numeral n) = Num (numeral n)" "f_of 1 = Num 1" "f_of 0 = Num 0"
  by (simp_all add: f_of_def make_numeral make_one make_zero)

lemma f_half: "f_of (1 / 2) = Num (1 / 2)"
proof -
  have "representable (of_int 1 * 2 powi - 1)" by (rule representable_form) simp_all
  then have r: "representable (1 / 2)" by (simp add: power_int_minus)
  show ?thesis unfolding f_of_def by (rule make_exact [OF r]) (simp, rule small_limit, simp)
qed

text \<open>Distinct numbers are at least a last place apart.\<close>

lemma representable_multiple:
  assumes "representable q" "0 < q" "k \<le> ulp_exp q"
  shows "\<exists>n. q = of_int n * 2 powi k"
proof -
  have "q = of_int (half_even (q / 2 powi ulp_exp q)) * 2 powi ulp_exp q"
    using assms(1,2) by (simp add: representable_def rnd_def round_pos_def)
  then have "q = of_int (half_even (q / 2 powi ulp_exp q) * 2 ^ nat (ulp_exp q - k)) * 2 powi k"
    using pow2_multiple [OF assms(3)] by (simp add: mult.assoc)
  then show ?thesis by blast
qed

lemma representable_gap:
  assumes "representable l" "representable r" "0 < l" "l < r"
  shows "2 powi ulp_exp l \<le> r - l"
proof -
  have "ulp_exp l \<le> ulp_exp r" using ilog2_mono [of l r] assms(3,4) by (simp add: ulp_exp_def)
  then obtain m n where mn: "l = of_int m * 2 powi ulp_exp l" "r = of_int n * 2 powi ulp_exp l"
    using representable_multiple [OF assms(1,3)] representable_multiple [of r "ulp_exp l"] assms by fastforce
  have eq: "r - l = of_int (n - m) * 2 powi ulp_exp l" using mn by (metis left_diff_distrib of_int_diff)
  then have "0 < of_int (n - m) * (2 powi ulp_exp l :: rat)" using assms(4) by simp
  then have "0 < n - m" by (simp add: zero_less_mult_iff del: of_int_diff)
  then have "(1 :: rat) \<le> of_int (n - m)" by linarith
  then have "1 * 2 powi ulp_exp l \<le> of_int (n - m) * (2 powi ulp_exp l :: rat)" by (rule mult_right_mono) simp
  then show ?thesis using eq by simp
qed

lemma representable_pow2: "- 1074 \<le> k \<Longrightarrow> representable (2 powi k)"
  using representable_form [of 1 k] by simp

text \<open>Rounding never makes a difference vanish, nor a quotient above one.\<close>

lemma rnd_diff_pos:
  assumes "representable l" "representable r" "0 < l" "l < r"
  shows "0 < rnd (r - l)"
proof -
  have "representable (2 powi ulp_exp l)" by (rule representable_pow2) (simp add: ulp_exp_def)
  from rnd_ge [OF representable_gap [OF assms] this] show ?thesis using pow2_pos [of "ulp_exp l"] by linarith
qed

lemma rnd_quotient:
  assumes "representable l" "representable r" "0 < l" "l < r"
  shows "1 < rnd (r / l)"
proof (cases "2 \<le> r / l")
  case True
  have "representable 2" using representable_of_int [of 2] by simp
  from rnd_ge [OF True this] show ?thesis by simp
next
  case False
  let ?q = "r / l"
  have q: "1 < ?q" "?q < 2" using assms(3,4) False by simp_all
  have "ilog2 ?q = 0" by (rule ilog2_unique) (use q in simp_all)
  then have u: "ulp_exp ?q = - 52" by (simp add: ulp_exp_def)
  have "l < 2 powi (ilog2 l + 1)" by (rule ilog2_bounds(2) [OF assms(3)])
  also have "\<dots> \<le> 2 powi (53 + ulp_exp l)" by (rule pow2_le) (simp add: ulp_exp_def)
  also have "\<dots> = 2 ^ 53 * 2 powi ulp_exp l" by (simp add: pow2_add)
  also have "\<dots> \<le> 2 ^ 53 * (r - l)" by (intro mult_left_mono representable_gap [OF assms]) simp
  finally have "2 ^ 52 + 1 / 2 < ?q * 2 ^ 52" using assms(3) by (simp add: field_simps)
  then have lt: "2 ^ 52 + 1 / 2 < ?q / 2 powi ulp_exp ?q" by (simp add: u power_int_minus)
  then have "2 ^ 52 + 1 \<le> half_even (?q / 2 powi ulp_exp ?q)" using half_even_above [of "2 ^ 52"] by simp
  then have "(of_int (2 ^ 52 + 1) :: rat) * 2 powi - 52 \<le> of_int (half_even (?q / 2 powi ulp_exp ?q)) * 2 powi - 52"
    by (intro mult_right_mono) (simp_all only: of_int_le_iff zero_le_power_int)
  moreover have "rnd ?q = of_int (half_even (?q / 2 powi ulp_exp ?q)) * 2 powi - 52"
    proof -
    have "?q \<noteq> 0" "\<not> ?q < 0" using q(1) by linarith+
    then have "rnd ?q = round_pos ?q" by (simp only: rnd_def if_False)
    then show ?thesis by (simp add: round_pos_def u)
  qed
  ultimately show ?thesis by (simp add: power_int_minus)
qed

end
