(* ===== verification/OB_Baselines.thy ===== *)
theory OB_Baselines
  imports OB_Bench OB_Float
begin

unbundle bit_operations_syntax

text \<open>
  The reports and the remaining benchmarks of \<open>bench.rs\<close>: latency percentiles of \<open>run_bench\<close>, the central
  sequencer against local timestamps, and the three ways to establish a replayable order. Elapsed times
  are arguments; threads that share a sequencer are interleaved by a schedule.
\<close>

section \<open>Latency percentiles\<close>

datatype durability = InFabricMem | Fsync

fun durability_name :: "durability \<Rightarrow> string" where
  "durability_name InFabricMem = ''InFabricMem''"
| "durability_name Fsync = ''Fsync''"

record bench_result =
  br_durability :: string
  br_n :: nat
  delivery_p50 :: u64
  delivery_p99 :: u64
  durable_p50 :: u64
  durable_p99 :: u64
  commit_p50 :: u64
  commit_p99 :: u64

definition bench_pct :: "u64 list \<Rightarrow> f64 \<Rightarrow> u64" where
  "bench_pct xs p = (if xs = [] then 0
     else xs ! min (f_usize (f_round (f_mul (f_of (of_nat (length xs - 1))) p))) (length xs - 1))"

definition bench_report :: "durability \<Rightarrow> (u64 \<times> u64) list \<Rightarrow> bench_result" where
  "bench_report dur samples =
     (let delivery = sort (map fst samples); durable = sort (map snd samples); commit = sort (map (\<lambda>(a, b). a + b) samples) in
      \<lparr>br_durability = durability_name dur, br_n = length samples,
       delivery_p50 = bench_pct delivery (f_of (50 / 100)), delivery_p99 = bench_pct delivery (f_of (99 / 100)),
       durable_p50 = bench_pct durable (f_of (50 / 100)), durable_p99 = bench_pct durable (f_of (99 / 100)),
       commit_p50 = bench_pct commit (f_of (50 / 100)), commit_p99 = bench_pct commit (f_of (99 / 100))\<rparr>)"

text \<open>
  The executor, joined before the clients, which contribute no samples and panic on an empty key space.
  \<open>polls\<close> is what the fabric delivers until the timeout. \<open>None\<close> is a panic.
\<close>

definition run_bench :: "nat \<Rightarrow> nat \<Rightarrow> nat \<Rightarrow> durability \<Rightarrow> taken list list \<Rightarrow> directory \<Rightarrow> (io_error + bench_result) option" where
  "run_bench clients ops_per_client keys dur polls w =
     (let n = word_of_nat ops_per_client * word_of_nat clients in
      case engine_create kv_sm w 1000000 (dur = Fsync) of
        (Inl err, _) \<Rightarrow> Some (Inl err)
      | (Inr _, e) \<Rightarrow> (case sample_loop n polls \<lparr>s_engine = e, s_samples = [], s_applied = 0\<rparr> of
          Inl err \<Rightarrow> Some (Inl err)
        | Inr samples \<Rightarrow>
            if \<exists>c < clients. client_ops (word_of_nat (c + 1)) ops_per_client keys = None then None
            else Some (Inr (bench_report dur samples))))"

section \<open>Establishing an order\<close>

record order_result =
  or_mode :: string
  or_threads :: nat
  or_ops_per_sec :: f64

text \<open>
  The central sequencer: the schedule lists the threads in the order in which they take the lock. The
  result is each increment with the number it leaves.
\<close>

fun sequencer :: "nat list \<Rightarrow> u64 \<Rightarrow> (nat \<times> u64) list" where
  "sequencer [] g = []"
| "sequencer (t # ts) g = (t, g + 1) # sequencer ts (g + 1)"

text \<open>A producer that numbers locally: its timestamps, and the value it folds them into.\<close>

fun local_loop :: "nat \<Rightarrow> u64 \<Rightarrow> u64 \<Rightarrow> u64 list \<times> u64" where
  "local_loop 0 l sink = ([], sink)"
| "local_loop (Suc n) l sink = (let l = l + 1; sink = sink XOR l in
     case local_loop n l sink of (ls, sink) \<Rightarrow> (l # ls, sink))"

definition local_stamps :: "nat \<Rightarrow> nat \<Rightarrow> u64 list" where
  "local_stamps tid ops = fst (local_loop ops (push_bit 40 (word_of_nat tid)) 0)"

definition bench_ordering :: "nat \<Rightarrow> nat \<Rightarrow> f64 \<Rightarrow> f64 \<Rightarrow> order_result \<times> order_result" where
  "bench_ordering threads ops elapsed_seq elapsed_ts =
     (let total_ops = f_of (of_nat (unat (word_of_nat threads * word_of_nat ops :: u64))) in
      (\<lparr>or_mode = ''central-sequencer'', or_threads = threads, or_ops_per_sec = f_div total_ops elapsed_seq\<rparr>,
       \<lparr>or_mode = ''fabric/timestamp'', or_threads = threads, or_ops_per_sec = f_div total_ops elapsed_ts\<rparr>))"

section \<open>Three ways to a replayable order\<close>

definition baseline_feed :: "(u64 \<Rightarrow> u64) \<Rightarrow> nat \<Rightarrow> (u64 \<times> op) list" where
  "baseline_feed stamp ops = map (\<lambda>i. (stamp (word_of_nat (i + 1)), op_incr 1 (word_of_nat (i + 1)) (ascii ''k'') 1)) [0..<ops]"

text \<open>OneBarrier: apply and append.\<close>

definition ob_thread :: "(u64 \<Rightarrow> u64) \<Rightarrow> nat \<Rightarrow> directory \<Rightarrow> kv_store engine option" where
  "ob_thread stamp ops w =
     (case engine_create kv_sm w 1000000 False of
        (Inl _, _) \<Rightarrow> None
      | (Inr _, e) \<Rightarrow> (case deliver_all (baseline_feed stamp ops) e of (Inl _, _) \<Rightarrow> None | (Inr _, e) \<Rightarrow> Some e))"

text \<open>
  LLFT: every operation first takes a number from the shared sequencer. A thread has its operations left
  and its engine; the schedule lists the threads in the order of their iterations.
\<close>

type_synonym llft_thread = "(u64 \<times> op) list \<times> kv_store engine"

fun llft_run :: "nat list \<Rightarrow> u64 \<Rightarrow> (nat \<Rightarrow> llft_thread) \<Rightarrow> (u64 \<times> (nat \<Rightarrow> llft_thread)) option" where
  "llft_run [] g s = Some (g, s)"
| "llft_run (t # ts) g s = (case s t of
     ([], _) \<Rightarrow> llft_run ts g s
   | ((n, op) # xs, e) \<Rightarrow> (case deliver kv_sm n op e of
       (Inl _, _) \<Rightarrow> None
     | (Inr _, e) \<Rightarrow> llft_run ts (g + 1) (s(t := (xs, e)))))"

text \<open>The threads' directories are alike, since each is removed first; \<open>w\<close> is what is left.\<close>

definition bench_llft :: "(u64 \<Rightarrow> u64) \<Rightarrow> nat \<Rightarrow> directory \<Rightarrow> nat list \<Rightarrow> (u64 \<times> (nat \<Rightarrow> llft_thread)) option" where
  "bench_llft stamp ops w sched =
     (case engine_create kv_sm w 1000000 False of
        (Inl _, _) \<Rightarrow> None
      | (Inr _, e) \<Rightarrow> llft_run sched 0 (\<lambda>_. (baseline_feed stamp ops, e)))"

text \<open>HyCoR: apply and append, and a second log with a record of the order.\<close>

fun hycor_loop :: "nat \<Rightarrow> (u64 \<times> op) list \<Rightarrow> kv_store engine \<Rightarrow> durable \<Rightarrow> (kv_store engine \<times> durable) option" where
  "hycor_loop i [] e d = Some (e, d)"
| "hycor_loop i ((n, op) # xs) e d = (case deliver kv_sm n op e of
     (Inl _, _) \<Rightarrow> None
   | (Inr _, e) \<Rightarrow> (case dur_append (word_of_nat (i + 1)) (u64_le (word_of_nat (i + 1))) d of
       (Inl _, _) \<Rightarrow> None
     | (Inr _, d) \<Rightarrow> hycor_loop (i + 1) xs e d))"

definition hycor_thread :: "(u64 \<Rightarrow> u64) \<Rightarrow> nat \<Rightarrow> directory \<Rightarrow> directory \<Rightarrow> (kv_store engine \<times> durable) option" where
  "hycor_thread stamp ops w wo =
     (case engine_create kv_sm w 1000000 False of
        (Inl _, _) \<Rightarrow> None
      | (Inr _, e) \<Rightarrow> (case durable_open wo False of
          (Inl _, _) \<Rightarrow> None
        | (Inr _, d) \<Rightarrow> hycor_loop 0 (baseline_feed stamp ops) e d))"

lemmas baseline_defs [unfold_model] = bench_pct_def bench_report_def run_bench_def local_stamps_def bench_ordering_def
  baseline_feed_def ob_thread_def hycor_thread_def

section \<open>Percentiles are ordered\<close>

lemma bench_pct_mono:
  assumes "list_all2 (\<le>) xs ys"
  shows "bench_pct xs q \<le> bench_pct ys q"
proof (cases "xs = []")
  case True
  then show ?thesis using assms by (simp add: bench_pct_def)
next
  case False
  have "length ys = length xs" "ys \<noteq> []" using assms False by (auto dest: list_all2_lengthD)
  moreover have "min i (length xs - 1) < length xs" for i
    using False by (metis Suc_pred' le_imp_less_Suc length_greater_0_conv min.cobounded2)
  ultimately show ?thesis using False list_all2_nthD [OF assms] by (simp add: bench_pct_def)
qed


text \<open>The index grows with the fraction.\<close>

lemma f_usize_mono: "nonneg x \<Longrightarrow> f_le x y \<Longrightarrow> f_usize x \<le> f_usize y"
  by (cases x; cases y) (auto simp: f_le_def less_eq_prod_def nonneg_def intro!: min.coboundedI1 nat_mono floor_mono min.mono)

lemma f_round_mono:
  assumes "nonneg x" "f_le x y"
  shows "f_le (f_round x) (f_round y)" "nonneg (f_round x)"
proof -
  have mono: "half_away p \<le> half_away q" "0 \<le> half_away p" if "0 \<le> p" "p \<le> q" for p q
    using that by (auto simp: half_away_def intro: floor_mono)
  have y: "nonneg y" using nonneg_up [OF assms] .
  have num: "nonneg (f_round (Num q))" if "0 \<le> q" for q
    using that mono(2) [OF that order_refl] by (simp add: make_nonneg)
  then show "nonneg (f_round x)" using assms(1) by (auto simp: nonneg_cases [of x]) (auto simp: nonneg_cases)
  consider "y = PInf" | "y = NegZero" | q where "0 \<le> q" "y = Num q" using y by (auto simp: nonneg_cases)
  then show "f_le (f_round x) (f_round y)"
  proof cases
    case 1
    then show ?thesis using \<open>nonneg (f_round x)\<close> by (simp add: f_le_cases)
  next
    case 2
    then have "x = NegZero \<or> x = Num 0" using assms by (auto simp: nonneg_cases f_le_def less_eq_prod_def)
    moreover have "half_away 0 = 0" by (simp add: half_away_def floor_eq_iff)
    ultimately show ?thesis using 2 by (auto simp: make_zero f_le_def)
  next
    case 3
    then consider "x = NegZero" | p where "0 \<le> p" "p \<le> q" "x = Num p" using assms by (auto simp: nonneg_cases f_le_def less_eq_prod_def)
    then show ?thesis
    proof cases
      case 1
      then show ?thesis using num [OF 3(1)] 3(2) by (auto simp: nonneg_def f_le_def)
    next
      case 2
      then show ?thesis using 3 mono(1) [OF 2(1,2)] make_mono by simp
    qed
  qed
qed

lemma f_of_99: "\<exists>r. f_of (99 / 100) = Num r \<and> 1 / 2 \<le> r"
proof -
  have rep: "representable (1 / 2)" "representable 1"
    using representable_form [of 1 "- 1"] representable_of_int [of 1] by (simp_all add: power_int_minus)
  have r: "1 / 2 \<le> rnd (99 / 100)" "rnd (99 / 100) \<le> 1" by (rule rnd_ge [OF _ rep(1)], simp) (rule rnd_le [OF _ rep(2)], simp)
  have "(1 :: rat) < f_limit" by (rule small_limit) simp
  then have "f_of (99 / 100) = Num (rnd (99 / 100))" using r by (auto simp: f_of_def f_make_def Let_def)
  then show ?thesis using r by blast
qed

lemma index_mono: "f_usize (f_round (f_mul (f_of (of_nat n)) (f_of (50 / 100)))) \<le> f_usize (f_round (f_mul (f_of (of_nat n)) (f_of (99 / 100))))"
proof -
  obtain r where r: "f_of (99 / 100) = Num r" "1 / 2 \<le> r" using f_of_99 by blast
  have h: "f_of (50 / 100) = Num (1 / 2)" using f_half by simp
  let ?n = "f_of (of_nat n)"
  have n: "nonneg ?n" unfolding f_of_def by (rule make_nonneg) simp
  have "f_le (f_mul ?n (Num (1 / 2))) (f_mul ?n (Num r)) \<and> nonneg (f_mul ?n (Num (1 / 2)))"
  proof (cases "?n = PInf")
    case True
    then show ?thesis using r(2) by (simp add: f_mul_def f_inf_def nonneg_def f_le_def less_eq_prod_def)
  next
    case False
    have "f_le ?n ?n" using n by (auto simp: nonneg_def f_le_def)
    then show ?thesis using f_mul_mono [OF n _ _ _ False, of "Num (1 / 2)" "Num r"] f_mul_nonneg [OF n False, of "Num (1 / 2)"] r(2)
      by (simp add: nonneg_def)
  qed
  then show ?thesis unfolding h r(1) using f_usize_mono f_round_mono by blast
qed

lemma bench_pct_99: "sorted xs \<Longrightarrow> bench_pct xs (f_of (50 / 100)) \<le> bench_pct xs (f_of (99 / 100))"
proof (cases "xs = []")
  case False
  assume "sorted xs"
  let ?i = "\<lambda>q. min (f_usize (f_round (f_mul (f_of (of_nat (length xs - 1))) q))) (length xs - 1)"
  have "?i (f_of (50 / 100)) \<le> ?i (f_of (99 / 100))" using index_mono [of "length xs - 1"] by (intro min.mono) simp_all
  moreover have "?i (f_of (99 / 100)) < length xs" using False by (metis Suc_pred' le_imp_less_Suc length_greater_0_conv min.cobounded2)
  ultimately show ?thesis using False sorted_nth_mono [OF \<open>sorted xs\<close>] by (simp add: bench_pct_def)
qed (simp add: bench_pct_def)

text \<open>The samples of a run do not wrap when they are added.\<close>

definition sample_ok :: "u64 \<times> u64 \<Rightarrow> bool" where
  "sample_ok x \<longleftrightarrow> unat (fst x) < 2 ^ 48 \<and> unat (snd x) < 2 ^ 63"

lemma delivery_ns_small: "unat (delivery_ns now ts) < 2 ^ 48"
proof -
  have "unat ((now AND mask 48) - ts AND mask 48 :: u64) = take_bit 48 (unat ((now AND mask 48) - ts))"
    by (simp add: unsigned_take_bit_eq flip: take_bit_eq_mask)
  then show ?thesis using take_bit_nat_less_exp [of 48 "unat ((now AND mask 48) - ts)"] by (simp add: delivery_ns_def MASK48_mask)
qed

lemma sample_batch_ok:
  "list_all sample_ok (s_samples s) \<Longrightarrow> list_all (\<lambda>t. unat (t_elapsed t) < 2 ^ 63) ts \<Longrightarrow>
   list_all sample_ok (s_samples (snd (sample_batch ts s)))"
proof (induction ts s rule: sample_batch.induct)
  case (2 t ts s)
  have "sample_ok (delivery_ns (t_now t) (t_msg_ts t), t_elapsed t)" using 2 delivery_ns_small by (simp add: sample_ok_def)
  then show ?case using 2 by (auto split: option.split sum.split prod.split)
qed simp

lemma sample_loop_ok:
  "list_all sample_ok (s_samples s) \<Longrightarrow> list_all (list_all (\<lambda>t. unat (t_elapsed t) < 2 ^ 63)) ps \<Longrightarrow>
   sample_loop n ps s = Inr xs \<Longrightarrow> list_all sample_ok xs"
proof (induction ps arbitrary: s)
  case (Cons p ps)
  obtain r s' where b: "sample_batch p s = (r, s')" by (cases "sample_batch p s")
  then have "list_all sample_ok (s_samples s')" using sample_batch_ok [OF Cons.prems(1), of p] Cons.prems(2) by simp
  then show ?case using Cons b by (auto split: sum.splits if_splits)
qed auto

lemma report_bounds:
  assumes "list_all sample_ok samples" "r = bench_report dur samples"
  shows "delivery_p50 r \<le> commit_p50 r \<and> durable_p50 r \<le> commit_p50 r \<and> delivery_p99 r \<le> commit_p99 r \<and>
    durable_p99 r \<le> commit_p99 r \<and> delivery_p50 r \<le> delivery_p99 r \<and> durable_p50 r \<le> durable_p99 r \<and> commit_p50 r \<le> commit_p99 r"
proof -
  have le: "a \<le> a + b" "b \<le> a + b" if "sample_ok (a, b)" for a b
  proof -
    have "unat a + unat b < 2 ^ 64" using that by (simp add: sample_ok_def)
    then have "unat (a + b) = unat a + unat b" using unat_add_lem [of a b] by simp
    then show "a \<le> a + b" "b \<le> a + b" by (simp_all add: word_le_nat_alt)
  qed
  have "list_all2 (\<le>) (map fst samples) (map (\<lambda>(a, b). a + b) samples)" "list_all2 (\<le>) (map snd samples) (map (\<lambda>(a, b). a + b) samples)"
    using assms(1) by (auto simp: list_all2_conv_all_nth list_all_length le split: prod.split)
  note m = sort_mono [OF this(1), THEN bench_pct_mono] sort_mono [OF this(2), THEN bench_pct_mono]
  show ?thesis unfolding assms(2) bench_report_def Let_def by (simp add: m bench_pct_99 [simplified])
qed

section \<open>Orders are total\<close>

lemma sequencer_tickets: "map snd (sequencer ts g) = map (\<lambda>i. g + word_of_nat (i + 1)) [0..<length ts]"
proof (induction ts g rule: sequencer.induct)
  case (2 t ts g)
  have "[0..<length (t # ts)] = 0 # map Suc [0..<length ts]" by (simp add: upt_conv_Cons map_Suc_upt del: upt_Suc)
  then show ?case using 2 by (simp add: o_def add.assoc)
qed simp

lemma local_loop_stamps: "fst (local_loop n l sink) = map (\<lambda>i. l + word_of_nat (i + 1)) [0..<n]"
proof (induction n arbitrary: l sink)
  case (Suc n)
  have "[0..<Suc n] = 0 # map Suc [0..<n]" by (simp add: upt_conv_Cons map_Suc_upt del: upt_Suc)
  then show ?case using Suc [of "l + 1" "sink XOR (l + 1)"]
    by (cases "local_loop n (l + 1) (sink XOR (l + 1))") (simp add: Let_def o_def add.assoc)
qed simp

lemma unat_stamp:
  assumes "tid < 2 ^ 24" "n < 2 ^ 40"
  shows "unat (push_bit 40 (word_of_nat tid :: u64) + word_of_nat n) = tid * 2 ^ 40 + n"
proof -
  have lt: "tid * 2 ^ 40 + n < 2 ^ 64"
  proof -
    have "tid * 2 ^ 40 + n < tid * 2 ^ 40 + 2 ^ 40" using assms(2) by simp
    also have "\<dots> = Suc tid * 2 ^ 40" by simp
    also have "\<dots> \<le> 2 ^ 24 * 2 ^ 40" using assms(1) by (intro mult_le_mono1) simp
    finally show ?thesis by simp
  qed
  have "push_bit 40 (word_of_nat tid :: u64) + word_of_nat n = word_of_nat (tid * 2 ^ 40 + n)" by (simp add: push_bit_eq_mult)
  then show ?thesis using lt by (simp add: unat_of_nat take_bit_nat_eq_self del: of_nat_add)
qed

lemma local_stamps_unat:
  assumes "tid < 2 ^ 24" "ops < 2 ^ 40"
  shows "map unat (local_stamps tid ops) = map (\<lambda>i. tid * 2 ^ 40 + (i + 1)) [0..<ops]"
  using unat_stamp [OF assms(1)] assms(2) by (simp add: local_stamps_def local_loop_stamps del: of_nat_Suc)

section \<open>The engines of the three schemes\<close>

lemma baseline_run:
  assumes "ops \<le> 70000000"
  shows "bench_run (baseline_feed stamp ops)"
proof -
  let ?xs = "baseline_feed stamp ops"
  have ops: "op_logs (snd x)" "length (log_record (ts, encode (snd x))) \<le> 56" if "x \<in> set ?xs" for x ts
    using that by (auto simp: baseline_feed_def op_logs_def wf_op_def op_defs key_ok_def encode_def enc_key_def utf8_valid_ascii_byte
        length_log_record)
  have "log_bytes ?xs \<le> (\<Sum>x\<leftarrow>?xs. 56)" unfolding log_bytes_def by (rule sum_list_mono) (simp add: ops(2))
  moreover have "length ?xs = ops" by (simp add: baseline_feed_def)
  ultimately have b: "log_bytes ?xs + 4 < 2 ^ 32" using assms by (simp add: sum_list_triv)
  have "in_order (map snd ?xs)"
  proof -
    have "unat (word_of_nat (i + 1) :: u64) = i + 1" if "i < ops" for i using that assms by (simp add: unat_of_nat del: of_nat_Suc)
    then show ?thesis
      by (auto simp: in_order_def baseline_feed_def op_defs sorted_wrt_iff_nth_less word_less_nat_alt simp del: of_nat_Suc)
  qed
  then show ?thesis using ops b by (simp add: bench_run_def)
qed

lemma ob_thread_total:
  assumes "ops \<le> 70000000"
  obtains e0 e where "engine_create kv_sm empty_dir 1000000 False = (Inr (), e0)" "deliver_all (baseline_feed stamp ops) e0 = (Inr (), e)"
    "ob_thread stamp ops empty_dir = Some e" "core e = run_core kv_sm (init_core kv_sm) (baseline_feed stamp ops)"
proof -
  obtain e0 where e0: "engine_create kv_sm empty_dir 1000000 False = (Inr (), e0)" "bench_inv (unat (max 1000000 1 :: u64)) [] e0"
    using engine_create_bench by blast
  have "0 < unat (max 1000000 1 :: u64)" by (simp add: max_def)
  then obtain e where "deliver_all (baseline_feed stamp ops) e0 = (Inr (), e)" "bench_inv (unat (max 1000000 1 :: u64)) (baseline_feed stamp ops) e"
    using deliver_all_inv [of "[]" "baseline_feed stamp ops" _ e0] baseline_run [OF assms] e0(2) by fastforce
  then show thesis using that e0(1) by (simp add: ob_thread_def bench_inv_def)
qed

text \<open>
  Threads that share a sequencer: each engine goes through its own operations whatever the schedule, and
  the sequencer counts the iterations.
\<close>

lemma llft_run_threads:
  assumes "\<And>t. t \<in> set ts \<Longrightarrow> count_list ts t \<le> length (fst (s t)) \<and> (\<exists>e. deliver_all (fst (s t)) (snd (s t)) = (Inr (), e))"
  shows "\<exists>s'. llft_run ts g s = Some (g + word_of_nat (length ts), s') \<and>
    (\<forall>t. length (fst (s' t)) = length (fst (s t)) - count_list ts t \<and>
      deliver_all (fst (s' t)) (snd (s' t)) = deliver_all (fst (s t)) (snd (s t)))"
  using assms
proof (induction ts arbitrary: g s)
  case (Cons t ts)
  obtain n op xs e where st: "s t = ((n, op) # xs, e)"
    using Cons.prems [of t] by (cases "s t"; cases "fst (s t)") auto
  obtain out e1 where d: "deliver kv_sm n op e = (Inr out, e1)"
    using Cons.prems [of t] st by (auto split: prod.splits sum.splits)
  let ?s = "s(t := (xs, e1))"
  have all: "deliver_all (fst (?s u)) (snd (?s u)) = deliver_all (fst (s u)) (snd (s u))" for u using st d by simp
  have "count_list ts u \<le> length (fst (?s u)) \<and> (\<exists>e. deliver_all (fst (?s u)) (snd (?s u)) = (Inr (), e))" if "u \<in> set ts" for u
    using Cons.prems [of u] that st all [of u] by (auto split: if_splits)
  from Cons.IH [of ?s "g + 1", OF this] obtain s' where
    "llft_run ts (g + 1) ?s = Some (g + 1 + word_of_nat (length ts), s')"
    "\<forall>u. length (fst (s' u)) = length (fst (?s u)) - count_list ts u \<and> deliver_all (fst (s' u)) (snd (s' u)) = deliver_all (fst (?s u)) (snd (?s u))"
    by blast
  then show ?case using st d all by (auto simp: add.assoc)
qed simp

lemma hycor_loop_all:
  assumes "deliver_all xs e = (Inr (), e')" "quiet d" "dur_clean d"
  shows "\<exists>d'. hycor_loop i xs e d = Some (e', d') \<and> dur_clean d' \<and>
    dur_records d' = dur_records d @ map (\<lambda>j. (word_of_nat (i + j + 1), u64_le (word_of_nat (i + j + 1)))) [0..<length xs]"
  using assms
proof (induction xs arbitrary: i e d)
  case (Cons x xs)
  obtain n op where x: "x = (n, op)" by (cases x)
  obtain out e1 where d: "deliver kv_sm n op e = (Inr out, e1)" "deliver_all xs e1 = (Inr (), e')"
    using Cons.prems(1) x by (auto split: prod.splits sum.splits)
  let ?n = "word_of_nat (i + 1) :: u64"
  obtain d1 where d1: "dur_append ?n (u64_le ?n) d = (Inr (), d1)" "quiet d1" using dur_append_quiet [OF Cons.prems(2)] by blast
  have "rec_ok (?n, u64_le ?n)" by (simp add: rec_ok_def)
  note a = ds.append_ok [OF Cons.prems(3) this d1(1)]
  obtain d2 where d2: "hycor_loop (i + 1) xs e1 d1 = Some (e', d2)" "dur_clean d2"
    "dur_records d2 = dur_records d1 @ map (\<lambda>j. (word_of_nat (i + 1 + j + 1), u64_le (word_of_nat (i + 1 + j + 1)))) [0..<length xs]"
    using Cons.IH [OF d(2) d1(2), of "i + 1"] a by blast
  have "[0..<length (x # xs)] = 0 # map Suc [0..<length xs]" by (simp add: upt_conv_Cons map_Suc_upt del: upt_Suc)
  then show ?case using d(1) d1(1) d2 a x by (simp add: o_def add.assoc del: of_nat_Suc of_nat_add)
qed simp

text \<open>A log without a torn record is as long as its records.\<close>

lemma clean_length:
  "log_tail raw = [] \<Longrightarrow> length raw = (\<Sum>r\<leftarrow>parse_log raw. 12 + length (snd r))"
proof (induction raw rule: parse_log.induct)
  case (1 raw)
  let ?n = "nat (le_val (take 4 (drop 8 raw)))"
  show ?case
  proof (cases "length raw < 12")
    case True
    then show ?thesis using 1(2) by (simp add: log_tail.simps [of raw] parse_log.simps [of raw])
  next
    case False
    then have n: "\<not> length (drop 12 raw) < ?n" using 1(2) by (auto simp: log_tail.simps [of raw] split: if_splits)
    then have "log_tail (drop ?n (drop 12 raw)) = []" using 1(2) False by (simp add: log_tail.simps [of raw])
    then show ?thesis using 1(1) [OF False n] False n by (simp add: parse_log.simps [of raw])
  qed
qed

lemma clean_file_length:
  "dur_clean d \<Longrightarrow> length (file_bytes (f_oplog (d_dir d))) = (\<Sum>r\<leftarrow>dur_records d. 12 + length (snd r))"
  using clean_length by (simp add: dur_clean_def dur_records_def)

section \<open>The properties\<close>

text \<open>
  The latency report. Whatever the fabric delivers, when no delivery takes \<open>2 ^ 63\<close> ns the percentiles of
  the time to commit are at least those of its two parts, and no median exceeds its 99th percentile.
\<close>

theorem bench_percentiles:
  assumes "run_bench clients ops keys dur polls w = Some (Inr r)"
    and "list_all (list_all (\<lambda>t. unat (t_elapsed t) < 2 ^ 63)) polls"
  shows "delivery_p50 r \<le> commit_p50 r \<and> durable_p50 r \<le> commit_p50 r \<and> delivery_p99 r \<le> commit_p99 r \<and>
    durable_p99 r \<le> commit_p99 r \<and> delivery_p50 r \<le> delivery_p99 r \<and> durable_p50 r \<le> durable_p99 r \<and> commit_p50 r \<le> commit_p99 r"
proof -
  obtain e samples where l: "sample_loop (word_of_nat ops * word_of_nat clients) polls \<lparr>s_engine = e, s_samples = [], s_applied = 0\<rparr> = Inr samples"
    and b: "r = bench_report dur samples"
    using assms(1) by (auto simp: run_bench_def Let_def split: prod.splits sum.splits if_splits)
  have "list_all sample_ok samples" using sample_loop_ok [OF _ assms(2) l] by simp
  from report_bounds [OF this b] show ?thesis .
qed

theorem bench_percentiles_witness:
  "\<exists>r. run_bench 0 0 1 InFabricMem [] empty_dir = Some (Inr r) \<and> commit_p50 r \<le> commit_p99 r"
proof -
  obtain e where "engine_create kv_sm empty_dir 1000000 False = (Inr (), e)" using engine_create_bench by blast
  then have "run_bench 0 0 1 InFabricMem [] empty_dir = Some (Inr (bench_report InFabricMem []))" by (simp add: run_bench_def)
  then show ?thesis using bench_percentiles [of 0 0 1 InFabricMem "[]" empty_dir] by auto
qed

text \<open>
  Three schemes, one state. For every schedule in which each of the threads makes all its iterations,
  the shared sequencer of LLFT counts them all, and every thread's engine ends exactly as the engine of
  OneBarrier does; so does HyCoR's, which in addition has written 20 bytes of order log per operation.
\<close>

theorem ft_baselines:
  assumes "ops \<le> 70000000" "\<And>t. count_list sched t = (if t < threads then ops else 0)"
  shows "\<exists>e s d. ob_thread stamp ops empty_dir = Some e \<and>
    bench_llft stamp ops empty_dir sched = Some (word_of_nat (threads * ops), s) \<and> (\<forall>t < threads. s t = ([], e)) \<and>
    hycor_thread stamp ops empty_dir empty_dir = Some (e, d) \<and> length (file_bytes (f_oplog (d_dir d))) = 20 * ops"
proof -
  obtain e0 e where e: "engine_create kv_sm empty_dir 1000000 False = (Inr (), e0)"
    "deliver_all (baseline_feed stamp ops) e0 = (Inr (), e)" "ob_thread stamp ops empty_dir = Some e"
    using ob_thread_total [OF assms(1)] by metis
  have len: "length (baseline_feed stamp ops) = ops" by (simp add: baseline_feed_def)
  have "t < threads" if "t \<in> set sched" for t using assms(2) [of t] that count_list_0_iff [of sched t] by (cases "t < threads") auto
  then have sub: "set sched \<subseteq> {..<threads}" by auto
  have "length sched = (\<Sum>t<threads. count_list sched t)" using sum_count_set [OF sub] by simp
  then have total: "length sched = threads * ops" using assms(2) by simp
  let ?s0 = "\<lambda>_ :: nat. (baseline_feed stamp ops, e0)"
  have "count_list sched t \<le> length (fst (?s0 t)) \<and> (\<exists>e. deliver_all (fst (?s0 t)) (snd (?s0 t)) = (Inr (), e))" for t
    using assms(2) [of t] e(2) len by auto
  then obtain s where s: "llft_run sched 0 (\<lambda>_. (baseline_feed stamp ops, e0)) = Some (word_of_nat (length sched), s)"
    "\<forall>t. length (fst (s t)) = ops - count_list sched t \<and> deliver_all (fst (s t)) (snd (s t)) = (Inr (), e)"
    using llft_run_threads [of sched ?s0 0] e(2) len by auto
  have st: "s t = ([], e)" if "t < threads" for t
  proof -
    have "length (fst (s t)) = 0" using s(2) assms(2) [of t] that by simp
    then have "fst (s t) = []" by simp
    then show ?thesis using s(2) by (cases "s t") (metis deliver_all.simps(1) fst_conv prod.inject snd_conv)
  qed
  let ?d = "\<lparr>d_fsync = False, d_log = False, d_dir = empty_dir\<rparr>"
  have d0: "durable_open empty_dir False = (Inr (), ?d)" by (simp add: durable_open_def sys_create_dir_all_def empty_dir_def)
  have q: "quiet ?d" "dur_clean ?d" "dur_records ?d = []"
    by (simp_all add: quiet_def dur_clean_def dur_records_def empty_dir_def file_bytes_def)
  obtain d where d: "hycor_loop 0 (baseline_feed stamp ops) e0 ?d = Some (e, d)" "dur_clean d"
    "dur_records d = dur_records ?d @ map (\<lambda>j. (word_of_nat (0 + j + 1), u64_le (word_of_nat (0 + j + 1)))) [0..<length (baseline_feed stamp ops)]"
    using hycor_loop_all [OF e(2) q(1,2), of 0] by blast
  have "length (file_bytes (f_oplog (d_dir d))) = (\<Sum>j\<leftarrow>[0..<ops]. 20)"
    unfolding clean_file_length [OF d(2)] d(3) q(3) by (simp add: len o_def)
  then have "length (file_bytes (f_oplog (d_dir d))) = 20 * ops" by (simp add: sum_list_triv)
  then show ?thesis using e s(1) total st d(1) d0 by (auto simp: bench_llft_def hycor_thread_def)
qed

theorem ft_baselines_witness:
  "\<exists>e s d. ob_thread (\<lambda>n. n) 2 empty_dir = Some e \<and> bench_llft (\<lambda>n. n) 2 empty_dir [1, 0, 0, 1] = Some (4, s) \<and>
     s 0 = ([], e) \<and> s 1 = ([], e) \<and> hycor_thread (\<lambda>n. n) 2 empty_dir empty_dir = Some (e, d) \<and>
     length (file_bytes (f_oplog (d_dir d))) = 40"
proof -
  have "count_list [1, 0, 0, 1] t = (if t < 2 then 2 else 0)" for t :: nat by auto
  from ft_baselines [OF _ this, of "\<lambda>n. n"] obtain e s d where h: "ob_thread (\<lambda>n. n) 2 empty_dir = Some e"
    "bench_llft (\<lambda>n. n) 2 empty_dir [1, 0, 0, 1] = Some (4, s)" "\<forall>t < 2. s t = ([], e)"
    "hycor_thread (\<lambda>n. n) 2 empty_dir empty_dir = Some (e, d)" "length (file_bytes (f_oplog (d_dir d))) = 40" by auto
  moreover have "s 0 = ([], e)" "s 1 = ([], e)" using h(3) by simp_all
  ultimately show ?thesis by blast
qed

text \<open>
  Both orders are total: a sequencer hands out one number after the other, and the timestamps of different
  producers are distinct as long as a producer does not run into the next one's range.
\<close>

theorem orders_total:
  assumes "threads \<le> 2 ^ 24" "ops < 2 ^ 40" "length sched < 2 ^ 64"
  shows "map (unat \<circ> snd) (sequencer sched 0) = [1..<length sched + 1] \<and>
    distinct (concat (map (\<lambda>t. local_stamps t ops) [0..<threads])) \<and> (\<forall>t < threads. sorted (local_stamps t ops))"
proof (intro conjI allI impI)
  have "map unat (map snd (sequencer sched 0)) = map Suc [0..<length sched]"
    unfolding sequencer_tickets using assms(3) by (simp add: unat_of_nat take_bit_nat_eq_self del: of_nat_Suc)
  also have "\<dots> = [1..<length sched + 1]" by (simp add: map_Suc_upt)
  finally show "map (unat \<circ> snd) (sequencer sched 0) = [1..<length sched + 1]" by simp
  have u: "map unat (local_stamps t ops) = map (\<lambda>i. t * 2 ^ 40 + (i + 1)) [0..<ops]" if "t < threads" for t
    using local_stamps_unat [of t ops] that assms(1,2) by simp
  have in_range: "unat x div 2 ^ 40 = t" if "t < threads" "x \<in> set (local_stamps t ops)" for t x
  proof -
    have "unat x \<in> set (map (\<lambda>i. t * 2 ^ 40 + (i + 1)) [0..<ops])" unfolding u [OF that(1), symmetric] using that(2) by simp
    then obtain i where i: "i < ops" "unat x = t * 2 ^ 40 + (i + 1)" by auto
    then show ?thesis using assms(2) by (simp only: i(2)) simp
  qed
  have dist: "distinct (local_stamps t ops)" if "t < threads" for t
  proof -
    have "distinct (map unat (local_stamps t ops))" unfolding u [OF that] by (simp add: distinct_map inj_on_def)
    then show ?thesis by (simp add: distinct_map)
  qed
  have "distinct (concat (map (\<lambda>t. local_stamps t ops) ts))" if "distinct ts" "\<forall>t \<in> set ts. t < threads" for ts
    using that
  proof (induction ts)
    case (Cons t ts)
    have "set (local_stamps t ops) \<inter> set (local_stamps u ops) = {}" if "u \<in> set ts" for u
      using in_range [of t] in_range [of u] Cons.prems that by fastforce
    then show ?case using Cons dist by auto
  qed simp
  then show "distinct (concat (map (\<lambda>t. local_stamps t ops) [0..<threads]))" by simp
  show "sorted (local_stamps t ops)" if "t < threads" for t
  proof -
    have "sorted (map unat (local_stamps t ops))" unfolding u [OF that] by (simp add: sorted_iff_nth_mono)
    then show ?thesis by (simp add: sorted_iff_nth_mono word_le_nat_alt)
  qed
qed

end
