(* ===== verification/OB_Replay.thy ===== *)
theory OB_Replay
  imports OB_BTree
begin

text \<open>
  The record-replay tool \<open>ob_replay.rs\<close>: a capture log of request bytes, one record per \<open>recv\<close> of the
  interposed server, is grouped by connection, and every connection's stream is sent to a fresh server.
  The lemmas say that a log of complete records, whatever is cut off behind them, is grouped without
  losing, inventing or reordering a byte of any connection, and how much is sent.
\<close>

section \<open>Reading the capture\<close>

record capture =
  conns :: "(u32, bytes) btree"
  order :: "u32 list"

definition capture_empty :: capture where
  "capture_empty = \<lparr>conns = [], order = []\<rparr>"

definition capture_add :: "u32 \<Rightarrow> bytes \<Rightarrow> capture \<Rightarrow> capture" where
  "capture_add cid b c =
     (case bt_get (conns c) cid of
        None \<Rightarrow> \<lparr>conns = bt_insert cid b (conns c), order = order c @ [cid]\<rparr>
      | Some old \<Rightarrow> \<lparr>conns = bt_insert cid (old @ b) (conns c), order = order c\<rparr>)"

text \<open>The loop over the bytes not yet consumed; a record that is cut short ends it.\<close>

function capture_loop :: "bytes \<Rightarrow> capture \<Rightarrow> capture" where
  "capture_loop raw c =
     (if length raw < 8 then c
      else let cid = word_of_int (le_val (take 4 raw)); len = nat (le_val (take 4 (drop 4 raw))); rest = drop 8 raw in
        if length rest < len then c else capture_loop (drop len rest) (capture_add cid (take len rest) c))"
  by pat_completeness auto
termination
  by (relation "measure (length \<circ> fst)") auto

declare capture_loop.simps [simp del]

section \<open>Sending the streams\<close>

text \<open>
  \<open>send\<close> is one connection's thread: connect, write, drain the replies; it fails or reports what it
  wrote. The threads are joined in the order of the connections and the first error is the result.
  \<open>None\<close> is the panic of \<open>conns[cid]\<close> on an absent connection.
\<close>

fun replay_conns :: "(bytes \<Rightarrow> 'e + unit) \<Rightarrow> (u32, bytes) btree \<Rightarrow> u32 list \<Rightarrow> ('e + nat) option" where
  "replay_conns send m [] = Some (Inr 0)"
| "replay_conns send m (cid # cids) =
     (case (bt_get m cid, replay_conns send m cids) of
        (Some b, Some r) \<Rightarrow> Some (case send b of Inl e \<Rightarrow> Inl e
          | Inr _ \<Rightarrow> (case r of Inl e \<Rightarrow> Inl e | Inr n \<Rightarrow> Inr (length b + n)))
      | _ \<Rightarrow> None)"

definition ob_replay :: "(bytes \<Rightarrow> 'e + unit) \<Rightarrow> bytes \<Rightarrow> ('e + nat \<times> nat) option" where
  "ob_replay send raw = (let c = capture_loop raw capture_empty in
     map_option (\<lambda>r. case r of Inl e \<Rightarrow> Inl e | Inr n \<Rightarrow> Inr (length (order c), n)) (replay_conns send (conns c) (order c)))"

lemmas replay_defs [unfold_model] = capture_empty_def capture_add_def ob_replay_def

section \<open>Records\<close>

text \<open>A record as the interposition library writes it; the length field is the low 32 bits.\<close>

definition capture_record :: "u32 \<times> bytes \<Rightarrow> bytes" where
  "capture_record r = u32_le (fst r) @ u32_le (word_of_nat (length (snd r))) @ snd r"

definition capture_ok :: "u32 \<times> bytes \<Rightarrow> bool" where
  "capture_ok r \<longleftrightarrow> length (snd r) < 2 ^ 32"

lemma length_capture_record [simp]: "length (capture_record r) = 8 + length (snd r)"
  by (simp add: capture_record_def)

lemma capture_record_fields:
  assumes "capture_ok r"
  shows "take 4 (capture_record r @ raw) = u32_le (fst r)"
    and "nat (le_val (take 4 (drop 4 (capture_record r @ raw)))) = length (snd r)"
    and "drop 8 (capture_record r @ raw) = snd r @ raw"
proof -
  let ?n = "u32_le (word_of_nat (length (snd r)))"
  have split: "capture_record r @ raw = u32_le (fst r) @ ?n @ snd r @ raw"
    "capture_record r @ raw = (u32_le (fst r) @ ?n) @ snd r @ raw"
    by (simp_all add: capture_record_def)
  show "take 4 (capture_record r @ raw) = u32_le (fst r)"
    unfolding split(1) by (rule take_drop_append) simp
  have "drop 4 (capture_record r @ raw) = ?n @ snd r @ raw"
    unfolding split(1) by (rule take_drop_append) simp
  moreover have "le_val (u32_le w) = uint w" for w :: u32
    using uint_lt2p [of w] by (simp add: u32_le_def le_val_le_bytes)
  then have "nat (le_val ?n) = length (snd r)"
    using assms by (simp add: capture_ok_def unat_of_nat flip: unat_eq_nat_uint)
  ultimately show "nat (le_val (take 4 (drop 4 (capture_record r @ raw)))) = length (snd r)"
    using take_drop_append(1) [of ?n 4 "snd r @ raw"] by simp
  show "drop 8 (capture_record r @ raw) = snd r @ raw"
    unfolding split(2) by (rule take_drop_append) simp
qed

lemma capture_loop_record:
  "capture_ok r \<Longrightarrow> capture_loop (capture_record r @ raw) c = capture_loop raw (capture_add (fst r) (snd r) c)"
  using capture_record_fields [of r raw] by (simp add: capture_loop.simps [of "capture_record r @ raw"] Let_def)

lemma capture_loop_torn:
  assumes "n < length (capture_record r)" "capture_ok r"
  shows "capture_loop (take n (capture_record r)) c = c"
proof -
  let ?t = "take n (capture_record r)"
  have "length (drop 8 ?t) < nat (le_val (take 4 (drop 4 ?t)))" if "8 \<le> n"
  proof -
    have "take 4 (drop 4 ?t) = take 4 (drop 4 (capture_record r))" using that by (simp add: drop_take)
    then show ?thesis using capture_record_fields(2) [OF assms(2), of "[]"] assms(1) that
      by (simp add: less_diff_conv2)
  qed
  then show ?thesis using assms(1) by (auto simp: capture_loop.simps [of ?t] Let_def)
qed

text \<open>What grouping a list of records gives.\<close>

definition capture_of :: "(u32 \<times> bytes) list \<Rightarrow> capture" where
  "capture_of rs = foldl (\<lambda>c r. capture_add (fst r) (snd r) c) capture_empty rs"

lemma capture_loop_records:
  assumes "list_all capture_ok rs" "capture_ok r" "n < length (capture_record r)"
  shows "capture_loop (concat (map capture_record rs) @ take n (capture_record r)) c =
    foldl (\<lambda>c r. capture_add (fst r) (snd r) c) c rs"
  using assms(1)
proof (induction rs arbitrary: c)
  case Nil
  then show ?case using capture_loop_torn [OF assms(3,2)] by simp
qed (simp add: capture_loop_record)

section \<open>The grouping\<close>

definition stream_of :: "(u32 \<times> bytes) list \<Rightarrow> u32 \<Rightarrow> bytes" where
  "stream_of rs cid = concat (map snd (filter (\<lambda>r. fst r = cid) rs))"

text \<open>The connections in the order they are first seen.\<close>

definition first_seen :: "(u32 \<times> bytes) list \<Rightarrow> u32 list" where
  "first_seen rs = rev (remdups (rev (map fst rs)))"

lemma first_seen_snoc:
  "first_seen (rs @ [r]) = (if fst r \<in> fst ` set rs then first_seen rs else first_seen rs @ [fst r])"
  by (simp add: first_seen_def)

lemma capture_of_groups:
  "bt_wf (conns (capture_of rs)) \<and> order (capture_of rs) = first_seen rs \<and>
   (\<forall>cid. bt_get (conns (capture_of rs)) cid = (if cid \<in> fst ` set rs then Some (stream_of rs cid) else None))"
proof (induction rs rule: rev_induct)
  case (snoc r rs)
  then have wf: "bt_wf (conns (capture_of rs))" and ord: "order (capture_of rs) = first_seen rs"
    and get: "\<And>cid. bt_get (conns (capture_of rs)) cid = (if cid \<in> fst ` set rs then Some (stream_of rs cid) else None)"
    by auto
  have step: "capture_of (rs @ [r]) = capture_add (fst r) (snd r) (capture_of rs)" by (simp add: capture_of_def)
  show ?case
  proof (cases "fst r \<in> fst ` set rs")
    case True
    then show ?thesis using wf ord get [of "fst r"] get
      by (auto simp: step capture_add_def bt_simps first_seen_snoc stream_of_def)
  next
    case False
    then have "filter (\<lambda>x. fst x = fst r) rs = []" by (auto simp: filter_empty_conv image_iff)
    then have "stream_of rs (fst r) = []" by (simp add: stream_of_def)
    then show ?thesis using False wf ord get [of "fst r"] get
      by (auto simp: step capture_add_def bt_simps first_seen_snoc stream_of_def)
  qed
qed (simp add: capture_of_def capture_empty_def bt_simps first_seen_def)

lemma first_seen_set: "set (first_seen rs) = fst ` set rs" "distinct (first_seen rs)"
  by (simp_all add: first_seen_def)

text \<open>With every connection accepted, everything captured is sent, once.\<close>

lemma stream_lengths:
  "distinct cids \<Longrightarrow> fst ` set rs \<subseteq> set cids \<Longrightarrow> (\<Sum>cid\<leftarrow>cids. length (stream_of rs cid)) = (\<Sum>r\<leftarrow>rs. length (snd r))"
proof (induction rs)
  case (Cons r rs)
  have "(\<Sum>cid\<leftarrow>cids. length (stream_of (r # rs) cid)) =
      (\<Sum>cid\<leftarrow>cids. (if cid = fst r then length (snd r) else 0) + length (stream_of rs cid))"
    by (intro arg_cong [of _ _ sum_list] map_cong) (auto simp: stream_of_def)
  also have "\<dots> = length (snd r) + (\<Sum>cid\<leftarrow>cids. length (stream_of rs cid))"
    using Cons.prems by (simp add: sum_list_addf sum_list_distinct_conv_sum_set)
  finally show ?case using Cons by simp
qed (simp add: stream_of_def)

lemma replay_conns_all:
  "set cids \<subseteq> fst ` set rs \<Longrightarrow>
   replay_conns (\<lambda>b. Inr ()) (conns (capture_of rs)) cids = Some (Inr (\<Sum>cid\<leftarrow>cids. length (stream_of rs cid)))"
  using capture_of_groups [of rs] by (induction cids) auto

text \<open>A capture never makes the tool index an absent connection, whatever the server does.\<close>

lemma replay_conns_defined:
  "set cids \<subseteq> fst ` set rs \<Longrightarrow> \<exists>r. replay_conns send (conns (capture_of rs)) cids = Some r"
  using capture_of_groups [of rs] by (induction cids) auto

end
