(* ===== verification/OB_Lincheck.thy ===== *)
theory OB_Lincheck
  imports OB_Server OB_Lin "HOL-Library.Multiset"
begin

text \<open>
  The linearizability experiment \<open>ob_lincheck.rs\<close>: clients that alternately write and read one register
  of a RESP server over their own connections, with the clock read before each request and after each
  reply, and the recorded history handed to the checker. The steps of clients, connections and clock
  interleave freely. Every history that can be recorded is linearizable, so the checker accepts it.
\<close>

section \<open>Requests and replies\<close>

definition resp_request :: "bytes list \<Rightarrow> bytes" where
  "resp_request parts = ascii ''*'' @ show_usize (length parts) @ crlf
     @ concat (map (\<lambda>p. ascii ''$'' @ show_usize (length p) @ crlf @ p @ crlf) parts)"

text \<open>The one read of a reply, into a buffer of 128 bytes.\<close>

definition resp_reply :: "bytes \<Rightarrow> bytes" where
  "resp_reply sent = take 128 sent"

text \<open>\<open>str::split\<close> at the two characters of a line end.\<close>

fun split_crlf :: "bytes \<Rightarrow> bytes \<Rightarrow> bytes list" where
  "split_crlf acc [] = [acc]"
| "split_crlf acc [b] = [acc @ [b]]"
| "split_crlf acc (b # c # bs) = (if b = 13 \<and> c = 10 then acc # split_crlf [] bs else split_crlf (acc @ [b]) (c # bs))"

definition parse_get :: "bytes \<Rightarrow> i64" where
  "parse_get reply = (let s = from_utf8_lossy reply in
     if take 3 s = ascii ''$-1'' then 0
     else let lines = split_crlf [] s in
       if length lines > 1 then (case parse_i64 (lines ! 1) of Some v \<Rightarrow> v | None \<Rightarrow> 0) else 0)"

text \<open>One round of the server's connection loop: a whole request read, dispatched and answered.\<close>

definition resp_turn :: "u32 \<Rightarrow> u64 \<Rightarrow> bytes \<Rightarrow> bytes prog" where
  "resp_turn c seq req =
     (case read_command (wire req) of
        (Inr (Some args), _) \<Rightarrow>
          if args = [] then Return []
          else if eq_ignore_ascii_case (args ! 0) (ascii ''QUIT'') then Return (to_bytes reply_ok)
          else prog_bind (resp_dispatch args c seq) (\<lambda>r. Return (to_bytes r))
      | _ \<Rightarrow> Return [])"

section \<open>The clients\<close>

definition reg :: bytes where
  "reg = ascii ''reg''"

definition write_value :: "nat \<Rightarrow> nat \<Rightarrow> i64" where
  "write_value c i = (word_of_nat c + 1) * 100 + word_of_nat i"

definition lin_request :: "nat \<Rightarrow> nat \<Rightarrow> bytes" where
  "lin_request c i = (if i mod 2 = 0 then resp_request [ascii ''SET'', reg, show_i64 (write_value c i)]
     else resp_request [ascii ''GET'', reg])"

definition lin_action :: "nat \<Rightarrow> nat \<Rightarrow> bytes \<Rightarrow> action" where
  "lin_action c i reply = (if i mod 2 = 0 then Write (write_value c i) else Read (parse_get (resp_reply reply)))"

text \<open>
  A client has finished \<open>lc_index\<close> operations, and has the next one not yet sent, sent at a time, or
  answered.
\<close>

datatype lin_phase = Idle | Sent u64 | Replied u64 bytes

record lin_client =
  lc_index :: nat
  lc_phase :: lin_phase

record lin_sys =
  ls_now :: u64
  ls_service :: service
  ls_clients :: "nat \<Rightarrow> lin_client"
  ls_hist :: "lin_op list"

definition set_client :: "nat \<Rightarrow> lin_client \<Rightarrow> lin_sys \<Rightarrow> lin_sys" where
  "set_client c x s = s\<lparr>ls_clients := (ls_clients s)(c := x)\<rparr>"

text \<open>
  Client \<open>c\<close> of \<open>n\<close> talks over connection \<open>conn c\<close>. The clock never runs backwards. What the server sends
  in reply arrives in one read. The read blocks: a client goes on only when there is at least one byte.
\<close>

inductive lin_step :: "(u64 \<Rightarrow> u64) \<Rightarrow> (nat \<Rightarrow> u32) \<Rightarrow> nat \<Rightarrow> nat \<Rightarrow> lin_sys \<Rightarrow> lin_sys \<Rightarrow> bool"
  for stamp conn n ops where
  tick: "ls_now s \<le> t \<Longrightarrow> lin_step stamp conn n ops s (s\<lparr>ls_now := t\<rparr>)"
| invoke: "c < n \<Longrightarrow> ls_clients s c = \<lparr>lc_index = i, lc_phase = Idle\<rparr> \<Longrightarrow> i < ops \<Longrightarrow>
     lin_step stamp conn n ops s (set_client c \<lparr>lc_index = i, lc_phase = Sent (ls_now s)\<rparr> s)"
| serve: "c < n \<Longrightarrow> ls_clients s c = \<lparr>lc_index = i, lc_phase = Sent t0\<rparr> \<Longrightarrow>
     run_svc stamp (resp_turn (conn c) (word_of_nat (i + 1)) (lin_request c i)) (ls_service s) = (reply, sv) \<Longrightarrow>
     lin_step stamp conn n ops s (set_client c \<lparr>lc_index = i, lc_phase = Replied t0 reply\<rparr> (s\<lparr>ls_service := sv\<rparr>))"
| finish: "c < n \<Longrightarrow> ls_clients s c = \<lparr>lc_index = i, lc_phase = Replied t0 reply\<rparr> \<Longrightarrow> reply \<noteq> [] \<Longrightarrow>
     lin_step stamp conn n ops s (set_client c \<lparr>lc_index = i + 1, lc_phase = Idle\<rparr>
       (s\<lparr>ls_hist := ls_hist s @ [\<lparr>l_proc_id = word_of_nat c, l_action = lin_action c i reply, l_inv = t0, l_res = ls_now s\<rparr>]\<rparr>))"

text \<open>The server on an empty directory, with the register initialized over the first connection.\<close>

definition lin_init :: "(u64 \<Rightarrow> u64) \<Rightarrow> u64 \<Rightarrow> u64 \<Rightarrow> lin_sys" where
  "lin_init stamp tick t =
     (case server_accept (server_start empty_dir 1000 False tick) of (c, s) \<Rightarrow>
      case run_svc stamp (resp_turn c 1 (resp_request [ascii ''SET'', reg, ascii ''0''])) (srv_service s) of (_, sv) \<Rightarrow>
        \<lparr>ls_now = t, ls_service = sv, ls_clients = (\<lambda>_. \<lparr>lc_index = 0, lc_phase = Idle\<rparr>), ls_hist = []\<rparr>)"

inductive lin_run :: "(u64 \<Rightarrow> u64) \<Rightarrow> (nat \<Rightarrow> u32) \<Rightarrow> nat \<Rightarrow> nat \<Rightarrow> lin_sys \<Rightarrow> bool" for stamp conn n ops where
  init: "lin_run stamp conn n ops (lin_init stamp tick t)"
| step: "lin_run stamp conn n ops s \<Longrightarrow> lin_step stamp conn n ops s s' \<Longrightarrow> lin_run stamp conn n ops s'"

definition all_joined :: "nat \<Rightarrow> nat \<Rightarrow> lin_sys \<Rightarrow> bool" where
  "all_joined n ops s \<longleftrightarrow> (\<forall>c < n. ls_clients s c = \<lparr>lc_index = ops, lc_phase = Idle\<rparr>)"

lemmas lincheck_defs [unfold_model] = resp_request_def resp_reply_def parse_get_def resp_turn_def reg_def write_value_def lin_request_def
  lin_action_def set_client_def lin_init_def all_joined_def

section \<open>One round trip\<close>

lemma resp_request_cmd: "resp_request parts = resp_cmd parts"
proof -
  have "map to_bytes (map (\<lambda>a. Bulk (Some a)) parts) = map (\<lambda>p. ascii ''$'' @ show_usize (length p) @ crlf @ p @ crlf) parts"
    by simp
  then show ?thesis by (simp add: resp_request_def resp_cmd_def o_def)
qed

lemma resp_turn_request:
  "cmd_ok args \<Longrightarrow> \<not> eq_ignore_ascii_case (args ! 0) (ascii ''QUIT'') \<Longrightarrow>
    resp_turn c seq (resp_request args) = prog_bind (resp_dispatch args c seq) (\<lambda>r. Return (to_bytes r))"
  using read_command_array [of args "[]"] by (simp add: resp_turn_def resp_request_cmd resp_cmd_def cmd_ok_def)

lemma cmd_ok_reg: "cmd_ok [ascii ''SET'', reg, show_i64 v]" "cmd_ok [ascii ''GET'', reg]" "cmd_ok [ascii ''SET'', reg, ascii ''0'']"
  using length_show_i64 [of v] by (simp_all add: cmd_ok_def arg_ok_def reg_def)

lemma reg_lossy: "from_utf8_lossy reg = reg"
  by (rule from_utf8_lossy_id) (simp add: reg_def utf8_valid_ascii)

lemma set_turn: "resp_turn c seq (resp_request [ascii ''SET'', reg, show_i64 v]) =
    Apply (op_set_bytes c seq reg (show_i64 v)) (\<lambda>r. Return (to_bytes (case r of Some _ \<Rightarrow> reply_ok | None \<Rightarrow> unavailable)))"
  by (subst resp_turn_request [OF cmd_ok_reg(1)])
    (simp_all add: resp_dispatch_def ascii_upper_def ascii_lower_def eq_ignore_ascii_case_def reg_lossy)

lemma get_turn: "resp_turn c seq (resp_request [ascii ''GET'', reg]) =
    Apply (op_get c seq reg) (\<lambda>r. Return (to_bytes (case r of Some (Bytes b) \<Rightarrow> Bulk b | _ \<Rightarrow> Bulk None)))"
  by (subst resp_turn_request [OF cmd_ok_reg(2)])
    (simp_all add: resp_dispatch_def ascii_upper_def ascii_lower_def eq_ignore_ascii_case_def reg_lossy)

lemma split_crlf_word: "13 \<notin> set w \<Longrightarrow> split_crlf acc (w @ 13 # 10 # bs) = (acc @ w) # split_crlf [] bs"
proof (induction w arbitrary: acc)
  case (Cons b w)
  then show ?case by (cases w) auto
qed simp

text \<open>The reply to a \<open>GET\<close> of a number is read back as that number.\<close>

lemma parse_get_bulk: "parse_get (to_bytes (Bulk (Some (show_i64 v)))) = v"
proof -
  let ?n = "show_usize (length (show_i64 v))"
  have n13: "13 \<notin> set (36 # ?n)" using show_usize_chars [of 13] by auto
  have v13: "13 \<notin> set (show_i64 v)" using show_i64_bytes [of 13 v] by (auto simp: ws_free_def)
  have valid: "utf8_valid (to_bytes (Bulk (Some (show_i64 v))))"
    by (auto simp: crlf_def utf8_valid_ascii_byte intro!: utf8_valid_append show_usize_text)
  have b: "to_bytes (Bulk (Some (show_i64 v))) = (36 # ?n) @ 13 # 10 # show_i64 v @ 13 # 10 # []"
    by (simp add: crlf_def)
  have "?n \<noteq> []" by simp
  then obtain d ds where d: "?n = d # ds" by (cases ?n) auto
  then have "48 \<le> d" using show_usize_chars [of d "length (show_i64 v)"] by simp
  then have "d \<noteq> 45" by auto
  then have "take 3 (to_bytes (Bulk (Some (show_i64 v)))) \<noteq> ascii ''$-1''"
    unfolding b d by (simp add: numeral_3_eq_3)
  moreover have "split_crlf [] (to_bytes (Bulk (Some (show_i64 v)))) = [36 # ?n, show_i64 v, []]"
    unfolding b split_crlf_word [OF n13] split_crlf_word [OF v13] by simp
  ultimately show ?thesis unfolding parse_get_def from_utf8_lossy_id [OF valid] by (simp add: Let_def del: to_bytes.simps)
qed

lemma resp_reply_bulk: "resp_reply (to_bytes (Bulk (Some (show_i64 v)))) = to_bytes (Bulk (Some (show_i64 v)))"
proof -
  have "length (show_i64 v) \<le> 20" by (rule length_show_i64)
  moreover from this have "length (show_usize (length (show_i64 v))) \<le> 2"
    using length_dec_digits [of "int (length (show_i64 v))" 1] by (simp add: show_usize_def)
  ultimately show ?thesis by (simp add: resp_reply_def crlf_def)
qed

section \<open>Linearizations as lists\<close>

text \<open>A list of operations in an order that respects real time and is a legal run of the register.\<close>

fun legal_run :: "i64 \<Rightarrow> action list \<Rightarrow> i64 \<Rightarrow> bool" where
  "legal_run v [] w \<longleftrightarrow> w = v"
| "legal_run v (a # as) w \<longleftrightarrow> valid a v \<and> legal_run (lin_apply a v) as w"

lemma legal_run_snoc: "legal_run v as w \<Longrightarrow> valid a w \<Longrightarrow> legal_run v (as @ [a]) (lin_apply a w)"
  by (induction as arbitrary: v) auto

lemma index_permutation:
  "mset L = mset h \<Longrightarrow> \<exists>ps. distinct ps \<and> set ps = {..<length h} \<and> map ((!) h) ps = L"
proof (induction L arbitrary: h)
  case (Cons x L)
  have "x \<in># mset h" using Cons.prems by (metis list.set_intros(1) set_mset_mset)
  then obtain A B where h: "h = A @ x # B" using split_list by fastforce
  then have "mset L = mset (A @ B)" using Cons.prems by simp
  from Cons.IH [OF this] obtain ps where ps: "distinct ps" "set ps = {..<length (A @ B)}" "map ((!) (A @ B)) ps = L" by blast
  define f where "f = (\<lambda>i. if i < length A then i else Suc i)"
  have inj: "inj f" by (auto simp: inj_on_def f_def split: if_splits)
  have "h ! f i = (A @ B) ! i" for i by (simp add: h f_def nth_append)
  then have m: "map ((!) h) (map f ps) = L" using ps(3) by (simp add: o_def)
  have im: "f ` {..<length (A @ B)} = {..<length h} - {length A}"
  proof
    show "{..<length h} - {length A} \<subseteq> f ` {..<length (A @ B)}"
    proof
      fix j assume "j \<in> {..<length h} - {length A}"
      then have "j = f (if j < length A then j else j - 1)" "(if j < length A then j else j - 1) \<in> {..<length (A @ B)}"
        by (auto simp: f_def h)
      then show "j \<in> f ` {..<length (A @ B)}" by blast
    qed
  qed (auto simp: f_def h split: if_splits)
  have s: "set (map f ps) = {..<length h} - {length A}" using ps(2) im by simp
  have A: "length A < length h" "h ! length A = x" by (simp_all add: h)
  have "distinct (map f ps)" using ps(1) inj by (simp add: distinct_map) (auto simp: inj_on_def)
  then have "distinct (length A # map f ps)" using s by simp
  moreover have "set (length A # map f ps) = {..<length h}" unfolding list.set s using A(1) by blast
  moreover have "map ((!) h) (length A # map f ps) = x # L" unfolding list.map(2) [of _ "length A"] using m A(2) by simp
  ultimately show ?case by (intro exI [of _ "length A # map f ps"] conjI)
qed simp

lemma legal_run_legal: "legal_run v (map (\<lambda>i. l_action (h ! i)) ps) w \<Longrightarrow> legal h v ps"
  by (induction ps arbitrary: v) auto

lemma linearizableI:
  assumes "mset L = mset h" "sorted_wrt (\<lambda>a b. \<not> l_res b < l_inv a) L" "legal_run v (map l_action L) w"
  shows "linearizable h v"
proof -
  obtain ps where ps: "distinct ps" "set ps = {..<length h}" "map ((!) h) ps = L" using index_permutation [OF assms(1)] by blast
  have "real_time h ps" using assms(2) unfolding ps(3) [symmetric] by (simp add: sorted_wrt_map real_time_def)
  moreover have "legal h v ps" using assms(3) unfolding ps(3) [symmetric] by (intro legal_run_legal) (simp add: o_def)
  ultimately show ?thesis using ps(1,2) by (auto simp: linearizable_def lin_from_def)
qed

section \<open>The linearization points\<close>

text \<open>
  The operations the server has executed, in that order, each with the time of its execution and, once
  the client has seen the reply, the time of that.
\<close>

record point =
  g_client :: nat
  g_action :: action
  g_inv :: u64
  g_at :: u64
  g_res :: "u64 option"

definition point_op :: "point \<Rightarrow> lin_op" where
  "point_op g = \<lparr>l_proc_id = word_of_nat (g_client g), l_action = g_action g, l_inv = g_inv g, l_res = the (g_res g)\<rparr>"

definition point_ok :: "u64 \<Rightarrow> point \<Rightarrow> bool" where
  "point_ok now g \<longleftrightarrow> g_inv g \<le> g_at g \<and> g_at g \<le> now \<and> (\<forall>r. g_res g = Some r \<longrightarrow> g_at g \<le> r)"

definition pending :: "nat \<Rightarrow> point list \<Rightarrow> point list" where
  "pending c G = filter (\<lambda>g. g_client g = c \<and> g_res g = None) G"

definition seen :: "point list \<Rightarrow> lin_op list" where
  "seen G = map point_op (filter (\<lambda>g. g_res g \<noteq> None) G)"

fun phase_ok :: "u64 \<Rightarrow> nat \<Rightarrow> lin_client \<Rightarrow> point list \<Rightarrow> bool" where
  "phase_ok now c \<lparr>lc_index = i, lc_phase = Idle\<rparr> G \<longleftrightarrow> pending c G = []"
| "phase_ok now c \<lparr>lc_index = i, lc_phase = Sent t0\<rparr> G \<longleftrightarrow> pending c G = [] \<and> t0 \<le> now"
| "phase_ok now c \<lparr>lc_index = i, lc_phase = Replied t0 reply\<rparr> G \<longleftrightarrow>
     (\<exists>t. pending c G = [\<lparr>g_client = c, g_action = lin_action c i reply, g_inv = t0, g_at = t, g_res = None\<rparr>])"

fun next_seq :: "lin_client \<Rightarrow> nat" where
  "next_seq \<lparr>lc_index = i, lc_phase = Replied t0 reply\<rparr> = Suc i"
| "next_seq \<lparr>lc_index = i, lc_phase = ph\<rparr> = i"

fun begun :: "lin_client \<Rightarrow> nat" where
  "begun \<lparr>lc_index = i, lc_phase = Idle\<rparr> = i"
| "begun \<lparr>lc_index = i, lc_phase = ph\<rparr> = Suc i"

definition lin_inv :: "(nat \<Rightarrow> u32) \<Rightarrow> nat \<Rightarrow> nat \<Rightarrow> lin_sys \<Rightarrow> bool" where
  "lin_inv conn n ops s \<longleftrightarrow> (\<exists>G v. sorted (map g_at G) \<and> (\<forall>g \<in> set G. point_ok (ls_now s) g \<and> g_client g < n) \<and>
     legal_run 0 (map g_action G) v \<and> bt_get (svc_store (ls_service s)) reg = Some (show_i64 v) \<and>
     mset (ls_hist s) = mset (seen G) \<and>
     (\<forall>c < n. phase_ok (ls_now s) c (ls_clients s c) G \<and> begun (ls_clients s c) \<le> ops \<and>
       svc_ready (conn c) (word_of_nat (next_seq (ls_clients s c))) (ls_service s)))"

text \<open>Serving one client does not disturb what another may send next.\<close>

lemma svc_ready_others:
  assumes "svc_ready c s sv" "svc_ready d q sv" "svc_apply stamp op sv = (r, sv')" "op_client op = c" "d \<noteq> c" "s < op_seq op"
  shows "svc_ready d q sv'"
proof -
  have "hw_get (e_applied (sv_engine sv)) c < op_seq op" using assms(1,6) by (auto simp: svc_ready_def)
  then have new: "\<not> op_seq op \<le> hw_get (e_applied (sv_engine sv)) (op_client op)" using assms(4) by simp
  obtain sv1 where sv1: "svc_apply stamp op sv = (Some (snd (kv_apply (svc_store sv) op)), sv1)" "svc_ready c (op_seq op) sv1"
    using svc_apply_ready [OF assms(1,4,6)] by blast
  have "core (sv_engine sv1) = core_step kv_sm (core (sv_engine sv)) (stamp (max (sv_clock sv + 1) (sv_tick sv)), op)"
    using svc_apply_quiet [of sv stamp op] assms(1) sv1(1) by (auto simp: svc_ready_def)
  then have "e_applied (sv_engine sv1) = bt_insert c (op_seq op) (e_applied (sv_engine sv))"
    using new assms(4) by (simp add: core_def)
  then have "hw_get (e_applied (sv_engine sv1)) d = hw_get (e_applied (sv_engine sv)) d"
    using hw_get_insert [of "e_applied (sv_engine sv)"] assms(1,5) by (simp add: svc_ready_def)
  then show ?thesis using sv1 assms(2,3) by (simp add: svc_ready_def)
qed

lemma seq_succ:
  assumes "i < 2 ^ 63"
  shows "(word_of_nat i :: u64) < word_of_nat (i + 1)"
  using assms by (simp add: word_less_nat_alt unat_of_nat del: of_nat_Suc of_nat_add)

definition turn_op :: "u32 \<Rightarrow> u64 \<Rightarrow> nat \<Rightarrow> nat \<Rightarrow> op" where
  "turn_op k seq c i = (if i mod 2 = 0 then op_set_bytes k seq reg (show_i64 (write_value c i)) else op_get k seq reg)"

lemma turn_op_simps [simp]: "op_client (turn_op k seq c i) = k" "op_seq (turn_op k seq c i) = seq"
  by (simp_all add: turn_op_def op_defs)

lemma run_turn:
  assumes "svc_apply stamp (turn_op k seq c i) sv = (Some (snd (kv_apply (svc_store sv) (turn_op k seq c i))), sv')"
    and "bt_get (svc_store sv) reg = Some (show_i64 v)"
  shows "run_svc stamp (resp_turn k seq (lin_request c i)) sv =
    (if i mod 2 = 0 then to_bytes reply_ok else to_bytes (Bulk (Some (show_i64 v))), sv')"
proof (cases "i mod 2 = 0")
  case True
  then show ?thesis using assms
    by (simp add: lin_request_def set_turn run_svc_def turn_op_def kv_apply_def op_defs del: ascii_Cons to_bytes.simps)
next
  case False
  then show ?thesis using assms
    by (simp add: lin_request_def get_turn run_svc_def turn_op_def kv_apply_def op_defs del: ascii_Cons to_bytes.simps)
qed

lemma serve_turn:
  assumes ready: "svc_ready k (word_of_nat i) sv" and v: "bt_get (svc_store sv) reg = Some (show_i64 v)" and "i < 2 ^ 63"
    and run: "run_svc stamp (resp_turn k (word_of_nat (i + 1)) (lin_request c i)) sv = (reply, sv')"
  shows "valid (lin_action c i reply) v" and "bt_get (svc_store sv') reg = Some (show_i64 (lin_apply (lin_action c i reply) v))"
    and "svc_ready k (word_of_nat (i + 1)) sv'" and "d \<noteq> k \<Longrightarrow> svc_ready d q sv \<Longrightarrow> svc_ready d q sv'"
proof -
  let ?op = "turn_op k (word_of_nat (i + 1)) c i"
  have lt: "word_of_nat i < op_seq ?op" using seq_succ [OF assms(3)] by simp
  obtain sv1 where a: "svc_apply stamp ?op sv = (Some (snd (kv_apply (svc_store sv) ?op)), sv1)"
    "svc_store sv1 = fst (kv_apply (svc_store sv) ?op)" "svc_ready k (word_of_nat (i + 1)) sv1"
    using svc_apply_ready [OF ready _ lt, of stamp] by auto
  have wf: "bt_wf (svc_store sv)" using ready by (simp add: svc_ready_def)
  have r: "sv' = sv1" "reply = (if i mod 2 = 0 then to_bytes reply_ok else to_bytes (Bulk (Some (show_i64 v))))"
    using run run_turn [OF a(1) v] by simp_all
  show "valid (lin_action c i reply) v" using r(2) by (simp add: lin_action_def resp_reply_bulk parse_get_bulk del: to_bytes.simps)
  show "bt_get (svc_store sv') reg = Some (show_i64 (lin_apply (lin_action c i reply) v))"
    using a(2) v wf by (simp add: r(1) lin_action_def turn_op_def kv_apply_def op_defs bt_simps)
  show "svc_ready k (word_of_nat (i + 1)) sv'" using a(3) r(1) by simp
  show "svc_ready d q sv'" if "d \<noteq> k" "svc_ready d q sv"
    using svc_ready_others [OF ready that(2) a(1) _ that(1) lt] r(1) by simp
qed

section \<open>The invariant\<close>

lemma lin_invI:
  assumes "sorted (map g_at G)" "\<And>g. g \<in> set G \<Longrightarrow> point_ok (ls_now s) g \<and> g_client g < n" "legal_run 0 (map g_action G) v"
    and "bt_get (svc_store (ls_service s)) reg = Some (show_i64 v)" "mset (ls_hist s) = mset (seen G)"
    and "\<And>c. c < n \<Longrightarrow> phase_ok (ls_now s) c (ls_clients s c) G \<and> begun (ls_clients s c) \<le> ops \<and>
       svc_ready (conn c) (word_of_nat (next_seq (ls_clients s c))) (ls_service s)"
  shows "lin_inv conn n ops s"
  unfolding lin_inv_def using assms by blast

lemma lin_invE:
  assumes "lin_inv conn n ops s"
  obtains G v where "sorted (map g_at G)" "\<And>g. g \<in> set G \<Longrightarrow> point_ok (ls_now s) g \<and> g_client g < n"
    "legal_run 0 (map g_action G) v" "bt_get (svc_store (ls_service s)) reg = Some (show_i64 v)" "mset (ls_hist s) = mset (seen G)"
    "\<And>c. c < n \<Longrightarrow> phase_ok (ls_now s) c (ls_clients s c) G \<and> begun (ls_clients s c) \<le> ops \<and>
       svc_ready (conn c) (word_of_nat (next_seq (ls_clients s c))) (ls_service s)"
  using assms unfolding lin_inv_def by blast

lemma phase_ok_later: "phase_ok now c x G \<Longrightarrow> now \<le> t \<Longrightarrow> phase_ok t c x G"
  by (cases "(now, c, x, G)" rule: phase_ok.cases) auto

lemma phase_ok_pending: "pending c G' = pending c G \<Longrightarrow> phase_ok now c x G' = phase_ok now c x G"
  by (cases "(now, c, x, G)" rule: phase_ok.cases) auto

lemma pending_snoc: "pending c (G @ [g]) = pending c G @ (if g_client g = c \<and> g_res g = None then [g] else [])"
  by (simp add: pending_def)

lemma seen_snoc: "g_res g = None \<Longrightarrow> seen (G @ [g]) = seen G"
  by (simp add: seen_def)

text \<open>The client's only open point is closed.\<close>

lemma pending_split:
  assumes "pending c G = [g]"
  obtains A B where "G = A @ g # B" "pending c (A @ g\<lparr>g_res := Some r\<rparr> # B) = []" "g_client g = c" "g_res g = None"
    "\<And>d. d \<noteq> c \<Longrightarrow> pending d (A @ g\<lparr>g_res := Some r\<rparr> # B) = pending d G"
    "mset (seen (A @ g\<lparr>g_res := Some r\<rparr> # B)) = add_mset (point_op (g\<lparr>g_res := Some r\<rparr>)) (mset (seen G))"
proof -
  have "filter (\<lambda>g. g_client g = c \<and> g_res g = None) G = [g]" using assms by (simp add: pending_def)
  then obtain A B where s: "G = A @ g # B" "\<forall>x \<in> set A. \<not> (g_client x = c \<and> g_res x = None)" "g_client g = c \<and> g_res g = None"
    "filter (\<lambda>g. g_client g = c \<and> g_res g = None) B = []"
    by (auto simp: filter_eq_Cons_iff)
  show thesis using that [OF s(1)] s by (auto simp: pending_def seen_def filter_empty_conv)
qed

lemma serve_inv:
  assumes inv: "lin_inv conn n ops s" and "inj_on conn {..<n}" "ops < 2 ^ 63" "c < n"
    and cl: "ls_clients s c = \<lparr>lc_index = i, lc_phase = Sent t0\<rparr>"
    and run: "run_svc stamp (resp_turn (conn c) (word_of_nat (i + 1)) (lin_request c i)) (ls_service s) = (reply, sv)"
  shows "lin_inv conn n ops (set_client c \<lparr>lc_index = i, lc_phase = Replied t0 reply\<rparr> (s\<lparr>ls_service := sv\<rparr>))"
proof -
  from inv obtain G v where I: "sorted (map g_at G)" "\<And>g. g \<in> set G \<Longrightarrow> point_ok (ls_now s) g \<and> g_client g < n"
    "legal_run 0 (map g_action G) v" "bt_get (svc_store (ls_service s)) reg = Some (show_i64 v)" "mset (ls_hist s) = mset (seen G)"
    "\<And>c. c < n \<Longrightarrow> phase_ok (ls_now s) c (ls_clients s c) G \<and> begun (ls_clients s c) \<le> ops \<and>
       svc_ready (conn c) (word_of_nat (next_seq (ls_clients s c))) (ls_service s)"
    by (rule lin_invE) blast
  have ready: "svc_ready (conn c) (word_of_nat i) (ls_service s)" and ph: "pending c G = []" "t0 \<le> ls_now s" "i < ops"
    using I(6) [OF assms(4)] cl by auto
  have "i < 2 ^ 63" using ph(3) assms(3) by simp
  note st = serve_turn [OF ready I(4) this run]
  define g where "g = \<lparr>g_client = c, g_action = lin_action c i reply, g_inv = t0, g_at = ls_now s, g_res = None\<rparr>"
  let ?s = "set_client c \<lparr>lc_index = i, lc_phase = Replied t0 reply\<rparr> (s\<lparr>ls_service := sv\<rparr>)"
  show ?thesis
  proof (rule lin_invI [where G = "G @ [g]" and v = "lin_apply (lin_action c i reply) v"])
    show "sorted (map g_at (G @ [g]))" using I(1,2) by (auto simp: sorted_append g_def point_ok_def)
    show "point_ok (ls_now ?s) x \<and> g_client x < n" if "x \<in> set (G @ [g])" for x
      using that I(2) ph(2) assms(4) by (auto simp: g_def set_client_def point_ok_def)
    show "legal_run 0 (map g_action (G @ [g])) (lin_apply (lin_action c i reply) v)"
      using legal_run_snoc [OF I(3) st(1)] by (simp add: g_def)
    show "bt_get (svc_store (ls_service ?s)) reg = Some (show_i64 (lin_apply (lin_action c i reply) v))"
      using st(2) by (simp add: set_client_def)
    show "mset (ls_hist ?s) = mset (seen (G @ [g]))" using I(5) by (simp add: set_client_def seen_snoc g_def)
    show "phase_ok (ls_now ?s) d (ls_clients ?s d) (G @ [g]) \<and> begun (ls_clients ?s d) \<le> ops \<and>
       svc_ready (conn d) (word_of_nat (next_seq (ls_clients ?s d))) (ls_service ?s)" if "d < n" for d
    proof (cases "d = c")
      case True
      then show ?thesis using ph(1,3) st(3) by (auto simp: set_client_def pending_snoc g_def)
    next
      case False
      then have "conn d \<noteq> conn c" using assms(2,4) that by (auto simp: inj_on_def)
      moreover have "pending d (G @ [g]) = pending d G" using False by (simp add: pending_snoc g_def)
      ultimately show ?thesis using False I(6) [OF that] st(4) phase_ok_pending [of d "G @ [g]" G] by (simp add: set_client_def)
    qed
  qed
qed

lemma finish_inv:
  assumes inv: "lin_inv conn n ops s" and "c < n" and cl: "ls_clients s c = \<lparr>lc_index = i, lc_phase = Replied t0 reply\<rparr>"
  shows "lin_inv conn n ops (set_client c \<lparr>lc_index = i + 1, lc_phase = Idle\<rparr>
    (s\<lparr>ls_hist := ls_hist s @ [\<lparr>l_proc_id = word_of_nat c, l_action = lin_action c i reply, l_inv = t0, l_res = ls_now s\<rparr>]\<rparr>))"
    (is "lin_inv conn n ops ?s")
proof -
  from inv obtain G v where I: "sorted (map g_at G)" "\<And>g. g \<in> set G \<Longrightarrow> point_ok (ls_now s) g \<and> g_client g < n"
    "legal_run 0 (map g_action G) v" "bt_get (svc_store (ls_service s)) reg = Some (show_i64 v)" "mset (ls_hist s) = mset (seen G)"
    "\<And>c. c < n \<Longrightarrow> phase_ok (ls_now s) c (ls_clients s c) G \<and> begun (ls_clients s c) \<le> ops \<and>
       svc_ready (conn c) (word_of_nat (next_seq (ls_clients s c))) (ls_service s)"
    by (rule lin_invE) blast
  obtain t where p: "pending c G = [\<lparr>g_client = c, g_action = lin_action c i reply, g_inv = t0, g_at = t, g_res = None\<rparr>]"
    using I(6) [OF assms(2)] cl by auto
  obtain A B g where g: "g = \<lparr>g_client = c, g_action = lin_action c i reply, g_inv = t0, g_at = t, g_res = None\<rparr>"
    "G = A @ g # B" "pending c (A @ g\<lparr>g_res := Some (ls_now s)\<rparr> # B) = []"
    "\<And>d. d \<noteq> c \<Longrightarrow> pending d (A @ g\<lparr>g_res := Some (ls_now s)\<rparr> # B) = pending d G"
    "mset (seen (A @ g\<lparr>g_res := Some (ls_now s)\<rparr> # B)) = add_mset (point_op (g\<lparr>g_res := Some (ls_now s)\<rparr>)) (mset (seen G))"
    using pending_split [OF p, where r = "ls_now s"] by metis
  let ?G = "A @ g\<lparr>g_res := Some (ls_now s)\<rparr> # B"
  show ?thesis
  proof (rule lin_invI [where G = ?G and v = v])
    show "sorted (map g_at ?G)" "legal_run 0 (map g_action ?G) v" using I(1,3) by (simp_all add: g(2))
    show "point_ok (ls_now ?s) x \<and> g_client x < n" if "x \<in> set ?G" for x
      using that I(2) [of x] I(2) [of g] by (auto simp: g(2) set_client_def point_ok_def)
    show "bt_get (svc_store (ls_service ?s)) reg = Some (show_i64 v)" using I(4) by (simp add: set_client_def)
    show "mset (ls_hist ?s) = mset (seen ?G)" using I(5) by (simp add: set_client_def g(5)) (simp add: g(1) point_op_def)
    show "phase_ok (ls_now ?s) d (ls_clients ?s d) ?G \<and> begun (ls_clients ?s d) \<le> ops \<and>
       svc_ready (conn d) (word_of_nat (next_seq (ls_clients ?s d))) (ls_service ?s)" if "d < n" for d
      using g(3,4) I(6) [OF that] cl phase_ok_pending [of d ?G G] by (cases "d = c") (auto simp: set_client_def)
  qed
qed

lemma lin_step_inv:
  assumes "lin_step stamp conn n ops s s'" "lin_inv conn n ops s" "inj_on conn {..<n}" "ops < 2 ^ 63"
  shows "lin_inv conn n ops s'"
  using assms
proof (induction rule: lin_step.induct)
  case (tick s t)
  from tick(2) show ?case
  proof (rule lin_invE)
    fix G v assume I: "sorted (map g_at G)" "\<And>g. g \<in> set G \<Longrightarrow> point_ok (ls_now s) g \<and> g_client g < n"
      "legal_run 0 (map g_action G) v" "bt_get (svc_store (ls_service s)) reg = Some (show_i64 v)" "mset (ls_hist s) = mset (seen G)"
      "\<And>c. c < n \<Longrightarrow> phase_ok (ls_now s) c (ls_clients s c) G \<and> begun (ls_clients s c) \<le> ops \<and>
         svc_ready (conn c) (word_of_nat (next_seq (ls_clients s c))) (ls_service s)"
    have "point_ok t g" if "point_ok (ls_now s) g" for g using that tick(1) by (auto simp: point_ok_def)
    moreover have "phase_ok t c (ls_clients s c) G" if "c < n" for c
      using I(6) [OF that] tick(1) phase_ok_later by blast
    ultimately show ?case using I by (intro lin_invI [where G = G and v = v]) simp_all
  qed
next
  case (invoke c s i)
  from invoke(4) show ?case
  proof (rule lin_invE)
    fix G v assume I: "sorted (map g_at G)" "\<And>g. g \<in> set G \<Longrightarrow> point_ok (ls_now s) g \<and> g_client g < n"
      "legal_run 0 (map g_action G) v" "bt_get (svc_store (ls_service s)) reg = Some (show_i64 v)" "mset (ls_hist s) = mset (seen G)"
      "\<And>c. c < n \<Longrightarrow> phase_ok (ls_now s) c (ls_clients s c) G \<and> begun (ls_clients s c) \<le> ops \<and>
         svc_ready (conn c) (word_of_nat (next_seq (ls_clients s c))) (ls_service s)"
    show ?case
    proof (rule lin_invI [where G = G and v = v])
      fix d assume "d < n"
      then show "phase_ok (ls_now (set_client c \<lparr>lc_index = i, lc_phase = Sent (ls_now s)\<rparr> s)) d
          (ls_clients (set_client c \<lparr>lc_index = i, lc_phase = Sent (ls_now s)\<rparr> s) d) G \<and>
        begun (ls_clients (set_client c \<lparr>lc_index = i, lc_phase = Sent (ls_now s)\<rparr> s) d) \<le> ops \<and>
        svc_ready (conn d) (word_of_nat (next_seq (ls_clients (set_client c \<lparr>lc_index = i, lc_phase = Sent (ls_now s)\<rparr> s) d)))
          (ls_service (set_client c \<lparr>lc_index = i, lc_phase = Sent (ls_now s)\<rparr> s))"
        using I(6) [of d] invoke(1-3) by (cases "d = c") (simp_all add: set_client_def)
    qed (use I(1-5) in \<open>simp_all add: set_client_def\<close>)
  qed
next
  case (serve c s i t0 reply sv)
  then show ?case by (intro serve_inv) auto
next
  case (finish c s i t0 reply)
  then show ?case using finish_inv by blast
qed

lemma show_zero: "show_i64 0 = ascii ''0''"
  by (simp add: show_i64_def dec_digits.simps)

lemma lin_init_inv:
  assumes "\<And>c. c < n \<Longrightarrow> 1 < conn c"
  shows "lin_inv conn n ops (lin_init stamp tick t)"
proof -
  let ?s = "server_start (empty_dir\<lparr>outcomes := []\<rparr>) 1000 False tick"
  have e: "empty_dir\<lparr>outcomes := []\<rparr> = empty_dir" by (simp add: empty_dir_def)
  have id: "srv_conn_id ?s = 1"
    by (simp add: server_start_def svc_start_def engine_create_def durable_open_def sys_create_dir_all_def empty_dir_def
        new_engine_def max_client_def)
  have ready: "svc_ready c 0 (srv_service ?s)" if "1 \<le> c" for c using conn_ready [OF refl, of empty_dir 1000 False tick c] id that by simp
  let ?op = "op_set_bytes 1 1 reg (show_i64 0)"
  obtain sv where a: "svc_apply stamp ?op (srv_service ?s) = (Some (snd (kv_apply (svc_store (srv_service ?s)) ?op)), sv)"
    "svc_store sv = fst (kv_apply (svc_store (srv_service ?s)) ?op)" "svc_ready 1 1 sv"
    using svc_apply_ready [OF ready, of 1 ?op stamp] by (auto simp: op_defs)
  have init: "lin_init stamp tick t =
      \<lparr>ls_now = t, ls_service = sv, ls_clients = (\<lambda>_. \<lparr>lc_index = 0, lc_phase = Idle\<rparr>), ls_hist = []\<rparr>"
    using id a(1) set_turn [of 1 1 0]
    by (simp add: lin_init_def server_accept_def e run_svc_def show_zero kv_apply_def op_defs del: ascii_Cons)
  have "svc_ready c 0 sv" if "1 < c" for c
    using svc_ready_others [OF ready ready a(1)] that by (simp add: op_defs)
  moreover have "bt_get (svc_store sv) reg = Some (show_i64 0)"
    using a(2) ready [of 1] by (simp add: kv_apply_def op_defs bt_simps svc_ready_def)
  ultimately show ?thesis unfolding init
    by (intro lin_invI [where G = "[]" and v = 0]) (simp_all add: assms pending_def seen_def)
qed

lemma lin_run_inv:
  assumes "lin_run stamp conn n ops s" "inj_on conn {..<n}" "\<And>c. c < n \<Longrightarrow> 1 < conn c" "ops < 2 ^ 63"
  shows "lin_inv conn n ops s"
  using assms(1)
proof induction
  case (init tick t)
  then show ?case using lin_init_inv assms(3) by blast
next
  case (step s s')
  then show ?case using lin_step_inv assms(2,4) by blast
qed

lemma lin_inv_linearizable:
  assumes "lin_inv conn n ops s" "all_joined n ops s"
  shows "linearizable (ls_hist s) 0" and "\<forall>x \<in> set (ls_hist s). l_inv x \<le> l_res x"
proof -
  obtain G v where I: "sorted (map g_at G)" "\<And>g. g \<in> set G \<Longrightarrow> point_ok (ls_now s) g \<and> g_client g < n" "legal_run 0 (map g_action G) v"
    "mset (ls_hist s) = mset (seen G)" "\<And>c. c < n \<Longrightarrow> phase_ok (ls_now s) c (ls_clients s c) G"
    using assms(1) by (rule lin_invE) blast
  have "pending c G = []" if "c < n" for c using I(5) [OF that] assms(2) that by (simp add: all_joined_def)
  then have res: "g_res g \<noteq> None" if "g \<in> set G" for g using that I(2) by (auto simp: pending_def filter_empty_conv)
  then have seen: "seen G = map point_op G" by (simp add: seen_def)
  have lt: "g_inv g \<le> g_at g" "g_at g \<le> the (g_res g)" if "g \<in> set G" for g
    using I(2) [OF that] res [OF that] by (auto simp: point_ok_def)
  have "sorted_wrt (\<lambda>a b. \<not> l_res b < l_inv a) (map point_op G)"
    unfolding sorted_wrt_map
  proof (rule sorted_wrt_mono_rel [rotated])
    show "sorted_wrt (\<lambda>a b. g_at a \<le> g_at b) G" using I(1) by (simp add: sorted_map)
    fix a b assume "a \<in> set G" "b \<in> set G" "g_at a \<le> g_at b"
    then have "g_inv a \<le> the (g_res b)" using lt(1) [of a] lt(2) [of b] by (meson order_trans)
    then show "\<not> l_res (point_op b) < l_inv (point_op a)" by (simp add: point_op_def not_less)
  qed
  then show "linearizable (ls_hist s) 0"
    using linearizableI [of "map point_op G" "ls_hist s" 0 v] I(3,4) seen by (simp add: o_def point_op_def)
  have "set (ls_hist s) = point_op ` set G" using I(4) seen by (metis list.set_map mset_eq_setD)
  then show "\<forall>x \<in> set (ls_hist s). l_inv x \<le> l_res x" using lt by (force simp: point_op_def)
qed

section \<open>Every client finishes\<close>

text \<open>The steps a client has left, and all clients together.\<close>

fun client_left :: "nat \<Rightarrow> lin_client \<Rightarrow> nat" where
  "client_left ops \<lparr>lc_index = i, lc_phase = Idle\<rparr> = 3 * (ops - i)"
| "client_left ops \<lparr>lc_index = i, lc_phase = Sent t0\<rparr> = 3 * (ops - i) - 1"
| "client_left ops \<lparr>lc_index = i, lc_phase = Replied t0 reply\<rparr> = 3 * (ops - i) - 2"

definition steps_left :: "nat \<Rightarrow> nat \<Rightarrow> lin_sys \<Rightarrow> nat" where
  "steps_left n ops s = (\<Sum>c<n. client_left ops (ls_clients s c))"

lemma steps_left_update:
  assumes "c < n" "Suc (client_left ops x) = client_left ops (ls_clients s c)" "ls_clients s' = ls_clients s"
  shows "Suc (steps_left n ops (set_client c x s')) = steps_left n ops s"
proof -
  have "(\<Sum>d<n. client_left ops (((ls_clients s)(c := x)) d)) + client_left ops (ls_clients s c) =
      (\<Sum>d<n. client_left ops (ls_clients s d)) + client_left ops x"
    using assms(1) by (simp add: sum.remove [of "{..<n}" c] sum.remove [of "{..<n}" c "\<lambda>d. client_left ops (ls_clients s d)"])
  then show ?thesis using assms(2,3) by (simp add: steps_left_def set_client_def)
qed

lemma steps_left_init: "steps_left n ops (lin_init stamp tick t) = 3 * n * ops"
  by (simp add: steps_left_def lin_init_def split: prod.split)

text \<open>Every step but one of the clock uses up one of them.\<close>

lemma lin_step_left:
  assumes "lin_step stamp conn n ops s s'" "\<And>c. c < n \<Longrightarrow> begun (ls_clients s c) \<le> ops"
  shows "(\<exists>t. s' = s\<lparr>ls_now := t\<rparr>) \<or> Suc (steps_left n ops s') = steps_left n ops s"
  using assms
proof (induction rule: lin_step.induct)
  case (invoke c s i)
  then show ?case by (intro disjI2 steps_left_update) auto
next
  case (serve c s i t0 reply sv)
  then show ?case using serve(4) [OF serve(1)] by (intro disjI2 steps_left_update) auto
next
  case (finish c s i t0 reply)
  then show ?case using finish(4) [OF finish(1)] by (intro disjI2 steps_left_update) auto
qed blast

text \<open>The server answers every request with at least one byte, whether its executor is there or not.\<close>

lemma turn_answers:
  assumes "run_svc stamp (resp_turn conn seq (lin_request c i)) sv = (reply, sv')"
  shows "reply \<noteq> []"
proof -
  have ne: "to_bytes x \<noteq> []" for x by (cases x rule: to_bytes.cases) simp_all
  show ?thesis
  proof (cases "i mod 2 = 0")
    case True
    then show ?thesis using assms ne by (auto simp: lin_request_def set_turn run_svc_def simp del: to_bytes.simps ascii_Cons split: prod.splits)
  next
    case False
    then show ?thesis using assms ne by (auto simp: lin_request_def get_turn run_svc_def simp del: to_bytes.simps ascii_Cons split: prod.splits)
  qed
qed

definition replied :: "lin_sys \<Rightarrow> bool" where
  "replied s \<longleftrightarrow> (\<forall>c i t0 reply. ls_clients s c = \<lparr>lc_index = i, lc_phase = Replied t0 reply\<rparr> \<longrightarrow> reply \<noteq> [])"

lemma lin_run_replied: "lin_run stamp conn n ops s \<Longrightarrow> replied s"
proof (induction rule: lin_run.induct)
  case (init tick t)
  then show ?case by (simp add: replied_def lin_init_def split: prod.split)
next
  case (step s s')
  from step(2,3) show ?case
  proof (induction rule: lin_step.induct)
    case (serve c s i t0 reply sv)
    then show ?case using turn_answers [OF serve(3)] by (auto simp: replied_def set_client_def)
  qed (auto simp: replied_def set_client_def)
qed

lemma lin_step_enabled:
  assumes "steps_left n ops s \<noteq> 0" "replied s"
  shows "\<exists>s'. lin_step stamp conn n ops s s' \<and> ls_clients s' \<noteq> ls_clients s"
proof -
  obtain c where c: "c < n" "client_left ops (ls_clients s c) \<noteq> 0" using assms by (auto simp: steps_left_def)
  obtain i ph where x: "ls_clients s c = \<lparr>lc_index = i, lc_phase = ph\<rparr>" by (cases "ls_clients s c") auto
  have upd: "ls_clients (set_client c y s') \<noteq> ls_clients s" if "ls_clients s' = ls_clients s" "y \<noteq> ls_clients s c" for y s'
    using that by (auto simp: set_client_def fun_upd_idem_iff)
  show ?thesis
  proof (cases ph)
    case Idle
    then show ?thesis using c x lin_step.invoke [of c n s i ops stamp conn] upd by (intro exI conjI) auto
  next
    case (Sent t0)
    obtain reply sv where r: "run_svc stamp (resp_turn (conn c) (word_of_nat (i + 1)) (lin_request c i)) (ls_service s) = (reply, sv)"
      by fastforce
    have "lin_step stamp conn n ops s (set_client c \<lparr>lc_index = i, lc_phase = Replied t0 reply\<rparr> (s\<lparr>ls_service := sv\<rparr>))"
      by (rule lin_step.serve) (use c(1) x Sent r in simp_all)
    then show ?thesis using x Sent upd by (intro exI conjI) auto
  next
    case (Replied t0 reply)
    then have "reply \<noteq> []" using assms(2) x by (auto simp: replied_def)
    then show ?thesis using Replied lin_step.finish [OF c(1), of s i t0 reply stamp conn ops] x upd by (intro exI conjI) auto
  qed
qed

lemma steps_left_joined:
  assumes "lin_inv conn n ops s" "steps_left n ops s = 0"
  shows "all_joined n ops s"
proof -
  have "ls_clients s c = \<lparr>lc_index = ops, lc_phase = Idle\<rparr>" if "c < n" for c
  proof -
    have b: "begun (ls_clients s c) \<le> ops" using assms(1) that by (auto elim: lin_invE)
    have z: "client_left ops (ls_clients s c) = 0" using assms(2) that by (simp add: steps_left_def)
    obtain i ph where x: "ls_clients s c = \<lparr>lc_index = i, lc_phase = ph\<rparr>" by (cases "ls_clients s c") auto
    then show ?thesis using b z by (cases ph) auto
  qed
  then show ?thesis by (simp add: all_joined_def)
qed

lemma lin_run_completes:
  assumes "lin_run stamp conn n ops s" "inj_on conn {..<n}" "\<And>c. c < n \<Longrightarrow> 1 < conn c" "ops < 2 ^ 63"
  shows "\<exists>s'. lin_run stamp conn n ops s' \<and> all_joined n ops s'"
  using assms(1)
proof (induction "steps_left n ops s" arbitrary: s)
  case 0
  then show ?case using steps_left_joined lin_run_inv [OF _ assms(2-4)] by metis
next
  case (Suc k)
  then obtain s' where s': "lin_step stamp conn n ops s s'" "ls_clients s' \<noteq> ls_clients s"
    using lin_step_enabled [of n ops s stamp conn] lin_run_replied [OF Suc(3)] by auto
  have "\<And>c. c < n \<Longrightarrow> begun (ls_clients s c) \<le> ops" using lin_run_inv [OF Suc(3) assms(2-4)] by (auto elim: lin_invE)
  then have "Suc (steps_left n ops s') = steps_left n ops s" using lin_step_left [OF s'(1)] s'(2) by auto
  then show ?case using Suc(1) [of s'] Suc(2) lin_run.step [OF Suc(3) s'(1)] by simp
qed

end
