(* ===== verification/OB_System.thy ===== *)
theory OB_System
  imports OB_Service
begin

text \<open>
  A whole server over time: connections accepted one after the other, their handler threads interleaved
  at every operation on the executor, the process killed at any point and started again on the files it
  left. The trace of such a run records the operations with the answers the handlers got. The invariant
  shows that orderly runs are durably linearizable: the answered operations, and of the unanswered ones some,
  form one sequential history of the plain store that explains every answer, before and after crashes.
\<close>

section \<open>The server as a step relation\<close>

text \<open>
  A running server with the programs its connection threads have yet to run, or the directory a killed
  process left behind.
\<close>

datatype 'a sys = Running server "u32 \<Rightarrow> 'a prog option" | Stopped directory

datatype sys_event = Accepted u32 | Did op "op_output option" | Crashed | Started

definition sv_outcomes :: "outcome list \<Rightarrow> service \<Rightarrow> service" where
  "sv_outcomes os sv = sv\<lparr>sv_engine := set_outcomes os (sv_engine sv)\<rparr>"

definition files_of :: "server \<Rightarrow> directory" where
  "files_of s = d_dir (e_dur (sv_engine (srv_service s)))"

text \<open>
  What a run admits: the handlers that connections run, the operations they issue, and the outcomes of
  the system calls. The code checks none of this. A run is \<open>orderly\<close> when every handler numbers its operations
  upwards, as all of them do but for a \<open>DEL\<close> of several keys, every operation fits the record format,
  and no write is left half done, so that the log always ends in a complete record.
\<close>

record 'a scope =
  handler_ok :: "u32 \<Rightarrow> 'a prog \<Rightarrow> bool"
  op_ok :: "op \<Rightarrow> bool"
  io_ok :: "outcome list \<Rightarrow> bool"

definition orderly :: "'a scope" where
  "orderly = \<lparr>handler_ok = (\<lambda>c p. numbered c p 0), op_ok = op_logs, io_ok = whole_writes\<rparr>"

definition unrestricted :: "'a scope" where
  "unrestricted = \<lparr>handler_ok = (\<lambda>_ _. True), op_ok = (\<lambda>_. True), io_ok = (\<lambda>_. True)\<rparr>"

lemma scope_simps [simp]:
  "handler_ok orderly c p \<longleftrightarrow> numbered c p 0" "op_ok orderly op \<longleftrightarrow> op_logs op" "io_ok orderly os \<longleftrightarrow> whole_writes os"
  "handler_ok unrestricted c p" "op_ok unrestricted op" "io_ok unrestricted os"
  by (simp_all add: orderly_def unrestricted_def)

text \<open>
  One step. One job of the executor is one step: its sender is blocked until the answer comes, and jobs
  are taken one at a time. A reply is written or fails to be. The outcomes of the job's system calls are
  chosen freely among those admitted. Killing loses the threads and keeps the files. A server whose engine
  cannot be started runs with its executor gone.
\<close>

inductive sys_step :: "'a scope \<Rightarrow> (u64 \<Rightarrow> u64) \<Rightarrow> u64 \<Rightarrow> bool \<Rightarrow> 'a sys \<Rightarrow> sys_event list \<Rightarrow> 'a sys \<Rightarrow> bool"
  for sc stamp interval fsync where
  accept: "server_accept s = (c, s') \<Longrightarrow> handler_ok sc c p \<Longrightarrow>
     sys_step sc stamp interval fsync (Running s cs) [Accepted c] (Running s' (cs(c \<mapsto> p)))"
| job: "cs c = Some (Apply op k) \<Longrightarrow> op_ok sc op \<Longrightarrow> io_ok sc os \<Longrightarrow>
     svc_apply stamp op (sv_outcomes os (srv_service s)) = (r, sv) \<Longrightarrow>
     sys_step sc stamp interval fsync (Running s cs) [Did op r] (Running (s\<lparr>srv_service := sv\<rparr>) (cs(c \<mapsto> k r)))"
| count: "cs c = Some (Length k) \<Longrightarrow>
     sys_step sc stamp interval fsync (Running s cs) [] (Running s (cs(c \<mapsto> k (svc_len (srv_service s)))))"
| reply: "cs c = Some (Reply b k) \<Longrightarrow>
     sys_step sc stamp interval fsync (Running s cs) [] (Running s (cs(c \<mapsto> k w)))"
| close: "cs c = Some (Return x) \<Longrightarrow>
     sys_step sc stamp interval fsync (Running s cs) [] (Running s (cs(c := None)))"
| kill: "sys_step sc stamp interval fsync (Running s cs) [Crashed] (Stopped (files_of s))"
| start: "io_ok sc os \<Longrightarrow>
     sys_step sc stamp interval fsync (Stopped w) [Started]
       (Running (server_start (w\<lparr>outcomes := os\<rparr>) interval fsync tick) (\<lambda>_. None))"

inductive sys_run :: "'a scope \<Rightarrow> (u64 \<Rightarrow> u64) \<Rightarrow> u64 \<Rightarrow> bool \<Rightarrow> sys_event list \<Rightarrow> 'a sys \<Rightarrow> bool"
  for sc stamp interval fsync where
  begin_empty: "sys_run sc stamp interval fsync [] (Stopped empty_dir)"
| extend: "sys_run sc stamp interval fsync tr n \<Longrightarrow> sys_step sc stamp interval fsync n new n' \<Longrightarrow>
     sys_run sc stamp interval fsync (tr @ new) n'"

inductive_cases sys_step_RunningE: "sys_step sc stamp interval fsync (Running s cs) new n'"
inductive_cases sys_step_StoppedE: "sys_step sc stamp interval fsync (Stopped w) new n'"

section \<open>Durable linearizability\<close>

text \<open>What the plain store holds after a sequence of operations.\<close>

definition play :: "op list \<Rightarrow> kv_store" where
  "play ops = foldl (\<lambda>m op. fst (kv_apply m op)) [] ops"

text \<open>
  A sequential history explains a trace when it holds the answered operations in the order of their
  answers, each with the answer the plain store gives at that point, and of the unanswered operations
  some, each in its place.
\<close>

inductive explains :: "op list \<Rightarrow> sys_event list \<Rightarrow> bool" where
  empty: "explains [] []"
| answered: "explains ops tr \<Longrightarrow> out = snd (kv_apply (play ops) op) \<Longrightarrow> explains (ops @ [op]) (tr @ [Did op (Some out)])"
| survived: "explains ops tr \<Longrightarrow> explains (ops @ [op]) (tr @ [Did op None])"
| lost: "explains ops tr \<Longrightarrow> explains ops (tr @ [Did op None])"
| other: "explains ops tr \<Longrightarrow> ev = Crashed \<or> ev = Started \<or> ev = Accepted c \<Longrightarrow> explains ops (tr @ [ev])"

definition accepts :: "sys_event list \<Rightarrow> nat" where
  "accepts tr = length (filter (\<lambda>ev. \<exists>c. ev = Accepted c) tr)"

definition trace_ops :: "sys_event list \<Rightarrow> op list" where
  "trace_ops tr = List.map_filter (\<lambda>ev. case ev of Did op _ \<Rightarrow> Some op | _ \<Rightarrow> None) tr"

definition trace_bytes :: "sys_event list \<Rightarrow> nat" where
  "trace_bytes tr = log_bytes (map (Pair 0) (trace_ops tr))"

lemma accepts_simps [simp]:
  "accepts [] = 0" "accepts (tr @ tr') = accepts tr + accepts tr'" "accepts [Accepted c] = 1"
  "accepts [Did op r] = 0" "accepts [Crashed] = 0" "accepts [Started] = 0"
  by (simp_all add: accepts_def)

lemma trace_ops_simps [simp]:
  "trace_ops [] = []" "trace_ops (tr @ tr') = trace_ops tr @ trace_ops tr'" "trace_ops [Accepted c] = []"
  "trace_ops [Did op r] = [op]" "trace_ops [Crashed] = []" "trace_ops [Started] = []"
  by (simp_all add: trace_ops_def List.map_filter_def)

lemma log_bytes_simps [simp]:
  "log_bytes [] = 0" "log_bytes (h @ h') = log_bytes h + log_bytes h'"
  by (simp_all add: log_bytes_def)

lemma log_bytes_stamp: "log_bytes (map (Pair t) ops) = log_bytes (map (Pair t') ops)"
  by (induction ops) (simp_all add: log_bytes_def length_log_record)

lemma log_bytes_ops: "log_bytes h = log_bytes (map (Pair 0) (map snd h))"
  by (induction h) (simp_all add: log_bytes_def length_log_record)

lemma trace_bytes_append: "trace_bytes (tr @ tr') = trace_bytes tr + trace_bytes tr'"
  by (simp add: trace_bytes_def)

lemma play_snoc: "play (ops @ [op]) = fst (kv_apply (play ops) op)"
  by (simp add: play_def)

lemma explains_ops: "explains ops tr \<Longrightarrow> set ops \<subseteq> set (trace_ops tr) \<and>
    log_bytes (map (Pair 0) ops) \<le> trace_bytes tr"
  by (induction rule: explains.induct) (auto simp: trace_bytes_append, auto simp: trace_bytes_def log_bytes_def)

lemmas accept_orderly = sys_step.accept [where sc = orderly, unfolded scope_simps]

lemmas job_orderly = sys_step.job [where sc = orderly, unfolded scope_simps]

lemmas start_orderly = sys_step.start [where sc = orderly, unfolded scope_simps]

text \<open>What an orderly run does, the code can do.\<close>

lemma sys_step_unrestricted: "sys_step sc stamp interval fsync n new n' \<Longrightarrow> sys_step unrestricted stamp interval fsync n new n'"
  by (induction rule: sys_step.induct) (auto intro: sys_step.intros)

section \<open>The invariant\<close>

text \<open>
  The core that a history in which every operation takes effect leads to. Timestamps are part of the
  core and of the history, and do not matter to the store.
\<close>

definition core_of :: "sys_event list \<Rightarrow> kv_store core \<Rightarrow> bool" where
  "core_of tr c \<longleftrightarrow> (\<exists>h. explains (map snd h) tr \<and> effective (map snd h) = map snd h \<and>
     (\<forall>x \<in> set h. wf_op (snd x) \<and> unat (op_client (snd x)) \<le> accepts tr) \<and> c = run_core kv_sm (init_core kv_sm) h)"

lemma core_of_init: "core_of [] (init_core kv_sm)"
  by (auto simp: core_of_def effective_def intro!: exI [of _ "[]"] explains.empty)

text \<open>The consequences of \<open>core_of\<close> that the steps use.\<close>

lemma core_ofD:
  assumes "core_of tr c"
  shows "\<exists>ops. explains ops tr \<and> fst c = play ops" and "bt_wf (fst (snd c))"
    and "kv_bounded (trace_bytes tr) c"
    and "c' \<in> fst ` set (fst (snd c)) \<Longrightarrow> unat c' \<le> accepts tr"
proof -
  obtain h where h: "explains (map snd h) tr" "effective (map snd h) = map snd h"
    "\<forall>x \<in> set h. wf_op (snd x) \<and> unat (op_client (snd x)) \<le> accepts tr" "c = run_core kv_sm (init_core kv_sm) h"
    using assms by (auto simp: core_of_def)
  show "\<exists>ops. explains ops tr \<and> fst c = play ops"
    using h(1,2,4) run_effective [of kv_sm h] by (auto simp: play_def)
  have b: "kv_bounded (log_bytes h) c" using kv_bounded_run [of h] h(3,4) by (simp add: list_all_iff)
  then show "bt_wf (fst (snd c))" by (simp add: kv_bounded_def)
  show "kv_bounded (trace_bytes tr) c"
    using b explains_ops [OF h(1)] log_bytes_ops [of h] by (simp add: kv_bounded_def)
  have keys: "fst ` set (fst (snd (run_core kv_sm (init_core kv_sm) g))) \<subseteq> op_client ` snd ` set g" for g
  proof (induction g rule: rev_induct)
    case (snoc x g)
    obtain s m t where r: "run_core kv_sm (init_core kv_sm) g = (s, m, t)" by (cases "run_core kv_sm (init_core kv_sm) g")
    then show ?case using snoc by (cases x) (auto simp: bt_insert_keys)
  qed (simp add: init_core_def)
  show "unat c' \<le> accepts tr" if "c' \<in> fst ` set (fst (snd c))"
    using keys [of h] that h(3,4) by fastforce
qed

lemma core_of_other:
  assumes "core_of tr c" "ev = Crashed \<or> ev = Started \<or> ev = Accepted a"
  shows "core_of (tr @ [ev]) c"
proof -
  obtain h where h: "explains (map snd h) tr" "effective (map snd h) = map snd h"
    "\<forall>x \<in> set h. wf_op (snd x) \<and> unat (op_client (snd x)) \<le> accepts tr" "c = run_core kv_sm (init_core kv_sm) h"
    using assms(1) by (auto simp: core_of_def)
  have "\<forall>x \<in> set h. wf_op (snd x) \<and> unat (op_client (snd x)) \<le> accepts (tr @ [ev])" using h(3) by (auto simp: trans_le_add1)
  then show ?thesis unfolding core_of_def
    using h explains.other [OF h(1) assms(2)] by (intro exI [of _ h]) simp
qed

lemma core_of_lost: "core_of tr c \<Longrightarrow> core_of (tr @ [Did op None]) c"
  unfolding core_of_def by (auto intro: explains.lost)

lemma core_of_step:
  assumes "core_of tr c" "wf_op op" "unat (op_client op) \<le> accepts tr" "\<not> op_seq op \<le> hw_get (fst (snd c)) (op_client op)"
    and "r = None \<or> r = Some (snd (kv_apply (fst c) op))"
  shows "core_of (tr @ [Did op r]) (core_step kv_sm c (ts, op))"
proof -
  obtain h where h: "explains (map snd h) tr" "effective (map snd h) = map snd h"
    "\<forall>x \<in> set h. wf_op (snd x) \<and> unat (op_client (snd x)) \<le> accepts tr" "c = run_core kv_sm (init_core kv_sm) h"
    using assms(1) by (auto simp: core_of_def)
  have state: "fst c = play (map snd h)" using h(2,4) run_effective [of kv_sm h] by (simp add: play_def)
  have "marks_of (map snd h) (fst (snd c))"
    using run_marks [of kv_sm h] h(4) by (cases "run_core kv_sm (init_core kv_sm) h") simp
  then have "new_at (map snd h @ [op]) (length (map snd h))" using new_at_mark assms(4) by blast
  then have "effective (map snd (h @ [(ts, op)])) = map snd (h @ [(ts, op)])" using h(2) by (simp add: effective_snoc)
  moreover have "explains (map snd (h @ [(ts, op)])) (tr @ [Did op r])"
    using explains.survived [OF h(1)] explains.answered [OF h(1) refl] assms(5) state by auto
  ultimately show ?thesis unfolding core_of_def using h(3,4) assms(2,3) by (intro exI [of _ "h @ [(ts, op)]"]) simp
qed

text \<open>
  The engine of a server whose executor runs: memory and files agree, and hold what the trace explains.
\<close>

definition engine_inv :: "sys_event list \<Rightarrow> kv_store engine \<Rightarrow> bool" where
  "engine_inv tr e \<longleftrightarrow> core_of tr (core e) \<and> recovered kv_sm (e_dur e) = core e \<and> dur_clean (e_dur e)"

text \<open>The files alone, after a failure or a crash.\<close>

definition disk_inv :: "sys_event list \<Rightarrow> durable \<Rightarrow> bool" where
  "disk_inv tr d \<longleftrightarrow> core_of tr (recovered kv_sm d) \<and> dur_clean d"

text \<open>The threads: every connection is below the next number and has yet to use the numbers its program will use.\<close>

definition conns_inv :: "server \<Rightarrow> (u32 \<Rightarrow> 'a prog option) \<Rightarrow> bool" where
  "conns_inv s cs \<longleftrightarrow> (let m = e_applied (sv_engine (srv_service s)) in
     (\<forall>c p. cs c = Some p \<longrightarrow> c < srv_conn_id s \<and> (\<exists>q. numbered c p q \<and> hw_get m c \<le> q)) \<and>
     (\<forall>c. srv_conn_id s \<le> c \<longrightarrow> hw_get m c = 0))"

fun sys_inv :: "sys_event list \<Rightarrow> 'a sys \<Rightarrow> bool" where
  "sys_inv tr (Stopped w) \<longleftrightarrow> disk_inv tr (as_dur w)"
| "sys_inv tr (Running s cs) \<longleftrightarrow>
     (if sv_alive (srv_service s) then engine_inv tr (sv_engine (srv_service s)) \<and> conns_inv s cs
      else disk_inv tr (e_dur (sv_engine (srv_service s)))) \<and> unat (srv_conn_id s) \<le> accepts tr + 1"

lemma engine_inv_disk: "engine_inv tr e \<Longrightarrow> disk_inv tr (e_dur e)"
  by (simp add: engine_inv_def disk_inv_def)

lemma disk_inv_files:
  "f_snapshot (d_dir d') = f_snapshot (d_dir d) \<Longrightarrow> f_oplog (d_dir d') = f_oplog (d_dir d) \<Longrightarrow> disk_inv tr d' = disk_inv tr d"
  by (simp add: disk_inv_def recovered_def dur_snap_def dur_records_def dur_clean_def)

section \<open>A job keeps it\<close>

lemma deliver_whole_clean:
  assumes "deliver kv_sm ts op (set_outcomes os e) = (res, e')" "dur_clean (e_dur e)" "whole_writes os" "op_logs op"
  shows "dur_clean (e_dur e')"
  using assms(1)
proof (cases rule: deliverE)
  case dup
  then show ?thesis using assms(2) by simp
next
  case (fresh sn r)
  have "dur_whole (e_dur (set_outcomes os e))" using assms(3) by (simp add: dur_whole_def set_outcomes_def)
  then show ?thesis using ds.persist_clean [OF _ _ op_logsD(1) [OF assms(4)] fresh(3)] assms(2) by simp
qed

lemma deliver_job:
  assumes inv: "engine_inv tr e" and d: "deliver kv_sm ts op (set_outcomes os e) = (res, e')"
    and op: "op_logs op" "\<not> op_seq op \<le> hw_get (e_applied e) (op_client op)" "unat (op_client op) \<le> accepts tr"
    and "whole_writes os" and bytes: "trace_bytes (tr @ [Did op r]) + 4 < 2 ^ 32"
    and r: "r = (case res of Inl _ \<Rightarrow> None | Inr out \<Rightarrow> Some out)"
  shows "disk_inv (tr @ [Did op r]) (e_dur e')" and "res = Inr out \<Longrightarrow> engine_inv (tr @ [Did op r]) e'"
    and "core e' = core_step kv_sm (core e) (ts, op)"
proof -
  let ?e = "set_outcomes os e" and ?c = "core_step kv_sm (core e) (ts, op)"
  have I: "core_of tr (core e)" "recovered kv_sm (e_dur e) = core e" "dur_clean (e_dur e)"
    using inv by (simp_all add: engine_inv_def)
  have wf: "wf_op op" using op(1) by (simp add: op_logs_def)
  have "trace_bytes tr + length (log_record (ts, encode op)) + 4 < 2 ^ 32"
    using bytes by (simp add: trace_bytes_append) (simp add: trace_bytes_def log_bytes_def length_log_record)
  then have fits: "snap_fits kv_good e'" using kv_deliver_fits [OF core_ofD(3) [OF I(1)] wf _ d] by simp
  have cov: "covered (e_applied ?e) (dur_records (e_dur ?e))" "bt_wf (e_applied ?e)"
    using recovered_hw [of kv_sm "e_dur e"] I(2) by (simp_all add: core_applied)
  have f: "core e' = ?c" "recovered kv_sm (e_dur e') \<in> {core e, ?c}"
    "\<And>out. res = Inr out \<Longrightarrow> recovered kv_sm (e_dur e') = ?c"
    using kv.deliver_files [OF d _ _ op(1) fits cov(2,1)] op(2) I(2,3) by auto
  show "core e' = ?c" by (fact f(1))
  have clean: "dur_clean (e_dur e')" by (rule deliver_whole_clean [OF d I(3) assms(6) op(1)])
  have new: "\<not> op_seq op \<le> hw_get (fst (snd (core e))) (op_client op)" using op(2) by (simp add: core_def)
  have "res = Inr out \<Longrightarrow> out = snd (kv_apply (fst (core e)) op)" for out
    using d op(2) by (cases rule: deliverE) (auto simp: core_def split: sum.splits)
  then have step: "core_of (tr @ [Did op r]) ?c"
    using core_of_step [OF I(1) wf op(3) new, of r ts] r by (cases res) auto
  show "disk_inv (tr @ [Did op r]) (e_dur e')"
    using f(2,3) step core_of_lost [OF I(1), of op] r clean by (cases res) (auto simp: disk_inv_def)
  show "engine_inv (tr @ [Did op r]) e'" if "res = Inr out"
    using f(1,3) that step clean by (simp add: engine_inv_def)
qed

lemma sv_outcomes_simps [simp]:
  "sv_alive (sv_outcomes os sv) = sv_alive sv" "sv_clock (sv_outcomes os sv) = sv_clock sv"
  "sv_tick (sv_outcomes os sv) = sv_tick sv" "sv_engine (sv_outcomes os sv) = set_outcomes os (sv_engine sv)"
  by (simp_all add: sv_outcomes_def)

lemma set_outcomes_files [simp]:
  "f_snapshot (d_dir (e_dur (set_outcomes os e))) = f_snapshot (d_dir (e_dur e))"
  "f_oplog (d_dir (e_dur (set_outcomes os e))) = f_oplog (d_dir (e_dur e))"
  by (simp_all add: set_outcomes_def)

lemma conns_inv_step:
  assumes "conns_inv s cs" "cs c = Some (Apply op k)" "op_client op = c"
    and "core (sv_engine sv) = core_step kv_sm (core (sv_engine (srv_service s))) (ts, op)"
    and "bt_wf (e_applied (sv_engine (srv_service s)))" "\<not> op_seq op \<le> hw_get (e_applied (sv_engine (srv_service s))) c"
  shows "conns_inv (s\<lparr>srv_service := sv\<rparr>) (cs(c \<mapsto> k r))"
proof -
  let ?m = "e_applied (sv_engine (srv_service s))"
  have "e_applied (sv_engine sv) = bt_insert c (op_seq op) ?m" using assms(3,4,6) by (simp add: core_def)
  then have hw: "hw_get (e_applied (sv_engine sv)) c' = (if c' = c then op_seq op else hw_get ?m c')" for c'
    using hw_get_insert [OF assms(5)] by simp
  have C: "\<And>c' p. cs c' = Some p \<Longrightarrow> c' < srv_conn_id s \<and> (\<exists>q. numbered c' p q \<and> hw_get ?m c' \<le> q)"
    "\<And>c'. srv_conn_id s \<le> c' \<Longrightarrow> hw_get ?m c' = 0" using assms(1) by (simp_all add: conns_inv_def Let_def)
  have "c < srv_conn_id s" "numbered c (k r) (op_seq op)" using C(1) [OF assms(2)] by auto
  then show ?thesis using C by (auto simp: conns_inv_def Let_def hw)
qed

lemma job_inv:
  assumes inv: "sys_inv tr (Running s cs)" and c: "cs c = Some (Apply op k)" "op_logs op" "whole_writes os"
    and a: "svc_apply stamp op (sv_outcomes os (srv_service s)) = (r, sv)"
    and bounds: "trace_bytes (tr @ [Did op r]) + 4 < 2 ^ 32"
  shows "sys_inv (tr @ [Did op r]) (Running (s\<lparr>srv_service := sv\<rparr>) (cs(c \<mapsto> k r)))"
proof (cases "sv_alive (srv_service s)")
  case False
  then have r: "r = None" "sv = sv_outcomes os (srv_service s)" using a by (simp_all add: svc_apply_def)
  have "disk_inv (tr @ [Did op None]) (e_dur (sv_engine (srv_service s)))"
    using inv False core_of_lost by (auto simp: disk_inv_def)
  moreover have "disk_inv tr' (e_dur (sv_engine sv)) = disk_inv tr' (e_dur (sv_engine (srv_service s)))" for tr'
    by (rule disk_inv_files) (simp_all add: r(2))
  ultimately show ?thesis using False inv r by simp
next
  case True
  let ?e = "sv_engine (srv_service s)"
  have I: "engine_inv tr ?e" "conns_inv s cs" "unat (srv_conn_id s) \<le> accepts tr + 1" using inv True by simp_all
  then obtain q where q: "c < srv_conn_id s" "op_client op = c" "q < op_seq op" "hw_get (e_applied ?e) c \<le> q"
    using c(1) by (fastforce simp: conns_inv_def Let_def)
  have new: "\<not> op_seq op \<le> hw_get (e_applied ?e) (op_client op)" using q by (simp add: not_le)
  have client: "unat (op_client op) \<le> accepts tr" using q(1,2) I(3) by (simp add: word_less_nat_alt)
  define ts where "ts = stamp (max (sv_clock (srv_service s) + 1) (sv_tick (srv_service s)))"
  obtain res e' where d: "deliver kv_sm ts op (set_outcomes os ?e) = (res, e')" by (cases "deliver kv_sm ts op (set_outcomes os ?e)")
  have sv: "r = (case res of Inl _ \<Rightarrow> None | Inr out \<Rightarrow> Some out)" "sv_engine sv = e'" "sv_alive sv = (\<exists>out. res = Inr out)"
    using a d True by (auto simp: svc_apply_def svc_execute_def Let_def ts_def split: sum.splits)
  note job = deliver_job [OF I(1) d c(2) new client c(3) bounds sv(1)]
  show ?thesis
  proof (cases res)
    case (Inl err)
    then show ?thesis using job(1) I(3) sv by simp
  next
    case (Inr out)
    have wf: "bt_wf (e_applied ?e)" using core_ofD(2) [of tr "core ?e"] I(1) by (simp add: engine_inv_def core_applied)
    have "conns_inv (s\<lparr>srv_service := sv\<rparr>) (cs(c \<mapsto> k r))"
      using conns_inv_step [OF I(2) c(1) q(2) _ wf, of sv ts r] job(3) sv(2) new q(2) by simp
    then show ?thesis using job(2) [OF Inr] I(3) sv Inr by simp
  qed
qed

section \<open>Starting keeps it\<close>

lemma max_client_mem: "max_client e = 0 \<or> max_client e \<in> fst ` set (e_applied e)"
proof -
  have "fold (\<lambda>p m. max (fst p) m) xs a = a \<or> fold (\<lambda>p m. max (fst p) m) xs a \<in> fst ` set xs" for xs :: hw_map and a
  proof (induction xs arbitrary: a)
    case (Cons p xs)
    have "max (fst p) a = a \<or> max (fst p) a = fst p" by (simp add: max_def)
    then show ?case using Cons [of "max (fst p) a"] by (simp only: fold_simps list.set image_insert insert_iff) metis
  qed simp
  then show ?thesis by (simp add: max_client_def)
qed

lemma engine_start:
  assumes "disk_inv tr (as_dur w)"
    and e: "(if f_snapshot w \<noteq> None \<or> f_oplog w \<noteq> None then engine_recover kv_sm (w\<lparr>outcomes := os\<rparr>) interval fsync
      else engine_create kv_sm (w\<lparr>outcomes := os\<rparr>) interval fsync) = (res, e)"
  shows "disk_inv tr (e_dur e)" and "res = Inr () \<Longrightarrow> engine_inv tr e"
proof -
  let ?d = "\<lparr>d_fsync = fsync, d_log = False, d_dir = w\<lparr>outcomes := os\<rparr>\<rparr>"
  have base: "disk_inv tr ?d"
    using assms(1) disk_inv_files [of ?d "as_dur w"] by (simp add: as_dur_def)
  have "same_files ?d (e_dur e) \<and> (res = Inr () \<longrightarrow> core e = recovered kv_sm ?d)"
  proof (cases "f_snapshot w \<noteq> None \<or> f_oplog w \<noteq> None")
    case True
    then have r: "engine_recover kv_sm (w\<lparr>outcomes := os\<rparr>) interval fsync = (res, e)" using e by simp
    show ?thesis using engine_recover_cases [OF r refl] by blast
  next
    case False
    then obtain r d1 where o: "durable_open (w\<lparr>outcomes := os\<rparr>) fsync = (r, d1)" "e = new_engine kv_sm d1 interval"
      using e by (auto simp: engine_create_def split: prod.splits)
    have "same_files ?d d1" using o(1) by (auto simp: durable_open_def sys_create_dir_all_def dest: syscall_same)
    moreover have "recovered kv_sm ?d = init_core kv_sm"
      using False by (simp add: recovered_def dur_snap_def dur_records_def load_core_def file_bytes_def)
    ultimately show ?thesis using o(2) by (simp add: new_engine_def flip: core_new [of _ d1 interval])
  qed
  then have s: "same_files ?d (e_dur e)" "res = Inr () \<Longrightarrow> core e = recovered kv_sm ?d" by simp_all
  show "disk_inv tr (e_dur e)"
    using base disk_inv_files [of "e_dur e" ?d] s(1) by (simp add: same_files_def)
  then show "engine_inv tr e" if "res = Inr ()"
    using s(2) [OF that] recovered_same [OF s(1), of kv_sm] by (simp add: engine_inv_def disk_inv_def)
qed

lemma start_inv:
  assumes "disk_inv tr (as_dur w)" "accepts tr + 1 < 2 ^ 32"
  shows "sys_inv tr (Running (server_start (w\<lparr>outcomes := os\<rparr>) interval fsync tick) (\<lambda>_. None))"
proof -
  obtain res e where e: "(if f_snapshot w \<noteq> None \<or> f_oplog w \<noteq> None then engine_recover kv_sm (w\<lparr>outcomes := os\<rparr>) interval fsync
      else engine_create kv_sm (w\<lparr>outcomes := os\<rparr>) interval fsync) = (res, e)" by fastforce
  note i = engine_start [OF assms(1) e]
  show ?thesis
  proof (cases res)
    case (Inl err)
    then show ?thesis using i(1) e by (simp add: server_start_def svc_start_def)
  next
    case (Inr u)
    then have inv: "engine_inv tr e" using i(2) by simp
    then have m: "unat (max_client e) \<le> accepts tr"
      using max_client_mem [of e] core_ofD(4) [of tr "core e" "max_client e"] by (auto simp: engine_inv_def core_applied)
    then have u: "unat (max_client e + 1) = unat (max_client e) + 1"
      using assms(2) unat_add_lem [of "max_client e" 1] by simp
    then have "max_client e < c" if "max_client e + 1 \<le> c" for c using that by (simp add: word_le_nat_alt word_less_nat_alt)
    then have "conns_inv \<lparr>srv_service = \<lparr>sv_engine = e, sv_alive = True, sv_clock = e_last_ts e + 1, sv_tick = tick\<rparr>,
        srv_conn_id = max_client e + 1\<rparr> (\<lambda>_. None)"
      using hw_above_max_client by (auto simp: conns_inv_def)
    then show ?thesis using Inr e inv m u by (simp add: server_start_def svc_start_def)
  qed
qed

section \<open>Every run keeps it\<close>

lemma accept_inv:
  assumes "sys_inv tr (Running s cs)" "server_accept s = (c, s')" "numbered c p 0" "accepts tr + 2 < 2 ^ 32"
  shows "sys_inv (tr @ [Accepted c]) (Running s' (cs(c \<mapsto> p)))"
proof -
  have s': "c = srv_conn_id s" "s' = s\<lparr>srv_conn_id := c + 1\<rparr>" using assms(2) by (auto simp: server_accept_def)
  have b: "unat c \<le> accepts tr + 1" using assms(1) s'(1) by simp
  then have u: "unat (c + 1) = unat c + 1" using assms(4) unat_add_lem [of c 1] by simp
  have lt: "c < c + 1" "\<And>c'. c + 1 \<le> c' \<Longrightarrow> c \<le> c'" "\<And>c'. c' < c \<Longrightarrow> c' < c + 1"
    using u by (simp_all add: word_le_nat_alt word_less_nat_alt)
  have conns: "conns_inv s' (cs(c \<mapsto> p))" if "conns_inv s cs"
    using that assms(3) lt by (auto simp: conns_inv_def Let_def s' intro!: exI [of _ 0])
  have "engine_inv tr e \<Longrightarrow> engine_inv (tr @ [Accepted c]) e" "disk_inv tr d \<Longrightarrow> disk_inv (tr @ [Accepted c]) d" for e d
    using core_of_other by (auto simp: engine_inv_def disk_inv_def)
  then show ?thesis using assms(1) conns u b by (simp add: s')
qed

lemma sys_step_inv:
  assumes "sys_step orderly stamp interval fsync n new n'" "sys_inv tr n"
    and "trace_bytes (tr @ new) + 4 < 2 ^ 32" "accepts (tr @ new) + 1 < 2 ^ 32"
  shows "sys_inv (tr @ new) n'"
  using assms
proof (induction rule: sys_step.induct)
  case (accept s c s' p cs)
  then show ?case using accept_inv [OF accept(3,1)] accept(2) by simp
next
  case (job cs c op k os s r sv)
  then show ?case using job_inv [OF job(5,1) _ _ job(4)] job(2,3) by simp
next
  case (count cs c k s)
  have "conns_inv s (cs(c \<mapsto> k n))" if "conns_inv s cs" for n
  proof -
    have "\<exists>q. numbered c (Length k) q \<and> hw_get (e_applied (sv_engine (srv_service s))) c \<le> q"
      using that count(1) unfolding conns_inv_def Let_def by blast
    then show ?thesis using that count(1) by (auto simp: conns_inv_def Let_def)
  qed
  then show ?case using count by simp
next
  case (reply cs c b k s w)
  have "conns_inv s (cs(c \<mapsto> k w))" if "conns_inv s cs"
  proof -
    have "\<exists>q. numbered c (Reply b k) q \<and> hw_get (e_applied (sv_engine (srv_service s))) c \<le> q"
      using that reply(1) unfolding conns_inv_def Let_def by blast
    then show ?thesis using that reply(1) by (auto simp: conns_inv_def Let_def)
  qed
  then show ?case using reply by simp
next
  case (close cs c x s)
  then show ?case by (auto simp: conns_inv_def Let_def)
next
  case (kill s cs)
  have "disk_inv tr (e_dur (sv_engine (srv_service s)))" using kill(1) engine_inv_disk by (auto split: if_splits)
  then have "disk_inv tr (as_dur (files_of s))"
    using disk_inv_files [of "as_dur (files_of s)" "e_dur (sv_engine (srv_service s))"] by (simp add: as_dur_def files_of_def)
  then show ?case using core_of_other by (auto simp: disk_inv_def)
next
  case (start os w tick)
  then have "disk_inv (tr @ [Started]) (as_dur w)" using core_of_other by (auto simp: disk_inv_def)
  then show ?case using start_inv start(4) by blast
qed

lemma disk_inv_empty: "disk_inv [] (as_dur empty_dir)"
  using core_of_init
  by (simp add: disk_inv_def recovered_def dur_snap_def dur_records_def dur_clean_def load_core_def file_bytes_def
      as_dur_def empty_dir_def)

lemma sys_run_inv:
  assumes "sys_run orderly stamp interval fsync tr n" "trace_bytes tr + 4 < 2 ^ 32" "accepts tr + 1 < 2 ^ 32"
  shows "sys_inv tr n"
  using assms
proof (induction rule: sys_run.induct)
  case begin_empty
  then show ?case using disk_inv_empty by simp
next
  case (extend tr n new n')
  then have "sys_inv tr n" by (simp add: trace_bytes_append)
  then show ?case using sys_step_inv [OF extend(2)] extend by blast
qed

text \<open>What the invariant says of the store: a running executor's, and what starting again would bring back.\<close>

lemma sys_inv_store:
  "sys_inv tr (Running s cs) \<Longrightarrow> sv_alive (srv_service s) \<Longrightarrow> \<exists>ops. explains ops tr \<and> svc_store (srv_service s) = play ops"
  "sys_inv tr (Stopped w) \<Longrightarrow> \<exists>ops. explains ops tr \<and> fst (recovered kv_sm (as_dur w)) = play ops"
  using core_ofD(1) [of tr] by (auto simp: engine_inv_def disk_inv_def svc_store_def core_state)

lemma explains_answered: "explains ops tr \<Longrightarrow> Did op (Some out) \<in> set tr \<Longrightarrow> op \<in> set ops"
  by (induction rule: explains.induct) auto

end
