(* ===== verification/OB_Jepsen.thy ===== *)
theory OB_Jepsen
  imports OB_Lincheck OB_System
begin

text \<open>
  The crash experiment \<open>ob_jepsen.rs\<close>: clients write unique keys over RESP connections and note which
  writes were acknowledged, the server is killed and started again under the load, and afterwards every
  acknowledged write is read back. The client and verification loops are modelled with the network's
  behaviour as an argument; \<open>OB_Jepsenrun\<close> runs them with the server of \<open>OB_System\<close>. The verification finds nothing
  lost and nothing torn.
\<close>

section \<open>Keys, requests and replies\<close>

definition jepsen_key :: "nat \<Rightarrow> nat \<Rightarrow> bytes" where
  "jepsen_key c i = ascii ''c'' @ show_usize c @ ascii ''_'' @ show_usize i"

definition jepsen_val :: "nat \<Rightarrow> nat \<Rightarrow> bytes" where
  "jepsen_val c i = ascii ''v'' @ show_usize c @ ascii ''_'' @ show_usize i"

definition set_request :: "bytes \<Rightarrow> bytes \<Rightarrow> bytes" where
  "set_request key val = ascii ''*3'' @ crlf @ ascii ''$3'' @ crlf @ ascii ''SET'' @ crlf
     @ ascii ''$'' @ show_usize (length key) @ crlf @ key @ crlf @ ascii ''$'' @ show_usize (length val) @ crlf @ val @ crlf"

definition get_request :: "bytes \<Rightarrow> bytes" where
  "get_request key = ascii ''*2'' @ crlf @ ascii ''$3'' @ crlf @ ascii ''GET'' @ crlf
     @ ascii ''$'' @ show_usize (length key) @ crlf @ key @ crlf"

text \<open>
  The acknowledgement test of \<open>do_set\<close>, and the reply as \<open>get\<close> reads it, each after one read into a buffer
  of 64 and 256 bytes.
\<close>

definition set_acked :: "bytes \<Rightarrow> bool" where
  "set_acked reply \<longleftrightarrow> (let buf = take 64 reply in 3 \<le> length buf \<and> take 3 buf = ascii ''+OK'')"

definition get_value :: "bytes \<Rightarrow> bytes option" where
  "get_value reply = (let r = from_utf8_lossy (take 256 reply) in
     if take 3 r = ascii ''$-1'' then None
     else let lines = split_crlf [] r in if length lines > 1 then Some (lines ! 1) else None)"

section \<open>The clients\<close>

text \<open>
  What the network does in one attempt: whether a connection can be made when there is none, and the
  reply, \<open>None\<close> being an error of the connection.
\<close>

record attempt =
  a_connect :: bool
  a_reply :: "bytes option"

text \<open>
  The attempts of one write: whether it was acknowledged when a reply came, whether a connection is left,
  and the attempts not used. Only a failed connect is tried again. Behind the end of the list every
  attempt fails.
\<close>

fun set_attempts :: "nat \<Rightarrow> bool \<Rightarrow> attempt list \<Rightarrow> bool option \<times> bool \<times> attempt list" where
  "set_attempts 0 conn as = (None, conn, as)"
| "set_attempts (Suc n) conn [] = (None, False, [])"
| "set_attempts (Suc n) conn (a # as) =
     (if \<not> conn \<and> \<not> a_connect a then set_attempts n False as
      else (case a_reply a of None \<Rightarrow> (None, False, as) | Some r \<Rightarrow> (Some (set_acked r), True, as)))"

record tally =
  t_acked :: "(bytes \<times> bytes) list"
  t_unknown :: nat

fun jepsen_client :: "nat \<Rightarrow> nat list \<Rightarrow> bool \<Rightarrow> attempt list \<Rightarrow> tally \<Rightarrow> tally" where
  "jepsen_client c [] conn as t = t"
| "jepsen_client c (i # is) conn as t =
     (case set_attempts 200 conn as of (r, conn, as) \<Rightarrow>
        jepsen_client c is conn as (case r of
            Some True \<Rightarrow> t\<lparr>t_acked := t_acked t @ [(jepsen_key c i, jepsen_val c i)]\<rparr>
          | Some False \<Rightarrow> t
          | None \<Rightarrow> t\<lparr>t_unknown := t_unknown t + 1\<rparr>))"

definition run_client :: "nat \<Rightarrow> nat \<Rightarrow> bool \<Rightarrow> attempt list \<Rightarrow> tally" where
  "run_client c ops conn as = jepsen_client c [0..<ops] conn as \<lparr>t_acked = [], t_unknown = 0\<rparr>"

section \<open>Verification\<close>

text \<open>Reading back over one connection: the numbers of lost and of torn writes.\<close>

fun verify :: "(u64 \<Rightarrow> u64) \<Rightarrow> u32 \<Rightarrow> u64 \<Rightarrow> (bytes \<times> bytes) list \<Rightarrow> service \<Rightarrow> nat \<times> nat" where
  "verify stamp conn seq [] sv = (0, 0)"
| "verify stamp conn seq ((k, v) # kvs) sv =
     (case run_svc stamp (resp_turn conn (seq + 1) (get_request k)) sv of (reply, sv) \<Rightarrow>
      case verify stamp conn (seq + 1) kvs sv of (lost, torn) \<Rightarrow>
        case get_value reply of
          Some got \<Rightarrow> if got = v then (lost, torn) else (lost, torn + 1)
        | None \<Rightarrow> (lost + 1, torn))"

text \<open>
  The whole of it: the acknowledged writes of all clients, in the order in which the clients are joined,
  read back over a fresh connection.
\<close>

definition all_acked :: "nat \<Rightarrow> nat \<Rightarrow> (nat \<Rightarrow> bool) \<Rightarrow> (nat \<Rightarrow> attempt list) \<Rightarrow> (bytes \<times> bytes) list" where
  "all_acked clients ops linked net = concat (map (\<lambda>c. t_acked (run_client c ops (linked c) (net c))) [0..<clients])"

definition verify_all :: "(u64 \<Rightarrow> u64) \<Rightarrow> (bytes \<times> bytes) list \<Rightarrow> server \<Rightarrow> nat \<times> nat" where
  "verify_all stamp kvs s = (case server_accept s of (conn, s) \<Rightarrow> verify stamp conn 0 kvs (srv_service s))"

lemmas jepsen_defs [unfold_model] = jepsen_key_def jepsen_val_def set_request_def get_request_def set_acked_def get_value_def
  run_client_def

section \<open>The clients' bookkeeping\<close>

lemma jepsen_client_acked:
  "set (t_acked (jepsen_client c is conn as t)) \<subseteq> set (t_acked t) \<union> (\<lambda>i. (jepsen_key c i, jepsen_val c i)) ` set is"
proof (induction "is" arbitrary: conn as t)
  case (Cons i "is")
  obtain r cn rest where s: "set_attempts 200 conn as = (r, cn, rest)" by (cases "set_attempts 200 conn as")
  show ?case
  proof (cases r)
    case None
    then show ?thesis using s Cons [of cn rest "t\<lparr>t_unknown := t_unknown t + 1\<rparr>"] by auto
  next
    case (Some b)
    then show ?thesis
      using s Cons [of cn rest t] Cons [of cn rest "t\<lparr>t_acked := t_acked t @ [(jepsen_key c i, jepsen_val c i)]\<rparr>"]
      by (cases b) auto
  qed
qed simp

lemma run_client_acked: "(k, v) \<in> set (t_acked (run_client c ops conn as)) \<Longrightarrow> \<exists>i < ops. k = jepsen_key c i \<and> v = jepsen_val c i"
  using subsetD [OF jepsen_client_acked [of c "[0..<ops]" conn as "\<lparr>t_acked = [], t_unknown = 0\<rparr>"]]
  by (fastforce simp: run_client_def)

text \<open>A reply acknowledges a write exactly when the executor answered its job.\<close>

lemma set_acked_iff: "set_acked (to_bytes (case r of Some out \<Rightarrow> reply_ok | None \<Rightarrow> unavailable)) \<longleftrightarrow> r \<noteq> None"
  by (cases r) (simp_all add: set_acked_def reply_ok_def unavailable_def)

section \<open>Reading back\<close>

lemma usize_text: "b \<in> set (show_usize n) \<Longrightarrow> b \<noteq> 13 \<and> b < 0x80"
  using show_usize_chars [of b n] by (auto simp: word_less_nat_alt word_le_nat_alt)

lemma jepsen_text:
  "b \<in> set (jepsen_key c i) \<Longrightarrow> b \<noteq> 13 \<and> b < 0x80" "b \<in> set (jepsen_val c i) \<Longrightarrow> b \<noteq> 13 \<and> b < 0x80"
  using usize_text by (auto simp: jepsen_key_def jepsen_val_def)

lemma jepsen_lossy: "from_utf8_lossy (jepsen_key c i) = jepsen_key c i" "utf8_valid (jepsen_val c i)"
  using jepsen_text by (auto intro!: from_utf8_lossy_id utf8_valid_ascii)

lemma get_value_bulk:
  assumes "\<And>b. b \<in> set v \<Longrightarrow> b \<noteq> 13" "utf8_valid v" "length v < 100"
  shows "get_value (to_bytes (Bulk (Some v))) = Some v"
proof -
  let ?n = "show_usize (length v)"
  have n13: "13 \<notin> set (36 # ?n)" using usize_text by auto
  have v13: "13 \<notin> set v" using assms(1) by blast
  have valid: "utf8_valid (to_bytes (Bulk (Some v)))"
    using assms(2) by (auto simp: crlf_def utf8_valid_ascii_byte intro!: utf8_valid_append show_usize_text)
  have b: "to_bytes (Bulk (Some v)) = (36 # ?n) @ 13 # 10 # v @ 13 # 10 # []" by (simp add: crlf_def)
  obtain d ds where d: "?n = d # ds" by (cases ?n) auto
  then have "48 \<le> d" using show_usize_chars [of d "length v"] by simp
  then have "d \<noteq> 45" by auto
  then have "take 3 (to_bytes (Bulk (Some v))) \<noteq> ascii ''$-1''" unfolding b d by (simp add: numeral_3_eq_3)
  moreover have "split_crlf [] (to_bytes (Bulk (Some v))) = [36 # ?n, v, []]"
    unfolding b split_crlf_word [OF n13] split_crlf_word [OF v13] by simp
  moreover have "take 256 (to_bytes (Bulk (Some v))) = to_bytes (Bulk (Some v))"
    using assms(3) length_dec_digits [of "int (length v)" 1] by (simp add: show_usize_def crlf_def)
  ultimately show ?thesis by (simp add: get_value_def from_utf8_lossy_id [OF valid] Let_def del: to_bytes.simps)
qed

lemma get_request_cmd: "get_request k = resp_request [ascii ''GET'', k]"
  by (simp add: get_request_def resp_request_def show_usize_def dec_digits.simps)

lemma set_request_cmd: "set_request k v = resp_request [ascii ''SET'', k, v]"
  by (simp add: set_request_def resp_request_def show_usize_def dec_digits.simps)

lemma get_turn_key:
  assumes "arg_ok k" "from_utf8_lossy k = k"
  shows "resp_turn c seq (get_request k) =
    Apply (op_get c seq k) (\<lambda>r. Return (to_bytes (case r of Some (Bytes b) \<Rightarrow> Bulk b | _ \<Rightarrow> Bulk None)))"
proof -
  have "cmd_ok [ascii ''GET'', k]" using assms(1) by (simp add: cmd_ok_def arg_ok_def)
  from resp_turn_request [OF this] show ?thesis
    by (simp add: get_request_cmd resp_dispatch_def ascii_upper_def ascii_lower_def eq_ignore_ascii_case_def assms(2))
qed

text \<open>Every key that holds its value is found, over a connection that may number its reads.\<close>

lemma verify_finds:
  assumes "svc_ready conn seq sv" "unat seq + length kvs < 2 ^ 64"
    and "\<And>k v. (k, v) \<in> set kvs \<Longrightarrow> bt_get (svc_store sv) k = Some v \<and> arg_ok k \<and> from_utf8_lossy k = k \<and>
      (\<forall>b \<in> set v. b \<noteq> 13) \<and> utf8_valid v \<and> length v < 100"
  shows "verify stamp conn seq kvs sv = (0, 0)"
  using assms
proof (induction kvs arbitrary: seq sv)
  case (Cons kv kvs)
  obtain k v where kv: "kv = (k, v)" by (cases kv)
  have k: "bt_get (svc_store sv) k = Some v" "arg_ok k" "from_utf8_lossy k = k" "\<And>b. b \<in> set v \<Longrightarrow> b \<noteq> 13" "utf8_valid v" "length v < 100"
    using Cons.prems(3) [of k v] kv by auto
  let ?op = "op_get conn (seq + 1) k"
  have u: "unat (seq + 1) = unat seq + 1" "seq < seq + 1" using seq_next [of seq] Cons.prems(2) by simp_all
  have op: "op_client ?op = conn" "op_seq ?op = seq + 1" by (simp_all add: op_defs)
  obtain sv1 where a: "svc_apply stamp ?op sv = (Some (snd (kv_apply (svc_store sv) ?op)), sv1)"
    "svc_store sv1 = fst (kv_apply (svc_store sv) ?op)" "svc_ready conn (seq + 1) sv1"
    using svc_apply_ready [OF Cons.prems(1) op(1), of stamp] op(2) u(2) by auto
  have "svc_store sv1 = svc_store sv" using a(2) by (simp add: kv_apply_def op_defs)
  then have rest: "verify stamp conn (seq + 1) kvs sv1 = (0, 0)"
    using Cons.IH [OF a(3)] Cons.prems(2,3) u(1) kv by auto
  have "run_svc stamp (resp_turn conn (seq + 1) (get_request k)) sv = (to_bytes (Bulk (Some v)), sv1)"
    using a(1) k(1) by (simp add: get_turn_key [OF k(2,3)] run_svc_def kv_apply_def op_defs del: to_bytes.simps)
  then show ?case using rest get_value_bulk [OF k(4,5,6)] by (simp add: kv del: to_bytes.simps)
qed simp

section \<open>What the store holds\<close>

text \<open>The value is a function of the key, so no write can tear another.\<close>

definition key_val :: "bytes \<Rightarrow> bytes" where
  "key_val k = ascii ''v'' @ tl k"

lemma key_val_jepsen: "key_val (jepsen_key c i) = jepsen_val c i"
  by (simp add: key_val_def jepsen_key_def jepsen_val_def)

lemma play_sets:
  assumes "\<And>op. op \<in> set ops \<Longrightarrow> \<exists>k. op_kind op = Set k (key_val k)"
  shows "bt_wf (play ops)" and "op \<in> set ops \<Longrightarrow> op_kind op = Set k (key_val k) \<Longrightarrow> bt_get (play ops) k = Some (key_val k)"
proof -
  have "bt_wf (play ops) \<and> (\<forall>op \<in> set ops. \<forall>k. op_kind op = Set k (key_val k) \<longrightarrow> bt_get (play ops) k = Some (key_val k))"
    using assms
  proof (induction ops rule: rev_induct)
    case (snoc x ops)
    obtain j where j: "op_kind x = Set j (key_val j)" using snoc.prems [of x] by auto
    have IH: "bt_wf (play ops)" "\<And>op k. op \<in> set ops \<Longrightarrow> op_kind op = Set k (key_val k) \<Longrightarrow> bt_get (play ops) k = Some (key_val k)"
      using snoc by auto
    then show ?case using j by (auto simp: play_snoc kv_apply_def bt_simps)
  qed (simp add: play_def bt_simps)
  then show "bt_wf (play ops)" "op \<in> set ops \<Longrightarrow> op_kind op = Set k (key_val k) \<Longrightarrow> bt_get (play ops) k = Some (key_val k)"
    by auto
qed

text \<open>The keys of the experiment are short.\<close>

lemma length_usize: "n < 2 ^ 64 \<Longrightarrow> length (show_usize n) \<le> 20"
  using length_dec_digits [of "int n" 19] by (simp add: show_usize_def)

lemma length_jepsen:
  assumes "c < 2 ^ 64" "i < 2 ^ 64"
  shows "length (jepsen_key c i) \<le> 42" "length (jepsen_val c i) \<le> 42"
  using length_usize [OF assms(1)] length_usize [OF assms(2)] by (simp_all add: jepsen_key_def jepsen_val_def)

lemma length_jepsen_client: "length (t_acked (jepsen_client c is conn as t)) \<le> length (t_acked t) + length is"
proof (induction "is" arbitrary: conn as t)
  case (Cons i "is")
  obtain r cn rest where s: "set_attempts 200 conn as = (r, cn, rest)" by (cases "set_attempts 200 conn as")
  define t' where "t' = (case r of Some True \<Rightarrow> t\<lparr>t_acked := t_acked t @ [(jepsen_key c i, jepsen_val c i)]\<rparr>
    | Some False \<Rightarrow> t | None \<Rightarrow> t\<lparr>t_unknown := t_unknown t + 1\<rparr>)"
  have "length (t_acked t') \<le> length (t_acked t) + 1" by (simp add: t'_def split: option.split bool.split)
  then show ?case using Cons [of cn rest t'] s by (simp add: t'_def)
qed simp

lemma length_all_acked: "length (all_acked clients ops linked net) \<le> clients * ops"
proof (induction clients)
  case (Suc n)
  have "length (t_acked (run_client n ops (linked n) (net n))) \<le> ops"
    using length_jepsen_client [of n "[0..<ops]" _ _ "\<lparr>t_acked = [], t_unknown = 0\<rparr>"] by (simp add: run_client_def)
  then show ?case using Suc by (simp add: all_acked_def)
qed (simp add: all_acked_def)

lemma all_acked_keys:
  assumes "(k, v) \<in> set (all_acked clients ops linked net)" "clients * ops < 2 ^ 64"
  shows "\<exists>c i. k = jepsen_key c i \<and> v = jepsen_val c i \<and> c < 2 ^ 64 \<and> i < 2 ^ 64"
proof -
  obtain c where c: "c < clients" "(k, v) \<in> set (t_acked (run_client c ops (linked c) (net c)))"
    using assms(1) by (auto simp: all_acked_def)
  then obtain i where i: "i < ops" "k = jepsen_key c i" "v = jepsen_val c i" using run_client_acked by blast
  have "clients * 1 \<le> clients * ops" "1 * ops \<le> clients * ops" using c(1) i(1) by (intro mult_le_mono; simp)+
  then have "c < 2 ^ 64" "i < 2 ^ 64" using c(1) i(1) assms(2) by linarith+
  then show ?thesis using i(2,3) by blast
qed

section \<open>The experiment\<close>

text \<open>A connection accepted next may number its operations from one.\<close>

lemma sys_inv_accept:
  assumes "sys_inv tr (Running s cs)" "sv_alive (srv_service s)" "bt_wf (svc_store (srv_service s))"
  shows "svc_ready (srv_conn_id s) 0 (sv_outcomes [] (srv_service s))"
proof -
  have "engine_inv tr (sv_engine (srv_service s))" "conns_inv s cs" using assms(1,2) by simp_all
  moreover from this have "bt_wf (e_applied (sv_engine (srv_service s)))"
    using core_ofD(2) [of tr "core (sv_engine (srv_service s))"] by (simp add: engine_inv_def core_applied)
  ultimately show ?thesis using assms(2,3)
    by (simp add: svc_ready_def conns_inv_def Let_def svc_store_def quiet_def set_outcomes_def)
qed

lemma jepsen_verify:
  assumes run: "sys_run orderly stamp interval fsync tr (Running s cs)" and "sv_alive (srv_service s)"
    and bounds: "trace_bytes tr + 4 < 2 ^ 32" "accepts tr + 1 < 2 ^ 32"
    and sets: "\<And>op. op \<in> set (trace_ops tr) \<Longrightarrow> \<exists>c i. op_kind op = Set (jepsen_key c i) (jepsen_val c i)"
    and kvs: "\<And>k v. (k, v) \<in> set kvs \<Longrightarrow> \<exists>op out. Did op (Some out) \<in> set tr \<and> op_kind op = Set k v"
    and keys: "\<And>k v. (k, v) \<in> set kvs \<Longrightarrow> \<exists>c i. k = jepsen_key c i \<and> v = jepsen_val c i \<and> c < 2 ^ 64 \<and> i < 2 ^ 64"
    and len: "length kvs < 2 ^ 64"
  shows "verify stamp' (srv_conn_id s) 0 kvs (sv_outcomes [] (srv_service s)) = (0, 0)"
proof -
  have I: "sys_inv tr (Running s cs)" by (rule sys_run_inv [OF run bounds])
  obtain ops where ops: "explains ops tr" "svc_store (srv_service s) = play ops" using sys_inv_store(1) [OF I assms(2)] by blast
  have kv: "\<exists>k. op_kind op = Set k (key_val k)" if "op \<in> set ops" for op
    using explains_ops [OF ops(1)] that sets key_val_jepsen by (metis subsetD)
  have store: "svc_store (sv_outcomes [] (srv_service s)) = play ops"
    using ops(2) by (simp add: svc_store_def set_outcomes_def)
  have "svc_ready (srv_conn_id s) 0 (sv_outcomes [] (srv_service s))"
    using sys_inv_accept [OF I assms(2)] play_sets(1) [OF kv] ops(2) by simp
  then show ?thesis
  proof (rule verify_finds)
    fix k v assume m: "(k, v) \<in> set kvs"
    obtain c i where ci: "k = jepsen_key c i" "v = jepsen_val c i" "c < 2 ^ 64" "i < 2 ^ 64" using keys [OF m] by blast
    obtain op out where op: "Did op (Some out) \<in> set tr" "op_kind op = Set k v" using kvs [OF m] by blast
    have "v = key_val k" by (simp add: ci key_val_jepsen)
    then have "bt_get (play ops) k = Some v" using play_sets(2) [OF kv explains_answered [OF ops(1) op(1)]] op(2) by simp
    then show "bt_get (svc_store (sv_outcomes [] (srv_service s))) k = Some v \<and> arg_ok k \<and> from_utf8_lossy k = k \<and>
      (\<forall>b \<in> set v. b \<noteq> 13) \<and> utf8_valid v \<and> length v < 100"
      using store length_jepsen [OF ci(3,4)] jepsen_lossy [of c i] jepsen_text by (auto simp: ci arg_ok_def)
  qed (use len in simp)
qed

end
