(* ===== verification/OB_Appjepsen.thy ===== *)
theory OB_Appjepsen
  imports OB_Jepsen OB_Replay
begin

text \<open>
  The experiment \<open>ob_app_jepsen.rs\<close> on an unmodified Redis server: clients write unique keys and a shared
  register, the interposed server's requests are captured, the server is killed, a fresh one is fed the
  captured streams by \<open>ob_replay.rs\<close>, and the acknowledged writes and the register are read back. Redis is
  an argument; what is relied on of it is the locale \<open>redis\<close>, which the server of this repository fulfils
  too. Every acknowledged write is found, however the streams are interleaved. The register check is
  weaker than it looks: it fails on correct runs in which a write was in flight, and on recoveries in
  which two connections' writes change places.
\<close>

section \<open>The server under test\<close>

text \<open>
  \<open>exec\<close> answers one request, \<open>start\<close> is the server with an empty database, \<open>look\<close> what a key holds and \<open>ok\<close> an
  invariant of the server. Keys and values are short ASCII strings.
\<close>

definition plain :: "bytes \<Rightarrow> bool" where
  "plain b \<longleftrightarrow> (\<forall>x \<in> set b. x < 0x80) \<and> length b < 1000"

definition ping_request :: bytes where
  "ping_request = resp_request [ascii ''PING'']"

locale redis =
  fixes exec :: "bytes \<Rightarrow> 'r \<Rightarrow> bytes \<times> 'r" and start :: 'r
    and look :: "'r \<Rightarrow> bytes \<Rightarrow> bytes option" and ok :: "'r \<Rightarrow> bool"
  assumes start_ok: "ok start" and start_empty: "look start k = None"
    and exec_set: "ok r \<Longrightarrow> plain k \<Longrightarrow> plain v \<Longrightarrow>
      \<exists>r'. exec (resp_request [ascii ''SET'', k, v]) r = (ascii ''+OK'' @ crlf, r') \<and> ok r' \<and> look r' = (look r)(k \<mapsto> v)"
    and exec_get: "ok r \<Longrightarrow> plain k \<Longrightarrow>
      \<exists>r'. exec (resp_request [ascii ''GET'', k]) r = (to_bytes (Bulk (look r k)), r') \<and> ok r' \<and> look r' = look r"
    and exec_ping: "ok r \<Longrightarrow> \<exists>r'. exec ping_request r = (ascii ''+PONG'' @ crlf, r') \<and> ok r' \<and> look r' = look r"

text \<open>The one read of a reply, into a buffer of 256 bytes; nothing read is an error.\<close>

definition aj_resp :: "(bytes \<Rightarrow> 'r \<Rightarrow> bytes \<times> 'r) \<Rightarrow> bytes list \<Rightarrow> 'r \<Rightarrow> bytes option \<times> 'r" where
  "aj_resp exec parts r = (case exec (resp_request parts) r of (sent, r) \<Rightarrow>
     (if take 256 sent = [] then None else Some (take 256 sent), r))"

text \<open>Waiting for the server: what each of at most 100 attempts is answered, \<open>None\<close> being a refused connection.\<close>

definition wait_up :: "bytes option list \<Rightarrow> bool" where
  "wait_up replies = list_ex (\<lambda>r. case r of None \<Rightarrow> False | Some b \<Rightarrow> take 5 b = ascii ''+PONG'') (take 100 replies)"

section \<open>The clients\<close>

definition aj_key :: "u32 \<Rightarrow> u64 \<Rightarrow> bytes" where
  "aj_key c seq = ascii ''w:'' @ show_usize (unat c) @ ascii '':'' @ show_usize (unat seq)"

definition aj_val :: "u32 \<Rightarrow> u64 \<Rightarrow> i64" where
  "aj_val c seq = ucast c * 1000000 + seq"

definition aj_write :: "u32 \<Rightarrow> u64 \<Rightarrow> bytes list" where
  "aj_write c seq = [ascii ''SET'', aj_key c seq, show_i64 (aj_val c seq)]"

definition aj_register :: "u32 \<Rightarrow> u64 \<Rightarrow> bytes list" where
  "aj_register c seq = (if seq mod 2 = 0 then [ascii ''SET'', reg, show_i64 (aj_val c seq)] else [ascii ''GET'', reg])"

text \<open>
  Where a client's loop is: at its head, waiting for the reply to the write, before the register, waiting
  for the register's reply since a time, or left. Its request is nowhere, sent, captured, or answered.
\<close>

datatype aj_phase = Top | Await_write | At_register | Await_register u64 | Ended

datatype aj_wire = Quiet | Sent_off "bytes list" | Taken "bytes list" | Answered bytes

record aj_client =
  ac_seq :: u64
  ac_phase :: aj_phase
  ac_wire :: aj_wire

text \<open>\<open>as_redis\<close> is \<open>None\<close> when the server has been killed; \<open>as_capture\<close> is the capture file.\<close>

record 'r aj_sys =
  as_now :: u64
  as_redis :: "'r option"
  as_capture :: bytes
  as_clients :: "u32 \<Rightarrow> aj_client"
  as_stop :: bool
  as_writes :: "(bytes \<times> i64) list"
  as_acked :: u64
  as_reg_ops :: u64
  as_hist :: "lin_op list"

definition reg_cap :: u64 where
  "reg_cap = 32"

definition aj_set :: "u32 \<Rightarrow> aj_client \<Rightarrow> 'r aj_sys \<Rightarrow> 'r aj_sys" where
  "aj_set c x s = s\<lparr>as_clients := (as_clients s)(c := x)\<rparr>"

definition is_ok :: "bytes \<Rightarrow> bool" where
  "is_ok r \<longleftrightarrow> take 3 r = ascii ''+OK''"

text \<open>Inserting into a \<open>HashMap\<close>, the entries being in some order.\<close>

definition map_put :: "'k \<Rightarrow> 'v \<Rightarrow> ('k \<times> 'v) list \<Rightarrow> ('k \<times> 'v) list" where
  "map_put k v m = (k, v) # filter (\<lambda>e. fst e \<noteq> k) m"

text \<open>What a client does with the reply to its unique write, and to its register operation.\<close>

definition aj_wrote :: "u32 \<Rightarrow> u64 \<Rightarrow> bytes \<Rightarrow> 'r aj_sys \<Rightarrow> 'r aj_sys" where
  "aj_wrote c seq r s = (if is_ok r
     then s\<lparr>as_writes := map_put (aj_key c seq) (aj_val c seq) (as_writes s), as_acked := as_acked s + 1\<rparr> else s)"

definition aj_push :: "lin_op \<Rightarrow> 'r aj_sys \<Rightarrow> 'r aj_sys" where
  "aj_push x s = s\<lparr>as_hist := (if as_reg_ops s < reg_cap then as_hist s @ [x] else as_hist s), as_reg_ops := as_reg_ops s + 1\<rparr>"

definition aj_registered :: "u32 \<Rightarrow> u64 \<Rightarrow> u64 \<Rightarrow> bytes \<Rightarrow> 'r aj_sys \<Rightarrow> 'r aj_sys" where
  "aj_registered c seq t0 r s =
     (if seq mod 2 = 0
      then if is_ok r
        then aj_push \<lparr>l_proc_id = c, l_action = Write (aj_val c seq), l_inv = t0, l_res = as_now s\<rparr> s
        else s
      else aj_push \<lparr>l_proc_id = c, l_action = Read (parse_get r), l_inv = t0, l_res = as_now s\<rparr> s)"

text \<open>
  The steps of client \<open>c < n\<close> on connection \<open>conn c\<close>, of the server, and of \<open>main\<close>. A request arrives in one
  read of the server, which the interposed \<open>read\<close> writes to the capture file before the server sees it.
  The kill may cut the record being written. A client whose server is gone before it answered gets an
  error and leaves its loop; an answer sent before the kill still arrives.
\<close>

inductive aj_step :: "(bytes \<Rightarrow> 'r \<Rightarrow> bytes \<times> 'r) \<Rightarrow> (u32 \<Rightarrow> u32) \<Rightarrow> u32 \<Rightarrow> 'r aj_sys \<Rightarrow> 'r aj_sys \<Rightarrow> bool"
  for exec conn n where
  tick: "as_now s \<le> t \<Longrightarrow> aj_step exec conn n s (s\<lparr>as_now := t\<rparr>)"
| stopped: "c < n \<Longrightarrow> as_clients s c = \<lparr>ac_seq = q, ac_phase = Top, ac_wire = w\<rparr> \<Longrightarrow> as_stop s \<Longrightarrow>
     aj_step exec conn n s (aj_set c \<lparr>ac_seq = q, ac_phase = Ended, ac_wire = w\<rparr> s)"
| send_write: "c < n \<Longrightarrow> as_clients s c = \<lparr>ac_seq = q, ac_phase = Top, ac_wire = w\<rparr> \<Longrightarrow> \<not> as_stop s \<Longrightarrow>
     aj_step exec conn n s (aj_set c \<lparr>ac_seq = q + 1, ac_phase = Await_write, ac_wire = Sent_off (aj_write c (q + 1))\<rparr> s)"
| got_write: "c < n \<Longrightarrow> as_clients s c = \<lparr>ac_seq = q, ac_phase = Await_write, ac_wire = Answered sent\<rparr> \<Longrightarrow> take 256 sent \<noteq> [] \<Longrightarrow>
     aj_step exec conn n s (aj_set c \<lparr>ac_seq = q, ac_phase = At_register, ac_wire = Quiet\<rparr> (aj_wrote c q (take 256 sent) s))"
| skip_register: "c < n \<Longrightarrow> as_clients s c = \<lparr>ac_seq = q, ac_phase = At_register, ac_wire = w\<rparr> \<Longrightarrow> \<not> as_reg_ops s < reg_cap \<Longrightarrow>
     aj_step exec conn n s (aj_set c \<lparr>ac_seq = q, ac_phase = Top, ac_wire = w\<rparr> s)"
| send_register: "c < n \<Longrightarrow> as_clients s c = \<lparr>ac_seq = q, ac_phase = At_register, ac_wire = w\<rparr> \<Longrightarrow> as_reg_ops s < reg_cap \<Longrightarrow>
     aj_step exec conn n s (aj_set c \<lparr>ac_seq = q, ac_phase = Await_register (as_now s), ac_wire = Sent_off (aj_register c q)\<rparr> s)"
| got_register: "c < n \<Longrightarrow> as_clients s c = \<lparr>ac_seq = q, ac_phase = Await_register t0, ac_wire = Answered sent\<rparr> \<Longrightarrow> take 256 sent \<noteq> [] \<Longrightarrow>
     aj_step exec conn n s (aj_set c \<lparr>ac_seq = q, ac_phase = Top, ac_wire = Quiet\<rparr> (aj_registered c q t0 (take 256 sent) s))"
| broken: "c < n \<Longrightarrow> as_clients s c = \<lparr>ac_seq = q, ac_phase = ph, ac_wire = w\<rparr> \<Longrightarrow> ph = Await_write \<or> ph = Await_register t0 \<Longrightarrow>
     (\<exists>sent. w = Answered sent \<and> take 256 sent = []) \<or> as_redis s = None \<and> (\<exists>parts. w = Sent_off parts \<or> w = Taken parts) \<Longrightarrow>
     aj_step exec conn n s (aj_set c \<lparr>ac_seq = q, ac_phase = Ended, ac_wire = w\<rparr> s)"
| take_in: "c < n \<Longrightarrow> as_clients s c = \<lparr>ac_seq = q, ac_phase = ph, ac_wire = Sent_off parts\<rparr> \<Longrightarrow> as_redis s = Some r \<Longrightarrow>
     aj_step exec conn n s (aj_set c \<lparr>ac_seq = q, ac_phase = ph, ac_wire = Taken parts\<rparr>
       (s\<lparr>as_capture := as_capture s @ capture_record (conn c, resp_request parts)\<rparr>))"
| answer: "c < n \<Longrightarrow> as_clients s c = \<lparr>ac_seq = q, ac_phase = ph, ac_wire = Taken parts\<rparr> \<Longrightarrow> as_redis s = Some r \<Longrightarrow>
     exec (resp_request parts) r = (sent, r') \<Longrightarrow>
     aj_step exec conn n s (aj_set c \<lparr>ac_seq = q, ac_phase = ph, ac_wire = Answered sent\<rparr> (s\<lparr>as_redis := Some r'\<rparr>))"
| stop: "aj_step exec conn n s (s\<lparr>as_stop := True\<rparr>)"
| kill: "as_redis s = Some r \<Longrightarrow> capture_ok rec \<Longrightarrow> k < length (capture_record rec) \<Longrightarrow>
     aj_step exec conn n s (s\<lparr>as_redis := None, as_capture := as_capture s @ take k (capture_record rec)\<rparr>)"

text \<open>The server comes up and has answered the pings, each over a connection of its own.\<close>

definition aj_pinged :: "(bytes \<Rightarrow> 'r \<Rightarrow> bytes \<times> 'r) \<Rightarrow> u32 list \<Rightarrow> 'r \<Rightarrow> 'r" where
  "aj_pinged exec pings start = fold (\<lambda>_ r. snd (exec ping_request r)) pings start"

definition aj_init :: "(bytes \<Rightarrow> 'r \<Rightarrow> bytes \<times> 'r) \<Rightarrow> u32 list \<Rightarrow> 'r \<Rightarrow> u64 \<Rightarrow> 'r aj_sys" where
  "aj_init exec pings start t = \<lparr>as_now = t, as_redis = Some (aj_pinged exec pings start),
     as_capture = concat (map (\<lambda>c. capture_record (c, ping_request)) pings),
     as_clients = (\<lambda>_. \<lparr>ac_seq = 0, ac_phase = Top, ac_wire = Quiet\<rparr>), as_stop = False, as_writes = [],
     as_acked = 0, as_reg_ops = 0, as_hist = []\<rparr>"

inductive aj_run :: "(bytes \<Rightarrow> 'r \<Rightarrow> bytes \<times> 'r) \<Rightarrow> (u32 \<Rightarrow> u32) \<Rightarrow> u32 \<Rightarrow> 'r \<Rightarrow> 'r aj_sys \<Rightarrow> bool" for exec conn n start where
  init: "aj_run exec conn n start (aj_init exec pings start t)"
| step: "aj_run exec conn n start s \<Longrightarrow> aj_step exec conn n s s' \<Longrightarrow> aj_run exec conn n start s'"

section \<open>Recovery and verification\<close>

text \<open>
  A server that is sent the streams takes whole requests from them, in any order of the connections, until
  nothing is left.
\<close>

inductive aj_replay :: "(bytes \<Rightarrow> 'r \<Rightarrow> bytes \<times> 'r) \<Rightarrow> (u32 \<Rightarrow> bytes) \<Rightarrow> 'r \<Rightarrow> 'r \<Rightarrow> bool" for exec where
  finished: "aj_replay exec (\<lambda>_. []) r r"
| request: "streams cid = resp_request parts @ rest \<Longrightarrow> cmd_ok parts \<Longrightarrow>
     aj_replay exec (streams(cid := rest)) (snd (exec (resp_request parts) r)) r' \<Longrightarrow> aj_replay exec streams r r'"

definition replay_streams :: "bytes \<Rightarrow> u32 \<Rightarrow> bytes" where
  "replay_streams raw cid = (case bt_get (conns (capture_loop raw capture_empty)) cid of Some b \<Rightarrow> b | None \<Rightarrow> [])"

definition aj_recovered :: "(bytes \<Rightarrow> 'r \<Rightarrow> bytes \<times> 'r) \<Rightarrow> u32 list \<Rightarrow> 'r \<Rightarrow> bytes \<Rightarrow> 'r \<Rightarrow> bool" where
  "aj_recovered exec pings start raw r \<longleftrightarrow> aj_replay exec (replay_streams raw) (aj_pinged exec pings start) r"

text \<open>Reading back the acknowledged writes: how many are lost and torn. \<open>None\<close> is a panic of \<open>unwrap\<close>.\<close>

fun aj_verify :: "(bytes \<Rightarrow> 'r \<Rightarrow> bytes \<times> 'r) \<Rightarrow> (bytes \<times> i64) list \<Rightarrow> u64 \<Rightarrow> u64 \<Rightarrow> 'r \<Rightarrow> (u64 \<times> u64 \<times> 'r) option" where
  "aj_verify exec [] lost torn r = Some (lost, torn, r)"
| "aj_verify exec ((k, v) # kvs) lost torn r =
     (case aj_resp exec [ascii ''GET'', k] r of
        (None, _) \<Rightarrow> None
      | (Some reply, r) \<Rightarrow>
          if take 3 reply = ascii ''$-1'' then aj_verify exec kvs (lost + 1) torn r
          else if parse_get reply \<noteq> v then aj_verify exec kvs lost (torn + 1) r
          else aj_verify exec kvs lost torn r)"

definition aj_check :: "(bytes \<Rightarrow> 'r \<Rightarrow> bytes \<times> 'r) \<Rightarrow> (bytes \<times> i64) list \<Rightarrow> lin_op list \<Rightarrow> u64 \<Rightarrow> u64 \<Rightarrow> 'r \<Rightarrow> (u64 \<times> u64 \<times> bool) option" where
  "aj_check exec kvs hist t0 t1 r =
     (case aj_verify exec kvs 0 0 r of
        None \<Rightarrow> None
      | Some (lost, torn, r) \<Rightarrow>
          (case aj_resp exec [ascii ''GET'', reg] r of
             (None, _) \<Rightarrow> None
           | (Some reply, _) \<Rightarrow> Some (lost, torn,
               is_linearizable (hist @ [\<lparr>l_proc_id = 999, l_action = Read (parse_get reply), l_inv = t0, l_res = t1\<rparr>]) 0)))"

definition aj_passes :: "u64 \<times> u64 \<times> bool \<Rightarrow> bool" where
  "aj_passes x \<longleftrightarrow> (case x of (lost, torn, lin) \<Rightarrow> lost = 0 \<and> torn = 0 \<and> lin)"

lemmas appjepsen_defs [unfold_model] = ping_request_def aj_resp_def wait_up_def aj_key_def aj_val_def aj_write_def aj_register_def
  reg_cap_def aj_set_def is_ok_def aj_wrote_def aj_push_def aj_registered_def aj_pinged_def aj_init_def replay_streams_def
  aj_recovered_def aj_check_def aj_passes_def


section \<open>The repository's own server is such a server\<close>

lemma plainD: "plain b \<Longrightarrow> from_utf8_lossy b = b" "plain b \<Longrightarrow> arg_ok b"
  by (auto simp: plain_def arg_ok_def intro: from_utf8_lossy_id utf8_valid_ascii)

lemma plain_cmds: "plain k \<Longrightarrow> plain v \<Longrightarrow> cmd_ok [ascii ''SET'', k, v]" "plain k \<Longrightarrow> cmd_ok [ascii ''GET'', k]"
    "cmd_ok [ascii ''PING'']"
  using plainD(2) by (auto simp: cmd_ok_def arg_ok_def)

definition kv_exec :: "bytes \<Rightarrow> kv_store \<Rightarrow> bytes \<times> kv_store" where
  "kv_exec req m = run_pure (resp_turn 0 0 req) m"

lemma kv_exec_cmds:
  "kv_exec ping_request m = (ascii ''+PONG'' @ crlf, m)"
  "plain k \<Longrightarrow> kv_exec (resp_request [ascii ''GET'', k]) m = (to_bytes (Bulk (bt_get m k)), m)"
  "plain k \<Longrightarrow> plain v \<Longrightarrow> kv_exec (resp_request [ascii ''SET'', k, v]) m = (ascii ''+OK'' @ crlf, bt_insert k v m)"
proof -
  note dispatch = resp_dispatch_def ascii_upper_def ascii_lower_def eq_ignore_ascii_case_def plainD(1) kv_apply_def op_defs
    reply_ok_def reply_pong_def
  show "kv_exec ping_request m = (ascii ''+PONG'' @ crlf, m)" unfolding kv_exec_def ping_request_def
    by (subst resp_turn_request [OF plain_cmds(3)]) (simp_all add: dispatch)
  show "plain k \<Longrightarrow> kv_exec (resp_request [ascii ''GET'', k]) m = (to_bytes (Bulk (bt_get m k)), m)" unfolding kv_exec_def
    by (subst resp_turn_request [OF plain_cmds(2)]) (simp_all add: dispatch)
  show "plain k \<Longrightarrow> plain v \<Longrightarrow> kv_exec (resp_request [ascii ''SET'', k, v]) m = (ascii ''+OK'' @ crlf, bt_insert k v m)"
    unfolding kv_exec_def by (subst resp_turn_request [OF plain_cmds(1)]) (simp_all add: dispatch)
qed

interpretation kv_redis: redis kv_exec "[]" bt_get bt_wf
proof
  fix r :: kv_store and k v :: bytes
  show "bt_wf ([] :: kv_store)" "bt_get ([] :: kv_store) k = None" by (simp_all add: bt_simps)
  assume r: "bt_wf r"
  show "\<exists>r'. kv_exec ping_request r = (ascii ''+PONG'' @ crlf, r') \<and> bt_wf r' \<and> bt_get r' = bt_get r"
    using r kv_exec_cmds(1) by blast
  assume k: "plain k"
  show "\<exists>r'. kv_exec (resp_request [ascii ''GET'', k]) r = (to_bytes (Bulk (bt_get r k)), r') \<and> bt_wf r' \<and> bt_get r' = bt_get r"
    using r kv_exec_cmds(2) [OF k] by blast
  assume v: "plain v"
  have "bt_wf (bt_insert k v r)" "bt_get (bt_insert k v r) = (bt_get r)(k \<mapsto> v)" using r by (auto simp: bt_simps)
  then show "\<exists>r'. kv_exec (resp_request [ascii ''SET'', k, v]) r = (ascii ''+OK'' @ crlf, r') \<and> bt_wf r' \<and> bt_get r' = (bt_get r)(k \<mapsto> v)"
    using kv_exec_cmds(3) [OF k v] by blast
qed

section \<open>Keys, values and replies\<close>

lemma usize_digits: "b \<in> set (show_usize n) \<Longrightarrow> b \<noteq> 58 \<and> b < 0x80"
  using show_usize_chars [of b n] by (auto simp: word_less_nat_alt word_le_nat_alt)

lemma plain_reg: "plain reg"
  by (simp add: plain_def reg_def)

lemma plain_show_i64: "plain (show_i64 w)"
  using length_show_i64 [of w] show_i64_bytes [of _ w] by (auto simp: plain_def ws_free_def)

lemma plain_aj_key: "plain (aj_key c q)"
proof -
  have "unat c < 2 ^ 32" using unsigned_less [of c] by simp
  moreover have "unat q < 2 ^ 64" using unsigned_less [of q] by simp
  ultimately have "length (show_usize (unat c)) \<le> 20" "length (show_usize (unat q)) \<le> 20" by (simp_all add: length_usize)
  then show ?thesis using usize_digits by (auto simp: plain_def aj_key_def)
qed

lemma append_mark_eq: "x \<notin> set a \<Longrightarrow> x \<notin> set b \<Longrightarrow> a @ x # a' = b @ x # b' \<longleftrightarrow> a = b \<and> a' = b'"
proof (induction a arbitrary: b)
  case (Cons y a)
  then show ?case by (cases b) auto
qed (auto simp: Cons_eq_append_conv)

lemma show_usize_word: "show_usize (unat (a :: 'a :: len word)) = show_usize (unat b) \<longleftrightarrow> a = b"
  if "LENGTH('a) \<le> 64"
proof -
  have "unat x < 2 ^ 64" for x :: "'a word"
    using unsigned_less [of x] that by (meson order_less_le_trans one_le_numeral power_increasing)
  then show ?thesis by (metis option.inject parse_show_usize word_unat_eq_iff)
qed

text \<open>The value written is a function of the key, and no such key is the register.\<close>

lemma aj_key_inj: "aj_key c q = aj_key c' q' \<longleftrightarrow> c = c' \<and> q = q'"
proof -
  have "58 \<notin> set (show_usize m)" for m using usize_digits by blast
  then show ?thesis using append_mark_eq [of 58 "show_usize (unat c)" "show_usize (unat c')"]
    by (auto simp: aj_key_def show_usize_word)
qed

lemma aj_key_reg: "aj_key c q \<noteq> reg"
  by (simp add: aj_key_def reg_def)

lemma take_reply: "take 256 (to_bytes (Bulk (Some (show_i64 w)))) = to_bytes (Bulk (Some (show_i64 w)))"
    "take 256 (to_bytes (Bulk None)) = to_bytes (Bulk None)"
proof -
  have "length (show_i64 w) \<le> 20" by (rule length_show_i64)
  moreover from this have "length (show_usize (length (show_i64 w))) \<le> 2"
    using length_dec_digits [of "int (length (show_i64 w))" 1] by (simp add: show_usize_def)
  ultimately show "take 256 (to_bytes (Bulk (Some (show_i64 w)))) = to_bytes (Bulk (Some (show_i64 w)))" by (simp add: crlf_def)
qed (simp add: crlf_def)

lemma reply_shapes: "take 3 (to_bytes (Bulk (Some (show_i64 w)))) \<noteq> ascii ''$-1''" "to_bytes (Bulk x) \<noteq> []"
proof -
  obtain d ds where d: "show_usize (length (show_i64 w)) = d # ds" by (cases "show_usize (length (show_i64 w))") auto
  then have "48 \<le> d" using show_usize_chars [of d "length (show_i64 w)"] by simp
  then have "d \<noteq> 45" by auto
  then show "take 3 (to_bytes (Bulk (Some (show_i64 w)))) \<noteq> ascii ''$-1''" by (simp add: d crlf_def numeral_3_eq_3)
  show "to_bytes (Bulk x) \<noteq> []" by (cases x) simp_all
qed

text \<open>What a key holds, as the experiment's numbers.\<close>

definition reg_holds :: "bytes option \<Rightarrow> i64 \<Rightarrow> bool" where
  "reg_holds x v \<longleftrightarrow> x = None \<and> v = 0 \<or> x = Some (show_i64 v)"

lemma reg_reply:
  assumes "reg_holds x v"
  shows "take 256 (to_bytes (Bulk x)) = to_bytes (Bulk x)" and "parse_get (to_bytes (Bulk x)) = v"
proof -
  have "parse_get (to_bytes (Bulk None)) = 0"
    by (simp add: parse_get_def from_utf8_lossy_id utf8_valid_ascii_byte crlf_def Let_def)
  then show "take 256 (to_bytes (Bulk x)) = to_bytes (Bulk x)" "parse_get (to_bytes (Bulk x)) = v"
    using assms take_reply parse_get_bulk by (auto simp: reg_holds_def simp del: to_bytes.simps)
qed

section \<open>What is captured\<close>

text \<open>The requests of the experiment.\<close>

definition aj_cmd :: "bytes list \<Rightarrow> bool" where
  "aj_cmd parts \<longleftrightarrow> parts = [ascii ''PING''] \<or> parts = [ascii ''GET'', reg] \<or> (\<exists>v. parts = [ascii ''SET'', reg, show_i64 v]) \<or>
     (\<exists>c q. parts = aj_write c q)"

lemma aj_cmdI [intro]: "aj_cmd (aj_write c q)" "aj_cmd (aj_register c q)" "aj_cmd [ascii ''PING'']"
  unfolding aj_cmd_def aj_register_def by auto

lemma aj_cmd_plain: "aj_cmd parts \<Longrightarrow> list_all plain parts \<and> length parts \<le> 3 \<and> parts \<noteq> []"
proof -
  have "plain (ascii ''PING'')" "plain (ascii ''GET'')" "plain (ascii ''SET'')" by (simp_all add: plain_def)
  then show "aj_cmd parts \<Longrightarrow> list_all plain parts \<and> length parts \<le> 3 \<and> parts \<noteq> []"
    using plain_reg plain_show_i64 plain_aj_key unfolding aj_cmd_def aj_write_def
    by (auto simp del: ascii_Cons)
qed

lemma aj_cmd_ok: "aj_cmd parts \<Longrightarrow> cmd_ok parts"
  using aj_cmd_plain [of parts] plainD(2) by (auto simp: cmd_ok_def list_all_iff)

lemma aj_cmd_small: "aj_cmd parts \<Longrightarrow> capture_ok (cid, resp_request parts)"
proof -
  assume "aj_cmd parts"
  then have p: "list_all plain parts" "length parts \<le> 3" using aj_cmd_plain by blast+
  have "length (concat (map (\<lambda>p. ascii ''$'' @ show_usize (length p) @ crlf @ p @ crlf) ps)) \<le> length ps * 1100"
    if "list_all plain ps" for ps
    using that
  proof (induction ps)
    case (Cons p ps)
    then have "length p < 1000" by (simp add: plain_def)
    then show ?case using Cons length_usize [of "length p"] by (simp add: crlf_def)
  qed simp
  from this [OF p(1)] p(2) length_usize [of "length parts"] show ?thesis
    by (simp add: capture_ok_def resp_request_def crlf_def)
qed

text \<open>Requests can be told apart in a stream.\<close>

lemma wire_eq [simp]: "wire a = wire b \<longleftrightarrow> a = b"
  by (auto simp: wire_def inj_def dest: map_injective)

lemma resp_request_inj:
  assumes "cmd_ok a" "cmd_ok b" "resp_request a @ x = resp_request b @ y"
  shows "a = b \<and> x = y"
proof -
  have "read_command (wire (resp_request a) @ wire x) = (Inr (Some a), wire x)" if "cmd_ok a" for a x
    using that read_command_array [of a "wire x"] by (simp add: resp_request_cmd resp_cmd_def cmd_ok_def)
  note read = this [OF assms(1), of x] this [OF assms(2), of y]
  have "wire (resp_request a) @ wire x = wire (resp_request b) @ wire y"
    using arg_cong [OF assms(3), of wire] by (simp only: wire_simps)
  then have "(Inr (Some a) :: rd_error + bytes list option, wire x) = (Inr (Some b), wire y)" using read by (simp only:)
  then show ?thesis by simp
qed

lemma resp_request_Nil [simp]: "resp_request a \<noteq> []"
  by (simp add: resp_request_def)

section \<open>The invariant of the load\<close>

text \<open>
  The capture file is a sequence of whole records of the experiment's requests, with at most a torn one
  behind; and of every acknowledged write the request is among them.
\<close>

definition aj_file :: "(u32 \<times> bytes list) list \<Rightarrow> (u32 \<times> bytes) list" where
  "aj_file recs = map (\<lambda>x. (fst x, resp_request (snd x))) recs"

fun wire_inv :: "bytes list set \<Rightarrow> u32 \<Rightarrow> aj_client \<Rightarrow> bool" where
  "wire_inv got c x \<longleftrightarrow>
     (case ac_wire x of
        Quiet \<Rightarrow> ac_phase x \<noteq> Await_write
      | Sent_off parts \<Rightarrow> aj_cmd parts \<and> (ac_phase x = Await_write \<longrightarrow> parts = aj_write c (ac_seq x))
      | Taken parts \<Rightarrow> parts \<in> got \<and> (ac_phase x = Await_write \<longrightarrow> parts = aj_write c (ac_seq x))
      | Answered _ \<Rightarrow> ac_phase x = Await_write \<longrightarrow> aj_write c (ac_seq x) \<in> got)"

definition aj_holds :: "(u32 \<times> bytes list) list \<Rightarrow> 'r aj_sys \<Rightarrow> bool" where
  "aj_holds recs s \<longleftrightarrow> (\<forall>x \<in> set recs. aj_cmd (snd x)) \<and> (\<forall>c. wire_inv (snd ` set recs) c (as_clients s c)) \<and>
     (\<forall>e \<in> set (as_writes s). \<exists>c q. e = (aj_key c q, aj_val c q) \<and> aj_write c q \<in> snd ` set recs)"

definition aj_inv :: "'r aj_sys \<Rightarrow> bool" where
  "aj_inv s \<longleftrightarrow> (\<exists>recs rec k. capture_ok rec \<and> k < length (capture_record rec) \<and> (as_redis s \<noteq> None \<longrightarrow> k = 0) \<and>
     as_capture s = concat (map capture_record (aj_file recs)) @ take k (capture_record rec) \<and> aj_holds recs s)"

lemma wire_inv_mono: "wire_inv got c x \<Longrightarrow> got \<subseteq> got' \<Longrightarrow> wire_inv got' c x"
  by (auto split: aj_wire.splits)

lemma aj_set_simps [simp]:
  "as_clients (aj_set c x s) = (as_clients s)(c := x)" "as_redis (aj_set c x s) = as_redis s"
  "as_capture (aj_set c x s) = as_capture s" "as_writes (aj_set c x s) = as_writes s" "as_now (aj_set c x s) = as_now s"
  "as_stop (aj_set c x s) = as_stop s" "as_reg_ops (aj_set c x s) = as_reg_ops s" "as_hist (aj_set c x s) = as_hist s"
  by (simp_all add: aj_set_def)

lemma aj_registered_simps [simp]:
  "as_clients (aj_registered c q t r s) = as_clients s" "as_redis (aj_registered c q t r s) = as_redis s"
  "as_capture (aj_registered c q t r s) = as_capture s" "as_writes (aj_registered c q t r s) = as_writes s"
  by (simp_all add: aj_registered_def aj_push_def)

lemma aj_wrote_simps [simp]:
  "as_clients (aj_wrote c q r s) = as_clients s" "as_redis (aj_wrote c q r s) = as_redis s"
  "as_capture (aj_wrote c q r s) = as_capture s"
  by (simp_all add: aj_wrote_def)

text \<open>A step that leaves the file and the writes alone and changes one client.\<close>

lemma aj_inv_client:
  assumes "aj_inv s" "as_capture s' = as_capture s" "as_redis s' = None \<longleftrightarrow> as_redis s = None" "as_clients s' = as_clients s"
    and "\<And>recs. aj_holds recs s \<Longrightarrow> wire_inv (snd ` set recs) c x \<and>
      (\<forall>e \<in> set (as_writes s'). e \<in> set (as_writes s) \<or> (\<exists>c q. e = (aj_key c q, aj_val c q) \<and> aj_write c q \<in> snd ` set recs))"
  shows "aj_inv (aj_set c x s')"
proof -
  obtain recs rec k where I: "capture_ok rec" "k < length (capture_record rec)" "as_redis s \<noteq> None \<longrightarrow> k = 0"
    "as_capture s = concat (map capture_record (aj_file recs)) @ take k (capture_record rec)" "aj_holds recs s"
    using assms(1) unfolding aj_inv_def by blast
  have "aj_holds recs (aj_set c x s')"
    using I(5) assms(4) assms(5) [OF I(5)] by (auto simp: aj_holds_def simp del: wire_inv.simps)
  moreover have "as_redis s' \<noteq> None \<longrightarrow> k = 0" using I(3) assms(3) by simp
  ultimately show ?thesis unfolding aj_inv_def aj_set_simps assms(2) using I(1-4) by blast
qed

lemma aj_holds_wire: "aj_holds recs s \<Longrightarrow> as_clients s c = x \<Longrightarrow> wire_inv (snd ` set recs) c x"
  by (auto simp: aj_holds_def simp del: wire_inv.simps)

lemma aj_inv_take:
  assumes "aj_inv s" "as_clients s c = \<lparr>ac_seq = q, ac_phase = ph, ac_wire = Sent_off parts\<rparr>" "as_redis s = Some r"
  shows "aj_inv (aj_set c \<lparr>ac_seq = q, ac_phase = ph, ac_wire = Taken parts\<rparr>
    (s\<lparr>as_capture := as_capture s @ capture_record (cid, resp_request parts)\<rparr>))"
proof -
  obtain recs rec where I: "capture_ok rec" "as_capture s = concat (map capture_record (aj_file recs))" "aj_holds recs s"
    using assms(1,3) unfolding aj_inv_def by auto
  let ?recs = "recs @ [(cid, parts)]" and ?x = "\<lparr>ac_seq = q, ac_phase = ph, ac_wire = Taken parts\<rparr>"
  have p: "aj_cmd parts" "ph = Await_write \<longrightarrow> parts = aj_write c q" using aj_holds_wire [OF I(3) assms(2)] by simp_all
  have "snd ` set recs \<subseteq> snd ` set ?recs" by auto
  then have "wire_inv (snd ` set ?recs) d (as_clients s d)" for d
    using wire_inv_mono [OF aj_holds_wire [OF I(3) refl]] by blast
  moreover have "wire_inv (snd ` set ?recs) c ?x" using p by simp
  ultimately have "aj_holds ?recs (aj_set c ?x (s\<lparr>as_capture := as_capture s @ capture_record (cid, resp_request parts)\<rparr>))"
    using I(3) p(1) by (simp add: aj_holds_def del: wire_inv.simps) blast
  moreover have "as_capture s @ capture_record (cid, resp_request parts) = concat (map capture_record (aj_file ?recs))"
    using I(2) by (simp add: aj_file_def)
  ultimately show ?thesis unfolding aj_inv_def using I(1)
    by (intro exI [of _ ?recs] exI [of _ rec] exI [of _ 0]) simp
qed

lemma aj_step_inv:
  assumes "aj_step exec conn n s s'" "aj_inv s"
  shows "aj_inv s'"
  using assms
proof (induction rule: aj_step.induct)
  case (tick s t)
  then show ?case by (simp add: aj_inv_def aj_holds_def)
next
  case (stopped c s q w)
  show ?case using aj_holds_wire [OF _ stopped(2)] stopped
    by (intro aj_inv_client [OF stopped(4)]) (auto split: aj_wire.splits)
next
  case (send_write c s q w)
  show ?case by (rule aj_inv_client [OF send_write(4)]) auto
next
  case (got_write c s q sent)
  show ?case using aj_holds_wire [OF _ got_write(2)]
    by (intro aj_inv_client [OF got_write(4)]) (auto simp: aj_wrote_def map_put_def)
next
  case (skip_register c s q w)
  show ?case using aj_holds_wire [OF _ skip_register(2)] skip_register
    by (intro aj_inv_client [OF skip_register(4)]) (auto split: aj_wire.splits)
next
  case (send_register c s q w)
  show ?case by (rule aj_inv_client [OF send_register(4)]) auto
next
  case (got_register c s q t0 sent)
  show ?case by (rule aj_inv_client [OF got_register(4)]) auto
next
  case (broken c s q ph w t0)
  have "wire_inv (snd ` set recs) c \<lparr>ac_seq = q, ac_phase = Ended, ac_wire = w\<rparr>" if "aj_holds recs s" for recs
    using aj_holds_wire [OF that broken(2)] by (auto split: aj_wire.splits)
  then show ?case by (intro aj_inv_client [OF broken(5)]) (simp_all del: wire_inv.simps)
next
  case (take_in c s q ph parts r)
  show ?case by (rule aj_inv_take [OF take_in(4,2,3)])
next
  case (answer c s q ph parts r sent r')
  have "wire_inv (snd ` set recs) c \<lparr>ac_seq = q, ac_phase = ph, ac_wire = Answered sent\<rparr>" if "aj_holds recs s" for recs
    using aj_holds_wire [OF that answer(2)] by (cases "ph = Await_write") (simp_all, metis)
  then show ?case using answer(3) by (intro aj_inv_client [OF answer(5)]) (simp_all del: wire_inv.simps)
next
  case (stop s)
  then show ?case by (simp add: aj_inv_def aj_holds_def)
next
  case (kill s r rec k)
  then obtain recs where "as_capture s = concat (map capture_record (aj_file recs))" "aj_holds recs s"
    unfolding aj_inv_def by auto
  then show ?case unfolding aj_inv_def using kill(2,3)
    by (intro exI [of _ recs] exI [of _ rec] exI [of _ k]) (simp add: aj_holds_def del: wire_inv.simps)
qed

lemma aj_init_inv: "aj_inv (aj_init exec pings start t)"
proof -
  let ?recs = "map (\<lambda>c. (c, [ascii ''PING''])) pings"
  have "as_capture (aj_init exec pings start t) = concat (map capture_record (aj_file ?recs))"
    by (simp add: aj_init_def aj_file_def ping_request_def o_def)
  then show ?thesis unfolding aj_inv_def
    by (intro exI [of _ ?recs] exI [of _ "(0, [])"] exI [of _ 0]) (auto simp: aj_init_def aj_holds_def capture_ok_def simp del: ascii_Cons)
qed

lemma aj_run_inv: "aj_run exec conn n start s \<Longrightarrow> aj_inv s"
  by (induction rule: aj_run.induct) (auto intro: aj_init_inv aj_step_inv)

section \<open>Recovery\<close>

text \<open>The streams that the replay tool sends: the captured requests of each connection, in order.\<close>

definition aj_queue :: "(u32 \<times> bytes list) list \<Rightarrow> u32 \<Rightarrow> bytes list list" where
  "aj_queue recs cid = map snd (filter (\<lambda>x. fst x = cid) recs)"

lemma stream_of_file: "stream_of (aj_file recs) cid = concat (map resp_request (aj_queue recs cid))"
  by (induction recs) (simp_all add: stream_of_def aj_file_def aj_queue_def)

lemma replay_streams_file:
  assumes "\<forall>x \<in> set recs. aj_cmd (snd x)" "capture_ok rec" "k < length (capture_record rec)"
  shows "replay_streams (concat (map capture_record (aj_file recs)) @ take k (capture_record rec)) cid =
    concat (map resp_request (aj_queue recs cid))"
proof -
  have "list_all capture_ok (aj_file recs)" using assms(1) by (auto simp: list_all_iff aj_file_def intro: aj_cmd_small)
  then have "capture_loop (concat (map capture_record (aj_file recs)) @ take k (capture_record rec)) capture_empty = capture_of (aj_file recs)"
    using capture_loop_records [OF _ assms(2,3)] by (simp add: capture_of_def)
  moreover have "stream_of (aj_file recs) cid = []" if "cid \<notin> fst ` set (aj_file recs)"
  proof -
    have "filter (\<lambda>r. fst r = cid) (aj_file recs) = []" using that by (auto simp: filter_empty_conv image_iff)
    then show ?thesis by (simp add: stream_of_def)
  qed
  ultimately show ?thesis using capture_of_groups [of "aj_file recs"] by (simp add: replay_streams_def stream_of_file)
qed

text \<open>The register is set by the requests that name it.\<close>

definition sets_reg :: "bytes option \<Rightarrow> bytes list \<Rightarrow> bytes option" where
  "sets_reg x parts = (if length parts = 3 \<and> parts ! 1 = reg then Some (parts ! 2) else x)"

context redis
begin

lemma pinged: "ok r \<Longrightarrow> ok (aj_pinged exec ps r) \<and> look (aj_pinged exec ps r) = look r"
proof (induction ps arbitrary: r)
  case (Cons p ps)
  obtain r' where "exec ping_request r = (ascii ''+PONG'' @ crlf, r')" "ok r'" "look r' = look r"
    using exec_ping [OF Cons.prems] by blast
  then show ?case using Cons.IH [of r'] by (simp add: aj_pinged_def)
qed (simp add: aj_pinged_def)

text \<open>A request of the experiment sets a unique key to its own value or leaves it alone.\<close>

lemma exec_cmd:
  assumes "aj_cmd parts" "ok r"
  shows "ok (snd (exec (resp_request parts) r))"
    and "look (snd (exec (resp_request parts) r)) (aj_key c q) =
      (if parts = aj_write c q then Some (show_i64 (aj_val c q)) else look r (aj_key c q))"
proof -
  have "\<exists>r'. snd (exec (resp_request parts) r) = r' \<and> ok r' \<and>
      look r' (aj_key c q) = (if parts = aj_write c q then Some (show_i64 (aj_val c q)) else look r (aj_key c q))"
    using assms(1) unfolding aj_cmd_def
  proof (elim disjE exE)
    assume "parts = [ascii ''PING'']"
    then show ?thesis using exec_ping [OF assms(2)] by (auto simp: ping_request_def aj_write_def)
  next
    assume "parts = [ascii ''GET'', reg]"
    then show ?thesis using exec_get [OF assms(2) plain_reg] by (auto simp: aj_write_def)
  next
    fix v assume "parts = [ascii ''SET'', reg, show_i64 v]"
    then show ?thesis using exec_set [OF assms(2) plain_reg plain_show_i64, of v] aj_key_reg by (auto simp: aj_write_def simp del: ascii_Cons)
  next
    fix d p assume "parts = aj_write d p"
    then show ?thesis using exec_set [OF assms(2) plain_aj_key plain_show_i64, of d p "aj_val d p"]
      by (auto simp: aj_write_def aj_key_inj simp del: ascii_Cons)
  qed
  then show "ok (snd (exec (resp_request parts) r))" "look (snd (exec (resp_request parts) r)) (aj_key c q) =
      (if parts = aj_write c q then Some (show_i64 (aj_val c q)) else look r (aj_key c q))" by auto
qed

lemma exec_reg:
  assumes "aj_cmd parts" "ok r"
  shows "look (snd (exec (resp_request parts) r)) reg = sets_reg (look r reg) parts"
  using assms(1) unfolding aj_cmd_def
proof (elim disjE exE)
  assume "parts = [ascii ''PING'']"
  then show ?thesis using exec_ping [OF assms(2)] by (auto simp: ping_request_def sets_reg_def)
next
  assume "parts = [ascii ''GET'', reg]"
  then show ?thesis using exec_get [OF assms(2) plain_reg] by (auto simp: sets_reg_def)
next
  fix v assume "parts = [ascii ''SET'', reg, show_i64 v]"
  then show ?thesis using exec_set [OF assms(2) plain_reg plain_show_i64, of v] by (auto simp: sets_reg_def simp del: ascii_Cons)
next
  fix d p assume "parts = aj_write d p"
  then show ?thesis using exec_set [OF assms(2) plain_aj_key plain_show_i64, of d p "aj_val d p"] aj_key_reg [of d p]
    by (auto simp: sets_reg_def aj_write_def simp del: ascii_Cons)
qed

lemma fold_reg:
  assumes "list_all (\<lambda>x. aj_cmd (snd x)) recs" "ok r"
  shows "look (foldl (\<lambda>r x. snd (exec (resp_request (snd x)) r)) r recs) reg = foldl sets_reg (look r reg) (map snd recs)"
  using assms
proof (induction recs arbitrary: r)
  case (Cons x recs)
  then show ?case using Cons.IH [OF _ exec_cmd(1) [of "snd x" r]] exec_reg [of "snd x" r] by simp
qed simp

text \<open>However the connections are interleaved, a captured write is there at the end.\<close>

lemma replay_keeps:
  assumes "aj_replay exec streams r r'" "ok r" "\<And>cid. streams cid = concat (map resp_request (que cid))"
    and "\<And>cid. list_all aj_cmd (que cid)"
  shows "ok r' \<and> (look r (aj_key c q) = Some (show_i64 (aj_val c q)) \<or> (\<exists>cid. aj_write c q \<in> set (que cid)) \<longrightarrow>
    look r' (aj_key c q) = Some (show_i64 (aj_val c q)))"
  using assms
proof (induction arbitrary: que rule: aj_replay.induct)
  case (finished r)
  have "que cid = []" for cid using finished(2) [of cid] by (cases "que cid") simp_all
  then show ?case using finished(1) by simp
next
  case (request streams cid parts rest r r')
  obtain a as where a: "que cid = a # as" using request.prems(2) [of cid] request.hyps(1) by (cases "que cid") simp_all
  have cmd: "aj_cmd a" "list_all aj_cmd as" using request.prems(3) [of cid] a by simp_all
  have eq: "a = parts" "rest = concat (map resp_request as)"
    using resp_request_inj [OF aj_cmd_ok [OF cmd(1)] request.hyps(2), of "concat (map resp_request as)" rest]
      request.prems(2) [of cid] request.hyps(1) a by simp_all
  let ?q = "que(cid := as)"
  have "(streams(cid := rest)) d = concat (map resp_request (?q d))" "list_all aj_cmd (?q d)" for d
    using request.prems(2,3) eq(2) cmd(2) by simp_all
  note IH = request.IH [OF exec_cmd(1) [OF cmd(1)[unfolded eq(1)] request.prems(1)] this]
  have "(\<exists>d. aj_write c q \<in> set (que d)) \<longleftrightarrow> parts = aj_write c q \<or> (\<exists>d. aj_write c q \<in> set (?q d))"
    using a eq(1) by (metis fun_upd_apply list.set_intros(1) list.set_intros(2) set_ConsD)
  then show ?case using IH exec_cmd(2) [OF cmd(1)[unfolded eq(1)] request.prems(1), of c q] by auto
qed

lemma verify_finds_all:
  assumes "ok r" "\<And>k v. (k, v) \<in> set kvs \<Longrightarrow> plain k \<and> look r k = Some (show_i64 v)"
  shows "\<exists>r'. aj_verify exec kvs lost torn r = Some (lost, torn, r') \<and> ok r' \<and> look r' = look r"
  using assms
proof (induction kvs arbitrary: r)
  case (Cons kv kvs)
  obtain k v where kv: "kv = (k, v)" by (cases kv)
  then have k: "plain k" "look r k = Some (show_i64 v)" using Cons.prems(2) [of k v] by simp_all
  obtain r' where r': "exec (resp_request [ascii ''GET'', k]) r = (to_bytes (Bulk (Some (show_i64 v))), r')" "ok r'" "look r' = look r"
    using exec_get [OF Cons.prems(1) k(1)] k(2) by auto
  then have "aj_resp exec [ascii ''GET'', k] r = (Some (to_bytes (Bulk (Some (show_i64 v)))), r')"
    using take_reply(1) [of v] reply_shapes(2) by (simp add: aj_resp_def del: to_bytes.simps ascii_Cons)
  moreover have "\<exists>r2. aj_verify exec kvs lost torn r' = Some (lost, torn, r2) \<and> ok r2 \<and> look r2 = look r'"
    by (rule Cons.IH [OF r'(2)]) (metis Cons.prems(2) list.set_intros(2) r'(3))
  ultimately show ?case using r'(3) kv reply_shapes(1) [of v] parse_get_bulk [of v]
    by (simp del: to_bytes.simps ascii_Cons)
qed simp

lemma check_register:
  assumes "ok r" "\<And>k v. (k, v) \<in> set kvs \<Longrightarrow> plain k \<and> look r k = Some (show_i64 v)"
    and "reg_holds (look r reg) v"
  shows "aj_check exec kvs hist t0 t1 r = Some (0, 0,
    is_linearizable (hist @ [\<lparr>l_proc_id = 999, l_action = Read v, l_inv = t0, l_res = t1\<rparr>]) 0)"
proof -
  obtain r1 where r1: "aj_verify exec kvs 0 0 r = Some (0, 0, r1)" "ok r1" "look r1 = look r"
    using verify_finds_all [of r kvs 0 0, OF assms(1,2)] by blast
  obtain r2 where r2: "exec (resp_request [ascii ''GET'', reg]) r1 = (to_bytes (Bulk (look r reg)), r2)"
    using exec_get [OF r1(2) plain_reg] r1(3) by auto
  then show ?thesis using r1(1) reg_reply [OF assms(3)] reply_shapes(2) by (simp add: aj_check_def aj_resp_def del: to_bytes.simps ascii_Cons)
qed

lemma check_finds:
  assumes "ok r" "\<And>k v. (k, v) \<in> set kvs \<Longrightarrow> plain k \<and> look r k = Some (show_i64 v)"
  shows "\<exists>lin. aj_check exec kvs hist t0 t1 r = Some (0, 0, lin)"
proof -
  obtain r1 where r1: "aj_verify exec kvs 0 0 r = Some (0, 0, r1)" "ok r1"
    using verify_finds_all [of r kvs 0 0, OF assms(1,2)] by blast
  then show ?thesis using exec_get [OF r1(2) plain_reg] reply_shapes(2) [of "look r1 reg"]
    by (auto simp: aj_check_def aj_resp_def simp del: to_bytes.simps ascii_Cons)
qed

text \<open>Replaying in any order of the requests that keeps each connection's order.\<close>

lemma replay_in_order:
  assumes "list_all (\<lambda>x. aj_cmd (snd x)) recs"
  shows "aj_replay exec (\<lambda>cid. concat (map resp_request (aj_queue recs cid))) r
    (foldl (\<lambda>r x. snd (exec (resp_request (snd x)) r)) r recs)"
  using assms
proof (induction recs arbitrary: r)
  case Nil
  then show ?case using aj_replay.finished by (simp add: aj_queue_def)
next
  case (Cons x recs)
  let ?f = "\<lambda>recs cid. concat (map resp_request (aj_queue recs cid))"
  have "(?f (x # recs)) (fst x) = resp_request (snd x) @ ?f recs (fst x)" by (simp add: aj_queue_def)
  moreover have "(?f (x # recs))(fst x := ?f recs (fst x)) = ?f recs" by (auto simp: aj_queue_def)
  moreover have "cmd_ok (snd x)" using Cons.prems by (simp add: aj_cmd_ok)
  ultimately show ?case using Cons.IH [of "snd (exec (resp_request (snd x)) r)"] Cons.prems
    by (auto intro!: aj_replay.request [of "?f (x # recs)" "fst x" "snd x" "?f recs (fst x)"])
qed

lemma inv_streams:
  assumes "aj_run exec conn n start s"
  shows "\<exists>recs. list_all (\<lambda>x. aj_cmd (snd x)) recs \<and>
    replay_streams (as_capture s) = (\<lambda>cid. concat (map resp_request (aj_queue recs cid))) \<and>
    (\<forall>e \<in> set (as_writes s). \<exists>c q. e = (aj_key c q, aj_val c q) \<and> aj_write c q \<in> snd ` set recs)"
proof -
  obtain recs rec k where I: "capture_ok rec" "k < length (capture_record rec)"
    "as_capture s = concat (map capture_record (aj_file recs)) @ take k (capture_record rec)" "aj_holds recs s"
    using aj_run_inv [OF assms] unfolding aj_inv_def by blast
  have c: "\<forall>x \<in> set recs. aj_cmd (snd x)" using I(4) by (simp add: aj_holds_def)
  have "replay_streams (as_capture s) = (\<lambda>cid. concat (map resp_request (aj_queue recs cid)))"
    unfolding I(3) using replay_streams_file [OF c I(1,2)] by blast
  then show ?thesis using c I(4) by (auto simp: aj_holds_def list_all_iff simp del: wire_inv.simps)
qed

lemma recovered_durable:
  assumes "aj_run exec conn n start s" "aj_recovered exec pings start (as_capture s) r"
  shows "ok r" and "(k, v) \<in> set (as_writes s) \<Longrightarrow> plain k \<and> look r k = Some (show_i64 v)"
proof -
  obtain recs where R: "list_all (\<lambda>x. aj_cmd (snd x)) recs"
    "replay_streams (as_capture s) = (\<lambda>cid. concat (map resp_request (aj_queue recs cid)))"
    "\<forall>e \<in> set (as_writes s). \<exists>c q. e = (aj_key c q, aj_val c q) \<and> aj_write c q \<in> snd ` set recs"
    using inv_streams [OF assms(1)] by blast
  have cmds: "list_all aj_cmd (aj_queue recs cid)" for cid using R(1) by (auto simp: aj_queue_def list_all_iff)
  have rep: "aj_replay exec (\<lambda>cid. concat (map resp_request (aj_queue recs cid))) (aj_pinged exec pings start) r"
    using assms(2) R(2) by (simp add: aj_recovered_def)
  note keep = replay_keeps [OF rep conjunct1 [OF pinged [OF start_ok]] refl cmds]
  show "ok r" using keep by blast
  assume "(k, v) \<in> set (as_writes s)"
  then obtain c q where kv: "k = aj_key c q" "v = aj_val c q" "aj_write c q \<in> snd ` set recs" using R(3) by blast
  then obtain cid where "(cid, aj_write c q) \<in> set recs" by force
  then have "aj_write c q \<in> set (aj_queue recs cid)" by (force simp: aj_queue_def)
  then show "plain k \<and> look r k = Some (show_i64 v)" using keep [of c q] kv(1,2) plain_aj_key by blast
qed

lemma recovery_exists:
  assumes "aj_run exec conn n start s"
  shows "\<exists>r. aj_recovered exec pings start (as_capture s) r"
  using inv_streams [OF assms] replay_in_order unfolding aj_recovered_def by metis

end

section \<open>Building runs\<close>

text \<open>A request that has been sent is captured and answered.\<close>

lemma run_answer:
  assumes "aj_run exec conn n start s" "c < n" "as_clients s c = \<lparr>ac_seq = q, ac_phase = ph, ac_wire = Sent_off parts\<rparr>"
    and "as_redis s = Some r" "exec (resp_request parts) r = (sent, r')"
  shows "aj_run exec conn n start (s\<lparr>as_capture := as_capture s @ capture_record (conn c, resp_request parts), as_redis := Some r',
    as_clients := (as_clients s)(c := \<lparr>ac_seq = q, ac_phase = ph, ac_wire = Answered sent\<rparr>)\<rparr>)"
proof -
  note taken = aj_run.step [OF assms(1) aj_step.take_in [OF assms(2-4)]]
  show ?thesis using aj_run.step [OF taken aj_step.answer [where exec = exec and r = r and parts = parts and q = q and ph = ph and sent = sent, OF assms(2)]] assms(4,5) by (simp add: aj_set_def)
qed

text \<open>The first half of an iteration: the unique write is sent, answered and acknowledged.\<close>

lemma run_write:
  assumes "redis exec start look ok" "aj_run exec conn n start s" "c < n"
    and "as_clients s c = \<lparr>ac_seq = q, ac_phase = Top, ac_wire = w\<rparr>" "\<not> as_stop s" "as_redis s = Some r" "ok r"
  shows "\<exists>r'. ok r' \<and> look r' = (look r)(aj_key c (q + 1) \<mapsto> show_i64 (aj_val c (q + 1))) \<and>
    exec (resp_request (aj_write c (q + 1))) r = (ascii ''+OK'' @ crlf, r') \<and>
    aj_run exec conn n start (s\<lparr>as_capture := as_capture s @ capture_record (conn c, resp_request (aj_write c (q + 1))), as_redis := Some r',
      as_writes := map_put (aj_key c (q + 1)) (aj_val c (q + 1)) (as_writes s), as_acked := as_acked s + 1,
      as_clients := (as_clients s)(c := \<lparr>ac_seq = q + 1, ac_phase = At_register, ac_wire = Quiet\<rparr>)\<rparr>)"
proof -
  obtain r' where r': "exec (resp_request (aj_write c (q + 1))) r = (ascii ''+OK'' @ crlf, r')" "ok r'"
    "look r' = (look r)(aj_key c (q + 1) \<mapsto> show_i64 (aj_val c (q + 1)))"
    using redis.exec_set [OF assms(1,7) plain_aj_key plain_show_i64, of c "q + 1" "aj_val c (q + 1)"] unfolding aj_write_def by blast
  note sent = aj_run.step [OF assms(2) aj_step.send_write [OF assms(3,4,5)]]
  note answered = run_answer [OF sent assms(3) _ _ r'(1)]
  have ok: "take 256 (ascii ''+OK'' @ crlf) = ascii ''+OK'' @ crlf" "is_ok (ascii ''+OK'' @ crlf)"
    by (simp_all add: crlf_def is_ok_def)
  show ?thesis
    using aj_run.step [OF answered aj_step.got_write [OF assms(3)]] assms(6) r' ok
    by (intro exI [of _ r']) (simp add: aj_set_def aj_wrote_def crlf_def)
qed

text \<open>The second half: a read of the register while the sequence number is odd, a write when it is even.\<close>

lemma run_register:
  assumes "aj_run exec conn n start s" "c < n" "as_clients s c = \<lparr>ac_seq = q, ac_phase = At_register, ac_wire = w\<rparr>"
    and "as_reg_ops s < reg_cap" "as_redis s = Some r" "exec (resp_request (aj_register c q)) r = (sent, r')"
    and "take 256 sent = sent" "sent \<noteq> []"
    and "act = (if q mod 2 = 0 then Write (aj_val c q) else Read (parse_get sent))" "q mod 2 = 0 \<Longrightarrow> is_ok sent"
  shows "aj_run exec conn n start (s\<lparr>as_capture := as_capture s @ capture_record (conn c, resp_request (aj_register c q)), as_redis := Some r',
      as_hist := as_hist s @ [\<lparr>l_proc_id = c, l_action = act, l_inv = as_now s, l_res = as_now s\<rparr>],
      as_reg_ops := as_reg_ops s + 1,
      as_clients := (as_clients s)(c := \<lparr>ac_seq = q, ac_phase = Top, ac_wire = Quiet\<rparr>)\<rparr>)"
proof -
  note sent = aj_run.step [OF assms(1) aj_step.send_register [OF assms(2,3,4)]]
  note answered = run_answer [OF sent assms(2) _ _ assms(6)]
  show ?thesis
    using aj_run.step [OF answered aj_step.got_register [OF assms(2)]] assms(4,5,7-10)
    by (cases "q mod 2 = 0") (simp_all add: aj_set_def aj_registered_def aj_push_def)
qed

text \<open>A whole iteration of one client, in which no other thread takes a step.\<close>

definition iterated :: "(u32 \<Rightarrow> u32) \<Rightarrow> u32 \<Rightarrow> u64 \<Rightarrow> action \<Rightarrow> 'r aj_sys \<Rightarrow> 'r aj_sys \<Rightarrow> bool" where
  "iterated conn c q act s s' \<longleftrightarrow> as_now s' = as_now s \<and> as_stop s' = as_stop s \<and> as_reg_ops s' = as_reg_ops s + 1 \<and>
     as_capture s' = as_capture s @ concat (map capture_record (aj_file [(conn c, aj_write c q), (conn c, aj_register c q)])) \<and>
     as_clients s' = (as_clients s)(c := \<lparr>ac_seq = q, ac_phase = Top, ac_wire = Quiet\<rparr>) \<and>
     as_writes s' = map_put (aj_key c q) (aj_val c q) (as_writes s) \<and>
     as_hist s' = as_hist s @ [\<lparr>l_proc_id = c, l_action = act, l_inv = as_now s, l_res = as_now s\<rparr>]"

lemma run_iteration:
  assumes R: "redis exec start look ok" and run: "aj_run exec conn n start s" and "c < n"
    and top: "as_clients s c = \<lparr>ac_seq = q, ac_phase = Top, ac_wire = w\<rparr>" "\<not> as_stop s" "as_redis s = Some r" "ok r"
    and "as_reg_ops s < reg_cap" "reg_holds (look r reg) v"
    and act: "act = (if (q + 1) mod 2 = 0 then Write (aj_val c (q + 1)) else Read v)"
  shows "\<exists>s' r'. aj_run exec conn n start s' \<and> iterated conn c (q + 1) act s s' \<and> as_redis s' = Some r' \<and> ok r' \<and>
    look r' = (if (q + 1) mod 2 = 0
      then (look r)(aj_key c (q + 1) \<mapsto> show_i64 (aj_val c (q + 1)), reg \<mapsto> show_i64 (aj_val c (q + 1)))
      else (look r)(aj_key c (q + 1) \<mapsto> show_i64 (aj_val c (q + 1))))"
proof -
  let ?q = "q + 1"
  obtain r1 s1 where r1: "ok r1" "look r1 = (look r)(aj_key c ?q \<mapsto> show_i64 (aj_val c ?q))" and s1: "aj_run exec conn n start s1"
    and f: "s1 = s\<lparr>as_capture := as_capture s @ capture_record (conn c, resp_request (aj_write c ?q)), as_redis := Some r1,
      as_writes := map_put (aj_key c ?q) (aj_val c ?q) (as_writes s), as_acked := as_acked s + 1,
      as_clients := (as_clients s)(c := \<lparr>ac_seq = ?q, ac_phase = At_register, ac_wire = Quiet\<rparr>)\<rparr>"
    using run_write [OF R run assms(3) top] by blast
  have look: "look r1 reg = look r reg" using r1(2) aj_key_reg [of c ?q] by auto
  have ok: "take 256 (ascii ''+OK'' @ crlf) = ascii ''+OK'' @ crlf" "is_ok (ascii ''+OK'' @ crlf)" "ascii ''+OK'' \<noteq> []"
    by (simp_all add: crlf_def is_ok_def)
  obtain sent r2 where r2: "exec (resp_request (aj_register c ?q)) r1 = (sent, r2)" "ok r2" "take 256 sent = sent" "sent \<noteq> []"
    "act = (if ?q mod 2 = 0 then Write (aj_val c ?q) else Read (parse_get sent))" "?q mod 2 = 0 \<Longrightarrow> is_ok sent"
    "look r2 = (if ?q mod 2 = 0 then (look r1)(reg \<mapsto> show_i64 (aj_val c ?q)) else look r1)"
  proof (cases "?q mod 2 = 0")
    case True
    then show ?thesis using that redis.exec_set [OF R r1(1) plain_reg plain_show_i64, of "aj_val c ?q"] ok act
      by (auto simp: aj_register_def simp del: ascii_Cons)
  next
    case False
    then show ?thesis using that redis.exec_get [OF R r1(1) plain_reg] reg_reply [OF assms(9)] look act reply_shapes(2)
      by (auto simp: aj_register_def simp del: ascii_Cons to_bytes.simps)
  qed
  have c1: "as_clients s1 c = \<lparr>ac_seq = ?q, ac_phase = At_register, ac_wire = Quiet\<rparr>" "as_reg_ops s1 < reg_cap" "as_redis s1 = Some r1"
    using f assms(8) by simp_all
  have "?q mod 2 = 0 \<Longrightarrow> is_ok sent" by (rule r2(6))
  then obtain s2 where s2: "aj_run exec conn n start s2"
    "s2 = s1\<lparr>as_capture := as_capture s1 @ capture_record (conn c, resp_request (aj_register c ?q)), as_redis := Some r2,
      as_hist := as_hist s1 @ [\<lparr>l_proc_id = c, l_action = act, l_inv = as_now s1, l_res = as_now s1\<rparr>],
      as_reg_ops := as_reg_ops s1 + 1, as_clients := (as_clients s1)(c := \<lparr>ac_seq = ?q, ac_phase = Top, ac_wire = Quiet\<rparr>)\<rparr>"
    using run_register [OF s1 assms(3) c1 r2(1,3,4,5)] by blast
  have "iterated conn c ?q act s s2" by (simp add: iterated_def f s2(2) aj_file_def)
  moreover have "as_redis s2 = Some r2" by (simp add: s2(2))
  ultimately show ?thesis using s2(1) r2(2) r2(7) [unfolded r1(2)] by blast
qed

section \<open>Two runs that fail the register check\<close>

text \<open>The file of a run that has just been killed between two records, and a recovery from it in another order.\<close>

lemma kill_clean:
  assumes "aj_run exec conn n start s" "as_redis s = Some r"
  shows "aj_run exec conn n start (s\<lparr>as_redis := None\<rparr>)"
  using aj_run.step [OF assms(1) aj_step.kill [OF assms(2), of "(0, [])" 0]] by (simp add: capture_ok_def)

lemma recovered_order:
  assumes "redis exec start look ok" "raw = concat (map capture_record (aj_file recs))" "list_all (\<lambda>x. aj_cmd (snd x)) recs"
    and "aj_queue recs' = aj_queue recs" "list_all (\<lambda>x. aj_cmd (snd x)) recs'"
  shows "\<exists>r. aj_recovered exec [] start raw r \<and> ok r \<and> look r reg = foldl sets_reg None (map snd recs')"
proof -
  let ?r = "foldl (\<lambda>r x. snd (exec (resp_request (snd x)) r)) start recs'"
  have "replay_streams raw = (\<lambda>cid. concat (map resp_request (aj_queue recs' cid)))"
    using replay_streams_file [of recs "(0, [])" 0] assms(2-4) by (auto simp: list_all_iff capture_ok_def)
  then have rec: "aj_recovered exec [] start raw ?r"
    using redis.replay_in_order [OF assms(1,5), of start] by (simp add: aj_recovered_def aj_pinged_def)
  have "ok (foldl (\<lambda>r x. snd (exec (resp_request (snd x)) r)) r recs')" if "ok r" for r
    using assms(5) that
  proof (induction recs' arbitrary: r)
    case (Cons x recs')
    then show ?case using redis.exec_cmd(1) [OF assms(1), of "snd x" r] by simp
  qed simp
  then show ?thesis using rec redis.fold_reg [OF assms(1,5) redis.start_ok [OF assms(1)]]
      redis.start_ok [OF assms(1)] redis.start_empty [OF assms(1)] by auto
qed

lemma sets_reg_cmds: "sets_reg x (aj_write c q) = x"
    "sets_reg x (aj_register c q) = (if q mod 2 = 0 then Some (show_i64 (aj_val c q)) else x)"
  using aj_key_reg [of c q] by (simp_all add: sets_reg_def aj_write_def aj_register_def)

lemma aj_init_simps [simp]:
  "as_now (aj_init exec ps start t) = t" "as_redis (aj_init exec ps start t) = Some (aj_pinged exec ps start)"
  "as_clients (aj_init exec ps start t) c = \<lparr>ac_seq = 0, ac_phase = Top, ac_wire = Quiet\<rparr>" "\<not> as_stop (aj_init exec ps start t)"
  "as_reg_ops (aj_init exec ps start t) = 0" "as_writes (aj_init exec ps start t) = []" "as_hist (aj_init exec ps start t) = []"
  "as_capture (aj_init exec [] start t) = []"
  by (simp_all add: aj_init_def)

text \<open>The first iteration of a client that has not done any, and its second.\<close>

lemma run_two:
  assumes R: "redis exec start look ok" and run: "aj_run exec conn n start s" and "c < n"
    and top: "as_clients s c = \<lparr>ac_seq = 0, ac_phase = Top, ac_wire = w\<rparr>" "\<not> as_stop s" "as_redis s = Some r" "ok r"
    and "as_reg_ops s + 1 < reg_cap" "as_reg_ops s < reg_cap" "reg_holds (look r reg) v"
  shows "\<exists>s1 s2 r2. aj_run exec conn n start s2 \<and> iterated conn c 1 (Read v) s s1 \<and> iterated conn c 2 (Write (aj_val c 2)) s1 s2 \<and>
    as_redis s2 = Some r2 \<and> ok r2 \<and> look r2 reg = Some (show_i64 (aj_val c 2))"
proof -
  obtain s1 r1 where s1: "aj_run exec conn n start s1" "iterated conn c 1 (Read v) s s1" "as_redis s1 = Some r1" "ok r1"
    "look r1 = (look r)(aj_key c 1 \<mapsto> show_i64 (aj_val c 1))"
    using run_iteration [OF R run assms(3) top assms(9,10) refl] by auto
  have "look r1 reg = look r reg" using s1(5) aj_key_reg [of c 1] by auto
  then obtain s2 r2 where "aj_run exec conn n start s2" "iterated conn c 2 (Write (aj_val c 2)) s1 s2" "as_redis s2 = Some r2" "ok r2"
    "look r2 = (look r1)(aj_key c 2 \<mapsto> show_i64 (aj_val c 2), reg \<mapsto> show_i64 (aj_val c 2))"
    using run_iteration [OF R s1(1) assms(3), of 1 Quiet r1 v "Write (aj_val c 2)"] s1(2-4) top(2) assms(8,10)
    by (auto simp: iterated_def)
  moreover from this have "look r2 reg = Some (show_i64 (aj_val c 2))" by simp
  ultimately show ?thesis using s1(2) by blast
qed

text \<open>
  A register write that the server has carried out and answered, but whose answer is lost in the kill. The
  recovery is exact, and the verdict is negative: the write is not in the history, the value read is.
\<close>

lemma in_flight_run:
  assumes R: "redis exec start look ok" and "0 < n"
  shows "\<exists>s rk. aj_run exec conn n start s \<and> as_redis s = Some rk \<and> look rk reg = Some (show_i64 2) \<and>
    as_hist s = [\<lparr>l_proc_id = 0, l_action = Read 0, l_inv = 1, l_res = 1\<rparr>] \<and>
    as_capture s = concat (map capture_record (aj_file (map (Pair (conn 0)) [aj_write 0 1, aj_register 0 1, aj_write 0 2, aj_register 0 2])))"
proof -
  let ?s0 = "aj_init exec [] start 1"
  have s0: "aj_run exec conn n start ?s0" by (rule aj_run.init)
  have start: "ok start" "look start reg = None" using redis.start_ok [OF R] redis.start_empty [OF R] by simp_all
  have "aj_pinged exec [] start = start" by (simp add: aj_pinged_def)
  then obtain s1 r1 where s1: "aj_run exec conn n start s1" "iterated conn 0 1 (Read 0) ?s0 s1" "as_redis s1 = Some r1" "ok r1"
    using run_iteration [OF R s0 assms(2), of 0 Quiet start 0 "Read 0"] start by (auto simp: reg_holds_def reg_cap_def)
  have top: "as_clients s1 0 = \<lparr>ac_seq = 1, ac_phase = Top, ac_wire = Quiet\<rparr>" "\<not> as_stop s1" "as_reg_ops s1 < reg_cap"
    using s1(2) by (simp_all add: iterated_def reg_cap_def)
  obtain r2 s2 where r2: "ok r2" and s2: "aj_run exec conn n start s2"
    "s2 = s1\<lparr>as_capture := as_capture s1 @ capture_record (conn 0, resp_request (aj_write 0 2)), as_redis := Some r2,
      as_writes := map_put (aj_key 0 2) (aj_val 0 2) (as_writes s1), as_acked := as_acked s1 + 1,
      as_clients := (as_clients s1)(0 := \<lparr>ac_seq = 2, ac_phase = At_register, ac_wire = Quiet\<rparr>)\<rparr>"
    using run_write [OF R s1(1) assms(2) top(1,2) s1(3,4)] by auto
  have at: "as_clients s2 0 = \<lparr>ac_seq = 2, ac_phase = At_register, ac_wire = Quiet\<rparr>" "as_reg_ops s2 < reg_cap" "as_redis s2 = Some r2"
    using s2(2) top(3) by simp_all
  obtain sent r3 where r3: "exec (resp_request (aj_register 0 2)) r2 = (sent, r3)" "look r3 reg = Some (show_i64 2)"
    using redis.exec_set [OF R r2 plain_reg plain_show_i64, of 2] by (auto simp: aj_register_def aj_val_def simp del: ascii_Cons)
  note sent = aj_run.step [OF s2(1) aj_step.send_register [OF assms(2) at(1,2)]]
  obtain s3 where s3: "aj_run exec conn n start s3" "as_redis s3 = Some r3" "as_hist s3 = as_hist s2"
    "as_capture s3 = as_capture s2 @ capture_record (conn 0, resp_request (aj_register 0 2))"
    by (rule that [OF run_answer [OF sent assms(2) _ _ r3(1), of 2 "Await_register (as_now s2)"]]) (use at(3) in simp_all)
  have "as_hist s3 = [\<lparr>l_proc_id = 0, l_action = Read 0, l_inv = 1, l_res = 1\<rparr>]" using s3(3) s2(2) s1(2) by (simp add: iterated_def)
  moreover have "as_capture s3 = concat (map capture_record (aj_file (map (Pair (conn 0))
      [aj_write 0 1, aj_register 0 1, aj_write 0 2, aj_register 0 2])))"
    using s3(4) s2(2) s1(2) by (simp add: iterated_def aj_file_def)
  ultimately show ?thesis using s3(1,2) r3(2) by blast
qed

text \<open>
  Two clients whose register writes follow one another, both acknowledged, and nothing in flight. The replay
  may take the second connection first, and then brings back the older of the two values.
\<close>

lemma two_writers_run:
  assumes R: "redis exec start look ok" and "1 < n"
  shows "\<exists>s rk. aj_run exec conn n start s \<and> as_redis s = Some rk \<and> look rk reg = Some (show_i64 1000002) \<and>
    (\<forall>c. ac_phase (as_clients s c) = Top \<and> ac_wire (as_clients s c) = Quiet) \<and>
    as_hist s = [\<lparr>l_proc_id = 0, l_action = Read 0, l_inv = 1, l_res = 1\<rparr>, \<lparr>l_proc_id = 0, l_action = Write 2, l_inv = 1, l_res = 1\<rparr>,
      \<lparr>l_proc_id = 1, l_action = Read 2, l_inv = 2, l_res = 2\<rparr>, \<lparr>l_proc_id = 1, l_action = Write 1000002, l_inv = 2, l_res = 2\<rparr>] \<and>
    as_capture s = concat (map capture_record (aj_file
      (map (Pair (conn 0)) [aj_write 0 1, aj_register 0 1, aj_write 0 2, aj_register 0 2] @
       map (Pair (conn 1)) [aj_write 1 1, aj_register 1 1, aj_write 1 2, aj_register 1 2])))"
proof -
  let ?s0 = "aj_init exec [] start 1"
  have s0: "aj_run exec conn n start ?s0" by (rule aj_run.init)
  have start: "ok start" "look start reg = None" using redis.start_ok [OF R] redis.start_empty [OF R] by simp_all
  have n: "0 < n" using assms(2) by (rule less_trans [rotated]) simp
  have "aj_pinged exec [] start = start" by (simp add: aj_pinged_def)
  then obtain s1 s2 r2 where s2: "aj_run exec conn n start s2" "as_redis s2 = Some r2" "ok r2" "look r2 reg = Some (show_i64 (aj_val 0 2))"
    and i: "iterated conn 0 1 (Read 0) ?s0 s1" "iterated conn 0 2 (Write (aj_val 0 2)) s1 s2"
    using run_two [OF R s0 n, of Quiet start 0] start by (auto simp: reg_holds_def reg_cap_def)
  let ?t = "s2\<lparr>as_now := 2\<rparr>"
  have t: "aj_run exec conn n start ?t" using i by (intro aj_run.step [OF s2(1) aj_step.tick]) (simp add: iterated_def)
  have top: "as_clients ?t 1 = \<lparr>ac_seq = 0, ac_phase = Top, ac_wire = Quiet\<rparr>" "\<not> as_stop ?t" "as_redis ?t = Some r2"
    "as_reg_ops ?t + 1 < reg_cap" "as_reg_ops ?t < reg_cap" using i s2(2) by (simp_all add: iterated_def reg_cap_def)
  have "reg_holds (look r2 reg) 2" using s2(4) by (simp add: reg_holds_def aj_val_def)
  then obtain s3 s4 r4 where s4: "aj_run exec conn n start s4" "as_redis s4 = Some r4" "look r4 reg = Some (show_i64 (aj_val 1 2))"
    and j: "iterated conn 1 1 (Read 2) ?t s3" "iterated conn 1 2 (Write (aj_val 1 2)) s3 s4"
    using run_two [OF R t assms(2) top(1-3) s2(3) top(4,5)] by blast
  have "look r4 reg = Some (show_i64 1000002)" using s4(3) by (simp add: aj_val_def)
  moreover have "ac_phase (as_clients s4 c) = Top \<and> ac_wire (as_clients s4 c) = Quiet" for c
    using i j by (simp add: iterated_def)
  moreover have "as_hist s4 = [\<lparr>l_proc_id = 0, l_action = Read 0, l_inv = 1, l_res = 1\<rparr>, \<lparr>l_proc_id = 0, l_action = Write 2, l_inv = 1, l_res = 1\<rparr>,
      \<lparr>l_proc_id = 1, l_action = Read 2, l_inv = 2, l_res = 2\<rparr>, \<lparr>l_proc_id = 1, l_action = Write 1000002, l_inv = 2, l_res = 2\<rparr>]"
    using i j by (simp add: iterated_def aj_val_def)
  moreover have "as_capture s4 = concat (map capture_record (aj_file
      (map (Pair (conn 0)) [aj_write 0 1, aj_register 0 1, aj_write 0 2, aj_register 0 2] @
       map (Pair (conn 1)) [aj_write 1 1, aj_register 1 1, aj_write 1 2, aj_register 1 2])))"
    using i j by (simp add: iterated_def aj_file_def)
  ultimately show ?thesis using s4(1,2) by blast
qed

text \<open>The verdict on a killed run, from the order in which its requests are replayed.\<close>

lemma verdict:
  assumes R: "redis exec start look ok" and run: "aj_run exec conn n start s" "as_redis s = Some rk"
    and cap: "as_capture s = concat (map capture_record (aj_file recs))" "list_all (\<lambda>x. aj_cmd (snd x)) recs"
    and ord: "aj_queue recs' = aj_queue recs" "list_all (\<lambda>x. aj_cmd (snd x)) recs'" "reg_holds (foldl sets_reg None (map snd recs')) v"
  shows "\<exists>s' r. aj_step exec conn n s s' \<and> as_redis s' = None \<and> as_hist s' = as_hist s \<and>
    aj_recovered exec [] start (as_capture s') r \<and> reg_holds (look r reg) v \<and>
    aj_check exec (as_writes s') (as_hist s') t0 t1 r = Some (0, 0,
      is_linearizable (as_hist s @ [\<lparr>l_proc_id = 999, l_action = Read v, l_inv = t0, l_res = t1\<rparr>]) 0)"
proof -
  let ?s = "s\<lparr>as_redis := None\<rparr>"
  have kill: "aj_step exec conn n s ?s" using aj_step.kill [OF run(2), of "(0, [])" 0] by (simp add: capture_ok_def)
  note dead = aj_run.step [OF run(1) kill]
  obtain r where r: "aj_recovered exec [] start (as_capture ?s) r" "ok r" "look r reg = foldl sets_reg None (map snd recs')"
    using recovered_order [OF R _ cap(2) ord(1,2), of "as_capture ?s"] cap(1) by auto
  have v: "reg_holds (look r reg) v" using r(3) ord(3) by simp
  note check = redis.check_register [OF R r(2) redis.recovered_durable(2) [OF R dead r(1)] v, of "as_writes ?s"]
  show ?thesis using kill r(1) v check by (intro exI [of _ ?s] exI [of _ r]) simp
qed

section \<open>The experiment\<close>

text \<open>The connections of the examples: the first two the interposed server accepts.\<close>

definition next_conn :: "u32 \<Rightarrow> u32" where
  "next_conn c = c + 1"

text \<open>
  C9: the durability check of the experiment on an unmodified Redis always succeeds. A recovery is possible
  after every run, and after every recovery that replays the capture completely, whatever the order in
  which the server takes the requests of different connections, no acknowledged write is lost or torn, in
  whatever order the map of writes is read.
\<close>

theorem app_jepsen_durable:
  assumes "redis exec start look ok" "aj_run exec conn n start s" "set kvs = set (as_writes s)"
  shows "(\<exists>r. aj_recovered exec pings start (as_capture s) r) \<and>
    (\<forall>r. aj_recovered exec pings start (as_capture s) r \<longrightarrow> (\<exists>lin. aj_check exec kvs (as_hist s) t0 t1 r = Some (0, 0, lin)))"
proof -
  have "\<exists>lin. aj_check exec kvs (as_hist s) t0 t1 r = Some (0, 0, lin)" if "aj_recovered exec pings start (as_capture s) r" for r
    using redis.check_finds [OF assms(1) redis.recovered_durable(1) [OF assms(1,2) that], of kvs "as_hist s" t0 t1]
      redis.recovered_durable(2) [OF assms(1,2) that] assms(3) by blast
  then show ?thesis using redis.recovery_exists [OF assms(1,2)] by blast
qed

theorem app_jepsen_durable_witness:
  "\<exists>s rk. aj_run kv_exec next_conn 2 [] s \<and> as_redis s = Some rk \<and> 8 \<le> length (as_capture s) \<and>
    (\<forall>r. aj_recovered kv_exec [] [] (as_capture s) r \<longrightarrow> (\<exists>lin. aj_check kv_exec (as_writes s) (as_hist s) 3 4 r = Some (0, 0, lin)))"
proof -
  obtain s rk where s: "aj_run kv_exec next_conn 2 [] s" "as_redis s = Some rk" "as_capture s = concat (map capture_record (aj_file
      (map (Pair (next_conn 0)) [aj_write 0 1, aj_register 0 1, aj_write 0 2, aj_register 0 2] @
       map (Pair (next_conn 1)) [aj_write 1 1, aj_register 1 1, aj_write 1 2, aj_register 1 2])))"
    using two_writers_run [OF kv_redis.redis_axioms, of 2 next_conn] by auto
  have "8 \<le> length (as_capture s)" using s(3) by (simp add: aj_file_def)
  then show ?thesis using app_jepsen_durable [OF kv_redis.redis_axioms s(1) refl, of "[]" 3 4] s(1,2) by blast
qed

text \<open>
  The register check can fail on a correct recovery. A client's register write is carried out and the
  server killed before the client has its answer: the recovery brings back exactly what the server held,
  and the verdict is that the history is not linearizable, because writes in flight are left out of it.
\<close>

theorem app_jepsen_in_flight:
  assumes R: "redis exec start look ok" and "0 < n"
  shows "\<exists>s rk s' r. aj_run exec conn n start s \<and> as_redis s = Some rk \<and> aj_step exec conn n s s' \<and> as_redis s' = None \<and>
    aj_recovered exec [] start (as_capture s') r \<and> look r reg = look rk reg \<and>
    aj_check exec (as_writes s') (as_hist s') 2 2 r = Some (0, 0, False)"
proof -
  let ?recs = "map (Pair (conn 0)) [aj_write 0 1, aj_register 0 1, aj_write 0 2, aj_register 0 2]"
  obtain s rk where s: "aj_run exec conn n start s" "as_redis s = Some rk" "look rk reg = Some (show_i64 2)"
    "as_hist s = [\<lparr>l_proc_id = 0, l_action = Read 0, l_inv = 1, l_res = 1\<rparr>]"
    "as_capture s = concat (map capture_record (aj_file ?recs))"
    using in_flight_run [OF assms, of conn] by blast
  have cmds: "list_all (\<lambda>x. aj_cmd (snd x)) ?recs" by (simp add: aj_cmdI)
  have "reg_holds (foldl sets_reg None (map snd ?recs)) 2" by (simp add: sets_reg_cmds reg_holds_def aj_val_def)
  note v = verdict [OF R s(1,2,5) cmds refl cmds this, of 2 2]
  have "\<not> is_linearizable [\<lparr>l_proc_id = 0, l_action = Read 0, l_inv = 1, l_res = 1\<rparr>,
      \<lparr>l_proc_id = 999, l_action = Read 2, l_inv = 2, l_res = 2\<rparr>] 0" by code_simp
  then have lin: "is_linearizable (as_hist s @ [\<lparr>l_proc_id = 999, l_action = Read 2, l_inv = 2, l_res = 2\<rparr>]) 0 = False"
    using s(4) by simp
  obtain s' r where s': "aj_step exec conn n s s'" "as_redis s' = None" "aj_recovered exec [] start (as_capture s') r"
    "reg_holds (look r reg) 2" "aj_check exec (as_writes s') (as_hist s') 2 2 r = Some (0, 0, False)"
    using v unfolding lin by blast
  then have "look r reg = look rk reg" using s(3) by (simp add: reg_holds_def)
  then show ?thesis using s(1,2) s'(1,2,3,5) by blast
qed

theorem app_jepsen_in_flight_witness:
  "\<exists>(s :: kv_store aj_sys) r. as_redis s = None \<and> aj_recovered kv_exec [] [] (as_capture s) r \<and>
    aj_check kv_exec (as_writes s) (as_hist s) 2 2 r = Some (0, 0, False)"
proof -
  have "0 < (1 :: u32)" by simp
  from app_jepsen_in_flight [OF kv_redis.redis_axioms this, of next_conn] show ?thesis by blast
qed

text \<open>
  Recovery can lose the order of acknowledged writes. Two clients write the register one after the other,
  both are acknowledged, and nothing is in flight when the server is killed; the history so far is
  linearizable. The streams of the two connections are replayed in parallel, so the fresh server may take
  the second connection's first, and then holds the older value: the register has gone back in time.
\<close>

theorem app_jepsen_reordered:
  assumes R: "redis exec start look ok" and "1 < n" "conn 0 \<noteq> conn 1"
  shows "\<exists>s rk s' r. aj_run exec conn n start s \<and> as_redis s = Some rk \<and>
    (\<forall>c. ac_phase (as_clients s c) = Top \<and> ac_wire (as_clients s c) = Quiet) \<and> aj_step exec conn n s s' \<and> as_redis s' = None \<and>
    aj_recovered exec [] start (as_capture s') r \<and> look rk reg = Some (show_i64 1000002) \<and> look r reg = Some (show_i64 2) \<and>
    is_linearizable (as_hist s') 0 \<and> aj_check exec (as_writes s') (as_hist s') 3 3 r = Some (0, 0, False)"
proof -
  let ?a = "map (Pair (conn 0)) [aj_write 0 1, aj_register 0 1, aj_write 0 2, aj_register 0 2]"
  let ?b = "map (Pair (conn 1)) [aj_write 1 1, aj_register 1 1, aj_write 1 2, aj_register 1 2]"
  let ?h = "[\<lparr>l_proc_id = 0, l_action = Read 0, l_inv = 1, l_res = 1\<rparr>, \<lparr>l_proc_id = 0, l_action = Write 2, l_inv = 1, l_res = 1\<rparr>,
      \<lparr>l_proc_id = 1, l_action = Read 2, l_inv = 2, l_res = 2\<rparr>, \<lparr>l_proc_id = 1, l_action = Write 1000002, l_inv = 2, l_res = 2\<rparr>]"
  obtain s rk where s: "aj_run exec conn n start s" "as_redis s = Some rk" "look rk reg = Some (show_i64 1000002)"
    "\<forall>c. ac_phase (as_clients s c) = Top \<and> ac_wire (as_clients s c) = Quiet" "as_hist s = ?h"
    "as_capture s = concat (map capture_record (aj_file (?a @ ?b)))"
    using two_writers_run [OF assms(1,2), of conn] by blast
  have cmds: "list_all (\<lambda>x. aj_cmd (snd x)) (?a @ ?b)" "list_all (\<lambda>x. aj_cmd (snd x)) (?b @ ?a)" by (simp_all add: aj_cmdI)
  have q: "aj_queue (?b @ ?a) = aj_queue (?a @ ?b)" using assms(3) by (auto simp: aj_queue_def)
  have "reg_holds (foldl sets_reg None (map snd (?b @ ?a))) 2" by (simp add: sets_reg_cmds reg_holds_def aj_val_def)
  note v = verdict [OF R s(1,2,6) cmds(1) q cmds(2) this, of 3 3]
  have "\<not> is_linearizable [\<lparr>l_proc_id = 0, l_action = Read 0, l_inv = 1, l_res = 1\<rparr>, \<lparr>l_proc_id = 0, l_action = Write 2, l_inv = 1, l_res = 1\<rparr>,
      \<lparr>l_proc_id = 1, l_action = Read 2, l_inv = 2, l_res = 2\<rparr>, \<lparr>l_proc_id = 1, l_action = Write 1000002, l_inv = 2, l_res = 2\<rparr>,
      \<lparr>l_proc_id = 999, l_action = Read 2, l_inv = 3, l_res = 3\<rparr>] 0" by code_simp
  then have lin: "is_linearizable (as_hist s @ [\<lparr>l_proc_id = 999, l_action = Read 2, l_inv = 3, l_res = 3\<rparr>]) 0 = False"
    using s(5) by simp
  have h: "is_linearizable ?h 0" by code_simp
  obtain s' r where s': "aj_step exec conn n s s'" "as_redis s' = None" "as_hist s' = as_hist s" "aj_recovered exec [] start (as_capture s') r"
    "reg_holds (look r reg) 2" "aj_check exec (as_writes s') (as_hist s') 3 3 r = Some (0, 0, False)"
    using v unfolding lin by blast
  then have "look r reg = Some (show_i64 2)" "is_linearizable (as_hist s') 0" using h s(5) by (simp_all add: reg_holds_def)
  then show ?thesis using s(1-4) s'(1,2,4,6) by blast
qed

theorem app_jepsen_reordered_witness:
  "\<exists>(s :: kv_store aj_sys) r. as_redis s = None \<and> aj_recovered kv_exec [] [] (as_capture s) r \<and> is_linearizable (as_hist s) 0 \<and>
    bt_get r reg = Some (show_i64 2) \<and> aj_check kv_exec (as_writes s) (as_hist s) 3 3 r = Some (0, 0, False)"
proof -
  have "1 < (2 :: u32)" "next_conn 0 \<noteq> next_conn 1" by (simp_all add: next_conn_def)
  from app_jepsen_reordered [OF kv_redis.redis_axioms this] show ?thesis by blast
qed

end
