(* ===== verification/OB_Jepsenrun.thy ===== *)
theory OB_Jepsenrun
  imports OB_Jepsen
begin

text \<open>
  The crash experiment \<open>ob_jepsen.rs\<close> as one run: the client threads, their connections and the server they
  talk to, interleaved at every step, with the server killed and started again at any point. What
  the clients see of the network is what this run does; no assumption relates an acknowledgement to the
  server's answer, it follows from the handler's reply and the client's test.
\<close>

section \<open>Where a client stands\<close>

text \<open>
  The write a client is at, the connects it has tried for it in vain, and whether it holds a connection,
  one attempt later.
\<close>

fun advance :: "nat \<times> nat \<times> bool \<Rightarrow> attempt \<Rightarrow> nat \<times> nat \<times> bool" where
  "advance (i, n, conn) a =
     (if \<not> conn \<and> \<not> a_connect a then (if n + 1 = 200 then (i + 1, 0, False) else (i, n + 1, False))
      else (i + 1, 0, a_reply a \<noteq> None))"

lemma set_attempts_advance:
  assumes "set_attempts m conn as = (res, cn, rest)" "0 < m" "m \<le> 200"
  shows "\<exists>used. as = used @ rest \<and> (rest \<noteq> [] \<longrightarrow> foldl advance (i, 200 - m, conn) used = (i + 1, 0, cn)) \<and>
    (res = Some True \<longrightarrow> (\<exists>us a r. used = us @ [a] \<and> a_reply a = Some r \<and> set_acked r \<and>
       fst (foldl advance (i, 200 - m, conn) us) = i))"
  using assms
proof (induction m conn as rule: set_attempts.induct)
  case (3 m conn a as)
  show ?case
  proof (cases "\<not> conn \<and> \<not> a_connect a")
    case False
    then show ?thesis using 3(2)
      by (intro exI [of _ "[a]"]) (auto split: option.splits intro!: exI [of _ "[]"])
  next
    case True
    then have s: "set_attempts m False as = (res, cn, rest)" using 3(2) by simp
    show ?thesis
    proof (cases m)
      case 0
      then show ?thesis using s True by (intro exI [of _ "[a]"]) simp
    next
      case (Suc k)
      have adv: "advance (i, 200 - Suc m, conn) a = (i, 200 - m, False)" using True Suc 3(4) by (auto simp: Suc_diff_Suc)
      obtain used where u: "as = used @ rest" "rest \<noteq> [] \<longrightarrow> foldl advance (i, 200 - m, False) used = (i + 1, 0, cn)"
        "res = Some True \<longrightarrow> (\<exists>us a r. used = us @ [a] \<and> a_reply a = Some r \<and> set_acked r \<and>
           fst (foldl advance (i, 200 - m, False) us) = i)" using 3(1) [OF True s] Suc 3(4) by auto
      have fl: "foldl advance (i, 200 - Suc m, conn) (a # us) = foldl advance (i, 200 - m, False) us" for us
        using adv by (simp del: advance.simps)
      show ?thesis using u fl by (metis append_Cons)
    qed
  qed
qed auto

text \<open>A pair held for acknowledged comes from an attempt whose reply passed the test, at that write.\<close>

lemma jepsen_client_source:
  assumes "(k, v) \<in> set (t_acked (jepsen_client c [i..<ops] conn as t))" "(k, v) \<notin> set (t_acked t)"
  shows "\<exists>us a rest r. as = us @ a # rest \<and> a_reply a = Some r \<and> set_acked r \<and>
    k = jepsen_key c (fst (foldl advance (i, 0, conn) us)) \<and> v = jepsen_val c (fst (foldl advance (i, 0, conn) us))"
  using assms
proof (induction "ops - i" arbitrary: i conn as t)
  case (Suc n)
  then have up: "[i..<ops] = i # [i + 1..<ops]" "n = ops - (i + 1)" by (simp_all add: upt_conv_Cons)
  obtain res cn rest where s: "set_attempts 200 conn as = (res, cn, rest)" by (cases "set_attempts 200 conn as")
  obtain used where u: "as = used @ rest" "rest \<noteq> [] \<Longrightarrow> foldl advance (i, 0, conn) used = (i + 1, 0, cn)"
    "res = Some True \<Longrightarrow> \<exists>us a r. used = us @ [a] \<and> a_reply a = Some r \<and> set_acked r \<and> fst (foldl advance (i, 0, conn) us) = i"
    using set_attempts_advance [OF s, of i] by auto
  define t' where "t' = (case res of Some True \<Rightarrow> t\<lparr>t_acked := t_acked t @ [(jepsen_key c i, jepsen_val c i)]\<rparr>
    | Some False \<Rightarrow> t | None \<Rightarrow> t\<lparr>t_unknown := t_unknown t + 1\<rparr>)"
  have m: "(k, v) \<in> set (t_acked (jepsen_client c [i + 1..<ops] cn rest t'))" using Suc.prems(1) s by (simp add: up(1) t'_def)
  show ?case
  proof (cases "(k, v) \<in> set (t_acked t')")
    case True
    then have "res = Some True" "k = jepsen_key c i" "v = jepsen_val c i"
      using Suc.prems(2) by (auto simp: t'_def split: option.splits bool.splits)
    then show ?thesis using u(1) u(3) by fastforce
  next
    case False
    then obtain us a rs r where r: "rest = us @ a # rs" "a_reply a = Some r" "set_acked r"
      "k = jepsen_key c (fst (foldl advance (i + 1, 0, cn) us))" "v = jepsen_val c (fst (foldl advance (i + 1, 0, cn) us))"
      using Suc(1) [OF up(2) m] by blast
    then have "as = (used @ us) @ a # rs" "foldl advance (i, 0, conn) (used @ us) = foldl advance (i + 1, 0, cn) us"
      using u(1,2) by simp_all
    then show ?thesis using r(2-5) by metis
  qed
qed simp

section \<open>The run\<close>

text \<open>
  A client's connection: none, one over which nothing comes any more, or one the server knows. Its
  request: none outstanding, waiting for the reply, or the bytes of the reply ready to be read.
\<close>

datatype jep_link = JDown | JBroken | JOpen u32

datatype jep_phase = JReady | JWaiting | JAnswered bytes

text \<open>
  The server; on which connections a request was sent that its thread has not taken up; the outcome of
  each client's first connect; connections and requests; the attempts completed.
\<close>

record jep_sys =
  jp_server :: "(conn_end \<times> bytes) sys"
  jp_asked :: "u32 \<Rightarrow> bool"
  jp_linked :: "nat \<Rightarrow> bool option"
  jp_link :: "nat \<Rightarrow> jep_link"
  jp_phase :: "nat \<Rightarrow> jep_phase"
  jp_net :: "nat \<Rightarrow> attempt list"

definition jep_at :: "jep_sys \<Rightarrow> nat \<Rightarrow> nat" where
  "jep_at J c = fst (foldl advance (0, 0, jp_linked J c = Some True) (jp_net J c))"

text \<open>All a client has yet to send when it opens a connection at write \<open>i\<close>.\<close>

definition client_stream :: "nat \<Rightarrow> nat list \<Rightarrow> bytes" where
  "client_stream c is = concat (map (\<lambda>i. set_request (jepsen_key c i) (jepsen_val c i)) is)"

definition jep_open :: "nat \<Rightarrow> nat \<Rightarrow> u32 \<Rightarrow> server \<Rightarrow> (u32 \<Rightarrow> (conn_end \<times> bytes) prog option) \<Rightarrow> jep_sys \<Rightarrow> jep_sys" where
  "jep_open ops c d s cs J = J\<lparr>jp_server := Running s (cs(d \<mapsto> resp_serve d 0 (wire (client_stream c [jep_at J c..<ops])))),
     jp_asked := (jp_asked J)(d := False), jp_link := (jp_link J)(c := JOpen d)\<rparr>"

definition jep_finish :: "nat \<Rightarrow> attempt \<Rightarrow> jep_link \<Rightarrow> jep_sys \<Rightarrow> jep_sys" where
  "jep_finish c a l J = J\<lparr>jp_net := (jp_net J)(c := jp_net J c @ [a]), jp_phase := (jp_phase J)(c := JReady),
     jp_link := (jp_link J)(c := l)\<rparr>"

text \<open>What arrives of a reply of which the server wrote all or, failing, some bytes.\<close>

definition arrived :: "bytes \<Rightarrow> nat option \<Rightarrow> bytes" where
  "arrived b w = (case w of None \<Rightarrow> b | Some n \<Rightarrow> take n b)"

definition jep_deliver :: "u32 \<Rightarrow> bytes \<Rightarrow> jep_sys \<Rightarrow> jep_sys" where
  "jep_deliver d b J = J\<lparr>jp_phase := (\<lambda>c. if jp_link J c = JOpen d \<and> jp_phase J c = JWaiting \<and> b \<noteq> [] then JAnswered b
     else jp_phase J c)\<rparr>"

definition jep_cut :: "jep_link \<Rightarrow> jep_link" where
  "jep_cut l = (case l of JOpen _ \<Rightarrow> JBroken | _ \<Rightarrow> l)"

text \<open>
  The steps. A connection runs the real handler on the requests its client has yet to send; its thread
  takes up a request only after it was sent, and may do so after the client gave up. A reply arrives in
  one read. Waiting ends with the reply, with an error, which drops the connection, or with the end of the
  stream, after which nothing comes. Killing the server breaks all connections.
\<close>

inductive jep_step :: "(conn_end \<times> bytes) scope \<Rightarrow> (u64 \<Rightarrow> u64) \<Rightarrow> u64 \<Rightarrow> bool \<Rightarrow> nat \<Rightarrow> nat \<Rightarrow> jep_sys \<Rightarrow> sys_event list \<Rightarrow> jep_sys \<Rightarrow> bool"
  for sc stamp interval fsync clients ops where
  dial: "c < clients \<Longrightarrow> jp_linked J c = None \<Longrightarrow> jp_server J = Running s cs \<Longrightarrow> server_accept s = (d, s') \<Longrightarrow>
     jep_step sc stamp interval fsync clients ops J [Accepted d] (jep_open ops c d s' cs (J\<lparr>jp_linked := (jp_linked J)(c \<mapsto> True)\<rparr>))"
| dial_refused: "c < clients \<Longrightarrow> jp_linked J c = None \<Longrightarrow>
     jep_step sc stamp interval fsync clients ops J [] (J\<lparr>jp_linked := (jp_linked J)(c \<mapsto> False)\<rparr>)"
| connect: "c < clients \<Longrightarrow> jp_linked J c \<noteq> None \<Longrightarrow> jp_link J c = JDown \<Longrightarrow> jep_at J c < ops \<Longrightarrow>
     jp_server J = Running s cs \<Longrightarrow> server_accept s = (d, s') \<Longrightarrow>
     jep_step sc stamp interval fsync clients ops J [Accepted d] (jep_open ops c d s' cs J)"
| refused: "c < clients \<Longrightarrow> jp_linked J c \<noteq> None \<Longrightarrow> jp_link J c = JDown \<Longrightarrow> jep_at J c < ops \<Longrightarrow>
     jep_step sc stamp interval fsync clients ops J [] (jep_finish c \<lparr>a_connect = False, a_reply = None\<rparr> JDown J)"
| send: "c < clients \<Longrightarrow> jp_linked J c \<noteq> None \<Longrightarrow> jp_link J c \<noteq> JDown \<Longrightarrow> jp_phase J c = JReady \<Longrightarrow> jep_at J c < ops \<Longrightarrow>
     jep_step sc stamp interval fsync clients ops J []
       (J\<lparr>jp_phase := (jp_phase J)(c := JWaiting), jp_asked := (\<lambda>d. jp_asked J d \<or> jp_link J c = JOpen d)\<rparr>)"
| read_reply: "jp_phase J c = JAnswered b \<Longrightarrow>
     jep_step sc stamp interval fsync clients ops J [] (jep_finish c \<lparr>a_connect = True, a_reply = Some b\<rparr> (jp_link J c) J)"
| read_error: "jp_phase J c = JWaiting \<Longrightarrow>
     jep_step sc stamp interval fsync clients ops J [] (jep_finish c \<lparr>a_connect = True, a_reply = None\<rparr> JDown J)"
| read_end: "jp_phase J c = JWaiting \<Longrightarrow>
     jep_step sc stamp interval fsync clients ops J [] (jep_finish c \<lparr>a_connect = True, a_reply = Some []\<rparr> JBroken J)"
| job: "jp_server J = Running s cs \<Longrightarrow> cs d = Some (Apply op k) \<Longrightarrow> jp_asked J d \<Longrightarrow> io_ok sc os \<Longrightarrow>
     svc_apply stamp op (sv_outcomes os (srv_service s)) = (r, sv) \<Longrightarrow>
     jep_step sc stamp interval fsync clients ops J [Did op r]
       (J\<lparr>jp_server := Running (s\<lparr>srv_service := sv\<rparr>) (cs(d \<mapsto> k r)), jp_asked := (jp_asked J)(d := False)\<rparr>)"
| reply: "jp_server J = Running s cs \<Longrightarrow> cs d = Some (Reply b k) \<Longrightarrow>
     jep_step sc stamp interval fsync clients ops J []
       (jep_deliver d (arrived b w) (J\<lparr>jp_server := Running s (cs(d \<mapsto> k w))\<rparr>))"
| close: "jp_server J = Running s cs \<Longrightarrow> cs d = Some (Return x) \<Longrightarrow>
     jep_step sc stamp interval fsync clients ops J [] (J\<lparr>jp_server := Running s (cs(d := None))\<rparr>)"
| kill: "jp_server J = Running s cs \<Longrightarrow>
     jep_step sc stamp interval fsync clients ops J [Crashed]
       (J\<lparr>jp_server := Stopped (files_of s), jp_link := jep_cut \<circ> jp_link J\<rparr>)"
| start: "jp_server J = Stopped w \<Longrightarrow> io_ok sc os \<Longrightarrow>
     jep_step sc stamp interval fsync clients ops J [Started]
       (J\<lparr>jp_server := Running (server_start (w\<lparr>outcomes := os\<rparr>) interval fsync tick) (\<lambda>_. None)\<rparr>)"

definition jep_init :: jep_sys where
  "jep_init = \<lparr>jp_server = Stopped empty_dir, jp_asked = (\<lambda>_. False), jp_linked = (\<lambda>_. None), jp_link = (\<lambda>_. JDown),
     jp_phase = (\<lambda>_. JReady), jp_net = (\<lambda>_. [])\<rparr>"

inductive jep_run :: "(conn_end \<times> bytes) scope \<Rightarrow> (u64 \<Rightarrow> u64) \<Rightarrow> u64 \<Rightarrow> bool \<Rightarrow> nat \<Rightarrow> nat \<Rightarrow> sys_event list \<Rightarrow> jep_sys \<Rightarrow> bool"
  for sc stamp interval fsync clients ops where
  init: "jep_run sc stamp interval fsync clients ops [] jep_init"
| extend: "jep_run sc stamp interval fsync clients ops tr J \<Longrightarrow> jep_step sc stamp interval fsync clients ops J new J' \<Longrightarrow>
     jep_run sc stamp interval fsync clients ops (tr @ new) J'"

section \<open>The threads of the server\<close>

text \<open>
  A thread that serves the writes \<open>is\<close> of client \<open>c\<close> over connection \<open>d\<close>: for each one operation, then one
  reply that passes the client's test only if the executor answered.
\<close>

fun serves :: "u32 \<Rightarrow> nat \<Rightarrow> nat list \<Rightarrow> 'a prog \<Rightarrow> bool" where
  "serves d c [] p \<longleftrightarrow> (\<exists>x. p = Return x)"
| "serves d c (i # is) p \<longleftrightarrow> (\<exists>op k. p = Apply op k \<and> op_logs op \<and> op_kind op = Set (jepsen_key c i) (jepsen_val c i) \<and>
     (\<forall>r. \<exists>b k'. k r = Reply b k' \<and> b \<noteq> [] \<and> (set_acked b \<longrightarrow> r \<noteq> None) \<and> serves d c is (k' None) \<and> (\<forall>n. \<exists>x. k' (Some n) = Return x)))"

definition answers :: "u32 \<Rightarrow> nat \<Rightarrow> nat list \<Rightarrow> op_output option \<Rightarrow> 'a prog \<Rightarrow> bool" where
  "answers d c is r p \<longleftrightarrow> (\<exists>b k. p = Reply b k \<and> b \<noteq> [] \<and> (set_acked b \<longrightarrow> r \<noteq> None) \<and> serves d c is (k None) \<and> (\<forall>n. \<exists>x. k (Some n) = Return x))"

lemma serves_map:
  assumes "\<And>x. \<exists>y. f x = Return y"
  shows "serves d c is p \<Longrightarrow> serves d c is (prog_bind p f)"
proof (induction "is" arbitrary: p)
  case Nil
  then show ?case using assms by auto
next
  case (Cons i "is")
  obtain op k where p: "p = Apply op k" "op_logs op" "op_kind op = Set (jepsen_key c i) (jepsen_val c i)"
    "\<And>r. \<exists>b k'. k r = Reply b k' \<and> b \<noteq> [] \<and> (set_acked b \<longrightarrow> r \<noteq> None) \<and> serves d c is (k' None) \<and> (\<forall>n. \<exists>x. k' (Some n) = Return x)"
    using Cons.prems by auto
  have "\<exists>b k'. prog_bind (k r) f = Reply b k' \<and> b \<noteq> [] \<and> (set_acked b \<longrightarrow> r \<noteq> None) \<and> serves d c is (k' None) \<and>
    (\<forall>n. \<exists>x. k' (Some n) = Return x)" for r
  proof -
    obtain b k' where q: "k r = Reply b k'" "b \<noteq> []" "set_acked b \<longrightarrow> r \<noteq> None" "serves d c is (k' None)" "\<forall>n. \<exists>x. k' (Some n) = Return x"
      using p(4) by blast
    have "\<exists>x. prog_bind (k' (Some n)) f = Return x" for n using q(5) assms by (metis prog_bind.simps(1))
    then show ?thesis using q Cons.IH [OF q(4)] by simp
  qed
  then show ?case using p(1-3) by simp
qed

lemma set_op_logs:
  assumes "c < 2 ^ 64" "i < 2 ^ 64"
  shows "op_logs (op_set_bytes d q (jepsen_key c i) (jepsen_val c i))"
  using length_jepsen [OF assms] jepsen_text utf8_valid_ascii
  by (auto simp: op_logs_def wf_op_def op_defs key_ok_def val_ok_def encode_def enc_key_def enc_val_def)

lemma resp_serve_set:
  assumes "c < 2 ^ 64" "i < 2 ^ 64"
  shows "resp_serve d q (wire (set_request (jepsen_key c i) (jepsen_val c i)) @ s) =
    Apply (op_set_bytes d (q + 1) (jepsen_key c i) (jepsen_val c i))
      (\<lambda>r. emit (to_bytes (case r of Some _ \<Rightarrow> reply_ok | None \<Rightarrow> unavailable)) (resp_serve d (q + 1) s))"
proof -
  have "cmd_ok [ascii ''SET'', jepsen_key c i, jepsen_val c i]" using length_jepsen [OF assms] by (simp add: cmd_ok_def arg_ok_def)
  from resp_serve_cmd [OF this] show ?thesis
    by (simp add: set_request_cmd resp_request_cmd resp_dispatch_def ascii_upper_def ascii_lower_def eq_ignore_ascii_case_def jepsen_lossy)
qed

lemma client_stream_Cons: "wire (client_stream c (i # is)) = wire (set_request (jepsen_key c i) (jepsen_val c i)) @ wire (client_stream c is)"
  by (simp add: client_stream_def wire_def)

lemma resp_serve_serves:
  assumes "c < 2 ^ 64" "\<forall>i \<in> set is. i < 2 ^ 64"
  shows "serves d c is (resp_serve d q (wire (client_stream c is)))"
  using assms(2)
proof (induction "is" arbitrary: q)
  case Nil
  then show ?case by (simp add: client_stream_def wire_def resp_serve_eof)
next
  case (Cons i "is")
  have IH: "serves d c is (prog_bind (resp_serve d (q + 1) (wire (client_stream c is))) (\<lambda>(e, out). Return (e, b @ out)))" for b
    by (rule serves_map) (use Cons in auto)
  have ack: "\<forall>r :: op_output option. set_acked (to_bytes (case r of Some _ \<Rightarrow> reply_ok | None \<Rightarrow> unavailable)) \<longrightarrow> r \<noteq> None"
    by (simp only: set_acked_iff) simp
  have ne: "to_bytes (case r of Some _ \<Rightarrow> reply_ok | None \<Rightarrow> unavailable) \<noteq> []" for r :: "op_output option"
    by (cases r) (simp_all add: reply_ok_def unavailable_def)
  show ?case unfolding client_stream_Cons
    using resp_serve_set [OF assms(1), of i] set_op_logs [OF assms(1), of i] Cons.prems IH ack ne
    by (simp add: emit_def op_set_bytes_def del: to_bytes.simps)
qed

lemma resp_serve_numbered:
  assumes "c < 2 ^ 64" "\<forall>i \<in> set is. i < 2 ^ 64" "unat q + length is < 2 ^ 64"
  shows "numbered d (resp_serve d q (wire (client_stream c is))) q"
  using assms(2,3)
proof (induction "is" arbitrary: q)
  case Nil
  then show ?case by (simp add: client_stream_def wire_def resp_serve_eof)
next
  case (Cons i "is")
  have u: "unat (q + 1) = unat q + 1" "q < q + 1" using seq_next [of q] Cons.prems(2) by simp_all
  have "numbered d (resp_serve d (q + 1) (wire (client_stream c is))) (q + 1)" using Cons u by simp
  then show ?case unfolding client_stream_Cons
    using resp_serve_set [OF assms(1), of i] Cons.prems u numbered_emit
    by (simp add: op_set_bytes_def del: to_bytes.simps)
qed

section \<open>The invariant\<close>

definition did :: "sys_event list \<Rightarrow> nat \<Rightarrow> nat \<Rightarrow> bool" where
  "did tr c i \<longleftrightarrow> (\<exists>op out. Did op (Some out) \<in> set tr \<and> op_kind op = Set (jepsen_key c i) (jepsen_val c i))"

definition acks_ok :: "sys_event list \<Rightarrow> jep_sys \<Rightarrow> bool" where
  "acks_ok tr J \<longleftrightarrow> (\<forall>c b. jp_phase J c = JAnswered b \<longrightarrow> set_acked b \<longrightarrow> did tr c (jep_at J c)) \<and>
     (\<forall>c us a rest r. jp_net J c = us @ a # rest \<longrightarrow> a_reply a = Some r \<longrightarrow> set_acked r \<longrightarrow>
       did tr c (fst (foldl advance (0, 0, jp_linked J c = Some True) us)))"

text \<open>A client that has not dialled yet has done nothing, and without a connection no request is outstanding.\<close>

definition fresh_ok :: "jep_sys \<Rightarrow> bool" where
  "fresh_ok J \<longleftrightarrow> (\<forall>c. jp_linked J c = None \<longrightarrow> jp_net J c = [] \<and> jp_phase J c = JReady \<and> jp_link J c = JDown) \<and>
     (\<forall>c. jp_link J c = JDown \<longrightarrow> jp_phase J c = JReady)"

definition gone :: "'a prog option \<Rightarrow> bool" where
  "gone t \<longleftrightarrow> t = None \<or> (\<exists>x. t = Some (Return x))"

definition idle_at :: "nat \<Rightarrow> u32 \<Rightarrow> nat \<Rightarrow> nat \<Rightarrow> 'a prog option \<Rightarrow> bool" where
  "idle_at ops d c i t \<longleftrightarrow> gone t \<or> (\<exists>p. t = Some p \<and> serves d c [i..<ops] p)"

text \<open>What the thread of a client's connection is at, by the state of the client's request.\<close>

fun conn_ok :: "sys_event list \<Rightarrow> nat \<Rightarrow> u32 \<Rightarrow> nat \<Rightarrow> nat \<Rightarrow> bool \<Rightarrow> 'a prog option \<Rightarrow> jep_phase \<Rightarrow> bool" where
  "conn_ok tr ops d c i asked t JReady \<longleftrightarrow> \<not> asked \<and> idle_at ops d c i t"
| "conn_ok tr ops d c i asked t JWaiting \<longleftrightarrow> (if asked then idle_at ops d c i t
     else gone t \<or> (\<exists>p r. t = Some p \<and> answers d c [i + 1..<ops] r p \<and> (r \<noteq> None \<longrightarrow> did tr c i)))"
| "conn_ok tr ops d c i asked t (JAnswered b) \<longleftrightarrow> \<not> asked \<and> idle_at ops d c (i + 1) t"

definition threads_ok :: "(u32 \<Rightarrow> 'a prog option) \<Rightarrow> bool" where
  "threads_ok cs \<longleftrightarrow> (\<forall>d p. cs d = Some p \<longrightarrow> (\<exists>c is r. serves d c is p \<or> answers d c is r p))"

definition conns_ok :: "sys_event list \<Rightarrow> nat \<Rightarrow> jep_sys \<Rightarrow> bool" where
  "conns_ok tr ops J \<longleftrightarrow> (case jp_server J of
     Stopped w \<Rightarrow> \<forall>c d. jp_link J c \<noteq> JOpen d
   | Running s cs \<Rightarrow> threads_ok cs \<and> (\<forall>c c' d. jp_link J c = JOpen d \<longrightarrow> jp_link J c' = JOpen d \<longrightarrow> c = c') \<and>
       (\<forall>c d. jp_link J c = JOpen d \<longrightarrow> d < srv_conn_id s \<and>
          conn_ok tr ops d c (jep_at J c) (jp_asked J d) (cs d) (jp_phase J c)))"

lemma did_append: "did tr c i \<Longrightarrow> did (tr @ new) c i"
  by (auto simp: did_def)

lemma conn_ok_append: "conn_ok tr ops d c i asked t ph \<Longrightarrow> conn_ok (tr @ new) ops d c i asked t ph"
  by (cases ph) (auto intro: did_append split: if_splits)

lemma serves_shape:
  "serves d c is (Reply b k) \<longleftrightarrow> False" "serves d c is (Apply op k') \<Longrightarrow> \<exists>i is'. is = i # is'"
  by (cases "is"; simp)+

lemma set_acked_arrived: "set_acked (arrived b w) \<Longrightarrow> set_acked b"
  by (auto simp: set_acked_def arrived_def Let_def min_def split: option.splits if_splits)

lemma jep_at_simps [simp]:
  "jep_at (J\<lparr>jp_server := sv\<rparr>) c = jep_at J c" "jep_at (J\<lparr>jp_asked := q\<rparr>) c = jep_at J c" "jep_at (J\<lparr>jp_link := l\<rparr>) c = jep_at J c"
  "jep_at (J\<lparr>jp_phase := ph\<rparr>) c = jep_at J c" "jep_at (jep_deliver d b J) c = jep_at J c"
  "jep_at (jep_open ops e d s cs J) c = jep_at J c" "c \<noteq> e \<Longrightarrow> jep_at (jep_finish e a l' J) c = jep_at J c"
  by (simp_all add: jep_at_def jep_deliver_def jep_open_def jep_finish_def)

text \<open>Dialling does not move a client, nor does it matter to another.\<close>

lemma jep_at_dial: "fresh_ok J \<Longrightarrow> jp_linked J c = None \<Longrightarrow> jep_at (J\<lparr>jp_linked := (jp_linked J)(c \<mapsto> b)\<rparr>) e = jep_at J e"
  by (auto simp: jep_at_def fresh_ok_def)

lemma jep_cut_simps [simp]: "jep_cut l = JDown \<longleftrightarrow> l = JDown" "jep_cut l \<noteq> JOpen d"
  by (cases l; simp add: jep_cut_def)+

lemma fresh_step: "jep_step sc stamp interval fsync clients ops J new J' \<Longrightarrow> fresh_ok J \<Longrightarrow> fresh_ok J'"
  by (induction rule: jep_step.induct)
    (auto simp: fresh_ok_def jep_open_def jep_finish_def jep_deliver_def split: if_splits)

lemma acks_finish:
  assumes "acks_ok tr J" "\<And>r. a_reply a = Some r \<Longrightarrow> set_acked r \<Longrightarrow> did tr c (jep_at J c)"
  shows "acks_ok tr (jep_finish c a l J)"
proof -
  have "jp_net J c @ [a] = us @ x # rest \<Longrightarrow> (us = jp_net J c \<and> x = a) \<or> (\<exists>r. jp_net J c = us @ x # r)" for us x rest
    by (cases rest rule: rev_cases) auto
  then show ?thesis using assms by (fastforce simp: acks_ok_def jep_finish_def jep_at_def)
qed

lemma acks_step:
  assumes "jep_step sc stamp interval fsync clients ops J new J'" "acks_ok tr J" "fresh_ok J" "conns_ok tr ops J"
  shows "acks_ok (tr @ new) J'"
proof -
  have "acks_ok (tr @ new) J" using assms(2) did_append by (fastforce simp: acks_ok_def)
  from assms(1) this assms(3,4) show ?thesis
  proof (induction rule: jep_step.induct)
    case (dial c J s cs d s')
    then show ?case using jep_at_dial [OF dial(6,2)] by (auto simp: acks_ok_def jep_open_def fresh_ok_def)
  next
    case (dial_refused c J)
    then show ?case using jep_at_dial [OF dial_refused(4,2)] by (auto simp: acks_ok_def fresh_ok_def)
  next
    case (refused c J)
    then show ?case by (intro acks_finish) simp_all
  next
    case (read_reply J c b)
    then show ?case by (intro acks_finish) (auto simp: acks_ok_def)
  next
    case (read_error J c)
    then show ?case by (intro acks_finish) simp_all
  next
    case (read_end J c)
    then show ?case by (intro acks_finish) (auto simp: set_acked_def)
  next
    case (reply J s cs d b k w)
    have "did tr c (jep_at J c)" if l: "jp_link J c = JOpen d" "jp_phase J c = JWaiting" "set_acked (arrived b w)" for c
    proof -
      have "conn_ok tr ops d c (jep_at J c) (jp_asked J d) (cs d) JWaiting"
        using reply(1,5) l(1,2) by (fastforce simp: conns_ok_def)
      then show ?thesis using reply(2) set_acked_arrived [OF l(3)]
        by (auto simp: gone_def idle_at_def serves_shape answers_def split: if_splits)
    qed
    then show ?case using reply(3) by (auto simp: acks_ok_def jep_deliver_def)
  qed (auto simp: acks_ok_def jep_open_def split: if_splits)
qed

lemma conns_okD:
  assumes "conns_ok tr ops J" "jp_server J = Running s cs"
  shows "threads_ok cs" "jp_link J c = JOpen d \<Longrightarrow> jp_link J c' = JOpen d \<Longrightarrow> c = c'"
    "jp_link J c = JOpen d \<Longrightarrow> d < srv_conn_id s"
    "jp_link J c = JOpen d \<Longrightarrow> conn_ok tr ops d c (jep_at J c) (jp_asked J d) (cs d) (jp_phase J c)"
  using assms unfolding conns_ok_def by (auto 0 3)

lemma conns_okI:
  assumes "jp_server J = Running s cs" "threads_ok cs"
    and "\<And>c c' d. jp_link J c = JOpen d \<Longrightarrow> jp_link J c' = JOpen d \<Longrightarrow> c = c'"
    and "\<And>c d. jp_link J c = JOpen d \<Longrightarrow> d < srv_conn_id s"
    and "\<And>c d. jp_link J c = JOpen d \<Longrightarrow> conn_ok tr ops d c (jep_at J c) (jp_asked J d) (cs d) (jp_phase J c)"
  shows "conns_ok tr ops J"
  using assms unfolding conns_ok_def by auto

lemma threads_upd: "threads_ok cs \<Longrightarrow> serves d c is p \<or> answers d c is r p \<Longrightarrow> threads_ok (cs(d \<mapsto> p))"
  by (auto simp: threads_ok_def)

lemma threads_del: "threads_ok cs \<Longrightarrow> threads_ok (cs(d := None))"
  by (auto simp: threads_ok_def)

text \<open>A thread that is at an operation, and one that is at a reply.\<close>

lemma serves_job:
  assumes "serves d c is (Apply op k)"
  shows "op_logs op" "\<exists>i is'. is = i # is' \<and> op_kind op = Set (jepsen_key c i) (jepsen_val c i) \<and> answers d c is' r (k r)"
proof -
  obtain i is' where i: "is = i # is'" using serves_shape(2) [OF assms] by blast
  then show "op_logs op" "\<exists>i is'. is = i # is' \<and> op_kind op = Set (jepsen_key c i) (jepsen_val c i) \<and> answers d c is' r (k r)"
    using assms by (auto simp: answers_def)
qed

lemma answers_reply:
  assumes "answers d c is r (Reply b k)"
  shows "serves d c is (k w) \<or> (\<exists>x. k w = Return x)"
  using assms by (cases w; auto simp: answers_def)+

lemma conns_open:
  assumes "conns_ok tr ops J" "jp_server J = Running s cs" "server_accept s = (d, s')" "srv_conn_id s < srv_conn_id s + 1"
    and "jp_phase J c = JReady" "c < 2 ^ 64" "ops \<le> 2 ^ 64"
  shows "conns_ok tr ops (jep_open ops c d s' cs J)"
proof -
  note D = conns_okD [OF assms(1,2)]
  have s': "d = srv_conn_id s" "srv_conn_id s' = srv_conn_id s + 1" using assms(3) by (auto simp: server_accept_def)
  have new: "jp_link J e \<noteq> JOpen d" for e using D(3) [of e d] s'(1) by auto
  have lt: "d' < srv_conn_id s'" if "d' \<le> srv_conn_id s" for d' using that assms(4) s'(2) by (simp add: le_less_trans)
  let ?p = "resp_serve d 0 (wire (client_stream c [jep_at J c..<ops]))"
  have p: "serves d c [jep_at J c..<ops] ?p" by (rule resp_serve_serves) (use assms(6,7) in auto)
  show ?thesis
  proof (rule conns_okI)
    show "jp_server (jep_open ops c d s' cs J) = Running s' (cs(d \<mapsto> ?p))" by (simp add: jep_open_def)
    show "threads_ok (cs(d \<mapsto> ?p))" by (rule threads_upd [OF D(1) disjI1 [OF p]])
    show "a = b" if "jp_link (jep_open ops c d s' cs J) a = JOpen e" "jp_link (jep_open ops c d s' cs J) b = JOpen e" for a b e
      using that D(2) new by (auto simp: jep_open_def split: if_splits)
    fix a e assume a: "jp_link (jep_open ops c d s' cs J) a = JOpen e"
    show "e < srv_conn_id s'"
      using a D(3) [of a e] lt s'(1) by (auto simp: jep_open_def less_imp_le split: if_splits)
    show "conn_ok tr ops e a (jep_at (jep_open ops c d s' cs J) a) (jp_asked (jep_open ops c d s' cs J) e) ((cs(d \<mapsto> ?p)) e)
        (jp_phase (jep_open ops c d s' cs J) a)"
    proof (cases "a = c")
      case True
      then show ?thesis using a assms(5) p by (auto simp: jep_open_def idle_at_def)
    next
      case False
      then have "jp_link J a = JOpen e" "e \<noteq> d" using a new by (auto simp: jep_open_def split: if_splits)
      then show ?thesis using D(4) [of a e] by (simp add: jep_open_def)
    qed
  qed
qed

lemma conns_finish:
  assumes "conns_ok tr ops J" "\<And>d. l = JOpen d \<Longrightarrow> jp_link J c = JOpen d \<and> (\<exists>b. jp_phase J c = JAnswered b) \<and> a_connect a"
  shows "conns_ok tr ops (jep_finish c a l J)"
proof (cases "jp_server J")
  case (Stopped w)
  then show ?thesis using assms by (auto simp: conns_ok_def jep_finish_def)
next
  case (Running s cs)
  note D = conns_okD [OF assms(1) Running]
  have at: "a_connect a \<Longrightarrow> jep_at (jep_finish c a l J) c = jep_at J c + 1"
    by (cases "foldl advance (0, 0, jp_linked J c = Some True) (jp_net J c)") (simp add: jep_at_def jep_finish_def)
  have old: "jp_link J e = JOpen d" if "jp_link (jep_finish c a l J) e = JOpen d" for e d
    using that assms(2) by (auto simp: jep_finish_def split: if_splits)
  show ?thesis
  proof (rule conns_okI)
    show "jp_server (jep_finish c a l J) = Running s cs" using Running by (simp add: jep_finish_def)
    fix e d assume e: "jp_link (jep_finish c a l J) e = JOpen d"
    show "conn_ok tr ops d e (jep_at (jep_finish c a l J) e) (jp_asked (jep_finish c a l J) d) (cs d) (jp_phase (jep_finish c a l J) e)"
    proof (cases "e = c")
      case True
      then have "l = JOpen d" using e by (simp add: jep_finish_def)
      then show ?thesis using D(4) [of c d] assms(2) at True by (auto simp: jep_finish_def)
    next
      case False
      then have "jep_at (jep_finish c a l J) e = jep_at J e" by simp
      then show ?thesis using D(4) [OF old [OF e]] False by (simp add: jep_finish_def)
    qed
  qed (use old D in blast)+
qed

text \<open>A step of one thread concerns the client of its connection alone.\<close>

lemma conns_thread:
  assumes "conns_ok tr ops J" "jp_server J = Running s cs" "jp_server J' = Running s' cs'" "srv_conn_id s' = srv_conn_id s"
    and "jp_link J' = jp_link J" "\<And>c. jep_at J' c = jep_at J c" "threads_ok cs'"
    and other: "\<And>c e. jp_link J c = JOpen e \<Longrightarrow> e \<noteq> d \<Longrightarrow>
      cs' e = cs e \<and> jp_asked J' e = jp_asked J e \<and> jp_phase J' c = jp_phase J c"
    and own: "\<And>c. jp_link J c = JOpen d \<Longrightarrow> conn_ok tr ops d c (jep_at J c) (jp_asked J d) (cs d) (jp_phase J c) \<Longrightarrow>
      conn_ok (tr @ new) ops d c (jep_at J c) (jp_asked J' d) (cs' d) (jp_phase J' c)"
  shows "conns_ok (tr @ new) ops J'"
proof (rule conns_okI [OF assms(3,7)])
  note D = conns_okD [OF assms(1,2)]
  fix c e assume e: "jp_link J' c = JOpen e"
  then have e': "jp_link J c = JOpen e" using assms(5) by simp
  show "e < srv_conn_id s'" using D(3) [OF e'] assms(4) by simp
  show "conn_ok (tr @ new) ops e c (jep_at J' c) (jp_asked J' e) (cs' e) (jp_phase J' c)"
    using own [of c] other [OF e'] D(4) [OF e'] conn_ok_append assms(6) e' by (cases "e = d") auto
  show "c = c'" if "jp_link J' c' = JOpen e" for c' using D(2) [OF e', of c'] that assms(5) by simp
qed

lemma conns_job:
  assumes "conns_ok tr ops J" "jp_server J = Running s cs" "cs d = Some (Apply op k)" "jp_asked J d"
  shows "conns_ok (tr @ [Did op r]) ops
    (J\<lparr>jp_server := Running (s\<lparr>srv_service := sv\<rparr>) (cs(d \<mapsto> k r)), jp_asked := (jp_asked J)(d := False)\<rparr>)"
    and "op_logs op" and "\<exists>c i. op_kind op = Set (jepsen_key c i) (jepsen_val c i)"
proof -
  note D = conns_okD [OF assms(1,2)]
  obtain c "is" where p: "serves d c is (Apply op k)" using D(1) assms(3) by (fastforce simp: threads_ok_def answers_def)
  then show "op_logs op" "\<exists>c i. op_kind op = Set (jepsen_key c i) (jepsen_val c i)" using serves_job(1) serves_job(2) by blast+
  have t: "threads_ok (cs(d \<mapsto> k r))" using serves_job(2) [OF p, of r] threads_upd [OF D(1)] by blast
  show "conns_ok (tr @ [Did op r]) ops
    (J\<lparr>jp_server := Running (s\<lparr>srv_service := sv\<rparr>) (cs(d \<mapsto> k r)), jp_asked := (jp_asked J)(d := False)\<rparr>)"
  proof (rule conns_thread [OF assms(1,2), where d = d and s' = "s\<lparr>srv_service := sv\<rparr>" and cs' = "cs(d \<mapsto> k r)"])
    fix c assume "jp_link J c = JOpen d" "conn_ok tr ops d c (jep_at J c) (jp_asked J d) (cs d) (jp_phase J c)"
    then have w: "jp_phase J c = JWaiting" "idle_at ops d c (jep_at J c) (cs d)"
      using assms(4) by (cases "jp_phase J c"; simp)+
    then have "serves d c [jep_at J c..<ops] (Apply op k)" using assms(3) by (simp add: idle_at_def gone_def)
    from serves_job(2) [OF this, of r] have a: "op_kind op = Set (jepsen_key c (jep_at J c)) (jepsen_val c (jep_at J c))"
      "answers d c [jep_at J c + 1..<ops] r (k r)" by (auto simp: upt_eq_Cons_conv)
    have "did (tr @ [Did op r]) c (jep_at J c)" if "r \<noteq> None" using that a(1) by (auto simp: did_def)
    then show "conn_ok (tr @ [Did op r]) ops d c (jep_at J c)
       (jp_asked (J\<lparr>jp_server := Running (s\<lparr>srv_service := sv\<rparr>) (cs(d \<mapsto> k r)), jp_asked := (jp_asked J)(d := False)\<rparr>) d)
       ((cs(d \<mapsto> k r)) d)
       (jp_phase (J\<lparr>jp_server := Running (s\<lparr>srv_service := sv\<rparr>) (cs(d \<mapsto> k r)), jp_asked := (jp_asked J)(d := False)\<rparr>) c)"
      using w(1) a(2) by auto
  qed (use t in simp_all)
qed

lemma conns_reply:
  assumes "conns_ok tr ops J" "jp_server J = Running s cs" "cs d = Some (Reply b k)"
  shows "conns_ok (tr @ []) ops (jep_deliver d (arrived b w) (J\<lparr>jp_server := Running s (cs(d \<mapsto> k w))\<rparr>))"
proof -
  note D = conns_okD [OF assms(1,2)]
  obtain c "is" r where p: "answers d c is r (Reply b k)" using D(1) assms(3) by (fastforce simp: threads_ok_def serves_shape)
  have "\<exists>is. serves d c is (k w)" using answers_reply [OF p, of w] serves.simps(1) [of d c "k w"] by blast
  then have t: "threads_ok (cs(d \<mapsto> k w))" using threads_upd [OF D(1)] by blast
  show ?thesis
  proof (rule conns_thread [OF assms(1,2), where d = d and s' = s and cs' = "cs(d \<mapsto> k w)"])
    fix c assume l: "jp_link J c = JOpen d" "conn_ok tr ops d c (jep_at J c) (jp_asked J d) (cs d) (jp_phase J c)"
    have "\<not> idle_at ops d c i (cs d)" for i using assms(3) by (auto simp: idle_at_def gone_def serves_shape)
    then obtain r where r: "jp_phase J c = JWaiting" "\<not> jp_asked J d" "answers d c [jep_at J c + 1..<ops] r (Reply b k)"
      using l(2) assms(3) by (cases "jp_phase J c") (auto simp: gone_def split: if_splits)
    have "idle_at ops d c (jep_at J c + 1) (Some (k w))" using answers_reply [OF r(3), of w] by (auto simp: idle_at_def gone_def)
    moreover have "gone (Some (k w))" if "arrived b w = []"
      using that r(3) by (cases w) (auto simp: arrived_def answers_def gone_def)
    ultimately show "conn_ok (tr @ []) ops d c (jep_at J c)
        (jp_asked (jep_deliver d (arrived b w) (J\<lparr>jp_server := Running s (cs(d \<mapsto> k w))\<rparr>)) d) ((cs(d \<mapsto> k w)) d)
        (jp_phase (jep_deliver d (arrived b w) (J\<lparr>jp_server := Running s (cs(d \<mapsto> k w))\<rparr>)) c)"
      using r(1,2) l(1) by (simp add: jep_deliver_def)
  qed (use t in \<open>simp_all add: jep_deliver_def\<close>)
qed

lemma conns_send:
  assumes "conns_ok tr ops J" "jp_phase J c = JReady"
  shows "conns_ok tr ops (J\<lparr>jp_phase := (jp_phase J)(c := JWaiting), jp_asked := (\<lambda>d. jp_asked J d \<or> jp_link J c = JOpen d)\<rparr>)"
proof (cases "jp_server J")
  case (Stopped w)
  then show ?thesis using assms by (auto simp: conns_ok_def)
next
  case (Running s cs)
  note D = conns_okD [OF assms(1) Running]
  show ?thesis
  proof (rule conns_okI [OF _ D(1)])
    fix e d assume "jp_link (J\<lparr>jp_phase := (jp_phase J)(c := JWaiting), jp_asked := (\<lambda>d. jp_asked J d \<or> jp_link J c = JOpen d)\<rparr>) e = JOpen d"
    then have e: "jp_link J e = JOpen d" by simp
    have "e = c \<or> jp_link J c \<noteq> JOpen d" using D(2) [OF e, of c] by blast
    then show "conn_ok tr ops d e
       (jep_at (J\<lparr>jp_phase := (jp_phase J)(c := JWaiting), jp_asked := (\<lambda>d. jp_asked J d \<or> jp_link J c = JOpen d)\<rparr>) e)
       (jp_asked (J\<lparr>jp_phase := (jp_phase J)(c := JWaiting), jp_asked := (\<lambda>d. jp_asked J d \<or> jp_link J c = JOpen d)\<rparr>) d) (cs d)
       (jp_phase (J\<lparr>jp_phase := (jp_phase J)(c := JWaiting), jp_asked := (\<lambda>d. jp_asked J d \<or> jp_link J c = JOpen d)\<rparr>) e)"
      using D(4) [OF e] assms(2) e by (elim disjE) auto
  qed (use Running D(2,3) in auto)
qed

lemma conns_dial:
  assumes "conns_ok tr ops J" "fresh_ok J" "jp_linked J c = None"
  shows "conns_ok tr ops (J\<lparr>jp_linked := (jp_linked J)(c \<mapsto> b)\<rparr>)"
  using assms jep_at_dial [OF assms(2,3), of b] unfolding conns_ok_def by (auto split: sys.splits)

lemma conns_step:
  assumes "jep_step sc stamp interval fsync clients ops J new J'" "conns_ok tr ops J" "fresh_ok J"
    and wrap: "\<And>s cs. jp_server J = Running s cs \<Longrightarrow> srv_conn_id s < srv_conn_id s + 1 \<or> accepts new = 0"
    and "\<And>c. c < clients \<Longrightarrow> c < 2 ^ 64" "ops \<le> 2 ^ 64"
  shows "conns_ok (tr @ new) ops J'"
proof -
  have keep: "conns_ok (tr @ new) ops J" using assms(2) unfolding conns_ok_def by (auto intro: conn_ok_append split: sys.splits)
  from assms(1,2,3) wrap keep show ?thesis
  proof (induction rule: jep_step.induct)
    case (dial c J s cs d s')
    have "srv_conn_id s < srv_conn_id s + 1" using dial(7) [OF dial(3)] by simp
    then show ?case using dial conns_dial [OF dial(8,6,2), of True]
      by (intro conns_open [where s = s]) (use assms(5,6) in \<open>auto simp: fresh_ok_def\<close>)
  next
    case (dial_refused c J)
    then show ?case by (simp add: conns_dial)
  next
    case (connect c J s cs d s')
    have "srv_conn_id s < srv_conn_id s + 1" using connect(9) [OF connect(5)] by simp
    then show ?case using connect by (intro conns_open [where s = s]) (use assms(5,6) in \<open>auto simp: fresh_ok_def\<close>)
  next
    case (send c J)
    then show ?case by (simp add: conns_send)
  next
    case (job J s cs d op k os r sv)
    then show ?case using conns_job(1) by blast
  next
    case (reply J s cs d b k w)
    then show ?case using conns_reply by blast
  next
    case (close J s cs d x)
    show ?case
    proof (rule conns_thread [OF close(3,1), where d = d and s' = s and cs' = "cs(d := None)"])
      fix c assume "jp_link J c = JOpen d" "conn_ok tr ops d c (jep_at J c) (jp_asked J d) (cs d) (jp_phase J c)"
      then show "conn_ok (tr @ []) ops d c (jep_at J c) (jp_asked (J\<lparr>jp_server := Running s (cs(d := None))\<rparr>) d) ((cs(d := None)) d)
          (jp_phase (J\<lparr>jp_server := Running s (cs(d := None))\<rparr>) c)"
        using close(2) by (cases "jp_phase J c") (auto simp: idle_at_def gone_def)
    qed (use threads_del [OF conns_okD(1) [OF close(3,1)]] in simp_all)
  next
    case (kill J s cs)
    then show ?case by (simp add: conns_ok_def)
  next
    case (start J w os tick)
    then show ?case by (simp add: conns_ok_def threads_ok_def)
  qed (auto intro!: conns_finish)
qed

section \<open>The run as a run of the server\<close>

lemma jep_step_sys:
  assumes "jep_step orderly stamp interval fsync clients ops J new J'" "conns_ok tr ops J"
    and "\<And>c. c < clients \<Longrightarrow> c < 2 ^ 64" "ops < 2 ^ 64"
  shows "new = [] \<and> jp_server J' = jp_server J \<or> sys_step orderly stamp interval fsync (jp_server J) new (jp_server J')"
  using assms(1,2)
proof (induction rule: jep_step.induct)
  case (dial c J s cs d s')
  have "numbered d (resp_serve d 0 (wire (client_stream c [jep_at J c..<ops]))) 0" for J :: jep_sys
    by (rule resp_serve_numbered) (use assms(3) [OF dial(1)] assms(4) in auto)
  from accept_orderly [OF dial(4) this] show ?case unfolding jep_open_def dial(3) by simp
next
  case (connect c J s cs d s')
  have "numbered d (resp_serve d 0 (wire (client_stream c [jep_at J c..<ops]))) 0"
    by (rule resp_serve_numbered) (use assms(3) [OF connect(1)] assms(4) in auto)
  from accept_orderly [OF connect(6) this] show ?case unfolding jep_open_def connect(5) by simp
next
  case (job J s cs d op k os r sv)
  have "op_logs op" using conns_job(2) [OF job(6,1,2,3)] .
  then show ?case using job_orderly [of cs d op k os] job(1,2,4,5) by simp
next
  case (reply J s cs d b k w)
  then show ?case using sys_step.reply [of cs d b k orderly stamp interval fsync s w] by (simp add: jep_deliver_def)
next
  case (close J s cs d x)
  then show ?case using sys_step.close [of cs d x] by simp
next
  case (kill J s cs)
  then show ?case using sys_step.kill by simp
next
  case (start J w os tick)
  then show ?case using start_orderly by simp
qed (simp_all add: jep_finish_def)

text \<open>
  The invariant of the run: it is an orderly run of the server, whose operations are the clients' writes, and
  every acknowledgement a client has seen is an answer of the executor.
\<close>

lemma jep_run_inv:
  assumes "jep_run orderly stamp interval fsync clients ops tr J"
    and "trace_bytes tr + 4 < 2 ^ 32" "accepts tr + 1 < 2 ^ 32" "\<And>c. c < clients \<Longrightarrow> c < 2 ^ 64" "ops < 2 ^ 64"
  shows "sys_run orderly stamp interval fsync tr (jp_server J) \<and> acks_ok tr J \<and> fresh_ok J \<and> conns_ok tr ops J \<and>
    (\<forall>op \<in> set (trace_ops tr). \<exists>c i. op_kind op = Set (jepsen_key c i) (jepsen_val c i))"
  using assms(1-3)
proof (induction rule: jep_run.induct)
  case init
  then show ?case by (simp add: jep_init_def sys_run.begin_empty acks_ok_def fresh_ok_def conns_ok_def)
next
  case (extend tr J new J')
  have b: "trace_bytes tr + 4 < 2 ^ 32" "accepts tr + 1 < 2 ^ 32" "accepts tr + accepts new + 1 < 2 ^ 32"
    using extend(4,5) by (simp_all add: trace_bytes_append)
  then have I: "sys_run orderly stamp interval fsync tr (jp_server J)" "acks_ok tr J" "fresh_ok J" "conns_ok tr ops J"
    "\<forall>op \<in> set (trace_ops tr). \<exists>c i. op_kind op = Set (jepsen_key c i) (jepsen_val c i)" using extend(3) by simp_all
  have wrap: "srv_conn_id s < srv_conn_id s + 1 \<or> accepts new = 0" if "jp_server J = Running s cs" for s cs
  proof -
    have "unat (srv_conn_id s) \<le> accepts tr + 1" using sys_run_inv [OF I(1) b(1,2)] that by simp
    then show ?thesis using b(3) unat_add_lem [of "srv_conn_id s" 1] by (cases "accepts new") (auto simp: word_less_nat_alt)
  qed
  have ops: "\<exists>c i. op_kind op = Set (jepsen_key c i) (jepsen_val c i)" if "op \<in> set (trace_ops new)" for op
    using extend(2) that I(4) by (cases rule: jep_step.cases) (auto dest: conns_job(3))
  have "sys_run orderly stamp interval fsync (tr @ new) (jp_server J')"
    using jep_step_sys [OF extend(2) I(4) assms(4,5)] sys_run.extend [OF I(1)] I(1) by auto
  then show ?case
    using acks_step [OF extend(2) I(2,3,4)] fresh_step [OF extend(2) I(3)] conns_step [OF extend(2) I(4,3) wrap assms(4)] assms(5) I(5) ops
    by auto
qed

text \<open>What the clients of a run hold for acknowledged, the executor answered.\<close>

lemma jep_acked_did:
  assumes "acks_ok tr J" "(k, v) \<in> set (all_acked clients ops (\<lambda>c. jp_linked J c = Some True) (jp_net J))"
  shows "\<exists>op out. Did op (Some out) \<in> set tr \<and> op_kind op = Set k v"
proof -
  obtain c where c: "(k, v) \<in> set (t_acked (run_client c ops (jp_linked J c = Some True) (jp_net J c)))"
    using assms(2) by (auto simp: all_acked_def)
  from jepsen_client_source [OF this [unfolded run_client_def]]
  obtain us a rest r where "jp_net J c = us @ a # rest" "a_reply a = Some r" "set_acked r"
    "k = jepsen_key c (fst (foldl advance (0, 0, jp_linked J c = Some True) us))"
    "v = jepsen_val c (fst (foldl advance (0, 0, jp_linked J c = Some True) us))" by auto
  then show ?thesis using assms(1) by (auto simp: acks_ok_def did_def)
qed

lemma jep_run_verifies:
  assumes "jep_run orderly stamp interval fsync clients ops tr J" "jp_server J = Running s cs" "sv_alive (srv_service s)"
    and "trace_bytes tr + 4 < 2 ^ 32" "accepts tr + 1 < 2 ^ 32" "clients * ops < 2 ^ 64"
  shows "verify stamp' (srv_conn_id s) 0 (all_acked clients ops (\<lambda>c. jp_linked J c = Some True) (jp_net J))
    (sv_outcomes [] (srv_service s)) = (0, 0)"
proof (cases "clients = 0 \<or> ops = 0")
  case True
  then have "all_acked clients ops (\<lambda>c. jp_linked J c = Some True) (jp_net J) = []"
    using length_all_acked [of clients ops "\<lambda>c. jp_linked J c = Some True" "jp_net J"] by auto
  then show ?thesis by simp
next
  case False
  then have "clients * 1 \<le> clients * ops" "1 * ops \<le> clients * ops" by (intro mult_le_mono; simp)+
  then have b: "\<And>c. c < clients \<Longrightarrow> c < 2 ^ 64" "ops < 2 ^ 64" using assms(6) by linarith+
  have I: "sys_run orderly stamp interval fsync tr (Running s cs)" "acks_ok tr J"
    "\<And>op. op \<in> set (trace_ops tr) \<Longrightarrow> \<exists>c i. op_kind op = Set (jepsen_key c i) (jepsen_val c i)"
    using jep_run_inv [OF assms(1,4,5) b] assms(2) by auto
  show ?thesis
    by (rule jepsen_verify [OF I(1) assms(3-5) I(3)])
      (use jep_acked_did [OF I(2)] all_acked_keys [OF _ assms(6)] le_less_trans [OF length_all_acked assms(6)] in blast)+
qed

end
