(* ===== verification/OB_Sim.thy ===== *)
theory OB_Sim
  imports OB_Float
begin

unbundle bit_operations_syntax

text \<open>
  The latency simulation \<open>sim.rs\<close>: a single-executor queue with pseudo-random arrivals, the summary of its
  latencies, the three modes and the competitors, in floating-point arithmetic. The natural logarithm of
  the platform's library is an argument. A longer service or a longer fixed part never improves a
  figure, in spite of rounding; so OneBarrier's figures are never worse than those of a competitor.
\<close>

section \<open>Parameters and modes\<close>

record sim_params =
  rtt_us :: f64
  barrier_us :: f64
  apply_us :: f64
  fsync_us :: f64
  requests :: u64
  offered_load :: f64
  seed :: u64

definition sim_default :: sim_params where
  "sim_default = \<lparr>rtt_us = f_of 2, barrier_us = f_of 2, apply_us = f_of (1 / 2), fsync_us = f_of 3000, requests = 200000,
     offered_load = f_of (7 / 10), seed = 0x9E3779B97F4A7C15\<rparr>"

datatype mode = ReliableBaseline | FtOverlap | FtFsync

fun mode_name :: "mode \<Rightarrow> string" where
  "mode_name ReliableBaseline = ''ReliableBaseline''"
| "mode_name FtOverlap = ''FtOverlap''"
| "mode_name FtFsync = ''FtFsync''"

record latency_stats =
  la_mode :: string
  la_n :: nat
  p50_us :: f64
  p99_us :: f64
  p999_us :: f64
  mean_us :: f64
  max_us :: f64

fun service_us :: "sim_params \<Rightarrow> mode \<Rightarrow> f64" where
  "service_us p ReliableBaseline = apply_us p"
| "service_us p FtOverlap = apply_us p"
| "service_us p FtFsync = f_add (apply_us p) (fsync_us p)"

definition fixed_us :: "sim_params \<Rightarrow> mode \<Rightarrow> f64" where
  "fixed_us p _ = f_add (rtt_us p) (barrier_us p)"

section \<open>Random numbers\<close>

definition rng_new :: "u64 \<Rightarrow> u64" where
  "rng_new s = s OR 1"

definition next_u64 :: "u64 \<Rightarrow> u64 \<times> u64" where
  "next_u64 x = (let x = x XOR drop_bit 12 x; x = x XOR push_bit 25 x; x = x XOR drop_bit 27 x in
     (x * 0x2545F4914F6CDD1D, x))"

definition rng_unit :: "u64 \<Rightarrow> f64 \<times> u64" where
  "rng_unit x = (case next_u64 x of (v, x) \<Rightarrow>
     (f_div (f_add (f_of (of_nat (unat (drop_bit 11 v)))) (f_of 1))
        (f_add (f_of (of_nat (unat (push_bit 53 (1 :: u64))))) (f_of 1)), x))"

definition rng_exp :: "(f64 \<Rightarrow> f64) \<Rightarrow> f64 \<Rightarrow> u64 \<Rightarrow> f64 \<times> u64" where
  "rng_exp lnf rate x = (case rng_unit x of (u, x) \<Rightarrow> (f_div (f_neg (lnf u)) rate, x))"

section \<open>The queue\<close>

text \<open>The latencies in the order of arrival.\<close>

fun queue_loop :: "(f64 \<Rightarrow> f64) \<Rightarrow> f64 \<Rightarrow> f64 \<Rightarrow> f64 \<Rightarrow> nat \<Rightarrow> u64 \<Rightarrow> f64 \<Rightarrow> f64 \<Rightarrow> f64 list" where
  "queue_loop lnf lambda svc fixed 0 rng now prev_finish = []"
| "queue_loop lnf lambda svc fixed (Suc n) rng now prev_finish =
     (case rng_exp lnf lambda rng of (e, rng) \<Rightarrow>
        let now = f_add now e; start = f_max now prev_finish; finish = f_add start svc in
          f_add (f_sub finish now) fixed # queue_loop lnf lambda svc fixed n rng now finish)"

definition pct :: "f64 list \<Rightarrow> f64 \<Rightarrow> f64" where
  "pct xs q = (if xs = [] then f_of 0
     else xs ! min (f_usize (f_round (f_mul (f_of (of_nat (length xs - 1))) q))) (length xs - 1))"

text \<open>
  Sorting and summing up. It panics when two latencies cannot be compared and when there are none.
\<close>

definition summarize :: "string \<Rightarrow> f64 list \<Rightarrow> latency_stats option" where
  "summarize name lat =
     (if 2 \<le> length lat \<and> NaN \<in> set lat \<or> lat = [] then None
      else let lat = sort_key f_key lat in
        Some \<lparr>la_mode = name, la_n = length lat, p50_us = pct lat (f_of (50 / 100)), p99_us = pct lat (f_of (99 / 100)),
          p999_us = pct lat (f_of (999 / 1000)), mean_us = f_div (foldl f_add NegZero lat) (f_of (of_nat (length lat))),
          max_us = last lat\<rparr>)"

text \<open>\<open>Vec::with_capacity\<close> panics when the bytes exceed \<open>isize::MAX\<close>.\<close>

definition simulate_explicit :: "(f64 \<Rightarrow> f64) \<Rightarrow> sim_params \<Rightarrow> f64 \<Rightarrow> f64 \<Rightarrow> latency_stats option" where
  "simulate_explicit lnf p svc fixed =
     (let lambda = f_div (offered_load p) (apply_us p); rng = rng_new (seed p) in
      if 2 ^ 63 - 1 < 8 * unat (requests p) then None
      else summarize ''competitor'' (queue_loop lnf lambda svc fixed (unat (requests p)) rng (f_of 0) (f_of 0)))"

definition simulate :: "(f64 \<Rightarrow> f64) \<Rightarrow> sim_params \<Rightarrow> mode \<Rightarrow> latency_stats option" where
  "simulate lnf p mode =
     (let lambda = f_div (offered_load p) (apply_us p); svc = service_us p mode; fixed = fixed_us p mode;
          rng = rng_new (seed p) in
      if 2 ^ 63 - 1 < 8 * unat (requests p) then None
      else summarize (mode_name mode) (queue_loop lnf lambda svc fixed (unat (requests p)) rng (f_of 0) (f_of 0)))"

section \<open>Competitors\<close>

record competitor =
  c_name :: string
  c_svc_us :: f64
  c_fixed_us :: f64
  c_cpu_mult :: f64

definition competitors :: "sim_params \<Rightarrow> competitor list" where
  "competitors p =
     (let remus_ckpt_us = f_of 25000; seq_us = rtt_us p; log_us = f_of (3 / 10);
          barrier = f_add (rtt_us p) (barrier_us p) in
      [\<lparr>c_name = ''OneBarrier'', c_svc_us = apply_us p, c_fixed_us = barrier, c_cpu_mult = f_of 1\<rparr>,
       \<lparr>c_name = ''Remus'', c_svc_us = apply_us p, c_fixed_us = f_add (rtt_us p) (f_div remus_ckpt_us (f_of 2)), c_cpu_mult = f_of 2\<rparr>,
       \<lparr>c_name = ''COLO'', c_svc_us = apply_us p, c_fixed_us = barrier, c_cpu_mult = f_of 2\<rparr>,
       \<lparr>c_name = ''LLFT'', c_svc_us = apply_us p, c_fixed_us = f_add barrier seq_us, c_cpu_mult = f_of 2\<rparr>,
       \<lparr>c_name = ''HyCoR'', c_svc_us = f_add (apply_us p) log_us, c_fixed_us = barrier, c_cpu_mult = f_of 1\<rparr>,
       \<lparr>c_name = ''active-SMR(3)'', c_svc_us = apply_us p, c_fixed_us = barrier, c_cpu_mult = f_of 3\<rparr>])"

lemmas sim_defs [unfold_model] = sim_default_def fixed_us_def rng_new_def next_u64_def rng_unit_def rng_exp_def pct_def
  summarize_def simulate_explicit_def simulate_def competitors_def

section \<open>The generator\<close>

text \<open>No step of the generator can lead to the state zero, in which it would stay.\<close>

lemma xor_self: "(x :: u64) XOR y = 0 \<longleftrightarrow> x = y"
  by (auto simp: bit_eq_iff bit_xor_iff)

lemma drop_bit_fixed: "0 < k \<Longrightarrow> drop_bit k (x :: u64) = x \<Longrightarrow> x = 0"
proof -
  assume k: "0 < k" and "drop_bit k x = x"
  then have "unat x div 2 ^ k = unat x" by (metis unat_drop_bit_eq drop_bit_eq_div)
  then show "x = 0" using k by (metis div_eq_dividend_iff gr0I less_not_refl one_less_numeral_iff one_less_power semiring_norm(76) unat_eq_zero)
qed

lemma push_bit_fixed: "0 < k \<Longrightarrow> push_bit k (x :: u64) = x \<Longrightarrow> x = 0"
proof (rule bit_eqI)
  fix n assume k: "0 < k" "push_bit k x = x"
  show "bit x n = bit 0 n"
  proof (induction n rule: less_induct)
    case (less n)
    have "bit x n \<longleftrightarrow> k \<le> n \<and> bit x (n - k) \<and> n < 64" 
      using arg_cong [OF k(2), of "\<lambda>y. bit y n"] by (auto simp: bit_push_bit_iff)
    then show ?case using less [of "n - k"] k(1) by auto
  qed
qed

lemma xorshift_nonzero: "x \<noteq> 0 \<Longrightarrow> snd (next_u64 x) \<noteq> 0"
proof -
  assume x: "x \<noteq> 0"
  define y z where "y = x XOR drop_bit 12 x" and "z = y XOR push_bit 25 y"
  have "y \<noteq> 0" using x drop_bit_fixed [of 12 x] xor_self [of x "drop_bit 12 x"] by (auto simp: y_def)
  then have "z \<noteq> 0" using push_bit_fixed [of 25 y] xor_self [of y "push_bit 25 y"] by (auto simp: z_def)
  then have "z XOR drop_bit 27 z \<noteq> 0" using drop_bit_fixed [of 27 z] xor_self [of z "drop_bit 27 z"] by auto
  then show "snd (next_u64 x) \<noteq> 0" by (simp add: next_u64_def Let_def y_def z_def)
qed

text \<open>The unit interval: the quotient is exact, and one is among the results.\<close>

lemma unit_le: "n < 2 ^ 53 \<Longrightarrow> of_nat (n + 1) / 2 ^ 53 \<le> (1 :: rat)"
proof -
  assume "n < 2 ^ 53"
  then have "of_nat (n + 1) \<le> (of_nat (2 ^ 53) :: rat)" unfolding of_nat_le_iff by simp
  then show ?thesis by simp
qed

lemma make_tie: "f_make False (2 ^ 53 + 1) = Num (2 ^ 53)"
proof -
  let ?q = "2 ^ 53 + 1 :: rat"
  have "ilog2 ?q = 53" by (rule ilog2_unique) simp_all
  then have u: "ulp_exp ?q = 1" by (simp add: ulp_exp_def)
  have "\<lfloor>?q / 2\<rfloor> = 2 ^ 52" by (simp add: floor_eq_iff)
  then have "half_even (?q / 2) = 2 ^ 52" by (simp add: half_even_def)
  then have "rnd ?q = 2 ^ 53" using u by (simp add: rnd_def round_pos_def)
  then show ?thesis using small_limit [of "2 ^ 53"] f_limit_pos by (simp add: f_make_def)
qed

definition draw :: "u64 \<Rightarrow> nat" where
  "draw x = unat (drop_bit 11 (fst (next_u64 x)))"

lemma draw_bound: "draw x < 2 ^ 53"
proof -
  have "unat (fst (next_u64 x)) < 2 ^ 64" by (rule u64_bound)
  then have "drop_bit 11 (unat (fst (next_u64 x))) < 2 ^ 53" unfolding drop_bit_eq_div by (simp add: div_less_iff_less_mult)
  then show ?thesis by (simp add: draw_def unat_drop_bit_eq)
qed

lemma unit_quotient:
  assumes "n < 2 ^ 53"
  shows "f_div (f_add (f_of (of_nat n)) (f_of 1)) (Num (2 ^ 53)) = Num (of_nat (n + 1) / 2 ^ 53)"
proof -
  have "f_of (of_nat n) = Num (of_nat n)"
    using make_small [of "int n" False] assms by (cases "n = 0") (simp_all add: f_of_def make_zero)
  moreover have "f_make False (of_nat n + 1) = Num (of_nat n + 1)"
    using make_small [of "int n + 1" False] assms by simp
  ultimately have num: "f_add (f_of (of_nat n)) (f_of 1) = Num (of_nat (n + 1))"
    by (simp add: f_of_def make_one f_add_def add.commute)
  have "f_make False (of_nat (n + 1) / 2 ^ 53) = Num (of_nat (n + 1) / 2 ^ 53)"
  proof (rule make_exact)
    have "representable (of_int (int n + 1) * 2 powi - 53)" using assms by (intro representable_form) simp_all
    moreover have "of_int (int n + 1) * 2 powi - 53 = (of_nat (n + 1) / 2 ^ 53 :: rat)" by (simp add: power_int_minus field_simps)
    ultimately show "representable (of_nat (n + 1) / 2 ^ 53)" by metis
    have "of_nat (n + 1) / 2 ^ 53 \<le> (1 :: rat)" using assms by (rule unit_le)
    also have "\<dots> < f_limit" by (rule small_limit) simp
    finally show "of_nat (n + 1) / 2 ^ 53 < f_limit" .
  qed simp
  then show ?thesis by (simp add: num f_div_def)
qed

lemma rng_unit_exact: "fst (rng_unit x) = Num (of_nat (draw x + 1) / 2 ^ 53)"
proof -
  have "f_add (f_of (of_nat (unat (push_bit 53 (1 :: u64))))) (f_of 1) = Num (2 ^ 53)"
    using make_small [of "2 ^ 53" False] by (simp add: f_of_def make_one f_add_def make_tie [simplified])
  then show ?thesis using unit_quotient [OF draw_bound [of x]]
    by (cases "next_u64 x") (simp add: rng_unit_def draw_def)
qed

section \<open>Monotonicity of the queue\<close>

lemma nonneg_refl: "nonneg x \<Longrightarrow> f_le x x"
  by (auto simp: nonneg_def f_le_def)

text \<open>What the simulation relies on: the logarithm of a number in the unit interval is small and not positive.\<close>

definition ln_ok :: "(f64 \<Rightarrow> f64) \<Rightarrow> bool" where
  "ln_ok lnf \<longleftrightarrow> (\<forall>q. 1 / 2 ^ 53 \<le> q \<and> q \<le> 1 \<longrightarrow> f_upto 64 (f_neg (lnf (Num q))))"

text \<open>A rate that is neither tiny nor huge.\<close>

definition rate_ok :: "f64 \<Rightarrow> bool" where
  "rate_ok l \<longleftrightarrow> (\<exists>q. l = Num q \<and> 1 / 2 ^ 300 \<le> q)"

definition gap :: rat where
  "gap = 2 ^ 306"

lemma gap_multiple:
  assumes "n \<le> 2 ^ 53"
  shows "representable (of_nat n * gap)" "of_nat n * gap < f_limit"
proof -
  show "representable (of_nat n * gap)"
    using representable_form [of "int n" 306] assms by (simp add: gap_def)
  have "of_nat n \<le> (of_nat (2 ^ 53) :: rat)" unfolding of_nat_le_iff by (rule assms)
  then have "of_nat n * gap \<le> of_nat (2 ^ 53) * gap" by (rule mult_right_mono) (simp add: gap_def)
  also have "\<dots> = 2 ^ 53 * gap" by simp
  also have "\<dots> < f_limit" unfolding gap_def f_limit_def power_add [symmetric] by (rule power_strict_increasing) simp_all
  finally show "of_nat n * gap < f_limit" .
qed

lemma rng_exp_upto:
  assumes "ln_ok lnf" "rate_ok l"
  shows "f_upto gap (fst (rng_exp lnf l x))"
proof -
  define u where "u = (of_nat (draw x + 1) / 2 ^ 53 :: rat)"
  have "1 / 2 ^ 53 \<le> u" by (simp add: u_def divide_right_mono)
  moreover have "u \<le> 1" unfolding u_def by (rule unit_le [OF draw_bound])
  ultimately have e: "f_upto 64 (f_neg (lnf (Num u)))" using assms(1) by (simp add: ln_ok_def)
  obtain q where q: "l = Num q" "1 / 2 ^ 300 \<le> q" using assms(2) by (auto simp: rate_ok_def)
  then have pos: "0 < q" by (meson less_le_trans zero_less_divide_1_iff zero_less_numeral zero_less_power)
  let ?e = "f_neg (lnf (Num u))"
  have "fval ?e / q \<le> 64 / (1 / 2 ^ 300)" using uptoD(4,5) [OF e] q(2) by (intro frac_le) simp_all
  then have le: "fval ?e / q \<le> gap" by (simp add: gap_def)
  have d: "f_div ?e l = f_make (sign_bit ?e \<noteq> sign_bit l) (fval ?e / q)"
    using f_div_finite [OF uptoD(1) [OF e], of l] uptoD(2) [OF e] q(1) pos by (simp add: nonneg_def)
  have "f_upto gap (f_div ?e l)" unfolding d
    using le pos uptoD(4) [OF e] gap_multiple [of 1] by (intro make_upto) simp_all
  then show ?thesis using rng_unit_exact [of x] by (cases "rng_unit x") (simp add: rng_exp_def u_def)
qed

text \<open>
  The latencies never get shorter when service, fixed part or the backlog at the start grow, and none is
  shorter than the fixed part.
\<close>

lemma queue_loop_mono:
  assumes "ln_ok lnf" "rate_ok l" "nonneg svc" "f_le svc svc'" "nonneg fixed" "f_ok fixed" "f_le fixed fixed'"
    and "f_upto (of_nat k * gap) now" "f_ok now" "nonneg prev" "f_le prev prev'" "k + n \<le> 2 ^ 53"
  shows "list_all2 (\<lambda>x y. f_le fixed x \<and> f_le x y) (queue_loop lnf l svc fixed n rng now prev)
    (queue_loop lnf l svc' fixed' n rng now prev')"
  using assms(8-12)
proof (induction n arbitrary: k rng now prev prev')
  case (Suc n)
  obtain e rng' where e: "rng_exp lnf l rng = (e, rng')" by (cases "rng_exp lnf l rng")
  have ue: "f_upto gap e" using rng_exp_upto [OF assms(1,2), of rng] e by simp
  define now1 where "now1 = f_add now e"
  have "f_upto (of_nat k * gap + gap) now1" unfolding now1_def
    using gap_multiple [of "Suc k"] Suc.prems(5) by (intro f_add_upto [OF Suc.prems(1) ue]) (simp_all add: algebra_simps)
  then have u1: "f_upto (of_nat (Suc k) * gap) now1" by (simp add: algebra_simps)
  have "f_ok e" using e by (auto simp: rng_exp_def split: prod.splits)
  then have ok1: "f_ok now1" using Suc.prems(2) by (simp add: now1_def)
  note n1 = uptoD(1,2) [OF u1]
  let ?s = "f_max now1 prev" and ?s' = "f_max now1 prev'"
  have prev': "nonneg prev'" using nonneg_up [OF Suc.prems(3,4)] .
  have s: "nonneg ?s" "f_le ?s ?s'" "f_le now1 ?s" using f_max_nonneg f_max_mono f_max_ge n1(1) Suc.prems(3,4) by blast+
  have f: "f_le (f_add ?s svc) (f_add ?s' svc')" "nonneg (f_add ?s svc)"
    using f_add_mono [OF s(1) assms(3) s(2) assms(4)] f_add_nonneg [OF s(1) assms(3)] by simp_all
  have "f_le now1 (f_add now1 svc)" by (rule f_add_ge [OF n1(1) ok1 assms(3)])
  also have "f_le \<dots> (f_add ?s svc)" using n1(1) assms(3) s(3) nonneg_refl by (intro f_add_mono) simp_all
  finally have d: "nonneg (f_sub (f_add ?s svc) now1)" by (rule f_sub_nonneg [OF n1])
  have "f_le (f_add (f_sub (f_add ?s svc) now1) fixed) (f_add (f_sub (f_add ?s' svc') now1) fixed')"
    by (rule f_add_mono [OF d assms(5) f_sub_mono [OF f(2,1) n1] assms(7)])
  moreover have "f_le fixed (f_add (f_sub (f_add ?s svc) now1) fixed)"
    using f_add_ge [OF assms(5,6) d] by (simp add: f_add_commute)
  moreover have "list_all2 (\<lambda>x y. f_le fixed x \<and> f_le x y) (queue_loop lnf l svc fixed n rng' now1 (f_add ?s svc)) (queue_loop lnf l svc' fixed' n rng' now1 (f_add ?s' svc'))"
    using Suc.IH [OF u1 ok1 f(2,1)] Suc.prems(5) by simp
  ultimately show ?case using e by (simp add: now1_def Let_def)
qed simp

lemma queue_loop_length: "length (queue_loop lnf l svc fixed n rng now prev) = n"
  by (induction n arbitrary: rng now prev) (simp_all add: Let_def split: prod.split)

section \<open>Monotonicity of the summary\<close>

lemma sort_f_mono:
  assumes "list_all2 f_le xs ys"
  shows "list_all2 f_le (sort_key f_key xs) (sort_key f_key ys)"
proof -
  have key: "list_all2 f_le as bs \<longleftrightarrow> list_all2 (\<le>) (map f_key as) (map f_key bs) \<and> NaN \<notin> set as \<and> NaN \<notin> set bs" for as bs
    by (auto simp: list_all2_conv_all_nth f_le_def in_set_conv_nth)
  show ?thesis using assms sort_mono [of "map f_key xs" "map f_key ys"] by (simp add: key map_sort_key)
qed

lemma foldl_f_add_mono:
  assumes "list_all2 f_le xs ys" "\<forall>x \<in> set xs. nonneg x" "nonneg a" "f_le a b"
  shows "f_le (foldl f_add a xs) (foldl f_add b ys) \<and> nonneg (foldl f_add a xs)"
  using assms
proof (induction xs ys arbitrary: a b rule: list_all2_induct)
  case (Cons x xs y ys)
  have "f_le (f_add a x) (f_add b y)" "nonneg (f_add a x)"
    using f_add_mono [of a x b y] f_add_nonneg [of a x] Cons by simp_all
  then show ?case using Cons by simp
qed simp

definition stats_le :: "latency_stats \<Rightarrow> latency_stats \<Rightarrow> bool" where
  "stats_le s t \<longleftrightarrow> la_n s = la_n t \<and> f_le (p50_us s) (p50_us t) \<and> f_le (p99_us s) (p99_us t) \<and> f_le (p999_us s) (p999_us t) \<and>
     f_le (mean_us s) (mean_us t) \<and> f_le (max_us s) (max_us t)"

lemma pct_mono:
  assumes "list_all2 f_le xs ys" "xs \<noteq> []"
  shows "f_le (pct xs q) (pct ys q)"
proof -
  have "length ys = length xs" "ys \<noteq> []" using assms by (auto dest: list_all2_lengthD)
  moreover have "min i (length xs - 1) < length xs" for i
    using assms(2) by (metis Suc_pred' le_imp_less_Suc length_greater_0_conv min.cobounded2)
  ultimately show ?thesis using assms list_all2_nthD [OF assms(1)] by (simp add: pct_def)
qed

lemma summarize_mono:
  assumes "list_all2 f_le lat lat'" "\<forall>x \<in> set lat. nonneg x" "lat \<noteq> []" "length lat \<le> 2 ^ 53"
  shows "\<exists>s t. summarize name lat = Some s \<and> summarize name' lat' = Some t \<and> stats_le s t \<and> la_n s = length lat"
proof -
  let ?x = "sort_key f_key lat" and ?y = "sort_key f_key lat'"
  have len: "length lat' = length lat" "lat' \<noteq> []" using assms by (auto dest: list_all2_lengthD)
  have nan: "NaN \<notin> set lat" "NaN \<notin> set lat'"
    using assms(1) by (auto simp: list_all2_conv_all_nth f_le_def in_set_conv_nth)
  have m: "list_all2 f_le ?x ?y" by (rule sort_f_mono [OF assms(1)])
  have x: "?x \<noteq> []" "\<forall>x \<in> set ?x. nonneg x" using assms(2,3) by (simp_all add: sort_key_Nil)
  have n: "f_of (of_nat (length lat)) = Num (of_nat (length lat))"
    using make_small [of "int (length lat)" False] assms(3,4) by (simp add: f_of_def)
  have pos: "(0 :: rat) < of_nat (length lat)" using assms(3) by simp
  have z: "nonneg NegZero" by (simp add: nonneg_cases)
  have "f_le (f_div (foldl f_add NegZero ?x) (Num (of_nat (length lat)))) (f_div (foldl f_add NegZero ?y) (Num (of_nat (length lat))))"
    using foldl_f_add_mono [OF m x(2) z nonneg_refl [OF z]] pos by (intro f_div_mono) (simp_all add: nonneg_def)
  moreover have "f_le (last ?x) (last ?y)"
    using list_all2_nthD [OF m, of "length ?x - 1"] x(1) len assms(3) by (simp add: last_conv_nth sort_key_Nil)
  ultimately show ?thesis using nan len assms(3) pct_mono [OF m x(1)] n
    by (auto simp: summarize_def Let_def stats_le_def)
qed

section \<open>Comparing simulations\<close>

text \<open>Parameters for which nothing overflows or underflows to zero.\<close>

definition sim_sane :: "sim_params \<Rightarrow> bool" where
  "sim_sane p \<longleftrightarrow> rate_ok (f_div (offered_load p) (apply_us p)) \<and> nonneg (apply_us p) \<and> f_ok (apply_us p) \<and>
     nonneg (rtt_us p) \<and> f_ok (rtt_us p) \<and> nonneg (barrier_us p) \<and> f_ok (barrier_us p) \<and> nonneg (fsync_us p) \<and>
     0 < requests p \<and> unat (requests p) \<le> 2 ^ 53"

lemma simulate_explicit_mono:
  assumes "ln_ok lnf" "sim_sane p" "nonneg svc" "f_le svc svc'" "nonneg fixed" "f_ok fixed" "f_le fixed fixed'"
  shows "\<exists>s t. simulate_explicit lnf p svc fixed = Some s \<and> simulate_explicit lnf p svc' fixed' = Some t \<and> stats_le s t \<and>
    la_n s = unat (requests p)"
proof -
  let ?q = "\<lambda>svc fixed. queue_loop lnf (f_div (offered_load p) (apply_us p)) svc fixed (unat (requests p)) (rng_new (seed p)) (f_of 0) (f_of 0)"
  have z: "f_of 0 = Num 0" by (simp add: f_of_def make_zero)
  have p: "rate_ok (f_div (offered_load p) (apply_us p))" "0 < requests p" "unat (requests p) \<le> 2 ^ 53" using assms(2) by (simp_all add: sim_sane_def)
  have "f_upto (of_nat 0 * gap) (f_of 0)" by (simp add: f_upto_def z nonneg_def)
  moreover have "f_ok (f_of 0)" "nonneg (f_of 0)" "f_le (f_of 0) (f_of 0)" "0 + unat (requests p) \<le> 2 ^ 53"
    using p(3) by (simp_all add: z nonneg_def, simp add: f_limit_pos)
  ultimately have l: "list_all2 (\<lambda>x y. f_le fixed x \<and> f_le x y) (?q svc fixed) (?q svc' fixed')"
    by (rule queue_loop_mono [OF assms(1) p(1) assms(3-7)])
  have len: "length (?q svc fixed) = unat (requests p)" for svc fixed
    by (rule queue_loop_length)
  have le: "list_all2 f_le (?q svc fixed) (?q svc' fixed')" using l by (rule list_all2_mono) simp
  have "\<forall>x \<in> set (?q svc fixed). nonneg x"
    using l nonneg_up [OF assms(5)] by (auto simp: list_all2_conv_all_nth in_set_conv_nth)
  moreover have "?q svc fixed \<noteq> []" using len [of svc fixed] p(2) by (metis length_0_conv unat_eq_zero word_not_simps(1))
  moreover have "\<not> 2 ^ 63 - 1 < 8 * unat (requests p)" using p(3) by simp
  ultimately show ?thesis using summarize_mono [OF le] len p(3) by (simp add: simulate_explicit_def Let_def)
qed

lemma simulate_is_explicit:
  "simulate lnf p mode = map_option (\<lambda>s. s\<lparr>la_mode := mode_name mode\<rparr>) (simulate_explicit lnf p (service_us p mode) (fixed_us p mode))"
  by (simp add: simulate_def simulate_explicit_def summarize_def Let_def)

section \<open>The properties\<close>

text \<open>
  The generator. From any seed its state never becomes zero, and what it draws for the unit interval is
  at least \<open>2 ^ -53\<close> and at most one; one itself is drawn, since the divisor \<open>2 ^ 53 + 1\<close> is not representable
  and rounds to \<open>2 ^ 53\<close>.
\<close>

theorem rng_range:
  "((snd \<circ> rng_unit) ^^ n) (rng_new s) \<noteq> 0 \<and> (\<exists>q. fst (rng_unit x) = Num q \<and> 1 / 2 ^ 53 \<le> q \<and> q \<le> 1) \<and>
   fst (rng_unit (rng_new 0x4C4B8D6484BF372F)) = Num 1"
proof (intro conjI)
  have "bit (s OR 1) 0" by (simp add: bit_or_iff)
  then have "rng_new s \<noteq> 0" unfolding rng_new_def by (metis bit_0_eq bot_apply bot_bool_def)
  moreover have "(snd \<circ> rng_unit) x \<noteq> 0" if "x \<noteq> 0" for x
    using xorshift_nonzero [OF that] by (cases "next_u64 x") (simp add: rng_unit_def)
  ultimately show "((snd \<circ> rng_unit) ^^ n) (rng_new s) \<noteq> 0" by (induction n) simp_all
  have "1 / 2 ^ 53 \<le> (of_nat (draw x + 1) / 2 ^ 53 :: rat)" by (simp add: divide_right_mono)
  then show "\<exists>q. fst (rng_unit x) = Num q \<and> 1 / 2 ^ 53 \<le> q \<and> q \<le> 1"
    using rng_unit_exact [of x] unit_le [OF draw_bound [of x]] by blast
  have "draw (rng_new 0x4C4B8D6484BF372F) = 2 ^ 53 - 1" by (simp add: draw_def next_u64_def rng_new_def Let_def)
  then show "fst (rng_unit (rng_new 0x4C4B8D6484BF372F)) = Num 1" using rng_unit_exact by simp
qed

text \<open>
  Fault tolerance at no cost. The simulation returns figures for all three modes; overlapped durability
  has exactly the figures of the baseline, and no figure of synchronous durability is better.
\<close>

theorem ft_overlap_free:
  assumes "ln_ok lnf" "sim_sane p"
  shows "\<exists>b f. simulate lnf p ReliableBaseline = Some b \<and> simulate lnf p FtOverlap = Some (b\<lparr>la_mode := ''FtOverlap''\<rparr>) \<and>
    simulate lnf p FtFsync = Some f \<and> stats_le b f \<and> la_n b = unat (requests p)"
proof -
  have p: "nonneg (apply_us p)" "f_ok (apply_us p)" "nonneg (fsync_us p)" "nonneg (fixed_us p ReliableBaseline)"
    "f_ok (fixed_us p ReliableBaseline)"
    using assms(2) by (simp_all add: sim_sane_def fixed_us_def f_add_nonneg)
  have "f_le (service_us p ReliableBaseline) (service_us p FtFsync)" using f_add_ge p by simp
  from simulate_explicit_mono [OF assms _ this p(4,5) nonneg_refl [OF p(4)]] p(1)
  obtain s t where "simulate_explicit lnf p (apply_us p) (fixed_us p ReliableBaseline) = Some s"
    "simulate_explicit lnf p (service_us p FtFsync) (fixed_us p ReliableBaseline) = Some t" "stats_le s t" "la_n s = unat (requests p)"
    by auto
  then show ?thesis by (simp add: simulate_is_explicit fixed_us_def stats_le_def)
qed

text \<open>A simple logarithm within the promise, and the default parameters.\<close>

lemma taylor_ln_ok: "ln_ok (\<lambda>x. f_sub x (f_of 1))"
proof -
  have "f_upto 64 (f_neg (f_sub (Num q) (f_of 1)))" if q: "0 < q" "q \<le> 1" for q
  proof -
    have one: "representable 1" using representable_of_int [of 1] by simp
    have r: "0 \<le> rnd (1 - q)" "rnd (1 - q) \<le> 1" using q rnd_nonneg [of "1 - q"] rnd_le [OF _ one, of "1 - q"] by simp_all
    have "rnd (q - 1) = - rnd (1 - q)" using rnd_simps(2) [of "1 - q"] by simp
    moreover have "(1 :: rat) < f_limit" by (rule small_limit) simp
    moreover have "f_sub (Num q) (f_of 1) = f_make False (q - 1)" using q by (simp add: f_of_numeral f_sub_def f_add_def)
    ultimately have "f_sub (Num q) (f_of 1) = (if rnd (1 - q) = 0 then Num 0 else Num (- rnd (1 - q)))"
      using r by (auto simp: f_make_def Let_def)
    then show ?thesis using r by (auto simp: f_upto_def nonneg_cases)
  qed
  then show ?thesis unfolding ln_ok_def by (metis less_le_trans zero_less_divide_1_iff zero_less_numeral zero_less_power)
qed

text \<open>Every load that is not tiny gives such a rate.\<close>

lemma load_rate_ok:
  assumes "1 / 2 ^ 20 \<le> q" "q \<le> 1"
  shows "rate_ok (f_div (f_make s q) (f_of (1 / 2)))"
proof -
  have "(1 / 2 ^ 20 :: rat) = of_int 1 * 2 powi - 20" by (simp add: power_int_minus)
  then have rep: "representable (1 / 2 ^ 20)" "representable 1" "representable 2"
    using representable_form [of 1 "- 20"] representable_of_int [of 1] representable_of_int [of 2] by simp_all
  have lim: "(2 :: rat) < f_limit" by (rule small_limit) simp
  have r: "1 / 2 ^ 20 \<le> rnd q" "rnd q \<le> 1" using assms rnd_ge [OF _ rep(1)] rnd_le [OF _ rep(2)] by blast+
  then have "0 < rnd q" by (intro less_le_trans [OF _ r(1)]) simp
  then have d: "f_div (f_make s q) (f_of (1 / 2)) = f_make False (rnd q * 2)"
    using r lim by (auto simp: f_half f_div_def f_make_def Let_def)
  have "1 / 2 ^ 20 \<le> rnd q * 2" by (rule order_trans [OF r(1)]) (use \<open>0 < rnd q\<close> in simp)
  moreover have "rnd q * 2 \<le> 2" using r(2) by simp
  ultimately have r2: "1 / 2 ^ 20 \<le> rnd (rnd q * 2)" "rnd (rnd q * 2) \<le> 2" using rnd_ge [OF _ rep(1)] rnd_le [OF _ rep(3)] by blast+
  then have "0 < rnd (rnd q * 2)" by (intro less_le_trans [OF _ r2(1)]) simp
  then have "f_make False (rnd q * 2) = Num (rnd (rnd q * 2))" using r2(2) lim by (auto simp: f_make_def Let_def)
  moreover have "1 / 2 ^ 300 \<le> rnd (rnd q * 2)" using r2(1) by (rule order_trans [rotated]) simp
  ultimately show ?thesis using d by (simp add: rate_ok_def)
qed

lemma sim_sane_load:
  assumes "1 / 2 ^ 20 \<le> q" "q \<le> 1" "0 < n" "unat n \<le> 2 ^ 53"
  shows "sim_sane (sim_default\<lparr>requests := n, offered_load := f_make s q\<rparr>)"
  using load_rate_ok [OF assms(1,2), of s] assms(3,4)
  by (simp add: sim_sane_def sim_default_def) (simp add: f_half f_of_numeral nonneg_def)

lemma sim_default_sane: "sim_sane sim_default"
proof -
  have "sim_default\<lparr>requests := 200000, offered_load := f_make False (7 / 10)\<rparr> = sim_default" by (simp add: sim_default_def f_of_def)
  moreover have "sim_sane (sim_default\<lparr>requests := 200000, offered_load := f_make False (7 / 10)\<rparr>)" by (rule sim_sane_load) simp_all
  ultimately show ?thesis by simp
qed

theorem ft_overlap_free_witness:
  "\<exists>b f. simulate (\<lambda>x. f_sub x (f_of 1)) sim_default ReliableBaseline = Some b \<and>
     simulate (\<lambda>x. f_sub x (f_of 1)) sim_default FtFsync = Some f \<and> stats_le b f \<and> la_n b = 200000"
  using ft_overlap_free [OF taylor_ln_ok sim_default_sane] by (auto simp: sim_default_def)

lemma competitor_dominated:
  assumes "ln_ok lnf" "sim_sane p" "f_le (barrier_us p) (f_of 12500)" "c \<in> set (competitors p)"
  shows "\<exists>s t. c_name (hd (competitors p)) = ''OneBarrier'' \<and>
    simulate_explicit lnf p (c_svc_us (hd (competitors p))) (c_fixed_us (hd (competitors p))) = Some s \<and>
    simulate_explicit lnf p (c_svc_us c) (c_fixed_us c) = Some t \<and> stats_le s t \<and>
    f_le (c_cpu_mult (hd (competitors p))) (c_cpu_mult c)"
proof -
  let ?b = "f_add (rtt_us p) (barrier_us p)"
  have p: "nonneg (apply_us p)" "f_ok (apply_us p)" "nonneg (rtt_us p)" "nonneg (barrier_us p)" "nonneg ?b" "f_ok ?b"
    using assms(2) by (simp_all add: sim_sane_def f_add_nonneg)
  have half: "f_div (f_of 25000) (f_of 2) = f_of 12500" by (simp add: f_of_def make_numeral f_div_def)
  have "nonneg (f_of (3 / 10))" unfolding f_of_def by (rule make_nonneg) simp
  then have log: "f_le (apply_us p) (f_add (apply_us p) (f_of (3 / 10)))" by (rule f_add_ge [OF p(1,2)])
  have remus: "f_le ?b (f_add (rtt_us p) (f_of 12500))" using f_add_mono [OF p(3,4) nonneg_refl [OF p(3)] assms(3)] .
  have llft: "f_le ?b (f_add ?b (rtt_us p))" by (rule f_add_ge [OF p(5,6,3)])
  have cpu: "f_le (f_of 1) (f_of 1)" "f_le (f_of 1) (f_of 2)" "f_le (f_of 1) (f_of 3)" by (simp_all add: f_of_def make_one make_numeral)
  have c: "f_le (apply_us p) (c_svc_us c)" "f_le ?b (c_fixed_us c)" "f_le (f_of 1) (c_cpu_mult c)"
    using assms(4) log remus llft cpu nonneg_refl [OF p(1)] nonneg_refl [OF p(5)] by (auto simp: competitors_def Let_def half)
  have "hd (competitors p) = \<lparr>c_name = ''OneBarrier'', c_svc_us = apply_us p, c_fixed_us = ?b, c_cpu_mult = f_of 1\<rparr>"
    by (simp add: competitors_def Let_def)
  then show ?thesis using simulate_explicit_mono [OF assms(1,2) p(1) c(1) p(5,6) c(2)] c(3) by auto
qed

text \<open>
  C40: OneBarrier dominates the competitors: under the same arrivals, none of its latency figures and not its
  processor cost exceeds that of a competitor, when the barrier takes no longer than half a checkpoint
  interval of Remus, 12500 us, and the parameters are sane: costs not negative, a positive arrival rate, 1 to
  \<open>2 ^ 53\<close> requests.
\<close>

theorem onebarrier_dominates:
  assumes "ln_ok lnf" "sim_sane p" "f_le (barrier_us p) (f_of 12500)" "c \<in> set (competitors p)"
  shows "\<exists>s t. c_name (hd (competitors p)) = ''OneBarrier'' \<and>
    simulate_explicit lnf p (c_svc_us (hd (competitors p))) (c_fixed_us (hd (competitors p))) = Some s \<and>
    simulate_explicit lnf p (c_svc_us c) (c_fixed_us c) = Some t \<and> stats_le s t \<and>
    f_le (c_cpu_mult (hd (competitors p))) (c_cpu_mult c)"
  by (rule competitor_dominated [OF assms])

theorem onebarrier_dominates_witness:
  "\<exists>(c :: competitor) s t. c_name c = ''LLFT'' \<and> simulate_explicit (\<lambda>x. f_sub x (f_of 1)) sim_default (apply_us sim_default)
       (f_add (rtt_us sim_default) (barrier_us sim_default)) = Some s \<and>
     simulate_explicit (\<lambda>x. f_sub x (f_of 1)) sim_default (c_svc_us c) (c_fixed_us c) = Some t \<and> stats_le s t"
proof -
  let ?c = "competitors sim_default ! 3"
  have m: "?c \<in> set (competitors sim_default)" by (rule nth_mem) (simp add: competitors_def Let_def)
  have b: "f_le (barrier_us sim_default) (f_of 12500)" by (simp add: sim_default_def f_of_def make_numeral)
  have n: "c_name ?c = ''LLFT''" "c_svc_us (hd (competitors sim_default)) = apply_us sim_default"
    "c_fixed_us (hd (competitors sim_default)) = f_add (rtt_us sim_default) (barrier_us sim_default)"
    by (simp_all add: competitors_def Let_def)
  obtain s t where "simulate_explicit (\<lambda>x. f_sub x (f_of 1)) sim_default (c_svc_us (hd (competitors sim_default)))
      (c_fixed_us (hd (competitors sim_default))) = Some s"
    "simulate_explicit (\<lambda>x. f_sub x (f_of 1)) sim_default (c_svc_us ?c) (c_fixed_us ?c) = Some t" "stats_le s t"
    using onebarrier_dominates [OF taylor_ln_ok sim_default_sane b m] by blast
  then show ?thesis unfolding n(2,3) using n(1) by blast
qed

end
