(* ===== verification/OB_Recovery.thy ===== *)
theory OB_Recovery
  imports OB_Float
begin

text \<open>
  The recovery-cost model \<open>recovery.rs\<close>, in the arithmetic it is written in. Rounding never changes the
  verdict on livelock; recovery never gets faster under more load, nor slower by backpressure.
\<close>

record recovery_params =
  detect_us :: f64
  fetch_restore_us :: f64
  rejoin_us :: f64
  replay_rate :: f64
  snap_interval_us :: f64

definition recovery_default :: recovery_params where
  "recovery_default = \<lparr>detect_us = f_of 200, fetch_restore_us = f_of 500, rejoin_us = f_of 6, replay_rate = f_of 4,
     snap_interval_us = f_of 5000\<rparr>"

definition recovery_time_us :: "recovery_params \<Rightarrow> f64 \<Rightarrow> bool \<Rightarrow> f64 option" where
  "recovery_time_us p live_rate backpressure =
     (let downtime = f_add (detect_us p) (fetch_restore_us p);
          eff_live = (if backpressure then f_mul live_rate (f_of (1 / 2)) else live_rate);
          s = f_div (replay_rate p) eff_live in
      if f_le s (f_of 1) then None
      else let lag_us = f_div (snap_interval_us p) (f_of 2);
               backlog = f_mul eff_live (f_add lag_us downtime);
               t_replay = f_div backlog (f_sub (replay_rate p) eff_live) in
        Some (f_add (f_add downtime t_replay) (rejoin_us p)))"

record recovery_row =
  live_rate :: f64
  plain_us :: "f64 option"
  backpressure_us :: "f64 option"

definition sweep :: "recovery_params \<Rightarrow> f64 list \<Rightarrow> recovery_row list" where
  "sweep p rates = map (\<lambda>r. \<lparr>live_rate = r, plain_us = recovery_time_us p r False,
     backpressure_us = recovery_time_us p r True\<rparr>) rates"

lemmas recovery_defs [unfold_model] = recovery_default_def recovery_time_us_def sweep_def

section \<open>Rates\<close>

text \<open>A positive finite number.\<close>

definition positive :: "f64 \<Rightarrow> bool" where
  "positive x \<longleftrightarrow> f_ok x \<and> (\<exists>q > 0. x = Num q)"

lemma positiveE:
  assumes "positive x"
  obtains q where "x = Num q" "0 < q" "representable q" "q < f_limit"
  using assms by (auto simp: positive_def)

lemma positive_nonneg: "positive x \<Longrightarrow> nonneg x \<and> x \<noteq> PInf \<and> 0 < fval x"
  by (auto simp: positive_def nonneg_cases)

text \<open>What the live rate is taken for: itself or its half, which may round to zero.\<close>

definition rate :: "f64 \<Rightarrow> bool" where
  "rate x \<longleftrightarrow> f_ok x \<and> (\<exists>q \<ge> 0. x = Num q)"

definition eff_live :: "f64 \<Rightarrow> bool \<Rightarrow> f64" where
  "eff_live r b = (if b then f_mul r (f_of (1 / 2)) else r)"

lemma half_rate:
  assumes "0 < q" "q < f_limit" "representable q"
  shows "f_mul (Num q) (f_of (1 / 2)) = Num (rnd (q / 2)) \<and> rnd (q / 2) \<le> q"
proof -
  have "rnd (q / 2) \<le> q" using assms by (intro rnd_le) simp_all
  then show ?thesis using assms rnd_nonneg [of "q / 2"] by (auto simp: f_half f_mul_def f_make_def Let_def)
qed

lemma eff_live_rate:
  assumes "positive r"
  shows "rate (eff_live r b)" and "f_le (eff_live r b) r"
proof -
  obtain q where q: "r = Num q" "0 < q" "representable q" "q < f_limit" using assms by (rule positiveE)
  show "rate (eff_live r b)" "f_le (eff_live r b) r"
    using q half_rate [OF q(2,4,3)] rnd_nonneg [of "q / 2"] by (auto simp: rate_def eff_live_def)
qed

lemma eff_live_mono:
  assumes "positive r" "positive r'" "f_le r r'" "b' \<longrightarrow> b"
  shows "f_le (eff_live r b) (eff_live r' b')"
proof (cases b')
  case True
  then have "b" using assms(4) by simp
  have "nonneg r" "nonneg (f_of (1 / 2))" using positive_nonneg [OF assms(1)] by (simp_all add: f_half nonneg_def)
  then show ?thesis using True \<open>b\<close> assms(3) positive_nonneg [OF assms(2)]
    by (simp add: eff_live_def f_half) (rule f_mul_mono, simp_all add: f_le_refl)
next
  case False
  then show ?thesis using eff_live_rate(2) [OF assms(1), of b] assms(3) f_le_trans by (simp add: eff_live_def)
qed

section \<open>Livelock\<close>

lemma quotient_verdict:
  assumes "positive r" "rate l"
  shows "f_le (f_div r l) (f_of 1) \<longleftrightarrow> f_le r l"
proof -
  obtain q where q: "r = Num q" "0 < q" "representable q" "q < f_limit" using assms(1) by (rule positiveE)
  obtain p where p: "l = Num p" "0 \<le> p" "representable p" "p < f_limit" using assms(2) by (auto simp: rate_def)
  have one: "f_of 1 = Num 1" by (simp add: f_of_def make_one)
  show ?thesis
  proof (cases "p = 0")
    case True
    then show ?thesis using q p by (simp add: one f_div_def f_inf_def f_le_def less_eq_prod_def)
  next
    case False
    then have d: "f_div r l = f_make False (q / p)" using p q by (simp add: f_div_def Let_def)
    show ?thesis
    proof (cases "q \<le> p")
      case True
      then have "q / p \<le> 1" using p False by simp
      then show ?thesis using True make_mono [of "q / p" 1 False False] unfolding d one by (simp add: p q make_one)
    next
      case gt: False
      then have "1 < rnd (q / p)" using rnd_quotient [of p q] p q False by simp
      then show ?thesis using gt p(1) q(1) f_limit_pos unfolding d one
        by (auto simp: f_le_def f_key_make less_eq_prod_def)
    qed
  qed
qed

text \<open>The difference that is divided by.\<close>

lemma difference:
  assumes "positive r" "rate l" "\<not> f_le r l"
  shows "\<exists>d. f_sub r l = Num d \<and> 0 < d \<and> d = rnd (fval r - fval l)"
proof -
  obtain q where q: "r = Num q" "0 < q" "representable q" "q < f_limit" using assms(1) by (rule positiveE)
  obtain p where p: "l = Num p" "0 \<le> p" "representable p" "p < f_limit" using assms(2) by (auto simp: rate_def)
  have lt: "p < q" using assms(3) by (simp add: p q)
  have pos: "0 < rnd (q - p)"
    using rnd_diff_pos [OF p(3) q(3) _ lt] p(2) q(2) by (cases "p = 0") (simp_all add: rnd_representable [OF q(3)])
  moreover have "rnd (q - p) \<le> q" using p q by (intro rnd_le) simp_all
  ultimately have "f_sub r l = Num (rnd (q - p))" using p q by (auto simp: f_sub_def f_add_def f_make_def Let_def)
  then show ?thesis using pos by (simp add: p q)
qed

section \<open>The time to recover\<close>

definition sane :: "recovery_params \<Rightarrow> bool" where
  "sane p \<longleftrightarrow> positive (replay_rate p) \<and> f_upto (2 ^ 300) (detect_us p) \<and> f_upto (2 ^ 300) (fetch_restore_us p) \<and>
     f_upto (2 ^ 300) (snap_interval_us p) \<and> nonneg (rejoin_us p)"

definition downtime :: "recovery_params \<Rightarrow> f64" where
  "downtime p = f_add (detect_us p) (fetch_restore_us p)"

definition replay_us :: "recovery_params \<Rightarrow> f64 \<Rightarrow> f64" where
  "replay_us p l = f_div (f_mul l (f_add (f_div (snap_interval_us p) (f_of 2)) (downtime p))) (f_sub (replay_rate p) l)"

lemma recovery_time_eq:
  assumes "sane p" "positive r"
  shows "recovery_time_us p r b = (if f_le (replay_rate p) (eff_live r b) then None
    else Some (f_add (f_add (downtime p) (replay_us p (eff_live r b))) (rejoin_us p)))"
  using quotient_verdict [of "replay_rate p" "eff_live r b"] eff_live_rate(1) [OF assms(2), of b] assms(1)
  by (simp add: recovery_time_us_def eff_live_def downtime_def replay_us_def sane_def Let_def)

lemma pow2_300: "representable (2 ^ 300)" "representable (2 ^ 301)" "representable (2 ^ 302)" "(2 :: rat) ^ 302 < f_limit" "(2 :: rat) ^ 301 < f_limit"
proof -
  show "representable (2 ^ 300)" "representable (2 ^ 301)" "representable (2 ^ 302)"
    using representable_pow2 [of 300] representable_pow2 [of 301] representable_pow2 [of 302] by simp_all
  show "(2 :: rat) ^ 302 < f_limit" "(2 :: rat) ^ 301 < f_limit"
    unfolding f_limit_def by (rule power_strict_increasing; simp)+
qed

lemma staleness_finite:
  assumes "sane p"
  shows "f_upto (2 ^ 302) (f_add (f_div (snap_interval_us p) (f_of 2)) (downtime p))" and "nonneg (downtime p)"
proof -
  have u: "f_upto (2 ^ 300) (detect_us p)" "f_upto (2 ^ 300) (fetch_restore_us p)" "f_upto (2 ^ 300) (snap_interval_us p)"
    using assms by (simp_all add: sane_def)
  have d: "f_upto (2 ^ 300 + 2 ^ 300) (downtime p)" unfolding downtime_def
    by (rule f_add_upto [OF u(1,2)]) (use pow2_300(2,5) in \<open>simp_all only: mult_2 [symmetric] power_Suc [symmetric] eval_nat_numeral(3)\<close>)
  then show "nonneg (downtime p)" by (rule uptoD)
  have two: "f_of 2 = Num 2" by (simp add: f_of_def make_numeral)
  have "fval (snap_interval_us p) / 2 \<le> 2 ^ 301" using uptoD(4,5) [OF u(3)] by simp
  then have "f_upto (2 ^ 301) (f_div (snap_interval_us p) (f_of 2))"
    using f_div_finite [OF uptoD(1) [OF u(3)], of "Num 2"] uptoD(2,4) [OF u(3)] make_upto [of "fval (snap_interval_us p) / 2" "2 ^ 301"] pow2_300
    by (simp add: two nonneg_def)
  then have "f_upto (2 ^ 301 + (2 ^ 300 + 2 ^ 300)) (f_add (f_div (snap_interval_us p) (f_of 2)) (downtime p))"
    by (rule f_add_upto [OF _ d]) (use pow2_300(3,4) in simp_all)
  then show "f_upto (2 ^ 302) (f_add (f_div (snap_interval_us p) (f_of 2)) (downtime p))" by simp
qed

lemma rate_nonneg: "rate l \<Longrightarrow> nonneg l \<and> l \<noteq> PInf"
  by (auto simp: rate_def nonneg_cases)

lemma replay_us_mono:
  assumes "sane p" "rate l" "rate l'" "f_le l l'" "\<not> f_le (replay_rate p) l'"
  shows "f_le (replay_us p l) (replay_us p l')" and "nonneg (replay_us p l)"
proof -
  let ?s = "f_add (f_div (snap_interval_us p) (f_of 2)) (downtime p)"
  have s: "nonneg ?s" "?s \<noteq> PInf" using uptoD(1,2) [OF staleness_finite(1) [OF assms(1)]] by blast+
  have r: "positive (replay_rate p)" using assms(1) by (simp add: sane_def)
  have l: "nonneg l" "l \<noteq> PInf" "nonneg l'" "l' \<noteq> PInf" using rate_nonneg assms(2,3) by blast+
  have lt: "\<not> f_le (replay_rate p) l" using assms(4,5) f_le_trans by blast
  obtain d where d: "f_sub (replay_rate p) l = Num d" "0 < d" "d = rnd (fval (replay_rate p) - fval l)"
    using difference [OF r assms(2) lt] by blast
  obtain d' where d': "f_sub (replay_rate p) l' = Num d'" "0 < d'" "d' = rnd (fval (replay_rate p) - fval l')"
    using difference [OF r assms(3,5)] by blast
  have "fval l \<le> fval l'" using assms(4) l by (simp add: f_le_cases)
  then have le: "d' \<le> d" unfolding d(3) d'(3) by (intro rnd_mono) simp
  have b: "f_le (f_mul l ?s) (f_mul l' ?s)" using l s assms(4) by (intro f_mul_mono) (auto simp: f_le_refl nonneg_def f_le_def)
  have n: "nonneg (f_mul l ?s)" using f_mul_nonneg l s by blast
  show "f_le (replay_us p l) (replay_us p l')"
    unfolding replay_us_def using f_div_mono [OF n b, of "Num d" "Num d'"] d d' le by (simp add: nonneg_def)
  show "nonneg (replay_us p l)" unfolding replay_us_def using f_div_nonneg [OF n, of "Num d"] d by (simp add: nonneg_def)
qed

text \<open>Recovery never takes less than being down and joining again.\<close>

lemma recovery_time_ge:
  assumes "sane p" "positive r" "recovery_time_us p r b = Some t"
  shows "f_le (f_add (downtime p) (rejoin_us p)) t"
proof -
  have l: "rate (eff_live r b)" by (rule eff_live_rate(1) [OF assms(2)])
  have t: "\<not> f_le (replay_rate p) (eff_live r b)" "t = f_add (f_add (downtime p) (replay_us p (eff_live r b))) (rejoin_us p)"
    using assms(3) by (auto simp: recovery_time_eq [OF assms(1,2)] split: if_splits)
  have n: "nonneg (replay_us p (eff_live r b))" "nonneg (downtime p)" "nonneg (rejoin_us p)" "f_ok (downtime p)"
  proof -
    show "nonneg (replay_us p (eff_live r b))"
      using replay_us_mono(2) [OF assms(1) l l _ t(1)] rate_nonneg [OF l] by (auto simp: f_le_refl nonneg_def f_le_def)
    show "nonneg (downtime p)" by (rule staleness_finite(2) [OF assms(1)])
    show "nonneg (rejoin_us p)" using assms(1) by (simp add: sane_def)
    have "f_upto (2 ^ 300) (detect_us p)" "f_upto (2 ^ 300) (fetch_restore_us p)" using assms(1) by (simp_all add: sane_def)
    then show "f_ok (downtime p)" by (auto simp: downtime_def f_add_def f_upto_def nonneg_cases)
  qed
  have "f_le (rejoin_us p) (rejoin_us p)" using n(3) by (auto simp: nonneg_def f_le_def)
  then show ?thesis unfolding t(2) by (rule f_add_mono [OF n(2,3) f_add_ge [OF n(2,4,1)]])
qed

text \<open>More load never means a faster recovery, and backpressure never a slower one.\<close>

lemma recovery_time_mono:
  assumes "sane p" "positive r" "positive r'" "f_le r r'" "b' \<longrightarrow> b" "recovery_time_us p r' b' = Some t'"
  shows "\<exists>t. recovery_time_us p r b = Some t \<and> f_le t t'"
proof -
  let ?l = "eff_live r b" and ?l' = "eff_live r' b'"
  have l: "rate ?l" "rate ?l'" "f_le ?l ?l'" using eff_live_rate(1) eff_live_mono assms by blast+
  have t': "\<not> f_le (replay_rate p) ?l'" "t' = f_add (f_add (downtime p) (replay_us p ?l')) (rejoin_us p)"
    using assms(6) by (auto simp: recovery_time_eq [OF assms(1,3)] split: if_splits)
  have "\<not> f_le (replay_rate p) ?l" using t'(1) l(3) f_le_trans by blast
  then have t: "recovery_time_us p r b = Some (f_add (f_add (downtime p) (replay_us p ?l)) (rejoin_us p))"
    by (simp add: recovery_time_eq [OF assms(1,2)])
  note m = replay_us_mono [OF assms(1) l t'(1)] and d = staleness_finite(2) [OF assms(1)]
  have j: "nonneg (rejoin_us p)" using assms(1) by (simp add: sane_def)
  have refl: "f_le x x" if "nonneg x" for x using that by (auto simp: nonneg_def f_le_def)
  have "f_le (f_add (downtime p) (replay_us p ?l)) (f_add (downtime p) (replay_us p ?l'))"
    using d m refl by (intro f_add_mono) simp_all
  then have "f_le (f_add (f_add (downtime p) (replay_us p ?l)) (rejoin_us p)) t'"
    unfolding t'(2) by (rule f_add_mono [OF f_add_nonneg [OF d m(2)] j _ refl [OF j]])
  then show ?thesis using t by blast
qed

section \<open>The properties\<close>

text \<open>
  Livelock. The model answers that a replica does not catch up exactly when it replays no faster than
  operations arrive, or than half of them under backpressure: rounding the quotient of the rates never
  changes the verdict. Otherwise it answers a time that is a number and not less than the time the
  replica is down and joins again.
\<close>

theorem livelock_iff:
  assumes "sane p" "positive live"
  shows "(recovery_time_us p live False = None \<longleftrightarrow> f_le (replay_rate p) live) \<and>
    (recovery_time_us p live True = None \<longleftrightarrow> f_le (replay_rate p) (f_mul live (f_of (1 / 2)))) \<and>
    (\<forall>b t. recovery_time_us p live b = Some t \<longrightarrow>
      f_le (f_add (f_add (detect_us p) (fetch_restore_us p)) (rejoin_us p)) t)"
  using recovery_time_eq [OF assms] recovery_time_ge [OF assms] by (simp add: eff_live_def downtime_def)

lemma recovery_default_sane: "sane recovery_default"
proof -
  have "x \<le> 2 ^ 300" if "x \<le> 2 ^ 13" for x :: rat using that by (rule order_trans) (rule power_increasing; simp)
  then have "(5000 :: rat) \<le> 2 ^ 300" "(500 :: rat) \<le> 2 ^ 300" "(200 :: rat) \<le> 2 ^ 300" by simp_all
  moreover have "positive (f_of 4)" using representable_of_int [of 4] small_limit [of 4] by (simp add: positive_def f_of_numeral)
  ultimately show ?thesis by (simp add: sane_def recovery_default_def f_upto_def f_of_numeral nonneg_def)
qed

lemma positive_numeral: "(numeral n :: int) \<le> 2 ^ 53 \<Longrightarrow> positive (f_of (numeral n))"
proof -
  assume n: "(numeral n :: int) \<le> 2 ^ 53"
  then have "(numeral n :: rat) \<le> 2 ^ 53" by (metis of_int_le_iff of_int_numeral of_int_power)
  then show ?thesis using n representable_of_int [of "numeral n"] small_limit [of "numeral n"] by (simp add: positive_def f_of_numeral)
qed

theorem livelock_iff_witness:
  "recovery_time_us recovery_default (f_of 5) False = None \<and> recovery_time_us recovery_default (f_of 5) True \<noteq> None"
proof -
  have "f_mul (f_of 5) (f_of (1 / 2)) = f_make False (5 / 2)" by (simp add: f_half f_of_numeral f_mul_def)
  moreover have "f_le (f_make False (5 / 2)) (f_make False 3)" by (rule make_mono) simp
  ultimately have "f_le (f_mul (f_of 5) (f_of (1 / 2))) (Num 3)" by (simp add: make_numeral)
  then have "\<not> f_le (f_of 4) (f_mul (f_of 5) (f_of (1 / 2)))" using f_le_trans [of "f_of 4" _ "Num 3"] by (auto simp: f_of_numeral)
  then show ?thesis using livelock_iff [OF recovery_default_sane positive_numeral [of "num.Bit1 (num.Bit0 num.One)"]]
    by (simp add: recovery_default_def f_of_numeral)
qed

text \<open>
  Recovery under load. When recovery at some rate takes a finite or infinite time, then at a rate no
  higher, and with backpressure wherever it had it before, it also converges and takes no longer.
\<close>

theorem recovery_monotone:
  assumes "sane p" "positive live" "positive live'" "f_le live live'" "backpressure' \<longrightarrow> backpressure"
    and "recovery_time_us p live' backpressure' = Some t'"
  shows "\<exists>t. recovery_time_us p live backpressure = Some t \<and> f_le t t'"
  by (rule recovery_time_mono [OF assms])

lemma recovery_default_2: "recovery_time_us recovery_default (f_of 2) False = Some (Num 3906)"
  by (simp add: recovery_time_us_def recovery_default_def f_of_numeral f_add_def f_div_def f_mul_def f_sub_def make_numeral Let_def)

theorem recovery_monotone_witness:
  "\<exists>t. recovery_time_us recovery_default (f_of 2) True = Some t \<and> f_le t (Num 3906)"
proof -
  have "positive (f_of 2)" using positive_numeral [of "num.Bit0 num.One"] by simp
  then show ?thesis using recovery_monotone [OF recovery_default_sane _ _ _ _ recovery_default_2, of "f_of 2" True]
    by (simp add: f_of_numeral)
qed

text \<open>
  The sweep reports every rate in its order, and in each row recovery with backpressure converges when
  it does without, and no later.
\<close>

theorem sweep_rows:
  assumes "sane p" "list_all positive rates"
  shows "map live_rate (sweep p rates) = rates \<and>
    list_all (\<lambda>row. \<forall>t. plain_us row = Some t \<longrightarrow> (\<exists>t'. backpressure_us row = Some t' \<and> f_le t' t)) (sweep p rates)"
proof -
  have "\<exists>t'. recovery_time_us p r True = Some t' \<and> f_le t' t" if "positive r" "recovery_time_us p r False = Some t" for r t
    using recovery_time_mono [OF assms(1) that(1,1) _ _ that(2)] that(1) by (auto simp: positive_def)
  then show ?thesis using assms(2) by (induction rates) (auto simp: sweep_def)
qed

theorem sweep_rows_witness:
  "list_all (\<lambda>row. \<forall>t. plain_us row = Some t \<longrightarrow> (\<exists>t'. backpressure_us row = Some t' \<and> f_le t' t))
     (sweep recovery_default [f_of 2, f_of 5])"
  using sweep_rows [OF recovery_default_sane, of "[f_of 2, f_of 5]"] positive_numeral [of "num.Bit0 num.One"]
    positive_numeral [of "num.Bit1 (num.Bit0 num.One)"] by simp

end
