(* ===== verification/OB_Crashrun.thy ===== *)
theory OB_Crashrun
  imports OB_Cluster "HOL-Library.Sublist"
begin

text \<open>
  The whole of \<open>run_cluster_with_crash\<close> (\<open>cluster.rs\<close>): every replica's thread, the victim that stops in the
  middle of the stream, the joining of the threads, the victim's recovery from its own files and the
  transfer of a survivor's state. When the fabric keeps its promise the run reports a correct survivor, a
  victim whose prefix nowhere counts more than expected, and a complete recovery.
\<close>

section \<open>The threads\<close>

text \<open>What a client hands to the fabric, in order; \<open>None\<close> is the panic of an empty key space.\<close>

definition client_sends :: "u32 \<Rightarrow> nat \<Rightarrow> nat \<Rightarrow> bytes list option" where
  "client_sends c ops keys = map_option (map encode) (client_ops c ops keys)"

definition crash_replica :: "nat \<Rightarrow> u64 \<Rightarrow> u64 \<Rightarrow> u64 \<Rightarrow> nat \<Rightarrow> directory \<Rightarrow> (u64 \<times> bytes) list list \<Rightarrow> (u64 \<times> bytes) list \<Rightarrow>
    (io_error + bool) \<times> kv_store engine" where
  "crash_replica victim crash_after total_ops interval me w polls drain =
     (case engine_create kv_sm w interval False of
        (Inl e, g) \<Rightarrow> (Inl e, g)
      | (Inr _, g) \<Rightarrow> crash_loop (me = victim) crash_after total_ops polls drain \<lparr>r_engine = g, r_applied = 0\<rparr>)"

text \<open>
  Joining in the order of the threads: the entries of a crashed replica, and the first one that did not
  crash as the survivor.
\<close>

fun crash_join :: "((io_error + bool) \<times> kv_store engine) list \<Rightarrow> kv_store engine option \<times> (rstring \<times> i64) list \<Rightarrow>
    io_error + kv_store engine option \<times> (rstring \<times> i64) list" where
  "crash_join [] acc = Inr acc"
| "crash_join ((Inl e, g) # rs) acc = Inl e"
| "crash_join ((Inr crashed, g) # rs) (survivor, pre) =
     crash_join rs (if crashed then (survivor, kv_entries (e_state g))
       else (case survivor of None \<Rightarrow> Some g | Some x \<Rightarrow> Some x, pre))"

text \<open>
  The run. The victim recovers from the directory its thread left, or from \<open>dirs victim\<close> when it is no
  replica. \<open>None\<close> is the panic when nobody survives.
\<close>

definition run_cluster_with_crash :: "nat \<Rightarrow> nat \<Rightarrow> nat \<Rightarrow> nat \<Rightarrow> u64 \<Rightarrow> nat \<Rightarrow> u64 \<Rightarrow> (nat \<Rightarrow> directory) \<Rightarrow>
    (nat \<Rightarrow> (u64 \<times> bytes) list list) \<Rightarrow> (nat \<Rightarrow> (u64 \<times> bytes) list) \<Rightarrow> (io_error + crash_report) option" where
  "run_cluster_with_crash replicas clients ops keys interval victim crash_after dirs polls drains =
     (let total_ops = word_of_nat ops * word_of_nat clients;
        rs = map (\<lambda>i. crash_replica victim crash_after total_ops interval i (dirs i) (polls i) (drains i)) [0..<replicas] in
      case crash_join rs (None, []) of
        Inl e \<Rightarrow> Some (Inl e)
      | Inr (None, _) \<Rightarrow> None
      | Inr (Some survivor, pre) \<Rightarrow> Some (crash_finish (expected_state clients ops keys) survivor pre
          (if victim < replicas then d_dir (e_dur (snd (rs ! victim))) else dirs victim) interval))"

lemmas crashrun_defs [unfold_model] = client_sends_def crash_replica_def run_cluster_with_crash_def

text \<open>The payloads decode to the operations, so a fabric that delivers payloads delivers operations.\<close>

lemma client_sends_decoded:
  assumes "client_ops c ops keys = Some os" "client_sends c ops keys = Some ps" "keys < 2 ^ 64"
  shows "decoded (map (Pair ts) ps) = map (Pair ts) os"
proof -
  have "wf_op x" if x: "x \<in> set os" for x
  proof -
    have os: "os = map (\<lambda>i. op_incr c (word_of_nat (i + 1)) (key_name (i mod keys)) 1) [0..<ops]" "0 < ops \<Longrightarrow> 0 < keys"
      using assms(1) by (auto simp: client_ops_def split: if_splits)
    obtain i where i: "i < ops" "x = op_incr c (word_of_nat (i + 1)) (key_name (i mod keys)) 1"
      using x unfolding os(1) set_map by auto
    define k where "k = i mod keys"
    have "k < keys" using i(1) os(2) by (simp add: k_def)
    then have k: "k < 2 ^ 64" "op_kind x = Incr (key_name k) 1" using assms(3) i(2) by (simp_all add: op_incr_def k_def)
    have "length (show_usize k) \<le> 20" using k(1) length_dec_digits [of "int k" 19] by (simp add: show_usize_def)
    then show ?thesis using k(2) show_usize_text(1) [of k]
      by (auto simp: wf_op_def key_ok_def key_name_def utf8_valid_ascii_byte)
  qed
  then have "\<forall>x \<in> set os. decode (encode x) = Some x" using decode_encode by blast
  then have "decoded (map (\<lambda>x. (ts, encode x)) os) = map (Pair ts) os" by (induction os) simp_all
  then show ?thesis using assms(1,2) by (auto simp: client_sends_def o_def)
qed

section \<open>The victim and the survivors\<close>

lemma replica_at_start:
  assumes "outcomes w = []"
  shows "\<exists>g. engine_create kv_sm w interval False = (Inr (), g) \<and> replica_at [] \<lparr>r_engine = g, r_applied = 0\<rparr>"
proof -
  obtain d where d: "engine_create kv_sm w interval False = (Inr (), new_engine kv_sm d interval)" "quiet d"
    using assms by (simp add: engine_create_def durable_open_def sys_defs quiet_def)
  then show ?thesis using core_new [of kv_sm d interval] by (simp add: replica_at_def) (simp add: new_engine_def)
qed

lemma replica_at_applied: "replica_at h r \<Longrightarrow> length h < 2 ^ 64 \<Longrightarrow> unat (r_applied r) = length h"
  by (simp add: replica_at_def unat_of_nat)

text \<open>The victim stops having processed a prefix of what it was delivered.\<close>

lemma victim_loop:
  assumes "ps \<noteq> []" "unat crash_after \<le> length (h @ decoded (concat ps))" "length (h @ decoded (concat ps)) < 2 ^ 64"
    and "replica_at h r" "in_order (map snd (h @ decoded (concat ps)))"
  shows "\<exists>g h'. crash_loop True crash_after total_ops ps drain r = (Inr True, g) \<and> quiet (e_dur g) \<and>
    core g = run_core kv_sm (init_core kv_sm) h' \<and> prefix h' (h @ decoded (concat ps))"
  using assms
proof (induction ps arbitrary: h r)
  case (Cons p ps)
  have "in_order (map snd (h @ decoded p))"
    using Cons.prems(5) in_order_prefix [of "map snd (h @ decoded p)"] by simp
  from replica_batch_at [OF Cons.prems(4) this]
  obtain r1 where r1: "replica_batch p r = (Inr (), r1)" "replica_at (h @ decoded p) r1" by blast
  have app: "unat (r_applied r1) = length (h @ decoded p)"
    using Cons.prems(3) by (intro replica_at_applied [OF r1(2)]) simp
  show ?case
  proof (cases "crash_after \<le> r_applied r1")
    case True
    moreover have "prefix (h @ decoded p) (h @ decoded (concat (p # ps)))" by (simp add: prefix_def)
    moreover have "quiet (e_dur (r_engine r1))" "core (r_engine r1) = run_core kv_sm (init_core kv_sm) (h @ decoded p)"
      using r1(2) unfolding replica_at_def by blast+
    moreover have "crash_loop True crash_after total_ops (p # ps) drain r = (Inr True, r_engine r1)" using True r1(1) by simp
    ultimately show ?thesis by blast
  next
    case False
    then have "length (h @ decoded p) < unat crash_after" using app by (simp add: not_le word_less_nat_alt)
    then have "length (h @ decoded p) < length (h @ decoded (concat (p # ps)))" using Cons.prems(2) by (rule less_le_trans)
    then have "ps \<noteq> []" by auto
    then show ?thesis using Cons.IH [of "h @ decoded p" r1] Cons.prems r1 False by simp
  qed
qed simp

text \<open>A survivor that is delivered everything processes exactly that.\<close>

lemma survivor_loop:
  assumes "length (h @ decoded (concat ps)) = n" "n < 2 ^ 64" "decoded drain = []"
    and "replica_at h r" "in_order (map snd (h @ decoded (concat ps)))"
  shows "\<exists>g. crash_loop False crash_after (word_of_nat n) ps drain r = (Inr False, g) \<and>
    core g = run_core kv_sm (init_core kv_sm) (h @ decoded (concat ps))"
  using assms
proof (induction ps arbitrary: h r)
  case Nil
  then show ?case by (simp add: replica_at_def)
next
  case (Cons p ps)
  have "in_order (map snd (h @ decoded p))"
    using Cons.prems(5) in_order_prefix [of "map snd (h @ decoded p)"] by simp
  from replica_batch_at [OF Cons.prems(4) this]
  obtain r1 where r1: "replica_batch p r = (Inr (), r1)" "replica_at (h @ decoded p) r1" by blast
  have app: "unat (r_applied r1) = length (h @ decoded p)"
    using Cons.prems(1,2) by (intro replica_at_applied [OF r1(2)]) simp
  show ?case
  proof (cases "word_of_nat n \<le> r_applied r1")
    case True
    then have "n \<le> length (h @ decoded p)" using app Cons.prems(2) by (simp add: word_le_nat_alt unat_of_nat)
    moreover have "n = length (h @ decoded p) + length (decoded (concat ps))" using Cons.prems(1) by simp
    ultimately have "length (decoded (concat ps)) = 0" by linarith
    then have "decoded (concat ps) = []" by blast
    then show ?thesis using True r1 replica_drain_quiet [of "r_engine r1" drain] Cons.prems(3) by (auto simp: replica_at_def)
  next
    case False
    then show ?thesis using Cons.IH [of "h @ decoded p" r1] Cons.prems r1 by simp
  qed
qed

section \<open>The joined result\<close>

lemma crash_join_ok:
  assumes "\<And>x. x \<in> set rs \<Longrightarrow> x = v \<or> (\<exists>g. x = (Inr False, g) \<and> P g)" "fst v = Inr True"
    and "\<forall>g. s = Some g \<longrightarrow> P g" "s \<noteq> None \<or> (\<exists>x \<in> set rs. fst x = Inr False)" "pre = kv_entries (e_state (snd v)) \<or> v \<in> set rs"
  shows "\<exists>g. crash_join rs (s, pre) = Inr (Some g, kv_entries (e_state (snd v))) \<and> P g"
  using assms
proof (induction rs arbitrary: s pre)
  case (Cons x rs)
  show ?case
  proof (cases "x = v")
    case True
    then obtain g where x: "x = (Inr True, g)" using Cons.prems(2) by (metis prod.collapse)
    then show ?thesis using Cons.IH [of s "kv_entries (e_state g)"] Cons.prems True by fastforce
  next
    case False
    then obtain g where x: "x = (Inr False, g)" "P g" using Cons.prems(1) [of x] by (meson list.set_intros(1))
    then show ?thesis
      using Cons.IH [of "case s of None \<Rightarrow> Some g | Some y \<Rightarrow> Some y" pre] Cons.prems False by (cases s) fastforce+
  qed
qed auto

text \<open>No key of a prefix is counted above the expectation.\<close>

lemma prefix_counts:
  assumes "fabric_delivers cids ops keys os" "distinct cids" "keys < 2 ^ 64" "ops < 2 ^ 64" "length cids * ops < 2 ^ 63" "prefix ys os"
  shows "prefix_consistent (kv_entries (reference_apply kv_sm ys)) (expected_state (length cids) ops keys)"
proof -
  note cnt = fabric_counts [OF assms(1-3)]
  obtain zs where os: "os = ys @ zs" using assms(6) by (auto simp: prefix_def)
  have "in_order ys" "incr_only ys"
    using in_order_prefix [of ys zs] fabric_in_order [OF assms(1,4)] cnt(1) os by (auto simp: incr_only_def)
  note st = in_order_counts [OF this]
  have le: "incr_count j ys \<le> incr_count j os" for j by (simp add: os incr_count_def)
  have "incr_count j os \<le> length os" for j by (simp add: incr_count_def)
  then have small: "incr_count j os < 2 ^ 63" for j using assms(5) cnt(2) by (metis le_less_trans)
  have sint: "sint (word_of_nat n :: i64) = int n" if "n < 2 ^ 63" for n
    using that by (simp only: signed_of_nat) (simp add: signed_take_bit_int_eq_self)
  have "case map_of (expected_state (length cids) ops keys) k of None \<Rightarrow> False | Some e \<Rightarrow> sint v \<le> sint e"
    if "(k, v) \<in> set (kv_entries (reference_apply kv_sm ys))" for k v
  proof -
    have "distinct (map fst (kv_entries (reference_apply kv_sm ys)))" using st(1) by (simp add: bt_wf_def strict_sorted_iff)
    then have "counts_of ys k = Some v" using that st(2) by (metis map_of_is_SomeI)
    then have v: "v = word_of_nat (incr_count k ys)" "incr_count k ys \<noteq> 0" by (auto simp: counts_of_def split: if_splits)
    then have "incr_count k os \<noteq> 0" using le [of k] by simp
    then obtain j where j: "k = key_name j" "j < keys" using cnt(4) [of k] by auto
    have "expected_sum (length cids) ops keys j = word_of_nat (incr_count k os)" using cnt(3) [OF j(2)] j(1) by (simp add: expected_sum_eq)
    then show ?thesis using expected_lookup(1) [OF assms(3) j(2)] j(1) v(1) le [of k] small [of k] sint
      by (simp add: le_less_trans)
  qed
  then show ?thesis by (auto simp: prefix_consistent_def list_all_iff)
qed

section \<open>The whole run\<close>

definition right_survivor :: "nat \<Rightarrow> nat \<Rightarrow> nat \<Rightarrow> kv_store engine \<Rightarrow> bool" where
  "right_survivor clients ops keys g \<longleftrightarrow> kv_entries (e_state g) = expected_state clients ops keys \<and> snap_fits kv_good g"

lemma survivor_result:
  assumes "outcomes w = []" "i \<noteq> victim" and f: "fabric_delivers cids ops keys (map snd (decoded (concat ps)))" "decoded drain = []"
    and cids: "distinct cids" "cids \<noteq> []" "keys \<le> ops" "length cids * ops < 2 ^ 64" "ops < 2 ^ 64"
    and bytes: "log_bytes (decoded (concat ps)) + 4 < 2 ^ 32"
  shows "\<exists>g. crash_replica victim crash_after (word_of_nat ops * word_of_nat (length cids)) interval i w ps drain = (Inr False, g) \<and>
    right_survivor (length cids) ops keys g"
proof -
  let ?h = "decoded (concat ps)" and ?n = "length cids * ops"
  have tot: "(word_of_nat ops * word_of_nat (length cids) :: u64) = word_of_nat ?n" by simp
  have keys: "keys < 2 ^ 64" using cids(3,5) by simp
  obtain g0 where g0: "engine_create kv_sm w interval False = (Inr (), g0)" "replica_at [] \<lparr>r_engine = g0, r_applied = 0\<rparr>"
    using replica_at_start [OF assms(1)] by blast
  have len: "length ([] @ ?h) = ?n" using fabric_counts(2) [OF f(1) cids(1) keys] by simp
  obtain g where g: "crash_loop False crash_after (word_of_nat ?n) ps drain \<lparr>r_engine = g0, r_applied = 0\<rparr> = (Inr False, g)"
    "core g = run_core kv_sm (init_core kv_sm) ?h"
    using survivor_loop [OF len cids(4) f(2) g0(2)] fabric_in_order [OF f(1) cids(5)] by auto
  have "kv_entries (e_state g) = expected_state (length cids) ops keys"
    using fabric_expected [OF f(1) cids(1-3,5)] reference_apply_run [of kv_sm ?h] g(2) by (simp add: core_state)
  moreover have "list_all (\<lambda>x. wf_op (snd x)) ?h"
    by (auto simp: decoded_def list_all_iff List.map_filter_def split: option.splits dest: decode_wf)
  then have "snap_fits kv_good g" using kv_bounded_fits [of "log_bytes ?h" g] kv_bounded_run [of ?h] g(2) bytes by simp
  ultimately show ?thesis using g0(1) g(1) assms(2) unfolding tot by (simp add: crash_replica_def right_survivor_def)
qed

lemma victim_result:
  assumes "outcomes w = []" and vict: "fabric_delivers cids ops keys os" "prefix (map snd (decoded (concat ps))) os"
      "ps \<noteq> []" "unat crash_after \<le> length (decoded (concat ps))"
    and cids: "distinct cids" "keys < 2 ^ 64" "ops < 2 ^ 64" "length cids * ops < 2 ^ 63"
  shows "\<exists>g. crash_replica victim crash_after total_ops interval victim w ps drain = (Inr True, g) \<and> outcomes (d_dir (e_dur g)) = [] \<and>
    prefix_consistent (kv_entries (e_state g)) (expected_state (length cids) ops keys)"
proof -
  obtain g0 where g0: "engine_create kv_sm w interval False = (Inr (), g0)" "replica_at [] \<lparr>r_engine = g0, r_applied = 0\<rparr>"
    using replica_at_start [OF assms(1)] by blast
  let ?v = "decoded (concat ps)"
  have "length ?v \<le> length cids * ops" using prefix_length_le [OF vict(2)] fabric_counts(2) [OF vict(1) cids(1,2)] by simp
  then have lv: "length ([] @ ?v) < 2 ^ 64" using cids(4) by simp
  have ord: "in_order (map snd ([] @ ?v))"
    using fabric_in_order [OF vict(1) cids(3)] vict(2) in_order_prefix by (auto simp: prefix_def)
  obtain g h where v: "crash_replica victim crash_after total_ops interval victim w ps drain = (Inr True, g)" "quiet (e_dur g)"
    "core g = run_core kv_sm (init_core kv_sm) h" "prefix h ?v"
    using victim_loop [OF vict(3) _ lv g0(2) ord, of crash_after total_ops drain] vict(4) g0(1) by (auto simp: crash_replica_def)
  have "prefix (map snd h) os" using v(4) vict(2) by (metis map_mono_prefix prefix_order.trans)
  then have "prefix_consistent (kv_entries (e_state g)) (expected_state (length cids) ops keys)"
    using prefix_counts [OF vict(1) cids, of "map snd h"] v(3) reference_apply_run [of kv_sm h] by (simp add: core_state)
  then show ?thesis using v(1,2) by (simp add: quiet_def)
qed

lemma crash_run_ok:
  assumes "1 < replicas" "victim < replicas" and cids: "distinct cids" "cids \<noteq> []" "keys \<le> ops" "length cids * ops < 2 ^ 63"
    and dirs: "\<And>i. i < replicas \<Longrightarrow> outcomes (dirs i) = []"
    and surv: "\<And>i. i < replicas \<Longrightarrow> i \<noteq> victim \<Longrightarrow>
      fabric_delivers cids ops keys (map snd (decoded (concat (polls i)))) \<and> decoded (drains i) = [] \<and>
      log_bytes (decoded (concat (polls i))) + 4 < 2 ^ 32"
    and vict: "fabric_delivers cids ops keys os" "prefix (map snd (decoded (concat (polls victim)))) os"
      "polls victim \<noteq> []" "unat crash_after \<le> length (decoded (concat (polls victim)))"
  shows "\<exists>rep. run_cluster_with_crash replicas (length cids) ops keys interval victim crash_after dirs polls drains = Some (Inr rep) \<and>
    survivor_correct rep \<and> victim_prefix_consistent rep \<and> recovered_ok rep"
proof -
  let ?E = "expected_state (length cids) ops keys" and ?P = "right_survivor (length cids) ops keys"
  let ?rep = "\<lambda>i. crash_replica victim crash_after (word_of_nat ops * word_of_nat (length cids)) interval i (dirs i) (polls i) (drains i)"
  let ?rs = "map ?rep [0..<replicas]"
  have "1 * ops \<le> length cids * ops" using cids(2) by (intro mult_le_mono1) (simp add: Suc_le_eq)
  then have "ops \<le> length cids * ops" by (simp only: mult_1)
  moreover have "(2 :: nat) ^ 63 < 2 ^ 64" by simp
  ultimately have n: "ops < 2 ^ 64" "keys < 2 ^ 64" "length cids * ops < 2 ^ 64" using cids(3,4) by (meson le_less_trans less_trans)+
  have survivor: "\<exists>g. ?rep i = (Inr False, g) \<and> ?P g" if "i < replicas" "i \<noteq> victim" for i
    using survivor_result [OF dirs [OF that(1)] that(2) _ _ cids(1-3) n(3,1)] surv [OF that] by blast
  obtain gv where v: "?rep victim = (Inr True, gv)" "outcomes (d_dir (e_dur gv)) = []" "prefix_consistent (kv_entries (e_state gv)) ?E"
    using victim_result [OF dirs [OF assms(2)] vict cids(1) n(2,1) cids(4)] by blast
  obtain i where i: "i < replicas" "i \<noteq> victim"
    using assms(1) that [of 0] that [of 1] by (cases "victim = 0") simp_all
  have mem: "?rep j \<in> set ?rs" if "j < replicas" for j using that by simp
  have all: "x = (Inr True, gv) \<or> (\<exists>g. x = (Inr False, g) \<and> ?P g)" if x: "x \<in> set ?rs" for x
  proof -
    obtain j where "j < replicas" "x = ?rep j" using x by auto
    then show ?thesis using survivor [of j] v(1) by (cases "j = victim") simp_all
  qed
  have "fst (?rep i) = Inr False" using survivor [OF i] by auto
  then have "\<exists>x \<in> set ?rs. fst x = Inr False" by (rule bexI [OF _ mem [OF i(1)]])
  moreover have "(Inr True, gv) \<in> set ?rs" using mem [OF assms(2)] v(1) by simp
  ultimately obtain g where g: "crash_join ?rs (None, []) = Inr (Some g, kv_entries (e_state gv))" "?P g"
    using crash_join_ok [of ?rs "(Inr True, gv)" ?P None "[]", OF all] by auto
  have "?rs ! victim = (Inr True, gv)" using v(1) assms(2) by simp
  then have run: "run_cluster_with_crash replicas (length cids) ops keys interval victim crash_after dirs polls drains =
      Some (crash_finish ?E g (kv_entries (e_state gv)) (d_dir (e_dur gv)) interval)"
    unfolding run_cluster_with_crash_def Let_def using g(1) assms(2) by simp
  obtain rep where rep: "crash_finish ?E g (kv_entries (e_state gv)) (d_dir (e_dur gv)) interval = Inr rep"
    using crash_finish_total [OF v(2)] by blast
  have st: "snap_fits kv_good g" "kv_entries (e_state g) = ?E" using g(2) by (simp_all add: right_survivor_def)
  have "survivor_correct rep = (kv_entries (e_state g) = ?E)" "victim_prefix_consistent rep = prefix_consistent (kv_entries (e_state gv)) ?E"
    using rep by (auto simp: crash_finish_def Let_def split: prod.splits sum.splits)
  then show ?thesis using run rep crash_finish_ok(2) [OF st(1) rep] v(3) st(2) by simp
qed

text \<open>
  C13: the run with a crash succeeds. When the fabric delivers every client's operations once and in order
  to the survivors, and a beginning of such a stream to the victim, long enough for it to crash, and there
  are no more keys than operations of a client, then the run completes, the survivor holds exactly the
  expected counts, the victim's entries at the crash nowhere exceed them, and after recovery and state
  transfer the victim holds what the survivor holds.
\<close>

theorem crash_run_recovers:
  assumes "1 < replicas" "victim < replicas" "distinct cids" "cids \<noteq> []" "keys \<le> ops" "length cids * ops < 2 ^ 63"
    and "\<And>i. i < replicas \<Longrightarrow> outcomes (dirs i) = []"
    and "\<And>i. i < replicas \<Longrightarrow> i \<noteq> victim \<Longrightarrow>
      fabric_delivers cids ops keys (map snd (decoded (concat (polls i)))) \<and> decoded (drains i) = [] \<and>
      log_bytes (decoded (concat (polls i))) + 4 < 2 ^ 32"
    and "fabric_delivers cids ops keys os" "prefix (map snd (decoded (concat (polls victim)))) os"
    and "polls victim \<noteq> []" "unat crash_after \<le> length (decoded (concat (polls victim)))"
  shows "\<exists>rep. run_cluster_with_crash replicas (length cids) ops keys interval victim crash_after dirs polls drains = Some (Inr rep) \<and>
    survivor_correct rep \<and> victim_prefix_consistent rep \<and> recovered_ok rep"
  using crash_run_ok [of replicas victim cids keys ops dirs polls drains os crash_after] assms by blast

text \<open>Two replicas and one client with two increments; the victim crashes after the first.\<close>

definition example_stream :: "bytes list" where
  "example_stream = map encode [op_incr 2 1 (key_name 0) 1, op_incr 2 2 (key_name 0) 1]"

theorem crash_run_recovers_witness:
  "\<exists>rep. run_cluster_with_crash 2 1 2 1 64 1 1 (\<lambda>_. empty_dir)
     (\<lambda>i. [map (Pair 10) (if i = 1 then take 1 example_stream else example_stream)]) (\<lambda>_. []) = Some (Inr rep) \<and>
    survivor_correct rep \<and> victim_prefix_consistent rep \<and> recovered_ok rep"
proof -
  let ?ops = "[op_incr 2 1 (key_name 0) 1, op_incr 2 2 (key_name 0) 1]"
  have ops: "client_ops 2 2 1 = Some ?ops" by (simp add: client_ops_def upt_conv_Cons)
  have f: "fabric_delivers [2] 2 1 ?ops" using ops by (simp add: fabric_delivers_def op_incr_def)
  have "client_sends 2 2 1 = Some example_stream" unfolding client_sends_def ops example_stream_def by simp
  then have dec: "decoded (map (Pair ts) example_stream) = map (Pair ts) ?ops" for ts using client_sends_decoded [OF ops] by simp
  have ops1: "client_ops 2 1 1 = Some (take 1 ?ops)" by (simp add: client_ops_def upt_conv_Cons)
  have "client_sends 2 1 1 = Some (take 1 example_stream)" unfolding client_sends_def ops1 example_stream_def by simp
  then have one: "decoded (map (Pair ts) (take 1 example_stream)) = map (Pair ts) (take 1 ?ops)" for ts
    using client_sends_decoded [OF ops1] by simp
  have "key_name 0 = [107, 48]" by (simp add: key_name_def show_usize_def dec_digits.simps)
  then have b: "log_bytes (map (Pair ts) ?ops) + 4 < 2 ^ 32" for ts
    by (simp add: log_bytes_def length_log_record op_incr_def encode_def enc_key_def)
  let ?polls = "\<lambda>i :: nat. [map (Pair 10) (if i = 1 then take 1 example_stream else example_stream)]"
  have "map snd (decoded (concat (?polls 0))) = ?ops" "decoded (concat (?polls 1)) = map (Pair 10) (take 1 ?ops)"
    using dec [of 10] one [of 10] by simp_all
  then have "\<exists>rep. run_cluster_with_crash 2 (length [2 :: u32]) 2 1 64 1 1 (\<lambda>_. empty_dir) ?polls (\<lambda>_. []) = Some (Inr rep) \<and>
      survivor_correct rep \<and> victim_prefix_consistent rep \<and> recovered_ok rep"
    using f dec [of 10] b [of 10] by (intro crash_run_recovers [where os = ?ops]) (auto simp: empty_dir_def less_2_cases_iff)
  then show ?thesis by simp
qed

end
