(* ===== verification/OB_Main.thy ===== *)
theory OB_Main
  imports OB_Service OB_Bench
begin

text \<open>
  What the binaries do around the modules: the command lines of the five servers (\<open>ob_kv.rs\<close>, \<open>ob_mc.rs\<close>,
  \<open>ob_http.rs\<close>, \<open>ob_txn.rs\<close>, \<open>ob_log.rs\<close>), the accept loop they end in (\<open>server.rs\<close>), and the demonstration
  \<open>ob_demo.rs\<close>. A configuration written as arguments is read back, options without a usable value keep the
  default, connections get consecutive numbers, one failing accept is the last, and the demonstration runs
  to its end.
\<close>

section \<open>Command lines\<close>

type_synonym u16 = "16 word"

record server_config =
  cfg_port :: u16
  cfg_dir :: rstring
  cfg_snap_interval :: u64
  cfg_fsync :: bool

text \<open>\<open>str::parse\<close> for the unsigned types: within the type's range, or no value.\<close>

definition parse_word :: "rstring \<Rightarrow> 'a::len word option" where
  "parse_word s = (case parse_usize s of Some n \<Rightarrow> if n < 2 ^ LENGTH('a) then Some (word_of_nat n) else None | None \<Rightarrow> None)"

text \<open>
  The loop over the arguments. An option takes the next argument for its value, whatever that is. With
  \<open>help\<close> the binary knows \<open>--help\<close> and \<open>-h\<close>, which end it (\<open>None\<close>); all other arguments are skipped.
\<close>

fun server_args :: "bool \<Rightarrow> rstring list \<Rightarrow> server_config \<Rightarrow> server_config option" where
  "server_args help [] cfg = Some cfg"
| "server_args help (a # args) cfg =
     (if a = ascii ''--port'' then server_args help (tl args)
        (case args of [] \<Rightarrow> cfg | v # _ \<Rightarrow> (case parse_word v of Some p \<Rightarrow> cfg\<lparr>cfg_port := p\<rparr> | None \<Rightarrow> cfg))
      else if a = ascii ''--dir'' then server_args help (tl args) (case args of [] \<Rightarrow> cfg | v # _ \<Rightarrow> cfg\<lparr>cfg_dir := v\<rparr>)
      else if a = ascii ''--fsync'' then server_args help args (cfg\<lparr>cfg_fsync := True\<rparr>)
      else if a = ascii ''--snap-interval'' then server_args help (tl args)
        (case args of [] \<Rightarrow> cfg | v # _ \<Rightarrow> (case parse_word v of Some n \<Rightarrow> cfg\<lparr>cfg_snap_interval := n\<rparr> | None \<Rightarrow> cfg))
      else if help \<and> (a = ascii ''--help'' \<or> a = ascii ''-h'') then None
      else server_args help args cfg)"

datatype protocol = RespProtocol | MemcacheProtocol | HttpProtocol | TxnProtocol | StreamLogProtocol

definition default_config :: "u16 \<Rightarrow> string \<Rightarrow> server_config" where
  "default_config port dir = \<lparr>cfg_port = port, cfg_dir = ascii dir, cfg_snap_interval = 10000, cfg_fsync = False\<rparr>"

definition ob_kv :: "rstring list \<Rightarrow> (server_config \<times> protocol) option" where
  "ob_kv args = map_option (\<lambda>cfg. (cfg, RespProtocol)) (server_args True args (default_config 6399 ''/tmp/ob-kv-data''))"

definition ob_mc :: "rstring list \<Rightarrow> (server_config \<times> protocol) option" where
  "ob_mc args = map_option (\<lambda>cfg. (cfg, MemcacheProtocol)) (server_args True args (default_config 11311 ''/tmp/ob-mc-data''))"

definition ob_http :: "rstring list \<Rightarrow> (server_config \<times> protocol) option" where
  "ob_http args = map_option (\<lambda>cfg. (cfg, HttpProtocol)) (server_args True args (default_config 8088 ''/tmp/ob-http-data''))"

definition ob_txn :: "rstring list \<Rightarrow> (server_config \<times> protocol) option" where
  "ob_txn args = map_option (\<lambda>cfg. (cfg, TxnProtocol)) (server_args False args (default_config 7099 ''/tmp/ob-txn-data''))"

definition ob_log :: "rstring list \<Rightarrow> (server_config \<times> protocol) option" where
  "ob_log args = map_option (\<lambda>cfg. (cfg, StreamLogProtocol)) (server_args False args (default_config 7199 ''/tmp/ob-log-data''))"

text \<open>A configuration as a command line.\<close>

definition config_args :: "server_config \<Rightarrow> rstring list" where
  "config_args cfg = [ascii ''--port'', show_usize (unat (cfg_port cfg)), ascii ''--dir'', cfg_dir cfg,
     ascii ''--snap-interval'', show_usize (unat (cfg_snap_interval cfg))] @ (if cfg_fsync cfg then [ascii ''--fsync''] else [])"

lemma parse_word_show: "LENGTH('a) \<le> 64 \<Longrightarrow> parse_word (show_usize (unat (w :: 'a::len word))) = Some w"
proof -
  assume l: "LENGTH('a) \<le> 64"
  have w: "unat w < 2 ^ LENGTH('a)" by (rule unsigned_less)
  also have "(2 :: nat) ^ LENGTH('a) \<le> 2 ^ 64" using l by (intro power_increasing) simp_all
  finally show ?thesis using parse_show_usize [of "unat w"] w by (simp add: parse_word_def)
qed

lemma config_args_read:
  assumes "\<not> cfg_fsync cfg0"
  shows "server_args help (config_args cfg) cfg0 = Some cfg"
  using assms by (cases cfg) (simp add: config_args_def parse_word_show)

text \<open>An option whose value is missing or cannot be read leaves the configuration as it is.\<close>

lemma server_args_keep:
  "parse_word v = (None :: u16 option) \<Longrightarrow> server_args help (ascii ''--port'' # v # args) cfg = server_args help args cfg"
  "parse_word v = (None :: u64 option) \<Longrightarrow> server_args help (ascii ''--snap-interval'' # v # args) cfg = server_args help args cfg"
  "server_args help [ascii ''--port''] cfg = Some cfg" "server_args help [ascii ''--dir''] cfg = Some cfg"
  "server_args help [ascii ''--snap-interval''] cfg = Some cfg"
  by simp_all

text \<open>So a flag behind an option that lacks its value is swallowed.\<close>

lemma fsync_swallowed:
  "server_args help (ascii ''--port'' # ascii ''--fsync'' # args) cfg = server_args help args cfg"
  by (rule server_args_keep(1)) (simp add: parse_word_def parse_usize_def)

section \<open>The accept loop\<close>

text \<open>What the listener yields in one round, with the shutdown flag as it is read there.\<close>

datatype incoming = Stream | Would_block | Accept_error

fun accept_loop :: "(bool \<times> incoming) list \<Rightarrow> server \<Rightarrow> u32 list \<times> server" where
  "accept_loop [] s = ([], s)"
| "accept_loop ((shutdown, x) # xs) s =
     (if shutdown then ([], s)
      else (case x of
          Stream \<Rightarrow> (case server_accept s of (c, s) \<Rightarrow> case accept_loop xs s of (cs, s) \<Rightarrow> (c # cs, s))
        | Would_block \<Rightarrow> accept_loop xs s
        | Accept_error \<Rightarrow> ([], s)))"

lemma accept_loop_ids:
  "\<exists>n \<le> length xs. accept_loop xs s = (map (\<lambda>i. srv_conn_id s + word_of_nat i) [0..<n], s\<lparr>srv_conn_id := srv_conn_id s + word_of_nat n\<rparr>)"
proof (induction xs arbitrary: s)
  case (Cons x xs)
  obtain sd y where x: "x = (sd, y)" by (cases x)
  show ?case
  proof (cases "\<not> sd \<and> y = Stream")
    case True
    let ?s = "s\<lparr>srv_conn_id := srv_conn_id s + 1\<rparr>"
    obtain n where n: "n \<le> length xs" "accept_loop xs ?s =
        (map (\<lambda>i. srv_conn_id ?s + word_of_nat i) [0..<n], ?s\<lparr>srv_conn_id := srv_conn_id ?s + word_of_nat n\<rparr>)"
      using Cons.IH [of ?s] by blast
    have "map (\<lambda>i. srv_conn_id s + word_of_nat i) [0..<Suc n] = srv_conn_id s # map (\<lambda>i. srv_conn_id s + 1 + word_of_nat i) [0..<n]"
      by (simp only: upt_conv_Cons zero_less_Suc flip: map_Suc_upt) (simp add: o_def add.assoc)
    then show ?thesis using n True by (intro exI [of _ "Suc n"]) (simp add: x server_accept_def add.assoc del: upt_Suc)
  next
    case False
    then consider "sd \<or> y = Accept_error" | "\<not> sd" "y = Would_block" by (cases y) auto
    then show ?thesis
    proof cases
      case 1
      then show ?thesis by (intro exI [of _ 0]) (auto simp: x)
    next
      case 2
      obtain n where "n \<le> length xs"
        "accept_loop xs s = (map (\<lambda>i. srv_conn_id s + word_of_nat i) [0..<n], s\<lparr>srv_conn_id := srv_conn_id s + word_of_nat n\<rparr>)"
        using Cons.IH [of s] by blast
      then show ?thesis using 2 by (intro exI [of _ n]) (simp add: x)
    qed
  qed
qed (auto intro: exI [of _ 0])

lemma accept_loop_distinct:
  assumes "length xs \<le> 2 ^ 32"
  shows "distinct (fst (accept_loop xs s))"
proof -
  obtain n where n: "n \<le> length xs" "fst (accept_loop xs s) = map (\<lambda>i. srv_conn_id s + word_of_nat i) [0..<n]"
    using accept_loop_ids [of xs s] by auto
  have "inj_on (\<lambda>i. srv_conn_id s + word_of_nat i) {0..<n}"
  proof (rule inj_onI)
    fix i j assume "i \<in> {0..<n}" "j \<in> {0..<n}" "srv_conn_id s + word_of_nat i = srv_conn_id s + word_of_nat j"
    then have eq: "i < 2 ^ 32" "j < 2 ^ 32" "(word_of_nat i :: u32) = word_of_nat j" using n(1) assms by simp_all
    have "unat (word_of_nat k :: u32) = k" if "k < 2 ^ 32" for k using that by (simp add: unat_of_nat)
    then show "i = j" using eq by metis
  qed
  then show ?thesis by (simp add: n(2) distinct_map)
qed

text \<open>Behind a failing accept nothing is served, whatever arrives.\<close>

lemma accept_loop_error: "accept_loop (xs @ (False, Accept_error) # ys) s = accept_loop xs s"
  by (induction xs arbitrary: s) (auto split: incoming.splits prod.splits)

text \<open>
  The accept loop ends at the first failing accept. Whatever arrives after it, the connections served are
  those accepted before, numbered one after the other from where the server stands, and no number
  is given out any more; only a listener that would block is asked again.
\<close>

theorem accept_error_final:
  "\<exists>n. n \<le> length xs \<and> accept_loop (xs @ (False, Accept_error) # ys) s =
     (map (\<lambda>i. srv_conn_id s + word_of_nat i) [0..<n], s\<lparr>srv_conn_id := srv_conn_id s + word_of_nat n\<rparr>)"
  unfolding accept_loop_error using accept_loop_ids [of xs s] by blast

section \<open>The demonstration\<close>

definition demo_ops :: "op list" where
  "demo_ops = [op_set 1 1 (ascii ''balance'') 100, op_incr 1 2 (ascii ''balance'') (- 30), op_set 2 1 (ascii ''name_len'') 7,
     op_incr 1 3 (ascii ''balance'') 50, op_incr 2 2 (ascii ''name_len'') 1]"

text \<open>The operations with the timestamps 10, 20 and so on; \<open>stamp\<close> is as for the benchmarks.\<close>

definition demo_feed :: "(u64 \<Rightarrow> u64) \<Rightarrow> op list \<Rightarrow> (u64 \<times> op) list" where
  "demo_feed stamp ops = map (\<lambda>i. (stamp (word_of_nat (i + 1) * 10), ops ! i)) [0..<length ops]"

text \<open>The whole run in an empty directory: \<open>Inl\<close> is an I/O error, \<open>None\<close> a failed assertion.\<close>

definition ob_demo :: "(u64 \<Rightarrow> u64) \<Rightarrow> directory \<Rightarrow> (io_error + unit) option" where
  "ob_demo stamp w =
     (case engine_create kv_sm w 3 False of
        (Inl x, _) \<Rightarrow> Some (Inl x)
      | (Inr _, e) \<Rightarrow> (case deliver_all (demo_feed stamp demo_ops) e of
          (Inl x, _) \<Rightarrow> Some (Inl x)
        | (Inr _, e) \<Rightarrow> (case engine_recover kv_sm (d_dir (e_dur e)) 3 False of
            (Inl x, _) \<Rightarrow> Some (Inl x)
          | (Inr _, e) \<Rightarrow>
              if kv_get_int (e_state e) (ascii ''balance'') = Some 120 \<and> kv_get_int (e_state e) (ascii ''name_len'') = Some 8
              then (case deliver kv_sm (stamp 40) (op_incr 1 3 (ascii ''balance'') 50) e of
                  (Inl x, _) \<Rightarrow> Some (Inl x)
                | (Inr out, e) \<Rightarrow>
                    if out = Suppressed \<and> kv_get_int (e_state e) (ascii ''balance'') = Some 120 then Some (Inr ()) else None)
              else None)))"

lemmas main_defs [unfold_model] = parse_word_def default_config_def ob_kv_def ob_mc_def ob_http_def ob_txn_def ob_log_def
  demo_ops_def demo_feed_def ob_demo_def

text \<open>An engine that is created, delivered a stream and recovered holds what the stream computes.\<close>

lemma session:
  assumes "bench_run h"
  obtains e0 e er where "engine_create kv_sm empty_dir i False = (Inr (), e0)" "deliver_all h e0 = (Inr (), e)"
    "bench_inv (unat (max i 1)) h e" "engine_recover kv_sm (d_dir (e_dur e)) i' fs = (Inr (), er)" "quiet (e_dur er)"
    "core er = run_core kv_sm (init_core kv_sm) h" "st_replayed (e_stats er) = word_of_nat (length h mod unat (max i 1))"
proof -
  have n: "0 < unat (max i 1)" by (rule interval_pos)
  obtain e0 where e0: "engine_create kv_sm empty_dir i False = (Inr (), e0)" "bench_inv (unat (max i 1)) [] e0"
    using engine_create_bench by blast
  obtain e where e: "deliver_all h e0 = (Inr (), e)" "bench_inv (unat (max i 1)) h e"
    using deliver_all_inv [of "[]" h "unat (max i 1)" e0] assms e0(2) n by auto
  obtain er where r: "engine_recover kv_sm (d_dir (e_dur e)) i' fs = (Inr (), er)"
    "st_replayed (e_stats er) = word_of_nat (length h mod unat (max i 1))" "core er = core e"
    using bench_inv_recover [OF e(2) assms n] by blast
  have "core e = run_core kv_sm (init_core kv_sm) h" "outcomes (d_dir (e_dur e)) = []" using e(2) by (simp_all add: bench_inv_def quiet_def)
  moreover have "d_dir (e_dur e)\<lparr>outcomes := []\<rparr> = d_dir (e_dur e)" using calculation(2) by simp
  then have "quiet (e_dur er)" using engine_recover_quiet [of kv_sm "d_dir (e_dur e)" i' fs er] r(1) by simp
  ultimately show thesis using that e0(1) e r by simp
qed

lemma session_state: "core e = run_core kv_sm (init_core kv_sm) h \<Longrightarrow> e_state e = reference_apply kv_sm (map snd h)"
  using reference_apply_run [of kv_sm h] by (simp add: core_state)

lemma session_duplicate:
  assumes "core e = run_core kv_sm (init_core kv_sm) h" "op \<in> set (map snd h)"
  shows "\<exists>e'. deliver kv_sm ts op e = (Inr Suppressed, e') \<and> core e' = core e"
proof -
  have "marks_of (map snd h) (e_applied e)"
    using run_marks [of kv_sm h "e_state e" "e_applied e" "e_last_ts e"] assms(1) by (simp add: core_def)
  then have "op_seq op \<le> hw_get (e_applied e) (op_client op)" using assms(2) unfolding marks_of_def by blast
  then show ?thesis by (simp add: deliver_def apply_dedup_def core_def)
qed

lemma demo_state:
  "kv_get_int (reference_apply kv_sm demo_ops) (ascii ''balance'') = Some 120"
  "kv_get_int (reference_apply kv_sm demo_ops) (ascii ''name_len'') = Some 8"
  by code_simp+

lemma demo_encoded: "x \<in> set demo_ops \<Longrightarrow> op_logs x \<and> length (encode x) \<le> 100"
proof -
  have shows_ok: "show_i64 100 = ascii ''100''" "show_i64 7 = ascii ''7''" by code_simp+
  assume "x \<in> set demo_ops"
  then show ?thesis
    by (auto simp: demo_ops_def op_set_def op_set_bytes_def op_incr_def shows_ok op_logs_def wf_op_def key_ok_def val_ok_def utf8_valid_ascii_byte
        encode_def enc_key_def enc_val_def)
qed

lemma demo_run: "bench_run (demo_feed stamp demo_ops)" "map snd (demo_feed stamp demo_ops) = demo_ops"
proof -
  have n: "[0..<length demo_ops] = [0, 1, 2, 3, 4]" by (simp add: demo_ops_def upt_conv_Cons)
  show ops: "map snd (demo_feed stamp demo_ops) = demo_ops" unfolding demo_feed_def n by (simp add: demo_ops_def)
  have logs: "op_logs (snd x)" "length (log_record (fst x, encode (snd x))) \<le> 112" if "x \<in> set (demo_feed stamp demo_ops)" for x
  proof -
    have "snd x \<in> set demo_ops" using that ops by (metis image_eqI set_map)
    then show "op_logs (snd x)" "length (log_record (fst x, encode (snd x))) \<le> 112"
      using demo_encoded [of "snd x"] by (simp_all add: length_log_record)
  qed
  have "log_bytes (demo_feed stamp demo_ops) \<le> (\<Sum>x\<leftarrow>demo_feed stamp demo_ops. 112)"
    unfolding log_bytes_def by (rule sum_list_mono) (rule logs(2))
  also have "\<dots> = 560" unfolding demo_feed_def n by (simp add: sum_list_triv)
  finally have "log_bytes (demo_feed stamp demo_ops) + 4 < 2 ^ 32" by simp
  moreover have "in_order demo_ops" by (simp add: in_order_def demo_ops_def op_set_def op_set_bytes_def op_incr_def)
  ultimately show "bench_run (demo_feed stamp demo_ops)" using logs(1) ops by (simp add: bench_run_def)
qed

text \<open>
  The demonstration runs to its end in an empty directory: no call fails, both values are there after
  the crash, the repeated increment is suppressed and does not change the balance.
\<close>

theorem demo_completes: "ob_demo stamp empty_dir = Some (Inr ())"
proof -
  obtain e0 e er where s: "engine_create kv_sm empty_dir 3 False = (Inr (), e0)" "deliver_all (demo_feed stamp demo_ops) e0 = (Inr (), e)"
    "engine_recover kv_sm (d_dir (e_dur e)) 3 False = (Inr (), er)" "core er = run_core kv_sm (init_core kv_sm) (demo_feed stamp demo_ops)"
    using session [OF demo_run(1), where i = 3 and i' = 3 and fs = False] by metis
  have st: "e_state er = reference_apply kv_sm demo_ops" using session_state [OF s(4)] demo_run(2) by simp
  have "op_incr 1 3 (ascii ''balance'') 50 \<in> set demo_ops" unfolding demo_ops_def by simp
  then have "op_incr 1 3 (ascii ''balance'') 50 \<in> set (map snd (demo_feed stamp demo_ops))" using demo_run(2) by simp
  from session_duplicate [OF s(4) this]
  obtain e' where d: "deliver kv_sm (stamp 40) (op_incr 1 3 (ascii ''balance'') 50) er = (Inr Suppressed, e')" "core e' = core er" by blast
  have "e_state e' = e_state er" using d(2) by (simp add: core_def)
  then show ?thesis unfolding ob_demo_def using s(1-3) d(1) st demo_state by (simp del: ascii_Cons)
qed

end
