(* ===== verification/OB_Tables.thy ===== *)
theory OB_Tables
  imports OB_Sim OB_Recovery OB_Bench
begin

text \<open>
  The binaries that print a table and say what it shows: \<open>ob_recovery.rs\<close>, \<open>ob_compare.rs\<close>, \<open>ob_sim.rs\<close>,
  \<open>ob_sweep.rs\<close> and \<open>ob_scale.rs\<close>, with the rows as values and the printing left out. The rows bear out what
  the closing remarks say of livelock and backpressure, of OneBarrier's latency and cost beside the
  competitors', of overlapped durability, of the snapshot interval and of convergence. The recoveries that
  are said to take less than a millisecond take more in every row.
\<close>

section \<open>The binaries\<close>

subsection \<open>\<open>ob_recovery\<close>\<close>

definition recovery_rates :: "f64 list" where
  "recovery_rates = [f_of 1, f_of 2, f_of 3, f_of (38 / 10), f_of 5, f_of 7]"

definition ob_recovery :: "recovery_row list" where
  "ob_recovery = sweep recovery_default recovery_rates"

text \<open>The rate, the two times and the capacity in one line of the file for the figure; a livelock leaves its field empty.\<close>

definition csv_rate :: "nat \<Rightarrow> nat \<Rightarrow> f64" where
  "csv_rate n i = f_add (f_of (2 / 10)) (f_mul (f_div (f_of (of_nat i)) (f_of (of_nat (n - 1)))) (f_sub (f_of 8) (f_of (2 / 10))))"

definition ob_recovery_csv :: "(f64 \<times> f64 option \<times> f64 option \<times> f64) list" where
  "ob_recovery_csv = map (\<lambda>i. let lr = csv_rate 60 i; p = recovery_default in
     (lr, recovery_time_us p lr False, recovery_time_us p lr True, replay_rate p)) [0..<60]"

subsection \<open>\<open>ob_compare\<close>\<close>

definition compare_params :: sim_params where
  "compare_params = sim_default\<lparr>rtt_us := f_of 2, barrier_us := f_of 2, apply_us := f_of (1 / 2), requests := 300000, offered_load := f_of (4 / 10)\<rparr>"

definition ob_compare :: "(f64 \<Rightarrow> f64) \<Rightarrow> (competitor \<times> latency_stats) list option" where
  "ob_compare lnf = those (map (\<lambda>c. map_option (Pair c) (simulate_explicit lnf compare_params (c_svc_us c) (c_fixed_us c)))
     (competitors compare_params))"

subsection \<open>\<open>ob_sim\<close>\<close>

definition sim_base :: sim_params where
  "sim_base = sim_default\<lparr>rtt_us := f_of 2, barrier_us := f_of 2, apply_us := f_of (1 / 2), fsync_us := f_of 3000, requests := 300000\<rparr>"

record sim_row =
  row_load :: f64
  row_base :: latency_stats
  row_overlap :: latency_stats
  row_fsync :: latency_stats

definition sim_row_of :: "(f64 \<Rightarrow> f64) \<Rightarrow> sim_params \<Rightarrow> sim_row option" where
  "sim_row_of lnf p = Option.bind (simulate lnf p ReliableBaseline) (\<lambda>b. Option.bind (simulate lnf p FtOverlap) (\<lambda>v.
     Option.bind (simulate lnf p FtFsync) (\<lambda>f. Some \<lparr>row_load = offered_load p, row_base = b, row_overlap = v, row_fsync = f\<rparr>)))"

definition sim_loads :: "f64 list" where
  "sim_loads = [f_of (3 / 10), f_of (5 / 10), f_of (7 / 10), f_of (85 / 100), f_of (95 / 100)]"

text \<open>The table, and the row that is summed up at the end.\<close>

definition ob_sim :: "(f64 \<Rightarrow> f64) \<Rightarrow> (sim_row list \<times> sim_row) option" where
  "ob_sim lnf = Option.bind (those (map (\<lambda>load. sim_row_of lnf (sim_base\<lparr>offered_load := load\<rparr>)) sim_loads)) (\<lambda>rows.
     map_option (Pair rows) (sim_row_of lnf (sim_base\<lparr>offered_load := f_of (7 / 10)\<rparr>)))"

text \<open>The loads of the figure; \<open>powf\<close> is the power function of the platform.\<close>

definition csv_load :: "(f64 \<Rightarrow> f64 \<Rightarrow> f64) \<Rightarrow> nat \<Rightarrow> nat \<Rightarrow> f64" where
  "csv_load powf n i = (let lo = f_of (5 / 100000); hi = f_of (97 / 100) in
     f_mul lo (powf (f_div hi lo) (f_div (f_of (of_nat i)) (f_of (of_nat (n - 1))))))"

definition ob_sim_csv :: "(f64 \<Rightarrow> f64) \<Rightarrow> (f64 \<Rightarrow> f64 \<Rightarrow> f64) \<Rightarrow> (f64 \<times> sim_row) list option" where
  "ob_sim_csv lnf powf = those (map (\<lambda>i. let load = csv_load powf 48 i;
       p = sim_base\<lparr>requests := 120000, offered_load := load\<rparr>; thr = f_mul (f_div load (apply_us p)) (f_of 1000000) in
     map_option (Pair thr) (sim_row_of lnf p)) [0..<48])"

subsection \<open>\<open>ob_sweep\<close> and \<open>ob_scale\<close>\<close>

definition ob_sweep :: "(u64 \<Rightarrow> u64) \<Rightarrow> (u64 \<Rightarrow> directory) \<Rightarrow> snap_result list option" where
  "ob_sweep stamp dirs = sweep_snapshot_interval stamp dirs [64, 512, 4096, 100000] 50000 64"

text \<open>One cluster after the other; the first error ends the run. \<open>fab\<close> gives what the fabric delivers in the run of that size.\<close>

fun scale_rows :: "(nat \<Rightarrow> nat \<Rightarrow> directory) \<Rightarrow> (nat \<Rightarrow> nat \<Rightarrow> (u64 \<times> bytes) list list) \<Rightarrow> (nat \<Rightarrow> nat \<Rightarrow> (u64 \<times> bytes) list) \<Rightarrow>
    nat list \<Rightarrow> io_error + (nat \<times> cluster_report) list" where
  "scale_rows dirs polls drains [] = Inr []"
| "scale_rows dirs polls drains (replicas # rs) =
     (case run_cluster replicas 2 400 16 128 (dirs replicas) (polls replicas) (drains replicas) of
        Inl e \<Rightarrow> Inl e
      | Inr r \<Rightarrow> (case scale_rows dirs polls drains rs of Inl e \<Rightarrow> Inl e | Inr rows \<Rightarrow> Inr ((replicas, r) # rows)))"

definition ob_scale :: "(nat \<Rightarrow> nat \<Rightarrow> directory) \<Rightarrow> (nat \<Rightarrow> nat \<Rightarrow> (u64 \<times> bytes) list list) \<Rightarrow>
    (nat \<Rightarrow> nat \<Rightarrow> (u64 \<times> bytes) list) \<Rightarrow> io_error + (nat \<times> cluster_report) list" where
  "ob_scale dirs polls drains = scale_rows dirs polls drains [3, 5, 7, 9]"

lemmas table_defs [unfold_model] = recovery_rates_def ob_recovery_def csv_rate_def ob_recovery_csv_def compare_params_def ob_compare_def
  sim_base_def sim_row_of_def sim_loads_def ob_sim_def csv_load_def ob_sim_csv_def ob_sweep_def ob_scale_def

section \<open>Recovery\<close>

lemma positive_make: "1 / 2 ^ 20 \<le> q \<Longrightarrow> q \<le> 2 ^ 53 \<Longrightarrow> positive (f_make s q)"
proof -
  assume q: "1 / 2 ^ 20 \<le> q" "q \<le> 2 ^ 53"
  have "(1 / 2 ^ 20 :: rat) = of_int 1 * 2 powi - 20" by (simp add: power_int_minus)
  then have "representable (1 / 2 ^ 20)" "representable (2 ^ 53)"
    using representable_form [of 1 "- 20"] representable_of_int [of "2 ^ 53"] by simp_all
  then have r: "1 / 2 ^ 20 \<le> rnd q" "rnd q \<le> 2 ^ 53" using q rnd_ge rnd_le by blast+
  have pos: "0 < rnd q" by (rule less_le_trans [OF _ r(1)]) simp
  then have "f_make s q = Num (rnd q)" using small_limit [OF r(2)] by (auto simp: f_make_def Let_def)
  moreover have "f_ok (f_make s q)" by simp
  ultimately show ?thesis using pos by (auto simp: positive_def)
qed

lemma rates_positive: "list_all positive recovery_rates"
  unfolding recovery_rates_def f_of_def by (simp add: positive_make)

text \<open>The shortest of the recoveries: the lowest rate with backpressure.\<close>

lemma shortest_recovery:
  "\<exists>t. recovery_time_us recovery_default (f_of 1) True = Some t \<and> f_lt (f_of 1000) t"
proof -
  have "representable (of_int 7 * 2 powi - 1)" by (rule representable_form) simp_all
  then have "representable (7 / 2)" by (simp add: power_int_minus)
  then have half: "f_make False (1 / 2) = Num (1 / 2)" "f_make False (7 / 2) = Num (7 / 2)"
    using f_half make_exact [of "7 / 2" False] small_limit [of "7 / 2"] by (simp_all add: f_of_def)
  let ?t = "f_add (f_add (Num 700) (f_make False (3200 / 7))) (Num 6)"
  have t: "recovery_time_us recovery_default (f_of 1) True = Some ?t"
    by (simp add: recovery_time_us_def recovery_default_def f_of_numeral f_half half f_add_def f_div_def f_mul_def f_sub_def
        make_numeral Let_def)
  have "f_le (Num 457) (f_make False (3200 / 7))" using make_mono [of 457 "3200 / 7" False False] by (simp add: make_numeral)
  then have "f_le (f_add (Num 700) (Num 457)) (f_add (Num 700) (f_make False (3200 / 7)))"
    by (intro f_add_mono) (simp_all add: nonneg_def)
  then have "f_le (Num 1157) (f_add (Num 700) (f_make False (3200 / 7)))" by (simp add: f_add_def make_numeral)
  then have "f_le (f_add (Num 1157) (Num 6)) ?t" by (intro f_add_mono) (simp_all add: nonneg_def)
  then have "f_le (Num 1163) ?t" by (simp add: f_add_def make_numeral)
  then have "f_lt (f_of 1000) ?t" by (auto simp: f_of_numeral f_le_def f_lt_def less_eq_prod_def less_prod_def split: f64.splits)
  then show ?thesis using t by blast
qed

lemma recovery_over_ms:
  assumes "positive r" "f_le (f_of 1) r" "recovery_time_us recovery_default r b = Some t"
  shows "f_lt (f_of 1000) t"
proof -
  have "positive (f_of 1)" using positive_make [of 1] by (simp add: f_of_def)
  then obtain t0 where "recovery_time_us recovery_default (f_of 1) True = Some t0" "f_le t0 t"
    using recovery_time_mono [OF recovery_default_sane _ assms(1,2) _ assms(3)] by blast
  moreover obtain t1 where "recovery_time_us recovery_default (f_of 1) True = Some t1" "f_lt (f_of 1000) t1"
    using shortest_recovery by blast
  ultimately show ?thesis by (auto simp: f_le_def f_lt_def)
qed

lemma below_four: "q \<le> 31 / 8 \<Longrightarrow> \<not> f_le (Num 4) (f_make False q)"
proof -
  assume "q \<le> 31 / 8"
  then have "f_le (f_make False q) (f_make False (31 / 8))" by (rule make_mono)
  moreover have "representable (of_int 31 * 2 powi - 3)" by (rule representable_form) simp_all
  then have "representable (31 / 8)" by (simp add: power_int_minus)
  then have "f_make False (31 / 8) = Num (31 / 8)" by (rule make_exact) (simp, rule small_limit, simp)
  ultimately show ?thesis using f_le_trans [of "Num 4" _ "Num (31 / 8)"] by auto
qed

lemma rates_verdict:
  assumes "q \<in> {1, 2, 3, 38 / 10, 5, 7}"
  shows "recovery_time_us recovery_default (f_of q) False = None \<longleftrightarrow> 4 \<le> q"
    and "recovery_time_us recovery_default (f_of q) True \<noteq> None"
proof -
  have q: "1 \<le> q" "q \<le> 7" using assms by auto
  have p: "positive (f_of q)" unfolding f_of_def by (rule positive_make; rule order_trans [OF _ q(1)] order_trans [OF q(2)]) simp_all
  have four: "replay_rate recovery_default = f_make False 4" "f_make False 4 = Num 4" by (simp_all add: recovery_default_def f_of_def make_numeral)
  have lt: "\<not> f_le (Num 4) (f_of q)" if "q < 4"
  proof -
    have "q \<le> 31 / 8" using assms that by auto
    then show ?thesis using below_four by (simp add: f_of_def)
  qed
  have ge: "f_le (Num 4) (f_of q)" if "4 \<le> q" using make_mono [OF that, of False False] four(2) by (simp add: f_of_def)
  show "recovery_time_us recovery_default (f_of q) False = None \<longleftrightarrow> 4 \<le> q"
    using recovery_time_eq [OF recovery_default_sane p, of False] lt ge four by (auto simp: eff_live_def not_le [symmetric])
  have "f_le (f_of q) (f_of 7)" unfolding f_of_def by (rule make_mono [OF q(2)])
  then have "f_le (eff_live (f_of q) True) (eff_live (f_of 7) True)"
    using eff_live_mono [OF p, of "f_of 7" True True] by (simp add: positive_make f_of_def)
  moreover have "eff_live (f_of 7) True = f_make False (7 / 2)" by (simp add: eff_live_def f_half f_of_numeral f_mul_def)
  then have "\<not> f_le (Num 4) (eff_live (f_of 7) True)" using below_four [of "7 / 2"] by simp
  ultimately show "recovery_time_us recovery_default (f_of q) True \<noteq> None"
    using recovery_time_eq [OF recovery_default_sane p, of True] four f_le_trans by auto
qed

text \<open>
  What \<open>ob_recovery\<close> prints. Without backpressure the recoveries below the replay rate converge and those
  above it do not; with backpressure all do. Every recovery in the table takes longer than a millisecond.
\<close>

theorem recovery_readout:
  "map (\<lambda>row. plain_us row = None) ob_recovery = [False, False, False, False, True, True] \<and>
   list_all (\<lambda>row. backpressure_us row \<noteq> None \<and> pred_option (f_lt (f_of 1000)) (plain_us row) \<and>
     pred_option (f_lt (f_of 1000)) (backpressure_us row)) ob_recovery"
proof -
  let ?q = "[1, 2, 3, 38 / 10, 5, 7] :: rat list"
  have r: "recovery_rates = map f_of ?q" by (simp add: recovery_rates_def)
  have rows: "ob_recovery = map (\<lambda>q. \<lparr>live_rate = f_of q, plain_us = recovery_time_us recovery_default (f_of q) False,
      backpressure_us = recovery_time_us recovery_default (f_of q) True\<rparr>) ?q"
    unfolding ob_recovery_def sweep_def r map_map o_def ..
  have "map (\<lambda>q. recovery_time_us recovery_default (f_of q) False = None) ?q = map (\<lambda>q. 4 \<le> q) ?q"
    by (rule map_cong [OF refl], rule rates_verdict) auto
  then have "map (\<lambda>row. plain_us row = None) ob_recovery = [False, False, False, False, True, True]" unfolding rows by simp
  moreover have "pred_option (f_lt (f_of 1000)) (recovery_time_us recovery_default (f_of q) b)" if "q \<in> set ?q" for q b
  proof -
    have "1 \<le> q" using that by auto
    then have "f_le (f_of 1) (f_of q)" unfolding f_of_def by (rule make_mono)
    moreover have "positive (f_of q)" using rates_positive that unfolding r list.pred_set set_map by blast
    ultimately show ?thesis using recovery_over_ms by (auto simp: pred_option_def)
  qed
  moreover have "recovery_time_us recovery_default (f_of q) True \<noteq> None" if "q \<in> set ?q" for q
    using rates_verdict(2) [of q] that by simp
  ultimately show ?thesis unfolding rows list_all_iff by auto
qed

text \<open>In every line of the figure backpressure converges where its absence does, and no later.\<close>

lemma upto_int: "0 \<le> q \<Longrightarrow> q \<le> of_int n \<Longrightarrow> n \<le> 2 ^ 53 \<Longrightarrow> f_upto (of_int n) (f_make s q)"
proof -
  assume q: "0 \<le> q" "q \<le> of_int n" "n \<le> 2 ^ 53"
  then have "0 \<le> n" by (metis of_int_0_le_iff order_trans)
  moreover have "(of_int n :: rat) \<le> 2 ^ 53" using q(3) by (metis of_int_le_iff of_int_numeral of_int_power)
  ultimately show ?thesis using make_upto [OF q(1,2)] representable_of_int [of n] q(3) small_limit by simp
qed

lemma csv_rate_positive:
  assumes "i < 60"
  shows "positive (csv_rate 60 i)"
proof -
  have step: "f_upto 1 (f_div (f_of (of_nat i)) (f_of 59))"
  proof -
    have i: "f_of (of_nat i) = Num (of_nat i)"
      using make_small [of "int i" False] assms by (cases "i = 0") (simp_all add: f_of_def make_zero)
    have "(of_nat i / 59 :: rat) \<le> 1" using assms by simp
    then have "f_upto (of_int 1) (f_make False (of_nat i / 59))" by (intro upto_int) simp_all
    then show ?thesis by (simp add: i f_of_numeral f_div_def)
  qed
  have low: "f_upto 1 (f_of (2 / 10))" using upto_int [of "2 / 10" 1 False] by (simp add: f_of_def)
  note l = uptoD [OF low]
  have pos: "positive (f_of (2 / 10))" unfolding f_of_def by (rule positive_make) simp_all
  then obtain q where q: "f_of (2 / 10) = Num q" "0 < q" by (rule positiveE)
  have span: "f_upto 8 (f_sub (f_of 8) (f_of (2 / 10)))"
  proof -
    have "f_sub (f_of 8) (f_of (2 / 10)) = f_make False (8 - fval (f_of (2 / 10)))"
      using q by (simp add: f_of_numeral f_sub_def f_add_def)
    then show ?thesis using upto_int [of "8 - fval (f_of (2 / 10))" 8 False] l(4,5) by simp
  qed
  have rep: "representable 8" "representable 9" "(8 :: rat) < f_limit" "(9 :: rat) < f_limit"
    using representable_of_int [of 8] representable_of_int [of 9] by (simp_all add: small_limit)
  have mul: "f_upto 8 (f_mul (f_div (f_of (of_nat i)) (f_of 59)) (f_sub (f_of 8) (f_of (2 / 10))))"
    using f_mul_upto [OF step span] rep by simp
  have upto: "f_upto 9 (csv_rate 60 i)" using f_add_upto [OF low mul] rep by (simp add: csv_rate_def)
  from pos have "f_ok (f_of (2 / 10))" by (simp add: positive_def)
  then have "f_le (f_of (2 / 10)) (csv_rate 60 i)" using f_add_ge [OF l(1)] uptoD(1) [OF mul] by (simp add: csv_rate_def)
  moreover have "f_ok (csv_rate 60 i)" by (simp add: csv_rate_def)
  ultimately show ?thesis using uptoD(1,2) [OF upto] q by (auto simp: positive_def nonneg_cases f_le_def less_eq_prod_def)
qed

lemma recovery_csv:
  "list_all (\<lambda>(lr, plain, bp, cap). \<forall>t. plain = Some t \<longrightarrow> (\<exists>t'. bp = Some t' \<and> f_le t' t)) ob_recovery_csv"
proof -
  have "\<exists>t'. recovery_time_us recovery_default (csv_rate 60 i) True = Some t' \<and> f_le t' t"
    if i: "i < 60" "recovery_time_us recovery_default (csv_rate 60 i) False = Some t" for i t
  proof -
    have p: "positive (csv_rate 60 i)" by (rule csv_rate_positive [OF i(1)])
    then have "f_le (csv_rate 60 i) (csv_rate 60 i)" by (auto simp: positive_def)
    then show ?thesis using recovery_time_mono [OF recovery_default_sane p p _ _ i(2), of True] by blast
  qed
  then show ?thesis by (auto simp: ob_recovery_csv_def list_all_iff Let_def)
qed

section \<open>Latencies\<close>

lemma compare_sane: "sim_sane compare_params" "f_le (barrier_us compare_params) (f_of 12500)"
proof -
  have "compare_params = sim_default\<lparr>requests := 300000, offered_load := f_make False (4 / 10)\<rparr>"
    by (simp add: compare_params_def sim_default_def f_of_def)
  then show "sim_sane compare_params" using sim_sane_load [of "4 / 10" 300000 False] by simp
  show "f_le (barrier_us compare_params) (f_of 12500)" by (simp add: compare_params_def f_of_def make_numeral)
qed

text \<open>
  What \<open>ob_compare\<close> prints. It prints a row for each competitor; the row of OneBarrier has the latencies of
  COLO and of active replication, no competitor has a better figure, and none has a lower processor cost.
\<close>

theorem compare_readout:
  assumes "ln_ok lnf"
  shows "\<exists>rows. ob_compare lnf = Some rows \<and> map (c_name \<circ> fst) rows = [''OneBarrier'', ''Remus'', ''COLO'', ''LLFT'', ''HyCoR'', ''active-SMR(3)''] \<and>
    list_all (\<lambda>r. stats_le (snd (hd rows)) (snd r) \<and> f_le (c_cpu_mult (fst (hd rows))) (c_cpu_mult (fst r))) rows \<and>
    snd (rows ! 2) = snd (hd rows) \<and> snd (rows ! 5) = snd (hd rows)"
proof -
  let ?cs = "competitors compare_params" and ?sim = "\<lambda>c. simulate_explicit lnf compare_params (c_svc_us c) (c_fixed_us c)"
  note dom = competitor_dominated [OF assms compare_sane]
  have "map_option (Pair c) (?sim c) = Some (c, the (?sim c))" if "c \<in> set ?cs" for c using dom [OF that] by auto
  then have rows: "ob_compare lnf = Some (map (\<lambda>c. (c, the (?sim c))) ?cs)" unfolding ob_compare_def by (rule those_map_Some)
  have ne: "?cs \<noteq> []" by (simp add: competitors_def Let_def)
  have "stats_le (the (?sim (hd ?cs))) (the (?sim c)) \<and> f_le (c_cpu_mult (hd ?cs)) (c_cpu_mult c)" if "c \<in> set ?cs" for c
    using dom [OF that] by auto
  then have "list_all (\<lambda>c. stats_le (the (?sim (hd ?cs))) (the (?sim c)) \<and> f_le (c_cpu_mult (hd ?cs)) (c_cpu_mult c)) ?cs"
    by (simp add: list_all_iff)
  moreover have "map c_name ?cs = [''OneBarrier'', ''Remus'', ''COLO'', ''LLFT'', ''HyCoR'', ''active-SMR(3)'']"
    "?sim (?cs ! 2) = ?sim (hd ?cs)" "?sim (?cs ! 5) = ?sim (hd ?cs)" "length ?cs = 6"
    by (simp_all add: competitors_def Let_def)
  ultimately show ?thesis using ne by (intro exI [of _ "map (\<lambda>c. (c, the (?sim c))) ?cs"]) (simp add: rows hd_map list.pred_map o_def)
qed

theorem compare_readout_witness:
  "\<exists>rows. ob_compare (\<lambda>x. f_sub x (f_of 1)) = Some rows \<and> list_all (\<lambda>r. stats_le (snd (hd rows)) (snd r)) rows"
  using compare_readout [OF taylor_ln_ok] by (auto elim: list.pred_mono_strong)

text \<open>A row of the other simulation: overlapped durability has the figures of the baseline, synchronous durability no better ones.\<close>

definition row_ok :: "sim_row \<Rightarrow> bool" where
  "row_ok r \<longleftrightarrow> row_overlap r = (row_base r)\<lparr>la_mode := ''FtOverlap''\<rparr> \<and> stats_le (row_base r) (row_fsync r)"

lemma sim_row_ok:
  assumes "ln_ok lnf" "sim_sane p"
  shows "\<exists>r. sim_row_of lnf p = Some r \<and> row_ok r \<and> row_load r = offered_load p"
  using ft_overlap_free [OF assms] by (auto simp: sim_row_of_def row_ok_def)

lemma sim_base_sane:
  assumes "1 / 2 ^ 20 \<le> q" "q \<le> 1"
  shows "sim_sane (sim_base\<lparr>offered_load := f_make s q\<rparr>)" "sim_sane (sim_base\<lparr>requests := 120000, offered_load := f_make s q\<rparr>)"
proof -
  have "sim_base\<lparr>offered_load := x\<rparr> = sim_default\<lparr>requests := 300000, offered_load := x\<rparr>"
    "sim_base\<lparr>requests := 120000, offered_load := x\<rparr> = sim_default\<lparr>requests := 120000, offered_load := x\<rparr>" for x
    by (simp_all add: sim_base_def sim_default_def)
  then show "sim_sane (sim_base\<lparr>offered_load := f_make s q\<rparr>)" "sim_sane (sim_base\<lparr>requests := 120000, offered_load := f_make s q\<rparr>)"
    using sim_sane_load [OF assms] by simp_all
qed

lemma those_rows:
  assumes "\<And>x. x \<in> set xs \<Longrightarrow> \<exists>r. f x = Some r \<and> P x r"
  shows "\<exists>rs. those (map f xs) = Some rs \<and> list_all2 P xs rs"
  using assms by (induction xs) fastforce+

text \<open>
  The table of \<open>ob_sim\<close>: fault tolerance is free. Every row shows the baseline's figures for overlapped
  durability, and none that synchronous durability would improve.
\<close>

theorem sim_readout:
  assumes "ln_ok lnf"
  shows "\<exists>rows r. ob_sim lnf = Some (rows, r) \<and> map row_load rows = sim_loads \<and> list_all row_ok (r # rows)"
proof -
  let ?p = "\<lambda>load. sim_base\<lparr>offered_load := load\<rparr>"
  have "sim_sane (?p load)" if "load \<in> set sim_loads" for load
    using that sim_base_sane(1) [where s = False] by (auto simp: sim_loads_def f_of_def)
  then have "\<exists>r. sim_row_of lnf (?p load) = Some r \<and> row_ok r \<and> row_load r = load" if "load \<in> set sim_loads" for load
    using sim_row_ok [OF assms] that by fastforce
  note row = this
  obtain rows where rows: "those (map (\<lambda>load. sim_row_of lnf (?p load)) sim_loads) = Some rows"
      "list_all2 (\<lambda>load r. row_ok r \<and> row_load r = load) sim_loads rows"
    using those_rows [of sim_loads "\<lambda>load. sim_row_of lnf (?p load)" "\<lambda>load r. row_ok r \<and> row_load r = load"] row by blast
  have "map row_load rows = sim_loads" "list_all row_ok rows"
    using rows(2) by (auto simp: list_all2_conv_all_nth list_all_length intro: nth_equalityI)
  moreover obtain r where "sim_row_of lnf (?p (f_of (7 / 10))) = Some r" "row_ok r"
    using row [of "f_of (7 / 10)"] by (auto simp: sim_loads_def)
  ultimately show ?thesis using rows(1) by (simp add: ob_sim_def)
qed

theorem sim_readout_witness:
  "\<exists>rows r. ob_sim (\<lambda>x. f_sub x (f_of 1)) = Some (rows, r) \<and> list_all row_ok (r # rows)"
  using sim_readout [OF taylor_ln_ok] by blast

text \<open>
  The lines of its figure. The power function is only asked for powers of \<open>hi / lo\<close> with exponents up to
  one; what it returns then lies between 1 and 19500, as the powers do.
\<close>

definition powf_ok :: "(f64 \<Rightarrow> f64 \<Rightarrow> f64) \<Rightarrow> bool" where
  "powf_ok powf \<longleftrightarrow> (\<forall>e. f_upto 1 e \<longrightarrow>
     (\<exists>r. powf (f_div (f_of (97 / 100)) (f_of (5 / 100000))) e = Num r \<and> 1 \<le> r \<and> r \<le> 19500))"

lemma csv_load_range:
  assumes "powf_ok powf" "i < 48"
  shows "\<exists>q. csv_load powf 48 i = f_make False q \<and> 1 / 2 ^ 20 \<le> q \<and> q \<le> 1"
proof -
  have "(of_nat i / 47 :: rat) \<le> 1" using assms(2) by simp
  then have "f_upto (of_int 1) (f_make False (of_nat i / 47))" by (intro upto_int) simp_all
  moreover have i: "f_of (of_nat i) = Num (of_nat i)"
    using make_small [of "int i" False] assms(2) by (cases "i = 0") (simp_all add: f_of_def make_zero)
  ultimately have "f_upto 1 (f_div (f_of (of_nat i)) (f_of 47))" by (simp add: f_of_numeral f_div_def)
  then obtain r where r: "powf (f_div (f_of (97 / 100)) (f_of (5 / 100000))) (f_div (f_of (of_nat i)) (f_of 47)) = Num r" "1 \<le> r" "r \<le> 19500"
    using assms(1) by (auto simp: powf_ok_def)
  let ?lo = "rnd (5 / 100000)"
  have "representable (of_int 1 * 2 powi - 20)" "representable (of_int 53 * 2 powi - 20)" by (rule representable_form; simp)+
  then have "representable (1 / 2 ^ 20)" "representable (53 / 2 ^ 20)" by (simp_all add: power_int_minus)
  then have lo: "1 / 2 ^ 20 \<le> ?lo" "?lo \<le> 53 / 2 ^ 20"
    using rnd_ge [of "1 / 2 ^ 20" "5 / 100000"] rnd_le [of "5 / 100000" "53 / 2 ^ 20"] by simp_all
  have pos: "0 < ?lo" by (rule less_le_trans [OF _ lo(1)]) simp
  have "?lo < f_limit" by (rule le_less_trans [OF lo(2)], rule small_limit) simp
  then have "f_of (5 / 100000) = Num ?lo" using pos by (auto simp: f_of_def f_make_def Let_def)
  then have "csv_load powf 48 i = f_make False (?lo * r)" using r pos by (simp add: csv_load_def Let_def f_mul_def)
  moreover have "1 / 2 ^ 20 \<le> ?lo * r" using lo(1) r(2) pos by (rule_tac order_trans [OF lo(1)]) simp
  moreover have "?lo * r \<le> 53 / 2 ^ 20 * 19500" using lo(2) r(2,3) pos by (intro mult_mono) simp_all
  ultimately show ?thesis by (intro exI [of _ "?lo * r"]) simp
qed

theorem sim_csv_readout:
  assumes "ln_ok lnf" "powf_ok powf"
  shows "\<exists>rows. ob_sim_csv lnf powf = Some rows \<and> length rows = 48 \<and> list_all (\<lambda>r. row_ok (snd r)) rows"
proof -
  let ?p = "\<lambda>i. sim_base\<lparr>requests := 120000, offered_load := csv_load powf 48 i\<rparr>"
  let ?row = "\<lambda>i. map_option (Pair (f_mul (f_div (csv_load powf 48 i) (apply_us (?p i))) (f_of 1000000))) (sim_row_of lnf (?p i))"
  have "\<exists>x. ?row i = Some x \<and> row_ok (snd x)" if "i \<in> set [0..<48]" for i
  proof -
    have "i < 48" using that by simp
    then obtain q where q: "csv_load powf 48 i = f_make False q" "1 / 2 ^ 20 \<le> q" "q \<le> 1" using csv_load_range [OF assms(2)] by blast
    have "sim_sane (?p i)" unfolding q(1) by (rule sim_base_sane(2) [OF q(2,3)])
    from sim_row_ok [OF assms(1) this] show ?thesis by auto
  qed
  then obtain rows where rows: "those (map ?row [0..<48]) = Some rows" "list_all2 (\<lambda>_ x. row_ok (snd x)) [0..<48] rows"
    using those_rows [of "[0..<48]" ?row "\<lambda>_ x. row_ok (snd x)"] by blast
  have "length rows = 48" "list_all (\<lambda>r. row_ok (snd r)) rows"
    using rows(2) by (auto simp: list_all2_conv_all_nth list_all_length)
  moreover have "ob_sim_csv lnf powf = Some rows" using rows(1) by (simp only: ob_sim_csv_def Let_def)
  ultimately show ?thesis by blast
qed

theorem sim_csv_readout_witness:
  "\<exists>rows. ob_sim_csv (\<lambda>x. f_sub x (f_of 1)) (\<lambda>_ _. Num 1) = Some rows \<and> length rows = 48"
  using sim_csv_readout [OF taylor_ln_ok, of "\<lambda>_ _. Num 1"] by (auto simp: powf_ok_def)

section \<open>Snapshots and replicas\<close>

text \<open>
  What \<open>ob_sweep\<close> prints. In empty directories the counts of snapshots and of replayed records are
  exactly these: with the interval the snapshots become fewer and the records to replay more.
\<close>

theorem sweep_readout:
  "ob_sweep stamp (\<lambda>_. empty_dir) = Some
    [\<lparr>sr_interval = 64, sr_ops = 50000, sr_snapshots = 781, sr_replay_records = 16\<rparr>,
     \<lparr>sr_interval = 512, sr_ops = 50000, sr_snapshots = 97, sr_replay_records = 336\<rparr>,
     \<lparr>sr_interval = 4096, sr_ops = 50000, sr_snapshots = 12, sr_replay_records = 848\<rparr>,
     \<lparr>sr_interval = 100000, sr_ops = 50000, sr_snapshots = 0, sr_replay_records = 50000\<rparr>]"
  by (simp add: ob_sweep_def sweep_snapshot_interval_def sweep_one_counts max_def word_le_nat_alt)

text \<open>The read-out of \<open>ob_scale\<close>: at every size the replicas converge on the expected state.\<close>

lemma scale_rows_correct:
  assumes "distinct cids" "length cids = 2" "\<And>n. n \<in> set ns \<Longrightarrow> n \<noteq> 0"
    and "\<And>n i. n \<in> set ns \<Longrightarrow> i < n \<Longrightarrow> fabric_delivers cids 400 16 (map snd (decoded (concat (polls n i) @ drains n i)))"
    and "\<And>n i. n \<in> set ns \<Longrightarrow> i < n \<Longrightarrow> dirs n i = empty_dir"
  shows "\<exists>rows. scale_rows dirs polls drains ns = Inr rows \<and> map fst rows = ns \<and>
    list_all (\<lambda>(_, r). converged r \<and> correct r \<and> \<not> timed_out r) rows"
  using assms(3-)
proof (induction ns)
  case (Cons n ns)
  have "cids \<noteq> []" using assms(2) by auto
  then obtain r where "run_cluster n 2 400 16 128 (dirs n) (polls n) (drains n) = Inr r" "converged r" "correct r" "\<not> timed_out r"
    using run_cluster_correct [of n cids 16 400 "polls n" "drains n" "dirs n" 128] Cons.prems assms(1,2) by (auto simp: empty_dir_def)
  moreover obtain rows where "scale_rows dirs polls drains ns = Inr rows" "map fst rows = ns"
      "list_all (\<lambda>(_, r). converged r \<and> correct r \<and> \<not> timed_out r) rows"
    using Cons by auto
  ultimately show ?case by auto
qed simp

lemma scale_readout:
  assumes "distinct cids" "length cids = 2"
    and "\<And>n i. i < n \<Longrightarrow> fabric_delivers cids 400 16 (map snd (decoded (concat (polls n i) @ drains n i)))"
  shows "\<exists>rows. ob_scale (\<lambda>_ _. empty_dir) polls drains = Inr rows \<and> map fst rows = [3, 5, 7, 9] \<and>
    list_all (\<lambda>(_, r). converged r \<and> correct r \<and> \<not> timed_out r) rows"
  unfolding ob_scale_def by (rule scale_rows_correct [OF assms(1,2)]) (use assms(3) in auto)

end
