(* ===== verification/OB_Restart.thy ===== *)
theory OB_Restart
  imports OB_System
begin

text \<open>
  A server that is stopped and started again between connections. Each session starts the server on the
  files of the last one (\<open>start\<close>), accepts a connection, runs its handler to the end and stops the server
  (\<open>ServerHandle::stop\<close>). The sessions answer what a plain store that is never stopped answers.
\<close>

section \<open>Sessions\<close>

text \<open>A session: the process-wide tick at its start and the handler, given the connection's number.\<close>

fun sessions :: "(u64 \<Rightarrow> u64) \<Rightarrow> u64 \<Rightarrow> bool \<Rightarrow> (u64 \<times> (u32 \<Rightarrow> 'a prog)) list \<Rightarrow> directory \<Rightarrow> 'a list \<times> directory" where
  "sessions stamp interval fsync [] w = ([], w)"
| "sessions stamp interval fsync ((tick, p) # ps) w =
     (case server_accept (server_start w interval fsync tick) of (c, s) \<Rightarrow>
        case run_svc stamp (p c) (srv_service s) of (x, sv) \<Rightarrow>
          case sessions stamp interval fsync ps (files_of (s\<lparr>srv_service := sv\<rparr>)) of (xs, w) \<Rightarrow> (x # xs, w))"

text \<open>The same handlers, with connection numbers as given, one after the other on one plain store.\<close>

fun plain_sessions :: "u32 list \<Rightarrow> (u64 \<times> (u32 \<Rightarrow> 'a prog)) list \<Rightarrow> kv_store \<Rightarrow> 'a list \<times> kv_store" where
  "plain_sessions (c # cs) ((tick, p) # ps) m =
     (case run_pure (p c) m of (x, m) \<Rightarrow> case plain_sessions cs ps m of (xs, m) \<Rightarrow> (x # xs, m))"
| "plain_sessions _ _ m = ([], m)"

text \<open>The operations of all sessions.\<close>

fun session_ops :: "u32 list \<Rightarrow> (u64 \<times> (u32 \<Rightarrow> 'a prog)) list \<Rightarrow> kv_store \<Rightarrow> op list" where
  "session_ops (c # cs) ((tick, p) # ps) m = pure_ops (p c) m @ session_ops cs ps (snd (run_pure (p c) m))"
| "session_ops _ _ m = []"

text \<open>In all sessions the operations are numbered upwards, and each can be logged.\<close>

fun session_ok :: "u32 list \<Rightarrow> (u64 \<times> (u32 \<Rightarrow> 'a prog)) list \<Rightarrow> kv_store \<Rightarrow> bool" where
  "session_ok (c # cs) ((tick, p) # ps) m \<longleftrightarrow> upwards c 0 (pure_ops (p c) m) \<and> list_all op_logs (pure_ops (p c) m) \<and>
     session_ok cs ps (snd (run_pure (p c) m))"
| "session_ok _ _ m \<longleftrightarrow> True"

section \<open>One session\<close>

lemma session_engine:
  assumes "engine_inv tr (sv_engine sv)" "sv_alive sv" "quiet (e_dur (sv_engine sv))"
    and "hw_get (e_applied (sv_engine sv)) c \<le> s" "unat c \<le> accepts tr" "upwards c s (pure_ops p (svc_store sv))"
    and "list_all op_logs (pure_ops p (svc_store sv))"
    and "trace_bytes tr + log_bytes (map (Pair 0) (pure_ops p (svc_store sv))) + 4 < 2 ^ 32"
  shows "\<exists>tr' x sv'. run_svc stamp p sv = (x, sv') \<and> run_pure p (svc_store sv) = (x, svc_store sv') \<and>
    engine_inv tr' (sv_engine sv') \<and> quiet (e_dur (sv_engine sv')) \<and>
    accepts tr' = accepts tr \<and> trace_bytes tr' = trace_bytes tr + log_bytes (map (Pair 0) (pure_ops p (svc_store sv)))"
  using assms
proof (induction p arbitrary: tr sv s)
  case (Return x)
  then show ?case by (intro exI [of _ tr]) (simp add: run_svc_def)
next
  case (Length k)
  have "svc_len sv = Some (kv_len (svc_store sv))" using Length.prems(2) by (simp add: svc_len_def svc_store_def)
  then show ?case using Length.IH [OF rangeI Length.prems(1-5), of "Some (kv_len (svc_store sv))"] Length.prems(6-)
    by (simp add: run_svc_def)
next
  case (Reply b k)
  then show ?case using Reply.IH [OF rangeI Reply.prems(1-5), of None] by (simp add: run_svc_def)
next
  case (Apply op k)
  let ?m = "svc_store sv" and ?e = "sv_engine sv" and ?ts = "stamp (max (sv_clock sv + 1) (sv_tick sv))"
  let ?k = "k (Some (snd (kv_apply ?m op)))" and ?tr = "tr @ [Did op (Some (snd (kv_apply ?m op)))]"
  have op: "op_client op = c" "s < op_seq op" "op_logs op" using Apply.prems(6,7) by simp_all
  then have new: "\<not> op_seq op \<le> hw_get (e_applied ?e) (op_client op)" using Apply.prems(4) by (simp add: not_le)
  obtain sv1 where a: "svc_apply stamp op sv = (Some (snd (kv_apply ?m op)), sv1)" "sv_alive sv1" "quiet (e_dur (sv_engine sv1))"
      "core (sv_engine sv1) = core_step kv_sm (core ?e) (?ts, op)"
    using svc_apply_quiet [OF Apply.prems(2,3), of stamp op] new by auto
  have st: "svc_store sv1 = fst (kv_apply ?m op)" using a(4) new by (simp add: core_def svc_store_def)
  have bytes: "trace_bytes ?tr = trace_bytes tr + log_bytes [(0, op)]" by (simp add: trace_bytes_append) (simp add: trace_bytes_def)
  have total: "log_bytes (map (Pair 0) (pure_ops (Apply op k) ?m)) =
      log_bytes [(0, op)] + log_bytes (map (Pair 0) (pure_ops ?k (svc_store sv1)))"
    using st by (simp add: log_bytes_def)
  have "set_outcomes [] ?e = ?e" using Apply.prems(3) by (simp add: set_outcomes_def quiet_def)
  then obtain res where d: "deliver kv_sm ?ts op (set_outcomes [] ?e) = (res, sv_engine sv1)"
      "Some (snd (kv_apply ?m op)) = (case res of Inl _ \<Rightarrow> None | Inr out \<Rightarrow> Some out)"
    using a(1) Apply.prems(2) by (auto simp: svc_apply_def svc_execute_def Let_def split: prod.splits sum.splits)
  have "engine_inv ?tr (sv_engine sv1)"
    using deliver_job(2) [OF Apply.prems(1) d(1) op(3) new _ _ _ d(2)] d(2) op(1) Apply.prems(5,8) bytes total
    by (auto simp: whole_writes_def split: sum.splits)
  moreover have "hw_get (e_applied (sv_engine sv1)) c \<le> op_seq op"
  proof -
    have "bt_wf (e_applied ?e)" using Apply.prems(1) core_ofD(2) [of tr "core ?e"] by (simp add: engine_inv_def core_applied)
    moreover have "e_applied (sv_engine sv1) = bt_insert c (op_seq op) (e_applied ?e)" using a(4) new op(1) by (simp add: core_def)
    ultimately show ?thesis by (simp add: hw_get_insert)
  qed
  moreover have "unat c \<le> accepts ?tr" "upwards c (op_seq op) (pure_ops ?k (svc_store sv1))" "list_all op_logs (pure_ops ?k (svc_store sv1))"
    "trace_bytes ?tr + log_bytes (map (Pair 0) (pure_ops ?k (svc_store sv1))) + 4 < 2 ^ 32"
    using Apply.prems(5-8) bytes total st by simp_all
  ultimately obtain tr' x sv' where r: "run_svc stamp ?k sv1 = (x, sv')" "run_pure ?k (svc_store sv1) = (x, svc_store sv')"
      "engine_inv tr' (sv_engine sv')" "quiet (e_dur (sv_engine sv'))"
      "accepts tr' = accepts ?tr" "trace_bytes tr' = trace_bytes ?tr + log_bytes (map (Pair 0) (pure_ops ?k (svc_store sv1)))"
    using Apply.IH [OF rangeI, where tr = ?tr and sv = sv1 and s = "op_seq op"] a(2,3) by blast
  have "run_svc stamp (Apply op k) sv = (x, sv')" "run_pure (Apply op k) ?m = (x, svc_store sv')"
    using r(1,2) a(1) st by (simp_all add: run_svc_def case_prod_beta)
  moreover have "accepts tr' = accepts tr" "trace_bytes tr' = trace_bytes tr + log_bytes (map (Pair 0) (pure_ops (Apply op k) ?m))"
    using r(5,6) bytes total by simp_all
  ultimately show ?case using r(3,4) by blast
qed

section \<open>All sessions\<close>

lemma start_store: "svc_store (srv_service (server_start (w\<lparr>outcomes := []\<rparr>) interval fsync tick)) = fst (recovered kv_sm (as_dur w))"
proof -
  have same: "recovered kv_sm (as_dur (w\<lparr>outcomes := []\<rparr>)) = recovered kv_sm (as_dur w)"
    using recovered_files [of "as_dur (w\<lparr>outcomes := []\<rparr>)" "as_dur w" kv_sm] by (simp add: as_dur_def)
  show ?thesis
  proof (cases "f_snapshot w \<noteq> None \<or> f_oplog w \<noteq> None")
    case True
    obtain e where e: "engine_recover kv_sm (w\<lparr>outcomes := []\<rparr>) interval fsync = (Inr (), e)" using engine_recover_total by blast
    then have "core e = recovered kv_sm (as_dur w)" using engine_recover_core [OF e] same by simp
    then have "e_state e = fst (recovered kv_sm (as_dur w))" by (metis core_state)
    then show ?thesis using True e by (auto simp: server_start_def svc_start_def svc_store_def)
  next
    case False
    then have "recovered kv_sm (as_dur w) = init_core kv_sm"
      by (simp add: recovered_def dur_snap_def dur_records_def load_core_def file_bytes_def as_dur_def)
    then show ?thesis using False
      by (auto simp: server_start_def svc_start_def svc_store_def engine_create_def durable_open_def sys_defs new_engine_def init_core_def)
  qed
qed

lemma start_serving:
  "sv_alive (srv_service (server_start (w\<lparr>outcomes := []\<rparr>) interval fsync tick)) \<and>
   quiet (e_dur (sv_engine (srv_service (server_start (w\<lparr>outcomes := []\<rparr>) interval fsync tick))))"
  using start_quiet [of w interval fsync] by (auto simp: server_start_def svc_start_def split: if_splits)

lemma sessions_plain:
  assumes "disk_inv tr (as_dur w)" "outcomes w = []" "accepts tr + length ps + 1 < 2 ^ 32"
    and "\<And>cs. session_ok cs ps (fst (recovered kv_sm (as_dur w))) \<and>
      trace_bytes tr + log_bytes (map (Pair 0) (session_ops cs ps (fst (recovered kv_sm (as_dur w))))) + 4 < 2 ^ 32"
  shows "\<exists>cs w'. length cs = length ps \<and> sessions stamp interval fsync ps w = (fst (plain_sessions cs ps (fst (recovered kv_sm (as_dur w)))), w') \<and>
    fst (recovered kv_sm (as_dur w')) = snd (plain_sessions cs ps (fst (recovered kv_sm (as_dur w))))"
  using assms
proof (induction ps arbitrary: w tr)
  case Nil
  then show ?case by simp
next
  case (Cons tp ps)
  obtain tick p where tp: "tp = (tick, p)" by (cases tp)
  let ?m = "fst (recovered kv_sm (as_dur w))"
  define s0 where "s0 = server_start w interval fsync tick"
  define c where "c = srv_conn_id s0"
  let ?sv = "srv_service s0" and ?tr = "tr @ [Accepted c]"
  have w0: "w\<lparr>outcomes := []\<rparr> = w" using Cons.prems(2) by simp
  have s0: "sv_alive ?sv" "quiet (e_dur (sv_engine ?sv))" "svc_store ?sv = ?m"
    using start_serving [of w interval fsync tick] start_store [of w interval fsync tick] unfolding w0 s0_def by simp_all
  have "sys_inv tr (Running s0 (\<lambda>_. None))"
    using start_inv [OF Cons.prems(1), of "[]" interval fsync tick] Cons.prems(3) unfolding w0 s0_def by simp
  then have inv: "engine_inv tr (sv_engine ?sv)" "hw_get (e_applied (sv_engine ?sv)) c \<le> 0" "unat c \<le> accepts ?tr"
    using s0(1) by (simp_all add: conns_inv_def Let_def c_def)
  have inv': "engine_inv ?tr (sv_engine ?sv)" using inv(1) core_of_other by (auto simp: engine_inv_def)
  have ops: "upwards c 0 (pure_ops (p c) ?m) \<and> list_all op_logs (pure_ops (p c) ?m) \<and> session_ok cs ps (snd (run_pure (p c) ?m)) \<and>
      trace_bytes tr + (log_bytes (map (Pair 0) (pure_ops (p c) ?m)) + log_bytes (map (Pair 0) (session_ops cs ps (snd (run_pure (p c) ?m))))) + 4 < 2 ^ 32" for cs
    using Cons.prems(4) [of "c # cs"] by (simp add: tp)
  have tb: "trace_bytes ?tr = trace_bytes tr" "accepts ?tr = accepts tr + 1" by (simp_all add: trace_bytes_def)
  have pre: "upwards c 0 (pure_ops (p c) (svc_store ?sv))" "list_all op_logs (pure_ops (p c) (svc_store ?sv))"
      "trace_bytes ?tr + log_bytes (map (Pair 0) (pure_ops (p c) (svc_store ?sv))) + 4 < 2 ^ 32"
    using ops [of "[]"] s0(3) tb(1) by simp_all
  from session_engine [OF inv' s0(1,2) inv(2,3) pre]
  obtain tr' x sv where x: "run_svc stamp (p c) ?sv = (x, sv)" "run_pure (p c) ?m = (x, svc_store sv)"
      "engine_inv tr' (sv_engine sv)" "quiet (e_dur (sv_engine sv))"
      "accepts tr' = accepts tr + 1" "trace_bytes tr' = trace_bytes tr + log_bytes (map (Pair 0) (pure_ops (p c) ?m))"
    unfolding s0(3) tb by blast
  define w1 where "w1 = d_dir (e_dur (sv_engine sv))"
  have "disk_inv tr' (as_dur w1)"
    using disk_inv_files [of "as_dur w1" "e_dur (sv_engine sv)"] engine_inv_disk [OF x(3)] by (simp add: as_dur_def w1_def)
  moreover have "outcomes w1 = []" using x(4) by (simp add: quiet_def w1_def)
  moreover have m1: "fst (recovered kv_sm (as_dur w1)) = svc_store sv"
  proof -
    have "recovered kv_sm (as_dur w1) = recovered kv_sm (e_dur (sv_engine sv))"
      using recovered_files [of "as_dur w1" "e_dur (sv_engine sv)" kv_sm] by (simp add: as_dur_def w1_def)
    then show ?thesis using x(3) by (simp add: engine_inv_def core_state svc_store_def)
  qed
  moreover have "session_ok cs ps (svc_store sv) \<and>
      trace_bytes tr' + log_bytes (map (Pair 0) (session_ops cs ps (svc_store sv))) + 4 < 2 ^ 32" for cs
    using ops [of cs] x(2,6) by (simp add: add.assoc)
  ultimately obtain cs w' where "length cs = length ps" "sessions stamp interval fsync ps w1 = (fst (plain_sessions cs ps (svc_store sv)), w')"
      "fst (recovered kv_sm (as_dur w')) = snd (plain_sessions cs ps (svc_store sv))"
    using Cons.IH [of tr' w1] Cons.prems(3) x(5) by auto
  then show ?case using x(1,2)
    by (intro exI [of _ "c # cs"] exI [of _ w'])
      (simp add: tp s0_def [symmetric] c_def [symmetric] server_accept_def files_of_def w1_def [symmetric] split: prod.splits)
qed

lemma sessions_from_empty:
  assumes "length ps + 1 < 2 ^ 32"
    and "\<And>cs. session_ok cs ps [] \<and> log_bytes (map (Pair 0) (session_ops cs ps [])) + 4 < 2 ^ 32"
  shows "\<exists>cs w. length cs = length ps \<and> sessions stamp interval fsync ps empty_dir = (fst (plain_sessions cs ps []), w) \<and>
    fst (recovered kv_sm (as_dur w)) = snd (plain_sessions cs ps [])"
proof -
  have m: "fst (recovered kv_sm (as_dur empty_dir)) = []"
    by (simp add: recovered_def dur_snap_def dur_records_def load_core_def file_bytes_def as_dur_def empty_dir_def init_core_def kv_sm_def)
  have q: "outcomes empty_dir = []" by (simp add: empty_dir_def)
  have "\<exists>cs w'. length cs = length ps \<and>
      sessions stamp interval fsync ps empty_dir = (fst (plain_sessions cs ps (fst (recovered kv_sm (as_dur empty_dir)))), w') \<and>
      fst (recovered kv_sm (as_dur w')) = snd (plain_sessions cs ps (fst (recovered kv_sm (as_dur empty_dir))))"
    by (rule sessions_plain [OF disk_inv_empty]) (use assms q in \<open>simp_all add: m trace_bytes_def\<close>)
  then show ?thesis unfolding m .
qed

text \<open>
  C7: restarts are transparent. Sessions of a server that is started, serves a connection and is stopped,
  again and again on the same files, answer what the same connections get one after the other from a
  plain store that is never stopped, and the files hold that store at the end. The handlers number
  their operations upwards, and less than 4 GiB is logged in all.
\<close>

theorem restarts_transparent:
  assumes "length ps + 1 < 2 ^ 32"
    and "\<And>cs. session_ok cs ps [] \<and> log_bytes (map (Pair 0) (session_ops cs ps [])) + 4 < 2 ^ 32"
  shows "\<exists>cs w. length cs = length ps \<and> sessions stamp interval fsync ps empty_dir = (fst (plain_sessions cs ps []), w) \<and>
    fst (recovered kv_sm (as_dur w)) = snd (plain_sessions cs ps [])"
  by (rule sessions_from_empty [OF assms])

text \<open>Two sessions that each increment the same key.\<close>

definition example_session :: "u32 \<Rightarrow> op_output option prog" where
  "example_session c = Apply (op_incr c 1 (ascii ''k'') 5) Return"

theorem restarts_transparent_witness:
  "\<exists>w. sessions (\<lambda>n. n) 100 True [(1, example_session), (2, example_session)] empty_dir =
    ([Some (Value (Some 5)), Some (Value (Some 10))], w)"
proof -
  let ?ps = "[(1 :: u64, example_session), (2, example_session)]"
  have logs: "op_logs (op_incr c 1 (ascii ''k'') 5)" "length (encode (op_incr c 1 (ascii ''k'') 5)) \<le> 100" for c
    by (simp_all add: op_incr_def op_logs_def wf_op_def key_ok_def encode_def enc_key_def utf8_valid_ascii_byte)
  have ok: "session_ok cs ?ps [] \<and> log_bytes (map (Pair 0) (session_ops cs ?ps [])) + 4 < 2 ^ 32" for cs
  proof -
    consider "cs = []" | c where "cs = [c]" | c c' cs' where "cs = c # c' # cs'" by (metis list.exhaust)
    then show ?thesis using logs
      by cases (auto simp: example_session_def log_bytes_def length_log_record, simp_all add: op_incr_def encode_def enc_key_def)
  qed
  have "plain_sessions [c, c'] ?ps [] = ([Some (Value (Some 5)), Some (Value (Some 10))], [([107], [49, 48])])" for c c'
    unfolding example_session_def by code_simp
  moreover obtain cs w where "length cs = length ?ps" "sessions (\<lambda>n. n) 100 True ?ps empty_dir = (fst (plain_sessions cs ?ps []), w)"
    using restarts_transparent [OF _ ok, of "\<lambda>n. n" 100 True] by auto
  ultimately show ?thesis by (auto simp: length_Suc_conv)
qed

end
