(* ===== verification/OB_Tests.thy ===== *)
theory OB_Tests
  imports OB_Restart OB_Server OB_Memcache OB_Http OB_Txn OB_Streamlog
begin

text \<open>
  The repository's tests of its servers, run on the model. Each test starts a server on an empty
  directory, sends requests over a connection and compares the answers, stops the server, starts it again
  on the same directory and asks for what was stored. Requests and answers are listed in pairs; a client
  reads an answer before it sends the next request, so the answers of a connection come one after the
  other. Since restarts are transparent, a test is evaluated on the plain store.
\<close>

section \<open>Two sessions\<close>

text \<open>A test: what is sent and answered before the restart and after it.\<close>

type_synonym dialogue = "(bytes \<times> bytes) list"

definition requests_of :: "dialogue \<Rightarrow> item list" where
  "requests_of d = wire (concat (map fst d))"

definition replies_of :: "dialogue \<Rightarrow> conn_end \<times> bytes" where
  "replies_of d = (Closed, concat (map snd d))"

text \<open>The test passes with the answers given, whatever the clock does; \<open>serve\<close> is the handler for a connection's number and input.\<close>

definition server_test :: "(u64 \<Rightarrow> u64) \<Rightarrow> u64 \<Rightarrow> u64 \<Rightarrow> (u32 \<Rightarrow> item list \<Rightarrow> (conn_end \<times> bytes) prog) \<Rightarrow> dialogue \<times> dialogue \<Rightarrow> bool" where
  "server_test stamp tick1 tick2 serve t \<longleftrightarrow>
     fst (sessions stamp 1000 False [(tick1, \<lambda>c. serve c (requests_of (fst t))), (tick2, \<lambda>c. serve c (requests_of (snd t)))] empty_dir) =
       [replies_of (fst t), replies_of (snd t)]"

text \<open>Running a handler on the plain store with the operations recorded.\<close>

definition run_logged :: "'a prog \<Rightarrow> kv_store \<times> op list \<Rightarrow> 'a \<times> kv_store \<times> op list" where
  "run_logged = run_prog (\<lambda>op (m, l). case kv_apply m op of (m, out) \<Rightarrow> (Some out, m, l @ [op])) (\<lambda>(m, l). Some (kv_len m))"

lemma run_logged_eq: "run_logged p (m, l) = (fst (run_pure p m), snd (run_pure p m), l @ pure_ops p m)"
  by (induction p arbitrary: m l) (auto simp: run_logged_def split: prod.splits)

text \<open>An operation that is small in the log.\<close>

definition small_op :: "op \<Rightarrow> bool" where
  "small_op op \<longleftrightarrow> wf_op op \<and> length (encode op) \<le> 1000"

lemma small_ops: "list_all small_op ops \<Longrightarrow> list_all op_logs ops \<and> log_bytes (map (Pair 0) ops) \<le> 1012 * length ops"
proof (induction ops)
  case (Cons op ops)
  then have "length (encode op) \<le> 1000" "op_logs op" by (simp_all add: small_op_def op_logs_def)
  then show ?case using Cons by (simp add: log_bytes_def length_log_record)
qed (simp add: log_bytes_def)

text \<open>
  A session on the plain store, with all that the durable one needs, and the test there: evaluated for
  any connection numbers.
\<close>

definition plain_session :: "u32 \<Rightarrow> (u32 \<Rightarrow> item list \<Rightarrow> (conn_end \<times> bytes) prog) \<Rightarrow> dialogue \<Rightarrow> kv_store \<Rightarrow> kv_store option" where
  "plain_session c serve d m =
     (case run_logged (serve c (requests_of d)) (m, []) of (x, m', ops) \<Rightarrow>
        if x = replies_of d \<and> upwards c 0 ops \<and> list_all small_op ops \<and> int (length ops) \<le> 1000000 then Some m' else None)"

definition plain_test :: "u32 \<Rightarrow> u32 \<Rightarrow> (u32 \<Rightarrow> item list \<Rightarrow> (conn_end \<times> bytes) prog) \<Rightarrow> dialogue \<times> dialogue \<Rightarrow> bool" where
  "plain_test c c' serve t \<longleftrightarrow>
     (case plain_session c serve (fst t) [] of None \<Rightarrow> False
      | Some m \<Rightarrow> (case plain_session c' serve (snd t) m of None \<Rightarrow> False | Some _ \<Rightarrow> True))"

lemma plain_sessionD:
  assumes "plain_session c serve d m = Some m'"
  shows "run_pure (serve c (requests_of d)) m = (replies_of d, m')" "upwards c 0 (pure_ops (serve c (requests_of d)) m)"
    "list_all op_logs (pure_ops (serve c (requests_of d)) m)" "log_bytes (map (Pair 0) (pure_ops (serve c (requests_of d)) m)) \<le> 1012000000"
  using assms small_ops [of "pure_ops (serve c (requests_of d)) m"]
  by (auto simp: plain_session_def run_logged_eq prod_eq_iff split: if_splits)

lemma server_test_passes:
  assumes "\<And>c c'. plain_test c c' serve t"
  shows "server_test stamp tick1 tick2 serve t"
proof -
  let ?ps = "[(tick1, \<lambda>c. serve c (requests_of (fst t))), (tick2, \<lambda>c. serve c (requests_of (snd t)))]"
  have pl: "\<exists>m m'. plain_session c serve (fst t) [] = Some m \<and> plain_session c' serve (snd t) m = Some m'" for c c'
    using assms [of c c'] by (auto simp: plain_test_def split: option.splits)
  have "session_ok cs ?ps [] \<and> log_bytes (map (Pair 0) (session_ops cs ?ps [])) + 4 < 2 ^ 32" for cs
  proof -
    consider "cs = []" | c where "cs = [c]" | c c' cs' where "cs = c # c' # cs'" by (metis list.exhaust)
    then show ?thesis
    proof cases
      case (2 c)
      then obtain m where m: "plain_session c serve (fst t) [] = Some m" using pl by blast
      show ?thesis using 2 plain_sessionD [OF m] by simp
    next
      case (3 c c' cs')
      then obtain m m' where m: "plain_session c serve (fst t) [] = Some m" "plain_session c' serve (snd t) m = Some m'" using pl by blast
      show ?thesis using 3 plain_sessionD [OF m(1)] plain_sessionD [OF m(2)] by simp
    qed (simp add: log_bytes_def)
  qed
  then obtain cs w where cs: "length cs = length ?ps" "sessions stamp 1000 False ?ps empty_dir = (fst (plain_sessions cs ?ps []), w)"
    using sessions_from_empty [of ?ps stamp 1000 False] by auto
  then obtain c c' where c: "cs = [c, c']" by (auto simp: length_Suc_conv)
  obtain m m' where m: "plain_session c serve (fst t) [] = Some m" "plain_session c' serve (snd t) m = Some m'" using pl by blast
  show ?thesis using cs(2) c plain_sessionD(1) [OF m(1)] plain_sessionD(1) [OF m(2)] by (simp add: server_test_def)
qed

text \<open>Length limits compared as integers.\<close>

lemma limits_code [code]:
  "key_ok k \<longleftrightarrow> utf8_valid k \<and> int (length k) < 65536" "val_ok v \<longleftrightarrow> int (length v) < 4294967296"
  "small_op op \<longleftrightarrow> wf_op op \<and> int (length (encode op)) \<le> 1000"
  "wf_op op \<longleftrightarrow> (case op_kind op of Set k v \<Rightarrow> key_ok k \<and> val_ok v | Incr k d \<Rightarrow> key_ok k | Get k \<Rightarrow> key_ok k
     | Del k \<Rightarrow> key_ok k | Txn ws \<Rightarrow> int (length ws) < 65536 \<and> list_all write_ok ws)"
  by (auto simp: key_ok_def val_ok_def small_op_def wf_op_def split: op_kind.splits)

text \<open>The size of a data block with its line end, as an integer.\<close>

lemma mc_data_code [code]:
  "mc_data b = (let nbytes = mc_parse_usize b; size = nat ((int nbytes + 2) mod 18446744073709551616) in
     rd_then (alloc size) (\<lambda>_. rd_then (read_exact size) (\<lambda>data. rd_return (take nbytes data))))"
  by (simp add: mc_data_def Let_def nat_mod_distrib nat_add_distrib)

section \<open>The tests\<close>

definition text_line :: "string \<Rightarrow> bytes" where
  "text_line s = ascii s @ crlf"

definition resp_test :: "dialogue \<times> dialogue" where
  "resp_test =
     ([(resp_cmd [ascii ''PING''], text_line ''+PONG''),
       (resp_cmd [ascii ''SET'', ascii ''foo'', ascii ''bar''], text_line ''+OK''),
       (resp_cmd [ascii ''GET'', ascii ''foo''], text_line ''$3'' @ text_line ''bar''),
       (resp_cmd [ascii ''INCR'', ascii ''ctr''], text_line '':1''),
       (resp_cmd [ascii ''INCRBY'', ascii ''ctr'', ascii ''41''], text_line '':42''),
       (resp_cmd [ascii ''GET'', ascii ''missing''], text_line ''$-1''),
       (resp_cmd [ascii ''DEL'', ascii ''foo''], text_line '':1'')],
      [(resp_cmd [ascii ''GET'', ascii ''foo''], text_line ''$-1''),
       (resp_cmd [ascii ''GET'', ascii ''ctr''], text_line ''$2'' @ text_line ''42'')])"

definition mc_test :: "dialogue \<times> dialogue" where
  "mc_test =
     ([(text_line ''set foo 0 0 3'' @ text_line ''bar'', text_line ''STORED''),
       (text_line ''get foo'', text_line ''VALUE foo 0 3'' @ text_line ''bar'' @ text_line ''END''),
       (text_line ''get missing'', text_line ''END''),
       (text_line ''set n 0 0 1'' @ text_line ''5'', text_line ''STORED''),
       (text_line ''incr n 10'', text_line ''15''),
       (text_line ''delete foo'', text_line ''DELETED''),
       (text_line ''delete foo'', text_line ''NOT_FOUND'')],
      [(text_line ''get foo'', text_line ''END''),
       (text_line ''get n'', text_line ''VALUE n 0 2'' @ text_line ''15'' @ text_line ''END'')])"

definition txn_test :: "dialogue \<times> dialogue" where
  "txn_test =
     ([(text_line ''BEGIN'', text_line ''BEGIN''),
       (text_line ''SET acct_a 100'', text_line ''QUEUED''),
       (text_line ''SET acct_b 0'', text_line ''QUEUED''),
       (text_line ''GET acct_a'', text_line ''NIL''),
       (text_line ''COMMIT'', text_line ''COMMIT 2''),
       (text_line ''GET acct_a'', text_line ''VALUE 3'' @ text_line ''100''),
       (text_line ''BEGIN'', text_line ''BEGIN''),
       (text_line ''SET acct_a 999'', text_line ''QUEUED''),
       (text_line ''ABORT'', text_line ''ABORT''),
       (text_line ''GET acct_a'', text_line ''VALUE 3'' @ text_line ''100'')],
      [(text_line ''GET acct_a'', text_line ''VALUE 3'' @ text_line ''100''),
       (text_line ''GET acct_b'', text_line ''VALUE 1'' @ text_line ''0'')])"

text \<open>The tests of the last two protocols look for parts of an answer; here are the answers that hold them.\<close>

definition sl_test :: "dialogue \<times> dialogue" where
  "sl_test =
     ([(text_line ''PUB events alpha'', text_line ''OFFSET 1''),
       (text_line ''PUB events beta'', text_line ''OFFSET 2''),
       (text_line ''PUB events gamma'', text_line ''OFFSET 3''),
       (text_line ''LEN events'', text_line ''LEN 3''),
       (text_line ''SUB events 1'', text_line ''MSG 1 5'' @ text_line ''alpha'' @ text_line ''MSG 2 4'' @ text_line ''beta''
          @ text_line ''MSG 3 5'' @ text_line ''gamma'' @ text_line ''END'')],
      [(text_line ''LEN events'', text_line ''LEN 3''),
       (text_line ''SUB events 2'', text_line ''MSG 2 4'' @ text_line ''beta'' @ text_line ''MSG 3 5'' @ text_line ''gamma'' @ text_line ''END'')])"

definition http_reply :: "string \<Rightarrow> string \<Rightarrow> string \<Rightarrow> bytes" where
  "http_reply status len body = text_line (''HTTP/1.1 '' @ status) @ text_line (''Content-Length: '' @ len)
     @ text_line ''Content-Type: application/octet-stream'' @ text_line ''Connection: keep-alive'' @ crlf @ ascii body"

definition http_test :: "dialogue \<times> dialogue" where
  "http_test =
     ([(text_line ''PUT /greeting HTTP/1.1'' @ text_line ''Content-Length: 5'' @ crlf @ ascii ''hello'', http_reply ''200 OK'' ''2'' ''OK''),
       (text_line ''GET /greeting HTTP/1.1'' @ crlf, http_reply ''200 OK'' ''5'' ''hello''),
       (text_line ''POST /incr/views HTTP/1.1'' @ crlf, http_reply ''200 OK'' ''1'' ''1''),
       (text_line ''POST /incr/views HTTP/1.1'' @ crlf, http_reply ''200 OK'' ''1'' ''2''),
       (text_line ''GET /missing HTTP/1.1'' @ crlf, http_reply ''404 Not Found'' ''9'' ''not found'')],
      [(text_line ''GET /greeting HTTP/1.1'' @ crlf, http_reply ''200 OK'' ''5'' ''hello''),
       (text_line ''GET /views HTTP/1.1'' @ crlf, http_reply ''200 OK'' ''1'' ''2'')])"

lemma resp_test_plain: "plain_test c c' (\<lambda>c. resp_serve c 0) resp_test"
  by code_simp

lemma mc_test_plain: "plain_test c c' (\<lambda>c. mc_serve c 0) mc_test"
  by code_simp

lemma txn_test_plain: "plain_test c c' (\<lambda>c. txn_serve c txn_init) txn_test"
  by code_simp

lemma sl_test_plain: "plain_test c c' (\<lambda>c. sl_serve c 0) sl_test"
  by code_simp

lemma http_test_plain: "plain_test c c' (\<lambda>c. http_serve c 0) http_test"
  by code_simp

text \<open>
  The servers pass the repository's tests, each in an empty directory, whatever the timestamps: what
  was stored before the server was stopped is answered after it has been started again.
\<close>

theorem server_tests_pass:
  "server_test stamp tick1 tick2 (\<lambda>c. resp_serve c 0) resp_test \<and> server_test stamp tick1 tick2 (\<lambda>c. mc_serve c 0) mc_test \<and>
   server_test stamp tick1 tick2 (\<lambda>c. txn_serve c txn_init) txn_test \<and> server_test stamp tick1 tick2 (\<lambda>c. sl_serve c 0) sl_test \<and>
   server_test stamp tick1 tick2 (\<lambda>c. http_serve c 0) http_test"
  using server_test_passes [OF resp_test_plain]
    server_test_passes [OF mc_test_plain]
    server_test_passes [OF txn_test_plain]
    server_test_passes [OF sl_test_plain]
    server_test_passes [OF http_test_plain] by blast

end
