(* ===== verification/OB_Unit.thy ===== *)
theory OB_Unit
  imports OB_Main OB_Crashrun OB_Lin OB_Resp OB_Tables OB_Baselines
begin

text \<open>
  The repository's tests of its modules, on the model: of the engine (\<open>lib.rs\<close>), the RESP codec, the
  checker, the recovery-cost model, the cluster and the benchmarks. A test is a predicate whose conjuncts
  are its assertions, in their order; \<open>unwrap\<close> of an error makes it false.
\<close>

section \<open>The engine\<close>

definition ok_with :: "(io_error + 'a) \<times> 's \<Rightarrow> ('a \<Rightarrow> 's \<Rightarrow> bool) \<Rightarrow> bool" where
  "ok_with r f \<longleftrightarrow> (case r of (Inl _, _) \<Rightarrow> False | (Inr x, s) \<Rightarrow> f x s)"

definition files_left :: "kv_store engine \<Rightarrow> directory" where
  "files_left e = d_dir (e_dur e)"

definition recover_ops :: "op list" where
  "recover_ops = [op_set 1 1 (ascii ''a'') 10, op_incr 1 2 (ascii ''a'') 5, op_set 2 1 (ascii ''b'') 100,
     op_incr 2 2 (ascii ''b'') (- 1), op_incr 1 3 (ascii ''a'') 1]"

definition test_recovery :: "(u64 \<times> op) list \<Rightarrow> bool" where
  "test_recovery feed \<longleftrightarrow>
     ok_with (engine_create kv_sm empty_dir 2 False) (\<lambda>_ e.
     ok_with (deliver_all feed e) (\<lambda>_ e. 1 \<le> st_snapshots (e_stats e) \<and>
     ok_with (engine_recover kv_sm (files_left e) 2 False) (\<lambda>_ e.
       e_state e = reference_apply kv_sm recover_ops \<and>
       kv_get_int (e_state e) (ascii ''a'') = Some 16 \<and> kv_get_int (e_state e) (ascii ''b'') = Some 99)))"

definition transfer_ops :: "op list" where
  "transfer_ops = map (\<lambda>i. op_incr 1 (word_of_nat (i + 1)) (ascii ''k'' @ show_usize (i mod 4)) 1) [0..<20]"

definition test_transfer :: "(u64 \<times> op) list \<Rightarrow> bool" where
  "test_transfer feed \<longleftrightarrow>
     ok_with (engine_create kv_sm empty_dir 8 False) (\<lambda>_ a.
     ok_with (deliver_all feed a) (\<lambda>_ a.
     ok_with (engine_create kv_sm empty_dir 8 False) (\<lambda>_ b.
     ok_with (deliver_all (take 12 feed) b) (\<lambda>_ b.
     ok_with (engine_recover kv_sm (files_left b) 8 False) (\<lambda>_ b.
       e_state b = reference_apply kv_sm (take 12 transfer_ops) \<and>
     ok_with (import_state kv_sm (export_state kv_sm a) b) (\<lambda>_ b.
       e_state b = e_state a \<and> e_state b = reference_apply kv_sm transfer_ops \<and>
     ok_with (engine_recover kv_sm (files_left b) 8 False) (\<lambda>_ b2. e_state b2 = e_state a)))))))"

definition test_incr :: "(u64 \<Rightarrow> u64) \<Rightarrow> bool" where
  "test_incr stamp \<longleftrightarrow> (let op = op_incr 1 1 (ascii ''x'') 5 in
     ok_with (engine_create kv_sm empty_dir 100 False) (\<lambda>_ e.
     ok_with (deliver kv_sm (stamp 10) op e) (\<lambda>out e. out = Value (Some 5) \<and>
     ok_with (engine_recover kv_sm (files_left e) 100 False) (\<lambda>_ e. kv_get_int (e_state e) (ascii ''x'') = Some 5 \<and>
     ok_with (deliver kv_sm (stamp 10) op e) (\<lambda>out e. out = Suppressed \<and>
       kv_get_int (e_state e) (ascii ''x'') = Some 5 \<and> st_suppressed (e_stats e) = 1)))))"

definition test_set :: "(u64 \<Rightarrow> u64) \<Rightarrow> bool" where
  "test_set stamp \<longleftrightarrow> (let op = op_set 7 1 (ascii ''k'') 42 in
     ok_with (engine_create kv_sm empty_dir 100 False) (\<lambda>_ e.
     ok_with (deliver kv_sm (stamp 10) op e) (\<lambda>out e. out = Ok \<and>
     ok_with (deliver kv_sm (stamp 20) op e) (\<lambda>out e. out = Suppressed \<and> kv_get_int (e_state e) (ascii ''k'') = Some 42))))"

definition test_roundtrip :: bool where
  "test_roundtrip \<longleftrightarrow> list_all (\<lambda>op. decode (encode op) = Some op)
     [op_set 3 9 (ascii ''hello'') (- 17), op_incr 0 1 [] (word_of_int (- 9223372036854775808)),
      op_get 4294967295 18446744073709551615 (ascii ''a key with spaces'')]"

definition window_ops :: "op list" where
  "window_ops = [op_incr 1 1 (ascii ''n'') 1, op_incr 1 2 (ascii ''n'') 1, op_incr 1 3 (ascii ''n'') 1]"

text \<open>The records are appended again behind the snapshot's back, as a crash before the log is cleared leaves them.\<close>

definition test_window :: "(u64 \<times> op) list \<Rightarrow> bool" where
  "test_window feed \<longleftrightarrow>
     ok_with (engine_create kv_sm empty_dir 100 False) (\<lambda>_ e.
     ok_with (deliver_all feed e) (\<lambda>_ e.
     ok_with (engine_snapshot kv_sm e) (\<lambda>_ e.
     ok_with (append_all feed (e_dur e)) (\<lambda>_ d.
     ok_with (engine_recover kv_sm (d_dir d) 100 False) (\<lambda>_ e. kv_get_int (e_state e) (ascii ''n'') = Some 3)))))"

text \<open>All of them; \<open>ts\<close> of the tests is the conversion \<open>stamp\<close>.\<close>

definition engine_tests :: "(u64 \<Rightarrow> u64) \<Rightarrow> bool" where
  "engine_tests stamp \<longleftrightarrow> test_recovery (demo_feed stamp recover_ops) \<and> test_incr stamp \<and> test_set stamp \<and> test_roundtrip \<and>
     test_transfer (demo_feed stamp transfer_ops) \<and> test_window (demo_feed stamp window_ops)"

lemma engine_tests_plain:
  "test_recovery (demo_feed (\<lambda>n. n) recover_ops)" "test_incr (\<lambda>n. n)" "test_set (\<lambda>n. n)" "test_roundtrip"
  "test_window (demo_feed (\<lambda>n. n) window_ops)"
  by code_simp+

lemma transfer_test_plain: "test_transfer (demo_feed (\<lambda>n. n) transfer_ops)"
  by code_simp

text \<open>Times below a microsecond are nanoseconds that the conversion keeps.\<close>

lemma demo_feed_cong:
  assumes "\<And>n. n \<le> 1000 \<Longrightarrow> stamp n = n" "length ops \<le> 100"
  shows "demo_feed stamp ops = demo_feed (\<lambda>n. n) ops"
proof -
  have "(word_of_nat (i + 1) * 10 :: u64) \<le> 1000" if "i < length ops" for i
  proof -
    define k where "k = (i + 1) * 10"
    have k: "k \<le> 1000" using that assms(2) by (simp add: k_def)
    have eq: "word_of_nat (i + 1) * 10 = (word_of_nat k :: u64)" by (simp add: k_def)
    have "unat (word_of_nat k :: u64) = k" using k by (simp add: unat_of_nat)
    then show ?thesis using k unfolding eq by (simp add: word_le_nat_alt)
  qed
  then show ?thesis using assms(1) unfolding demo_feed_def by (intro map_cong) auto
qed

theorem engine_tests_pass:
  assumes "\<And>n. n \<le> 1000 \<Longrightarrow> stamp n = n"
  shows "engine_tests stamp"
proof -
  note feed = demo_feed_cong [of stamp, OF assms]
  have "length recover_ops \<le> 100" "length transfer_ops \<le> 100" "length window_ops \<le> 100"
    by (simp_all add: recover_ops_def transfer_ops_def window_ops_def)
  then have "test_recovery (demo_feed stamp recover_ops)" "test_transfer (demo_feed stamp transfer_ops)" "test_window (demo_feed stamp window_ops)"
    using feed engine_tests_plain(1,5) transfer_test_plain by simp_all
  moreover have "stamp 10 = 10" "stamp 20 = 20" using assms by simp_all
  then have "test_incr stamp" "test_set stamp" using engine_tests_plain(2,3) by (simp_all add: test_incr_def test_set_def)
  ultimately show ?thesis using engine_tests_plain(4) by (simp add: engine_tests_def)
qed

theorem engine_tests_pass_witness: "engine_tests (\<lambda>n. n)"
  by (rule engine_tests_pass) simp

section \<open>The RESP codec\<close>

definition codec_tests :: bool where
  "codec_tests \<longleftrightarrow>
     fst (read_command (wire (ascii ''*3'' @ crlf @ ascii ''$3'' @ crlf @ ascii ''SET'' @ crlf @ ascii ''$3'' @ crlf @ ascii ''foo'' @ crlf
       @ ascii ''$3'' @ crlf @ ascii ''bar'' @ crlf))) = Inr (Some [ascii ''SET'', ascii ''foo'', ascii ''bar'']) \<and>
     (case fst (read_command (wire (ascii ''*3'' @ crlf @ ascii ''$3'' @ crlf @ ascii ''SET'' @ crlf @ ascii ''$1'' @ crlf @ ascii ''k'' @ crlf
       @ ascii ''$4'' @ crlf @ [0] @ crlf @ [255] @ crlf))) of Inr (Some cmd) \<Rightarrow> cmd ! 2 = [0, 13, 10, 255] | _ \<Rightarrow> False) \<and>
     fst (read_command (wire (ascii ''PING'' @ crlf))) = Inr (Some [ascii ''PING'']) \<and>
     fst (read_command []) = Inr None \<and>
     to_bytes reply_ok = ascii ''+OK'' @ crlf \<and> to_bytes (IntR 42) = ascii '':42'' @ crlf \<and> to_bytes (Bulk None) = ascii ''$-1'' @ crlf \<and>
     to_bytes (Bulk (Some (ascii ''hi''))) = ascii ''$2'' @ crlf @ ascii ''hi'' @ crlf \<and> to_bytes (Array []) = ascii ''*0'' @ crlf"

lemma codec_tests_pass: "codec_tests"
  by code_simp

section \<open>The checker\<close>

definition lop :: "u32 \<Rightarrow> action \<Rightarrow> u64 \<Rightarrow> u64 \<Rightarrow> lin_op" where
  "lop p a i r = \<lparr>l_proc_id = p, l_action = a, l_inv = i, l_res = r\<rparr>"

definition checker_tests :: bool where
  "checker_tests \<longleftrightarrow>
     is_linearizable [lop 1 (Write 1) 0 2, lop 2 (Read 1) 3 4] 0 \<and>
     \<not> is_linearizable [lop 1 (Write 1) 0 1, lop 2 (Read 0) 2 3] 0 \<and>
     is_linearizable [lop 1 (Write 1) 0 3, lop 2 (Read 1) 1 2] 0 \<and>
     is_linearizable [lop 1 (Write 1) 0 3, lop 2 (Read 0) 1 2] 0 \<and>
     \<not> is_linearizable [lop 1 (Write 1) 0 1, lop 2 (Write 2) 2 3, lop 3 (Read 1) 4 5] 0 \<and>
     is_linearizable [lop 1 (Write 1) 0 5, lop 2 (Read 1) 2 4, lop 3 (Write 2) 4 9, lop 2 (Read 2) 6 8, lop 1 (Read 2) 10 11] 0"

lemma checker_tests_pass: "checker_tests"
  by code_simp

section \<open>Models and benchmarks\<close>

definition recovery_test :: bool where
  "recovery_test \<longleftrightarrow> recovery_time_us recovery_default (f_of 2) False \<noteq> None \<and>
     recovery_time_us recovery_default (f_of 5) False = None \<and> recovery_time_us recovery_default (f_of 5) True \<noteq> None"

lemma recovery_test_passes: "recovery_test"
  using rates_verdict(1) [of 2] rates_verdict [of 5] by (simp add: recovery_test_def)

text \<open>In its first test \<open>sim.rs\<close> allows for \<open>1e-9\<close>; no allowance is needed.\<close>

definition sim_test_params :: sim_params where
  "sim_test_params = sim_default\<lparr>requests := 50000, offered_load := f_of (7 / 10)\<rparr>"

definition sim_test :: "(f64 \<Rightarrow> f64) \<Rightarrow> bool" where
  "sim_test lnf \<longleftrightarrow> (let p = sim_test_params in
     case List.find (\<lambda>c. c_name c = ''OneBarrier'') (competitors p) of
       None \<Rightarrow> False
     | Some ob \<Rightarrow> (case simulate_explicit lnf p (c_svc_us ob) (c_fixed_us ob) of
         None \<Rightarrow> False
       | Some ob_lat \<Rightarrow> list_all (\<lambda>c. case simulate_explicit lnf p (c_svc_us c) (c_fixed_us c) of
           None \<Rightarrow> False
         | Some lat \<Rightarrow> f_le (p99_us ob_lat) (p99_us lat) \<and> f_le (c_cpu_mult ob) (c_cpu_mult c)) (competitors p)))"

lemma sim_test_passes:
  assumes "ln_ok lnf"
  shows "sim_test lnf"
proof -
  have p: "sim_sane sim_test_params" "f_le (barrier_us sim_test_params) (f_of 12500)"
    using sim_sane_load [of "7 / 10" 50000 False] by (simp_all add: sim_test_params_def sim_default_def f_of_def make_numeral)
  note dom = competitor_dominated [OF assms p]
  have find: "List.find (\<lambda>c. c_name c = ''OneBarrier'') (competitors sim_test_params) = Some (hd (competitors sim_test_params))"
    by (simp add: competitors_def Let_def)
  have "hd (competitors sim_test_params) \<in> set (competitors sim_test_params)" by (simp add: competitors_def Let_def)
  from dom [OF this] obtain s where s: "simulate_explicit lnf sim_test_params (c_svc_us (hd (competitors sim_test_params)))
      (c_fixed_us (hd (competitors sim_test_params))) = Some s" by blast
  have "\<exists>t. simulate_explicit lnf sim_test_params (c_svc_us c) (c_fixed_us c) = Some t \<and> stats_le s t \<and>
      f_le (c_cpu_mult (hd (competitors sim_test_params))) (c_cpu_mult c)" if "c \<in> set (competitors sim_test_params)" for c
    using dom [OF that] s by auto
  then show ?thesis unfolding sim_test_def Let_def find list_all_iff using s by (fastforce simp: stats_le_def)
qed

definition tradeoff_test :: "(u64 \<Rightarrow> u64) \<Rightarrow> bool" where
  "tradeoff_test stamp \<longleftrightarrow> (case sweep_snapshot_interval stamp (\<lambda>_. empty_dir) [64, 100000] 20000 32 of
     Some (small # large # _) \<Rightarrow> sr_snapshots large < sr_snapshots small \<and> sr_replay_records small < sr_replay_records large
   | _ \<Rightarrow> False)"

lemma tradeoff_test_passes: "tradeoff_test stamp"
  by (simp add: tradeoff_test_def sweep_snapshot_interval_def sweep_one_counts max_def word_le_nat_alt)

text \<open>The files of the two schemes; the order log of HyCoR is in a directory of its own.\<close>

definition order_log_test :: "(u64 \<Rightarrow> u64) \<Rightarrow> bool" where
  "order_log_test stamp \<longleftrightarrow> (case (ob_thread stamp 5000 empty_dir, hycor_thread stamp 5000 empty_dir empty_dir) of
     (Some e, Some (h, ord)) \<Rightarrow> (let ob_bytes = length (file_bytes (f_oplog (files_left e)));
         hy_op = length (file_bytes (f_oplog (files_left h))); hy_ord = length (file_bytes (f_oplog (d_dir ord))) in
       ob_bytes = hy_op \<and> 0 < hy_ord \<and> ob_bytes < hy_op + hy_ord)
   | _ \<Rightarrow> False)"

lemma order_log_test_passes: "order_log_test stamp"
proof -
  have "count_list ([] :: nat list) t = (if t < 0 then 5000 else 0)" for t by simp
  from ft_baselines [OF _ this, of stamp] show ?thesis by (auto simp: order_log_test_def)
qed

section \<open>The cluster\<close>

definition converge_test :: "(nat \<Rightarrow> directory) \<Rightarrow> (nat \<Rightarrow> (u64 \<times> bytes) list list) \<Rightarrow> (nat \<Rightarrow> (u64 \<times> bytes) list) \<Rightarrow> bool" where
  "converge_test dirs polls drains \<longleftrightarrow> (case run_cluster 3 2 150 8 64 dirs polls drains of
     Inl _ \<Rightarrow> False
   | Inr r \<Rightarrow> converged r \<and> correct r \<and> sum_list (map snd (expected r)) = 300)"

definition crash_test :: "(nat \<Rightarrow> directory) \<Rightarrow> (nat \<Rightarrow> (u64 \<times> bytes) list list) \<Rightarrow> (nat \<Rightarrow> (u64 \<times> bytes) list) \<Rightarrow> bool" where
  "crash_test dirs polls drains \<longleftrightarrow> (case run_cluster_with_crash 3 2 150 8 32 1 60 dirs polls drains of
     Some (Inr r) \<Rightarrow> survivor_correct r \<and> victim_prefix_consistent r \<and> recovered_ok r
   | _ \<Rightarrow> False)"

text \<open>They pass over every fabric that keeps its promise.\<close>

lemma expected_total: "sum_list (map snd (expected_state 2 150 8)) = 300"
  by code_simp

lemma converge_test_passes:
  assumes "distinct cids" "length cids = 2"
    and "\<And>i. i < 3 \<Longrightarrow> fabric_delivers cids 150 8 (map snd (decoded (concat (polls i) @ drains i)))"
  shows "converge_test (\<lambda>_. empty_dir) polls drains"
proof -
  have "cids \<noteq> []" using assms(2) by auto
  then obtain r where r: "run_cluster 3 2 150 8 64 (\<lambda>_. empty_dir) polls drains = Inr r" "converged r" "correct r"
    using run_cluster_correct [of 3 cids 8 150 polls drains "\<lambda>_. empty_dir" 64] assms by (auto simp: empty_dir_def)
  then have "expected r = expected_state 2 150 8" by (auto simp: run_cluster_def cluster_report_of_def Let_def split: sum.splits)
  then show ?thesis using r expected_total by (simp add: converge_test_def)
qed

lemma crash_test_passes:
  assumes "distinct cids" "length cids = 2"
    and "\<And>i. i < 3 \<Longrightarrow> i \<noteq> 1 \<Longrightarrow> fabric_delivers cids 150 8 (map snd (decoded (concat (polls i)))) \<and> decoded (drains i) = [] \<and>
      log_bytes (decoded (concat (polls i))) + 4 < 2 ^ 32"
    and "fabric_delivers cids 150 8 os" "prefix (map snd (decoded (concat (polls 1)))) os" "polls 1 \<noteq> []"
    and "60 \<le> length (decoded (concat (polls 1)))"
  shows "crash_test (\<lambda>_. empty_dir) polls drains"
proof -
  have "cids \<noteq> []" using assms(2) by auto
  then have "\<exists>rep. run_cluster_with_crash 3 (length cids) 150 8 32 1 60 (\<lambda>_. empty_dir) polls drains = Some (Inr rep) \<and>
      survivor_correct rep \<and> victim_prefix_consistent rep \<and> recovered_ok rep"
    by (intro crash_run_ok [where os = os]) (use assms in \<open>simp_all add: empty_dir_def\<close>)
  then show ?thesis using assms(2) by (auto simp: crash_test_def)
qed

end
