(* ===== verification/OB_Drivers.thy ===== *)
theory OB_Drivers
  imports OB_Main OB_Appjepsen OB_Baselines OB_Tables
begin

text \<open>
  The binaries around the experiments and the measurements: command lines, the servers and the replay tool
  the experiments start, exit codes (\<open>ob_jepsen.rs\<close>, \<open>ob_lincheck.rs\<close>, \<open>ob_app_jepsen.rs\<close>, \<open>ob_replay.rs\<close>), and the
  rows of the tables of measured times (\<open>ob_order.rs\<close>, \<open>ob_cpu.rs\<close>, \<open>ob_baselines.rs\<close>, \<open>ob_bench.rs\<close>, \<open>ob_calibrate.rs\<close>),
  with what is measured as an argument. The started programs understand their arguments, an experiment
  exits with zero when nothing was lost, but also when its server never came up, and the calibration is
  defined for whatever was measured.
\<close>

section \<open>The crash experiment\<close>

record jepsen_config =
  jc_port :: u16
  jc_clients :: nat
  jc_ops :: u64
  jc_bin :: rstring

definition jepsen_default :: jepsen_config where
  "jepsen_default = \<lparr>jc_port = 6411, jc_clients = 8, jc_ops = 2000, jc_bin = ascii ''./target/release/ob-kv''\<rparr>"

text \<open>An option's value, when there is one and it can be read.\<close>

definition opt_value :: "(rstring \<Rightarrow> 'a option) \<Rightarrow> rstring list \<Rightarrow> 'a \<Rightarrow> 'a" where
  "opt_value parse args old = (case args of [] \<Rightarrow> old | v # _ \<Rightarrow> (case parse v of Some x \<Rightarrow> x | None \<Rightarrow> old))"

fun jepsen_args :: "rstring list \<Rightarrow> jepsen_config \<Rightarrow> jepsen_config" where
  "jepsen_args [] cfg = cfg"
| "jepsen_args (a # args) cfg =
     (if a = ascii ''--port'' then jepsen_args (tl args) (cfg\<lparr>jc_port := opt_value parse_word args (jc_port cfg)\<rparr>)
      else if a = ascii ''--clients'' then jepsen_args (tl args) (cfg\<lparr>jc_clients := opt_value parse_usize args (jc_clients cfg)\<rparr>)
      else if a = ascii ''--ops'' then jepsen_args (tl args) (cfg\<lparr>jc_ops := opt_value parse_word args (jc_ops cfg)\<rparr>)
      else if a = ascii ''--server'' then jepsen_args (tl args) (cfg\<lparr>jc_bin := opt_value Some args (jc_bin cfg)\<rparr>)
      else jepsen_args args cfg)"

text \<open>The arguments the server is spawned with.\<close>

definition spawn_server :: "u16 \<Rightarrow> rstring \<Rightarrow> rstring list" where
  "spawn_server port dir = [ascii ''--port'', show_usize (unat port), ascii ''--dir'', dir, ascii ''--snap-interval'', ascii ''500'']"

text \<open>What each attempt to connect within the deadline yields.\<close>

definition jepsen_wait_up :: "bool list \<Rightarrow> bool" where
  "jepsen_wait_up connects = list_ex (\<lambda>ok. ok) connects"

text \<open>
  What the environment does: whether the spawns succeed, the attempts to connect after them, and the last
  connect. The exit code; an \<open>Err\<close> of \<open>main\<close> is 1.
\<close>

record jepsen_env =
  je_spawn :: bool
  je_up :: "bool list"
  je_respawn :: bool
  je_again :: "bool list"
  je_verify :: bool

definition jepsen_exit :: "jepsen_env \<Rightarrow> nat \<times> nat \<Rightarrow> int" where
  "jepsen_exit env found =
     (if \<not> je_spawn env then 1
      else if \<not> jepsen_wait_up (je_up env) then 0
      else if \<not> je_respawn env then 1
      else let up = jepsen_wait_up (je_again env) in
        if \<not> je_verify env then 1
        else case found of (lost, torn) \<Rightarrow> if lost = 0 \<and> torn = 0 \<and> up then 0 else 1)"

text \<open>The totals of the joined clients.\<close>

definition jepsen_totals :: "nat \<Rightarrow> nat \<Rightarrow> (nat \<Rightarrow> bool) \<Rightarrow> (nat \<Rightarrow> attempt list) \<Rightarrow> nat \<times> nat" where
  "jepsen_totals clients ops linked net =
     (let ts = map (\<lambda>c. run_client c ops (linked c) (net c)) [0..<clients] in
      (sum_list (map (\<lambda>t. length (t_acked t)) ts), sum_list (map t_unknown ts)))"

definition lincheck_exit :: "lin_op list \<Rightarrow> int" where
  "lincheck_exit hist = (if is_linearizable hist 0 then 0 else 1)"

section \<open>The experiment on Redis\<close>

text \<open>The first argument of that name that has another behind it.\<close>

fun find_arg :: "rstring \<Rightarrow> rstring \<Rightarrow> rstring list \<Rightarrow> rstring" where
  "find_arg name dflt (a # v # args) = (if a = name then v else find_arg name dflt (v # args))"
| "find_arg name dflt _ = dflt"

text \<open>The command line of Redis, and that of the replay tool.\<close>

definition start_redis :: "u16 \<Rightarrow> rstring list" where
  "start_redis port = [ascii ''--port'', show_usize (unat port), ascii ''--save'', [], ascii ''--appendonly'', ascii ''no'',
     ascii ''--logfile'', ascii ''/tmp/ob-aj-'' @ show_usize (unat port) @ ascii ''.log'']"

definition aj_capture :: "u16 \<Rightarrow> rstring" where
  "aj_capture port = ascii ''/tmp/ob-aj-capture-'' @ show_usize (unat port) @ ascii ''.bin''"

definition aj_target :: "u16 \<Rightarrow> rstring" where
  "aj_target port = ascii ''127.0.0.1:'' @ show_usize (unat port)"

definition aj_replay_args :: "u16 \<Rightarrow> rstring list" where
  "aj_replay_args port = [ascii ''--capture'', aj_capture port, ascii ''--target'', aj_target port]"

fun replay_args :: "rstring list \<Rightarrow> rstring \<times> rstring \<Rightarrow> rstring \<times> rstring" where
  "replay_args [] ct = ct"
| "replay_args (a # args) (capture, target) =
     (if a = ascii ''--capture'' then replay_args (tl args) (opt_value Some args capture, target)
      else if a = ascii ''--target'' then replay_args (tl args) (capture, opt_value Some args target)
      else replay_args args (capture, target))"

definition replay_default :: "rstring \<times> rstring" where
  "replay_default = (ascii ''/tmp/ob-capture.log'', ascii ''127.0.0.1:6390'')"

text \<open>
  The exit code, from the two waits (\<open>None\<close> where Redis cannot be spawned) and what the checks found (\<open>None\<close>
  where the replay tool cannot be run or a read of the checks fails). The result \<open>None\<close> is a panic: one of
  these, or an unreadable port.
\<close>

definition app_jepsen_exit :: "rstring list \<Rightarrow> bytes option list option \<Rightarrow> bytes option list option \<Rightarrow> (u64 \<times> u64 \<times> bool) option \<Rightarrow> int option" where
  "app_jepsen_exit args up again found =
     (case parse_word (find_arg (ascii ''--port'') (ascii ''6650'') args) :: u16 option of
        None \<Rightarrow> None
      | Some port \<Rightarrow> Option.bind up (\<lambda>up. if \<not> wait_up up then Some 2
          else Option.bind again (\<lambda>again. if \<not> wait_up again then Some 2
          else map_option (\<lambda>x. if aj_passes x then 0 else 1) found)))"

lemmas driver_defs [unfold_model] = jepsen_default_def opt_value_def spawn_server_def jepsen_wait_up_def jepsen_exit_def
  jepsen_totals_def lincheck_exit_def start_redis_def aj_capture_def aj_target_def aj_replay_args_def replay_default_def
  app_jepsen_exit_def

section \<open>What the experiments start\<close>

text \<open>The crash experiment runs the server without \<open>fsync\<close>, with a snapshot every 500 operations.\<close>

lemma spawned_server:
  "ob_kv (spawn_server port dir) = Some (\<lparr>cfg_port = port, cfg_dir = dir, cfg_snap_interval = 500, cfg_fsync = False\<rparr>, RespProtocol)"
proof -
  have "ascii ''500'' = show_usize (unat (500 :: u64))" by (simp add: show_usize_def dec_digits.simps ascii_def)
  then have "spawn_server port dir = config_args \<lparr>cfg_port = port, cfg_dir = dir, cfg_snap_interval = 500, cfg_fsync = False\<rparr>"
    by (simp add: spawn_server_def config_args_def del: ascii_Cons)
  then show ?thesis using config_args_read [of "default_config 6399 ''/tmp/ob-kv-data''" True
        "\<lparr>cfg_port = port, cfg_dir = dir, cfg_snap_interval = 500, cfg_fsync = False\<rparr>"]
    by (simp add: ob_kv_def default_config_def)
qed

lemma spawned_replay: "replay_args (aj_replay_args port) replay_default = (aj_capture port, aj_target port)"
  by (simp add: aj_replay_args_def opt_value_def replay_default_def)

text \<open>Every write of the clients is acknowledged, refused or of unknown fate.\<close>

lemma jepsen_client_tally:
  "length (t_acked (jepsen_client c is conn as t)) + t_unknown (jepsen_client c is conn as t) \<le>
   length (t_acked t) + t_unknown t + length is"
proof (induction "is" arbitrary: conn as t)
  case (Cons i "is")
  obtain r cn rest where s: "set_attempts 200 conn as = (r, cn, rest)" by (cases "set_attempts 200 conn as")
  define t' where "t' = (case r of Some True \<Rightarrow> t\<lparr>t_acked := t_acked t @ [(jepsen_key c i, jepsen_val c i)]\<rparr>
    | Some False \<Rightarrow> t | None \<Rightarrow> t\<lparr>t_unknown := t_unknown t + 1\<rparr>)"
  have "length (t_acked t') + t_unknown t' \<le> length (t_acked t) + t_unknown t + 1"
    by (simp add: t'_def split: option.split bool.split)
  then show ?case using Cons [of cn rest t'] s by (simp add: t'_def)
qed simp

lemma jepsen_totals_bound:
  assumes "jepsen_totals clients ops linked net = (acked, unknown)"
  shows "acked = length (all_acked clients ops linked net)" and "acked + unknown \<le> clients * ops"
proof -
  show "acked = length (all_acked clients ops linked net)"
    using assms by (simp add: jepsen_totals_def all_acked_def length_concat Let_def o_def)
  have "sum_list (map (\<lambda>c. length (t_acked (run_client c ops (linked c) (net c)))) [0..<n]) +
      sum_list (map (\<lambda>c. t_unknown (run_client c ops (linked c) (net c))) [0..<n]) \<le> n * ops" for n
  proof (induction n)
    case (Suc n)
    have "length (t_acked (run_client n ops (linked n) (net n))) + t_unknown (run_client n ops (linked n) (net n)) \<le> ops"
      using jepsen_client_tally [of n "[0..<ops]" "linked n" "net n" "\<lparr>t_acked = [], t_unknown = 0\<rparr>"] by (simp add: run_client_def)
    then show ?case using Suc by simp
  qed simp
  then show "acked + unknown \<le> clients * ops" using assms by (auto simp: jepsen_totals_def Let_def o_def)
qed

text \<open>An exit with zero: nothing lost or torn after a restart, or a server that never came up at first.\<close>

lemma jepsen_exit_iff:
  "jepsen_exit env found = 0 \<longleftrightarrow> je_spawn env \<and> (jepsen_wait_up (je_up env) \<longrightarrow>
     je_respawn env \<and> jepsen_wait_up (je_again env) \<and> je_verify env \<and> found = (0, 0))"
  by (cases found) (simp add: jepsen_exit_def Let_def)

section \<open>Tables of measured times\<close>

subsection \<open>\<open>ob_order\<close> and \<open>ob_baselines\<close>\<close>

text \<open>Rows of \<open>ob_order\<close>; \<open>t_seq\<close> and \<open>t_ts\<close> are the elapsed times of the two halves.\<close>

definition ob_order :: "(nat \<Rightarrow> f64) \<Rightarrow> (nat \<Rightarrow> f64) \<Rightarrow> (nat \<times> f64 \<times> f64 \<times> f64) list" where
  "ob_order t_seq t_ts = map (\<lambda>threads. case bench_ordering threads 500000 (t_seq threads) (t_ts threads) of
     (seq, ts) \<Rightarrow> (threads, or_ops_per_sec seq, or_ops_per_sec ts, f_div (or_ops_per_sec ts) (or_ops_per_sec seq))) [1, 2, 4, 8, 16]"

record ft_baseline =
  fb_mode :: string
  fb_threads :: nat
  fb_ops_per_sec :: f64

definition run_per_thread :: "string \<Rightarrow> nat \<Rightarrow> nat \<Rightarrow> f64 \<Rightarrow> ft_baseline" where
  "run_per_thread label threads ops elapsed = \<lparr>fb_mode = label, fb_threads = threads,
     fb_ops_per_sec = f_div (f_of (of_nat (unat (word_of_nat threads * word_of_nat ops :: u64)))) elapsed\<rparr>"

text \<open>The three schemes, run one after the other; \<open>None\<close> is the panic of a thread, seen when it is joined.\<close>

definition bench_ft_baselines :: "(u64 \<Rightarrow> u64) \<Rightarrow> (nat \<Rightarrow> directory) \<Rightarrow> directory \<Rightarrow> (nat \<Rightarrow> directory) \<Rightarrow> (nat \<Rightarrow> directory) \<Rightarrow>
    nat list \<Rightarrow> nat \<Rightarrow> nat \<Rightarrow> f64 \<Rightarrow> f64 \<Rightarrow> f64 \<Rightarrow> ft_baseline list option" where
  "bench_ft_baselines stamp ob_dirs llft_dir hy_dirs ord_dirs sched threads ops t_ob t_llft t_hycor =
     Option.bind (those (map (\<lambda>t. ob_thread stamp ops (ob_dirs t)) [0..<threads])) (\<lambda>_.
     Option.bind (bench_llft stamp ops llft_dir sched) (\<lambda>_.
     Option.bind (those (map (\<lambda>t. hycor_thread stamp ops (hy_dirs t) (ord_dirs t)) [0..<threads])) (\<lambda>_.
       Some [run_per_thread ''OneBarrier (fabric order)'' threads ops t_ob,
         run_per_thread ''HyCoR (nondeterminism log)'' threads ops t_hycor,
         run_per_thread ''LLFT (host sequencer)'' threads ops t_llft])))"

text \<open>The entry whose mode starts with the name; \<open>None\<close> is the panic of \<open>unwrap\<close>.\<close>

definition baseline_get :: "string \<Rightarrow> ft_baseline list \<Rightarrow> f64 option" where
  "baseline_get name rs = map_option fb_ops_per_sec (List.find (\<lambda>x. take (length name) (fb_mode x) = name) rs)"

definition baseline_row :: "nat \<Rightarrow> ft_baseline list \<Rightarrow> (nat \<times> f64 \<times> f64 \<times> f64) option" where
  "baseline_row threads rs = Option.bind (baseline_get ''OneBarrier'' rs) (\<lambda>a. Option.bind (baseline_get ''HyCoR'' rs) (\<lambda>b.
     Option.bind (baseline_get ''LLFT'' rs) (\<lambda>c. Some (threads, a, b, c))))"

subsection \<open>\<open>ob_cpu\<close>\<close>

text \<open>
  The busy wait: clock readings in nanoseconds, of which the first fixes the end. The readings not used;
  \<open>None\<close> when they run out.
\<close>

fun spin_until :: "nat \<Rightarrow> nat list \<Rightarrow> nat list option" where
  "spin_until end_ns [] = None"
| "spin_until end_ns (t # ts) = (if t < end_ns then spin_until end_ns ts else Some ts)"

definition spin_us :: "u64 \<Rightarrow> nat list \<Rightarrow> nat list option" where
  "spin_us us clock = (if us = 0 then Some clock
     else case clock of [] \<Rightarrow> None | t # ts \<Rightarrow> spin_until (t + 1000 * unat us) ts)"

record cpu_result =
  cr_mode :: string
  cr_replicas :: nat
  exec_cpu_ms :: f64

definition sum_ms :: "f64 list \<Rightarrow> f64" where
  "sum_ms secs = foldl f_add NegZero (map (\<lambda>t. f_mul t (f_of 1000)) secs)"

text \<open>The two results, from the elapsed seconds of the threads.\<close>

definition cpu_results :: "nat \<Rightarrow> f64 list \<Rightarrow> f64 \<Rightarrow> f64 list \<Rightarrow> cpu_result \<times> cpu_result" where
  "cpu_results replicas active exec backups =
     (\<lparr>cr_mode = ''active-SMR'', cr_replicas = replicas, exec_cpu_ms = sum_ms active\<rparr>,
      \<lparr>cr_mode = ''passive-OneBarrier'', cr_replicas = replicas, exec_cpu_ms = f_add (f_mul exec (f_of 1000)) (sum_ms backups)\<rparr>)"

definition cpu_row :: "cpu_result \<times> cpu_result \<Rightarrow> nat \<times> f64 \<times> f64 \<times> f64" where
  "cpu_row r = (case r of (active, passive) \<Rightarrow> (cr_replicas active, exec_cpu_ms active, exec_cpu_ms passive,
     f_mul (f_of 100) (f_sub (f_of 1) (f_div (exec_cpu_ms passive) (exec_cpu_ms active)))))"

subsection \<open>\<open>ob_bench\<close>\<close>

record bench_config =
  bc_clients :: nat
  bc_ops_per_client :: nat
  bc_keys :: nat
  bc_pace_secs :: f64
  bc_durability :: durability

definition bench_default :: bench_config where
  "bench_default = \<lparr>bc_clients = 2, bc_ops_per_client = 2000, bc_keys = 64, bc_pace_secs = f_of (300 / 1000000), bc_durability = InFabricMem\<rparr>"

definition bench_with :: "bench_config \<Rightarrow> taken list list \<Rightarrow> directory \<Rightarrow> (io_error + bench_result) option" where
  "bench_with cfg = run_bench (bc_clients cfg) (bc_ops_per_client cfg) (bc_keys cfg) (bc_durability cfg)"

definition us :: "u64 \<Rightarrow> f64" where
  "us ns = f_div (f_of (of_nat (unat ns))) (f_of 1000)"

definition ob_bench_config :: bench_config where
  "ob_bench_config = bench_default\<lparr>bc_clients := 2, bc_ops_per_client := 250, bc_keys := 64, bc_pace_secs := f_of (8 / 1000)\<rparr>"

text \<open>Runs one after the other: the first error ends them, \<open>None\<close> is a panic.\<close>

definition run_bind :: "(io_error + 'a) option \<Rightarrow> ('a \<Rightarrow> (io_error + 'b) option) \<Rightarrow> (io_error + 'b) option" where
  "run_bind r f = Option.bind r (\<lambda>x. case x of Inl e \<Rightarrow> Some (Inl e) | Inr y \<Rightarrow> f y)"

fun run_each :: "('a \<Rightarrow> (io_error + 'b) option) \<Rightarrow> 'a list \<Rightarrow> (io_error + 'b list) option" where
  "run_each f [] = Some (Inr [])"
| "run_each f (x # xs) = run_bind (f x) (\<lambda>y. run_bind (run_each f xs) (\<lambda>ys. Some (Inr (y # ys))))"

text \<open>The two tiers.\<close>

definition bench_tiers :: "(durability \<Rightarrow> taken list list) \<Rightarrow> (durability \<Rightarrow> directory) \<Rightarrow> (io_error + bench_result list) option" where
  "bench_tiers polls dirs = run_each (\<lambda>tier. bench_with (ob_bench_config\<lparr>bc_durability := tier\<rparr>) (polls tier) (dirs tier)) [InFabricMem, Fsync]"

definition bench_row :: "bench_result \<Rightarrow> string \<times> nat \<times> f64 list" where
  "bench_row r = (br_durability r, br_n r, map us [delivery_p50 r, delivery_p99 r, durable_p50 r, durable_p99 r, commit_p50 r, commit_p99 r])"

text \<open>The cost of durability in per cent of the delivery.\<close>

definition bench_overhead :: "bench_result \<Rightarrow> f64" where
  "bench_overhead mem = (if 0 < delivery_p50 mem
     then f_div (f_mul (f_of 100) (f_of (of_nat (unat (durable_p50 mem))))) (f_of (of_nat (unat (delivery_p50 mem)))) else f_of 0)"

subsection \<open>\<open>ob_calibrate\<close>\<close>

definition calib_config :: "nat \<Rightarrow> f64 \<Rightarrow> durability \<Rightarrow> bench_config" where
  "calib_config clients rate_ops_s tier = bench_default\<lparr>bc_clients := clients, bc_ops_per_client := 200, bc_keys := 64,
     bc_pace_secs := f_div (f_of (of_nat clients)) rate_ops_s, bc_durability := tier\<rparr>"

text \<open>One run of the engine: what the fabric delivers and the emptied directory depend on the configuration.\<close>

definition calib_engine :: "(bench_config \<Rightarrow> taken list list) \<Rightarrow> (bench_config \<Rightarrow> directory) \<Rightarrow> nat \<Rightarrow> f64 \<Rightarrow> durability \<Rightarrow>
    (io_error + bench_result) option" where
  "calib_engine polls dirs clients rate_ops_s tier =
     (let cfg = calib_config clients rate_ops_s tier in bench_with cfg (polls cfg) (dirs cfg))"

definition idle_rate :: f64 where
  "idle_rate = f_of 60"

text \<open>The simulation fed with what the engine measured.\<close>

definition calib_params :: "bench_result \<Rightarrow> bench_result \<Rightarrow> sim_params" where
  "calib_params mem fs = (let deliv = us (delivery_p50 mem); dur_mem = us (durable_p50 mem); dur_fs = us (durable_p50 fs);
       app = f_max dur_mem (f_of (1 / 10)) in
     sim_default\<lparr>rtt_us := f_of 0, barrier_us := deliv, apply_us := app, fsync_us := dur_fs,
       offered_load := f_div (f_mul idle_rate app) (f_of 1000000), requests := 200000\<rparr>)"

fun f_abs :: "f64 \<Rightarrow> f64" where
  "f_abs (Num q) = Num \<bar>q\<bar>"
| "f_abs NegZero = Num 0"
| "f_abs NInf = PInf"
| "f_abs x = x"

definition calib_err :: "f64 \<Rightarrow> f64 \<Rightarrow> f64" where
  "calib_err sim eng = f_div (f_mul (f_of 100) (f_abs (f_sub sim eng))) eng"

record calibration =
  ca_sim_mem :: f64
  ca_sim_fs :: f64
  ca_err_mem :: f64
  ca_err_fs :: f64
  ca_knee :: f64
  ca_rows :: "(f64 \<times> f64 \<times> f64 \<times> f64) list"

definition calib_rates :: "f64 \<Rightarrow> f64 list" where
  "calib_rates knee = map (\<lambda>x. f_mul knee (f_of x)) [5 / 10, 75 / 100, 9 / 10, 11 / 10, 14 / 10]"

definition calib_row :: "(bench_config \<Rightarrow> taken list list) \<Rightarrow> (bench_config \<Rightarrow> directory) \<Rightarrow> f64 \<Rightarrow> f64 \<Rightarrow>
    (io_error + f64 \<times> f64 \<times> f64 \<times> f64) option" where
  "calib_row polls dirs dur_fs rate_ops_s = run_bind (calib_engine polls dirs 4 rate_ops_s Fsync) (\<lambda>r.
     Some (Inr (rate_ops_s, f_div (f_mul rate_ops_s dur_fs) (f_of 1000000), us (commit_p50 r), us (commit_p99 r))))"

definition ob_calibrate :: "(f64 \<Rightarrow> f64) \<Rightarrow> (bench_config \<Rightarrow> taken list list) \<Rightarrow> (bench_config \<Rightarrow> directory) \<Rightarrow>
    (io_error + calibration) option" where
  "ob_calibrate lnf polls dirs =
     run_bind (calib_engine polls dirs 2 idle_rate InFabricMem) (\<lambda>mem.
     run_bind (calib_engine polls dirs 2 idle_rate Fsync) (\<lambda>fs.
       Option.bind (simulate lnf (calib_params mem fs) FtOverlap) (\<lambda>m.
       Option.bind (simulate lnf (calib_params mem fs) FtFsync) (\<lambda>f.
         let dur_fs = us (durable_p50 fs); knee = f_div (f_of 1000000) dur_fs in
         run_bind (run_each (calib_row polls dirs dur_fs) (calib_rates knee)) (\<lambda>rows.
         Some (Inr \<lparr>ca_sim_mem = p50_us m, ca_sim_fs = p50_us f, ca_err_mem = calib_err (p50_us m) (us (commit_p50 mem)),
           ca_err_fs = calib_err (p50_us f) (us (commit_p50 fs)), ca_knee = knee, ca_rows = rows\<rparr>))))))"

lemmas measure_defs [unfold_model] = ob_order_def run_per_thread_def bench_ft_baselines_def baseline_get_def baseline_row_def spin_us_def
  sum_ms_def cpu_results_def cpu_row_def bench_default_def bench_with_def us_def ob_bench_config_def run_bind_def bench_tiers_def bench_row_def bench_overhead_def
  calib_config_def idle_rate_def calib_params_def calib_err_def calib_engine_def calib_row_def ob_calibrate_def

section \<open>What the tables show\<close>

text \<open>Each column of \<open>ob_baselines\<close> is the scheme it is named after.\<close>

lemma baseline_columns:
  assumes "bench_ft_baselines stamp ob_dirs llft_dir hy_dirs ord_dirs sched threads ops t_ob t_llft t_hycor = Some rs"
  shows "baseline_row threads rs = Some (threads, fb_ops_per_sec (run_per_thread m threads ops t_ob),
     fb_ops_per_sec (run_per_thread m threads ops t_hycor), fb_ops_per_sec (run_per_thread m threads ops t_llft))"
  using assms by (auto simp: bench_ft_baselines_def baseline_row_def baseline_get_def run_per_thread_def bind_eq_Some_conv)

text \<open>The busy wait ends at the first reading that is late enough.\<close>

lemma spin_until_late: "spin_until e clock = Some rest \<Longrightarrow> \<exists>pre t. clock = pre @ t # rest \<and> e \<le> t \<and> list_all (\<lambda>u. u < e) pre"
proof (induction clock)
  case (Cons u us)
  show ?case
  proof (cases "u < e")
    case True
    then obtain pre t where "us = pre @ t # rest" "e \<le> t" "list_all (\<lambda>u. u < e) pre" using Cons by auto
    then show ?thesis using True by (intro exI [of _ "u # pre"]) auto
  next
    case False
    then show ?thesis using Cons.prems by (intro exI [of _ "[]"]) simp
  qed
qed simp

subsection \<open>Measured times as floating-point numbers\<close>

lemma make_between:
  assumes "representable lo" "representable hi" "0 \<le> lo" "lo \<le> q" "q \<le> hi" "hi < f_limit"
  shows "\<exists>r. f_make False q = Num r \<and> lo \<le> r \<and> r \<le> hi"
proof -
  have r: "lo \<le> rnd q" "rnd q \<le> hi" using assms rnd_ge rnd_le by blast+
  then have "rnd q < f_limit" "- f_limit < rnd q" using assms(3,6) f_limit_pos by linarith+
  then have "f_make False q = Num (rnd q)" by (auto simp: f_make_def Let_def)
  then show ?thesis using r by blast
qed

lemma pow2_rep: "representable (2 ^ n)" "n \<le> 1074 \<Longrightarrow> representable (1 / 2 ^ n)"
  using representable_pow2 [of "int n"] representable_pow2 [of "- int n"] by (simp_all add: power_int_minus divide_inverse)

lemma pow2_limit: "n < 1024 \<Longrightarrow> 2 ^ n < f_limit"
  unfolding f_limit_def by (rule power_strict_increasing) simp_all

lemma f_of_u64: "\<exists>r. f_of (of_nat (unat (n :: u64))) = Num r \<and> 0 \<le> r \<and> r \<le> 2 ^ 64"
proof -
  have "unat n < 2 ^ 64" using unsigned_less [of n] by simp
  then have "(of_nat (unat n) :: rat) \<le> of_nat (2 ^ 64)" unfolding of_nat_le_iff by simp
  then have "(of_nat (unat n) :: rat) \<le> 2 ^ 64" by (simp only: of_nat_power of_nat_numeral)
  from make_between [OF representable_0 pow2_rep(1) order_refl of_nat_0_le_iff this pow2_limit] show ?thesis unfolding f_of_def by simp
qed

lemma us_range: "\<exists>u. us n = Num u \<and> 0 \<le> u \<and> u \<le> 2 ^ 64"
proof -
  obtain r where r: "f_of (of_nat (unat n)) = Num r" "0 \<le> r" "r \<le> 2 ^ 64" using f_of_u64 by blast
  have "us n = f_make False (r / 1000)" using r(1,2) by (simp add: us_def f_of_numeral f_div_def)
  moreover have "r / 1000 \<le> 2 ^ 64" using r(2,3) by linarith
  ultimately show ?thesis using r(2) make_between [OF representable_0 pow2_rep(1) order_refl _ _ pow2_limit, of "r / 1000" 64] by simp
qed

lemma us_ok: "nonneg (us n)" "f_ok (us n)"
  using us_range [of n] by (auto simp: nonneg_def us_def)

text \<open>The cost of a replica write is taken to be at least a tenth of a microsecond.\<close>

lemma calib_apply_range:
  assumes "app = f_max (us n) (f_of (1 / 10))"
  shows "\<exists>a. app = Num a \<and> 1 / 2 ^ 4 \<le> a \<and> a \<le> 2 ^ 64"
proof -
  obtain u where u: "us n = Num u" "0 \<le> u" "u \<le> 2 ^ 64" using us_range by blast
  obtain t where t: "f_of (1 / 10) = Num t" "1 / 2 ^ 4 \<le> t" "t \<le> 2 ^ 0"
    unfolding f_of_def using make_between [OF pow2_rep(2) pow2_rep(1) _ _ _ pow2_limit, of 4 "1 / 10" 0] by auto
  have "t \<le> (2 :: rat) ^ 64" by (rule order_trans [OF t(3)]) simp
  then show ?thesis using assms u t by (auto simp: f_max_def less_prod_def)
qed

lemma calib_rate:
  assumes "app = Num a" "1 / 2 ^ 4 \<le> a" "a \<le> 2 ^ 64"
  shows "rate_ok (f_div (f_div (f_mul idle_rate app) (f_of 1000000)) app)"
proof -
  have a: "0 < a" using assms(2) by (rule less_le_trans [rotated]) simp
  have "60 * a \<le> 2 ^ 70" using assms(3) by simp
  moreover have "1 / 2 ^ 4 \<le> 60 * a" using assms(2) a by linarith
  ultimately obtain b where b: "f_mul idle_rate app = Num b" "1 / 2 ^ 4 \<le> b" "b \<le> 2 ^ 70"
    using make_between [OF pow2_rep(2) pow2_rep(1) _ _ _ pow2_limit, of 4 "60 * a" 70] a
    by (auto simp: idle_rate_def f_of_numeral assms(1) f_mul_def Let_def)
  have "1 / 2 ^ 24 \<le> b / 1000000" "b / 1000000 \<le> 2 ^ 70" using b(2,3) by simp_all
  then obtain c where c: "f_div (f_mul idle_rate app) (f_of 1000000) = Num c" "1 / 2 ^ 24 \<le> c" "c \<le> 2 ^ 70"
    using make_between [OF pow2_rep(2) pow2_rep(1) _ _ _ pow2_limit, of 24 "b / 1000000" 70] b(2)
    by (auto simp: b(1) f_of_numeral f_div_def Let_def)
  have c0: "0 < c" using c(2) by (rule less_le_trans [rotated]) simp
  have "(1 / 2 ^ 24) / 2 ^ 64 \<le> c / a" using c(2) assms(3) a c0 by (intro frac_le) simp_all
  then have lo: "1 / 2 ^ 88 \<le> c / a" by simp
  have "c / a \<le> 2 ^ 70 / (1 / 2 ^ 4)" using c(3) assms(2) c0 by (intro frac_le) simp_all
  then have "c / a \<le> 2 ^ 74" by simp
  then obtain d where d: "f_div (Num c) app = Num d" "1 / 2 ^ 88 \<le> d"
    using lo make_between [OF pow2_rep(2) pow2_rep(1) _ _ _ pow2_limit, of 88 "c / a" 74] a c0
    by (auto simp: assms(1) f_div_def Let_def)
  have "1 / 2 ^ 300 \<le> d" using d(2) by (rule order_trans [rotated]) simp
  then show ?thesis by (simp add: rate_ok_def c(1) d(1))
qed

lemma calib_sane: "sim_sane (calib_params mem fs)"
proof -
  let ?app = "f_max (us (durable_p50 mem)) (f_of (1 / 10))"
  obtain a where a: "?app = Num a" "1 / 2 ^ 4 \<le> a" "a \<le> 2 ^ 64" using calib_apply_range by blast
  have "0 \<le> a" using a(2) by (rule order_trans [rotated]) simp
  then have "nonneg ?app" using a(1) by (simp add: nonneg_def)
  moreover have "f_ok ?app" using us_ok by (simp add: f_max_def)
  ultimately show ?thesis using calib_rate [OF a] us_ok
    by (simp add: sim_sane_def calib_params_def Let_def f_of_numeral nonneg_def f_limit_pos)
qed

text \<open>No latency of a simulation is below its fixed part, so no percentile is.\<close>

lemma simulate_above_fixed:
  assumes "ln_ok lnf" "sim_sane p" "simulate lnf p mode = Some s"
  shows "f_le (fixed_us p mode) (p50_us s)"
proof -
  let ?q = "queue_loop lnf (f_div (offered_load p) (apply_us p)) (service_us p mode) (fixed_us p mode) (unat (requests p))
    (rng_new (seed p)) (f_of 0) (f_of 0)"
  have sane: "rate_ok (f_div (offered_load p) (apply_us p))" "nonneg (service_us p mode)" "nonneg (fixed_us p mode)" "f_ok (fixed_us p mode)"
      "0 + unat (requests p) \<le> 2 ^ 53"
    using assms(2) by (cases mode; simp add: sim_sane_def fixed_us_def f_add_nonneg)+
  have z: "f_of 0 = Num 0" by (simp add: f_of_def make_zero)
  have start: "f_upto (of_nat 0 * gap) (f_of 0)" "f_ok (f_of 0)" "nonneg (f_of 0)" "f_le (f_of 0) (f_of 0)"
    by (simp_all add: f_upto_def z nonneg_def f_limit_pos)
  have l: "list_all2 (\<lambda>x y. f_le (fixed_us p mode) x \<and> f_le x y) ?q ?q"
    by (rule queue_loop_mono [OF assms(1) sane(1,2) nonneg_refl [OF sane(2)] sane(3,4) nonneg_refl [OF sane(3)] start sane(5)])
  have s: "?q \<noteq> []" "p50_us s = pct (sort_key f_key ?q) (f_of (50 / 100))"
    using assms(3) by (auto simp: simulate_def summarize_def Let_def split: if_splits)
  have "min i (length ?q - 1) < length (sort_key f_key ?q)" for i using s(1) by (cases ?q) auto
  then have "pct (sort_key f_key ?q) (f_of (50 / 100)) \<in> set (sort_key f_key ?q)"
    using s(1) by (simp only: pct_def sort_key_Nil if_False length_sort nth_mem)
  then show ?thesis using l s(2) by (auto simp: list_all2_conv_all_nth in_set_conv_nth)
qed

text \<open>\<open>run_each\<close> succeeds when every run does, with the results in order.\<close>

lemma run_each_ok: "list_all2 (\<lambda>x y. f x = Some (Inr y)) xs ys \<Longrightarrow> run_each f xs = Some (Inr ys)"
  by (induction xs ys rule: list_all2_induct) (simp_all add: run_bind_def)

lemma run_each_success:
  assumes "\<And>x. \<exists>y. f x = Some (Inr y)"
  shows "\<exists>ys. run_each f xs = Some (Inr ys) \<and> length ys = length xs"
proof -
  obtain g where "\<And>x. f x = Some (Inr (g x))" using assms by metis
  then show ?thesis using run_each_ok [of f xs "map g xs"] by (auto simp: list_all2_map2 list.rel_refl)
qed

text \<open>
  Whatever the engine measures, the calibration is defined: if no run of the engine fails, neither
  simulation panics, the predicted commit of overlapped durability is at least the measured delivery,
  that of the synchronous tier is not below it, and each rate has its row.
\<close>

theorem calibrate_defined:
  assumes "ln_ok lnf" "\<And>clients speed tier. \<exists>r. calib_engine polls dirs clients speed tier = Some (Inr r)"
  shows "\<exists>c mem. ob_calibrate lnf polls dirs = Some (Inr c) \<and> calib_engine polls dirs 2 idle_rate InFabricMem = Some (Inr mem) \<and>
    f_le (us (delivery_p50 mem)) (ca_sim_mem c) \<and> f_le (ca_sim_mem c) (ca_sim_fs c) \<and> length (ca_rows c) = 5"
proof -
  obtain mem fs where runs: "calib_engine polls dirs 2 idle_rate InFabricMem = Some (Inr mem)"
    "calib_engine polls dirs 2 idle_rate Fsync = Some (Inr fs)" using assms(2) by metis
  let ?p = "calib_params mem fs"
  obtain b f where bf: "simulate lnf ?p FtOverlap = Some (b\<lparr>la_mode := ''FtOverlap''\<rparr>)" "simulate lnf ?p FtFsync = Some f" "stats_le b f"
    using ft_overlap_free [OF assms(1) calib_sane] by blast
  obtain u where u: "us (delivery_p50 mem) = Num u" "0 \<le> u" using us_range by blast
  have "f_ok (us (delivery_p50 mem))" by (rule us_ok)
  then have "fixed_us ?p FtOverlap = us (delivery_p50 mem)"
    using u by (auto simp: fixed_us_def calib_params_def Let_def f_of_numeral f_add_def f_make_def rnd_representable)
  then have "f_le (us (delivery_p50 mem)) (p50_us b)" using simulate_above_fixed [OF assms(1) calib_sane bf(1)] by simp
  moreover have "\<exists>y. calib_row polls dirs (us (durable_p50 fs)) x = Some (Inr y)" for x
    using assms(2) [of 4 x Fsync] by (auto simp: calib_row_def run_bind_def)
  then obtain rows where "run_each (calib_row polls dirs (us (durable_p50 fs))) (calib_rates (f_div (f_of 1000000) (us (durable_p50 fs)))) =
      Some (Inr rows)" "length rows = length (calib_rates (f_div (f_of 1000000) (us (durable_p50 fs))))"
    using run_each_success by blast
  ultimately show ?thesis using bf runs by (simp add: ob_calibrate_def Let_def stats_le_def run_bind_def calib_rates_def del: list.map)
qed

lemma calib_engine_idle: "\<exists>r. calib_engine (\<lambda>_. []) (\<lambda>_. empty_dir) clients speed tier = Some (Inr r)"
proof -
  have "\<exists>e. engine_create kv_sm empty_dir 1000000 b = (Inr (), e)" for b
    by (simp add: engine_create_def durable_open_def sys_create_dir_all_def empty_dir_def)
  then obtain e where "engine_create kv_sm empty_dir 1000000 (tier = Fsync) = (Inr (), e)" by blast
  then show ?thesis by (simp add: calib_engine_def calib_config_def bench_default_def bench_with_def run_bench_def Let_def client_ops_def)
qed

theorem calibrate_defined_witness:
  "\<exists>c. ob_calibrate (\<lambda>x. f_sub x (f_of 1)) (\<lambda>_. []) (\<lambda>_. empty_dir) = Some (Inr c) \<and> f_le (ca_sim_mem c) (ca_sim_fs c)"
  using calibrate_defined [OF taylor_ln_ok calib_engine_idle] by blast

end
