(* ===== verification/OB_Queue.thy ===== *)
theory OB_Queue
  imports OB_Restart
begin

text \<open>
  The channels between the connection threads and the executor, \<open>server.rs\<close>. A thread that calls
  \<open>KvService::apply\<close> or \<open>len\<close> creates a reply channel, sends a job and waits; the executor takes the jobs in the
  order they were sent and answers each on its channel; when it ends, the jobs still queued are dropped
  with their channels and the waiting threads see that nobody will answer. \<open>OB_System\<close> takes a call for one
  step. Here every run with channels is shown to be such a run in which each operation takes effect
  between its call and its return, and no thread waits for an answer that cannot come. What the
  connections run and which calls fail is restricted as in \<open>OB_System\<close>, by the argument \<open>sc\<close>.
\<close>

section \<open>Jobs and channels\<close>

datatype req = ReqApply op | ReqLen

datatype svc_resp = RespOut op_output | RespLen nat

text \<open>A job names the thread that holds the receiving end of its reply channel.\<close>

record job =
  job_req :: req
  job_reply :: u32

datatype reply_slot = NoReply | Sent svc_resp | HungUp

datatype 'a thread = Runs "'a prog" | Waits "'a prog" reply_slot

text \<open>What a thread sends, and how it goes on with what it receives: \<open>KvService::apply\<close> and \<open>len\<close>.\<close>

fun prog_req :: "'a prog \<Rightarrow> req option" where
  "prog_req (Apply op k) = Some (ReqApply op)"
| "prog_req (Length k) = Some ReqLen"
| "prog_req _ = None"

fun resp_out :: "svc_resp option \<Rightarrow> op_output option" where
  "resp_out (Some (RespOut out)) = Some out"
| "resp_out _ = None"

fun resp_len :: "svc_resp option \<Rightarrow> nat option" where
  "resp_len (Some (RespLen n)) = Some n"
| "resp_len _ = None"

fun resume :: "'a prog \<Rightarrow> svc_resp option \<Rightarrow> 'a prog" where
  "resume (Apply op k) r = k (resp_out r)"
| "resume (Length k) r = k (resp_len r)"
| "resume p r = p"

text \<open>The executor's loop body: \<open>None\<close> is an error, which ends the thread.\<close>

fun exec_job :: "(u64 \<Rightarrow> u64) \<Rightarrow> req \<Rightarrow> service \<Rightarrow> svc_resp option \<times> service" where
  "exec_job stamp (ReqApply op) sv = (case svc_execute stamp op sv of (r, sv) \<Rightarrow> (map_option RespOut r, sv))"
| "exec_job stamp ReqLen sv = (Some (RespLen (kv_len (e_state (sv_engine sv)))), sv)"

definition put_slot :: "reply_slot \<Rightarrow> u32 list \<Rightarrow> (u32 \<Rightarrow> 'a thread option) \<Rightarrow> u32 \<Rightarrow> 'a thread option" where
  "put_slot x cs ts c = (case ts c of Some (Waits p NoReply) \<Rightarrow> if c \<in> set cs then Some (Waits p x) else ts c | t \<Rightarrow> t)"

text \<open>One turn of the executor. When it ends, this job and the queued ones are dropped with their channels.\<close>

definition executor_turn :: "(u64 \<Rightarrow> u64) \<Rightarrow> job \<Rightarrow> job list \<Rightarrow> service \<Rightarrow> (u32 \<Rightarrow> 'a thread option) \<Rightarrow>
    service \<times> job list \<times> (u32 \<Rightarrow> 'a thread option)" where
  "executor_turn stamp j js sv ts = (case exec_job stamp (job_req j) sv of
     (Some r, sv) \<Rightarrow> (sv, js, put_slot (Sent r) [job_reply j] ts)
   | (None, sv) \<Rightarrow> (sv, [], put_slot HungUp (map job_reply (j # js)) ts))"

section \<open>The server with channels as a step relation\<close>

datatype 'a qsys = Serving server "job list" "u32 \<Rightarrow> 'a thread option" | Halted directory

text \<open>Calls and returns of operations as the threads see them, beside the events of \<open>OB_System\<close>.\<close>

datatype q_event = Call u32 op | Back u32 op "op_output option" | Event sys_event

fun call_of :: "u32 \<Rightarrow> 'a prog \<Rightarrow> q_event list" where
  "call_of c (Apply op k) = [Call c op]"
| "call_of c _ = []"

fun back_of :: "u32 \<Rightarrow> 'a prog \<Rightarrow> svc_resp option \<Rightarrow> q_event list" where
  "back_of c (Apply op k) r = [Back c op (resp_out r)]"
| "back_of c _ r = []"

fun sendable :: "'a scope \<Rightarrow> 'a prog \<Rightarrow> bool" where
  "sendable sc (Apply op k) \<longleftrightarrow> op_ok sc op"
| "sendable sc (Length k) \<longleftrightarrow> True"
| "sendable sc _ \<longleftrightarrow> False"

text \<open>
  Sending fails when the executor has ended. A connection number is not given out again while its thread
  runs, which holds for the first \<open>2 ^ 32 - 1\<close> connections.
\<close>

inductive q_step :: "'a scope \<Rightarrow> (u64 \<Rightarrow> u64) \<Rightarrow> u64 \<Rightarrow> bool \<Rightarrow> 'a qsys \<Rightarrow> q_event list \<Rightarrow> 'a qsys \<Rightarrow> bool"
  for sc stamp interval fsync where
  q_accept: "server_accept s = (c, s') \<Longrightarrow> handler_ok sc c p \<Longrightarrow> ts c = None \<Longrightarrow>
     q_step sc stamp interval fsync (Serving s js ts) [Event (Accepted c)] (Serving s' js (ts(c \<mapsto> Runs p)))"
| q_send: "ts c = Some (Runs p) \<Longrightarrow> prog_req p = Some rq \<Longrightarrow> sendable sc p \<Longrightarrow> sv_alive (srv_service s) \<Longrightarrow>
     q_step sc stamp interval fsync (Serving s js ts) (call_of c p)
       (Serving s (js @ [\<lparr>job_req = rq, job_reply = c\<rparr>]) (ts(c \<mapsto> Waits p NoReply)))"
| q_refused: "ts c = Some (Runs p) \<Longrightarrow> sendable sc p \<Longrightarrow> \<not> sv_alive (srv_service s) \<Longrightarrow>
     q_step sc stamp interval fsync (Serving s js ts) (call_of c p @ back_of c p None) (Serving s js (ts(c \<mapsto> Runs (resume p None))))"
| q_execute: "io_ok sc os \<Longrightarrow> executor_turn stamp j js (sv_outcomes os (srv_service s)) ts = (sv, js', ts') \<Longrightarrow>
     q_step sc stamp interval fsync (Serving s (j # js) ts) [] (Serving (s\<lparr>srv_service := sv\<rparr>) js' ts')"
| q_receive: "ts c = Some (Waits p (Sent r)) \<Longrightarrow>
     q_step sc stamp interval fsync (Serving s js ts) (back_of c p (Some r)) (Serving s js (ts(c \<mapsto> Runs (resume p (Some r)))))"
| q_hung_up: "ts c = Some (Waits p HungUp) \<Longrightarrow>
     q_step sc stamp interval fsync (Serving s js ts) (back_of c p None) (Serving s js (ts(c \<mapsto> Runs (resume p None))))"
| q_reply: "ts c = Some (Runs (Reply b k)) \<Longrightarrow>
     q_step sc stamp interval fsync (Serving s js ts) [] (Serving s js (ts(c \<mapsto> Runs (k w))))"
| q_close: "ts c = Some (Runs (Return x)) \<Longrightarrow>
     q_step sc stamp interval fsync (Serving s js ts) [] (Serving s js (ts(c := None)))"
| q_kill: "q_step sc stamp interval fsync (Serving s js ts) [Event Crashed] (Halted (files_of s))"
| q_start: "io_ok sc os \<Longrightarrow>
     q_step sc stamp interval fsync (Halted w) [Event Started]
       (Serving (server_start (w\<lparr>outcomes := os\<rparr>) interval fsync tick) [] (\<lambda>_. None))"

inductive q_run :: "'a scope \<Rightarrow> (u64 \<Rightarrow> u64) \<Rightarrow> u64 \<Rightarrow> bool \<Rightarrow> q_event list \<Rightarrow> 'a qsys \<Rightarrow> bool"
  for sc stamp interval fsync where
  q_begin: "q_run sc stamp interval fsync [] (Halted empty_dir)"
| q_extend: "q_run sc stamp interval fsync tr q \<Longrightarrow> q_step sc stamp interval fsync q new q' \<Longrightarrow>
     q_run sc stamp interval fsync (tr @ new) q'"

lemmas q_execute_orderly = q_step.q_execute [where sc = orderly, unfolded scope_simps]

section \<open>Between call and return\<close>

text \<open>
  A trace in which the executor's events are written at the moment they happen is timely when each thread
  calls, has its operation done, and returns with that answer, in this order, one operation at a time.
\<close>

datatype phase = Idle | Pending op | Answered op "op_output option"

inductive timely :: "q_event list \<Rightarrow> (u32 \<Rightarrow> phase) \<Rightarrow> bool" where
  t_empty: "timely [] (\<lambda>_. Idle)"
| t_call: "timely tr ph \<Longrightarrow> ph c = Idle \<Longrightarrow> timely (tr @ [Call c op]) (ph(c := Pending op))"
| t_did: "timely tr ph \<Longrightarrow> ph c = Pending op \<Longrightarrow> timely (tr @ [Event (Did op r)]) (ph(c := Answered op r))"
| t_back: "timely tr ph \<Longrightarrow> ph c = Answered op r \<Longrightarrow> timely (tr @ [Back c op r]) (ph(c := Idle))"
| t_accept: "timely tr ph \<Longrightarrow> ph c = Idle \<Longrightarrow> timely (tr @ [Event (Accepted c)]) ph"
| t_crash: "timely tr ph \<Longrightarrow> timely (tr @ [Event Crashed]) (\<lambda>_. Idle)"
| t_start: "timely tr (\<lambda>_. Idle) \<Longrightarrow> timely (tr @ [Event Started]) (\<lambda>_. Idle)"

fun is_did :: "q_event \<Rightarrow> bool" where
  "is_did (Event (Did op r)) \<longleftrightarrow> True"
| "is_did _ \<longleftrightarrow> False"

definition visible :: "q_event list \<Rightarrow> q_event list" where
  "visible tr = filter (\<lambda>e. \<not> is_did e) tr"

definition inner :: "q_event list \<Rightarrow> sys_event list" where
  "inner tr = List.map_filter (\<lambda>e. case e of Event ev \<Rightarrow> Some ev | _ \<Rightarrow> None) tr"

definition called :: "q_event list \<Rightarrow> op list" where
  "called tr = List.map_filter (\<lambda>e. case e of Call c op \<Rightarrow> Some op | _ \<Rightarrow> None) tr"

lemma trace_parts [simp]:
  "visible [] = []" "visible (tr @ tr') = visible tr @ visible tr'" "visible [e] = (if is_did e then [] else [e])"
  "inner [] = []" "inner (tr @ tr') = inner tr @ inner tr'" "inner [Event ev] = [ev]" "inner [Call c op] = []" "inner [Back c op r] = []"
  "called [] = []" "called (tr @ tr') = called tr @ called tr'" "called [Event ev] = []" "called [Call c op] = [op]" "called [Back c op r] = []"
  by (simp_all add: visible_def inner_def called_def List.map_filter_def)

lemma call_back_parts [simp]:
  "visible (call_of c p) = call_of c p" "visible (back_of c p r) = back_of c p r" "inner (call_of c p) = []" "inner (back_of c p r) = []"
  by (cases p; simp)+

lemma called_visible [simp]: "called (visible tr) = called tr"
proof (induction tr rule: rev_induct)
  case (snoc e tr)
  then show ?case by (cases e) auto
qed simp

lemma accepts_visible [simp]: "accepts (inner (visible tr)) = accepts (inner tr)"
proof (induction tr rule: rev_induct)
  case (snoc e tr)
  then show ?case by (cases e rule: is_did.cases) auto
qed simp

text \<open>What is done has been called, so it is no longer in all than what is called.\<close>

definition pending_bytes :: "phase \<Rightarrow> nat" where
  "pending_bytes ph = (case ph of Pending op \<Rightarrow> log_bytes [(0, op)] | _ \<Rightarrow> 0)"

lemma sum_upd: "(\<Sum>c \<in> UNIV. f ((ph(c0 := x)) c)) + f (ph c0) = (\<Sum>c \<in> UNIV. f (ph c)) + (f x :: nat)" for ph :: "u32 \<Rightarrow> phase"
proof -
  have "(\<Sum>c \<in> UNIV. f (g c)) = f (g c0) + (\<Sum>c \<in> UNIV - {c0}. f (g c))" for g :: "u32 \<Rightarrow> phase" by (rule sum.remove) simp_all
  from this [of ph] this [of "ph(c0 := x)"] show ?thesis by simp
qed

lemma timely_bytes:
  "timely tr ph \<Longrightarrow> trace_bytes (inner tr) + (\<Sum>c \<in> UNIV. pending_bytes (ph c)) \<le> log_bytes (map (Pair 0) (called tr))"
proof (induction rule: timely.induct)
  case (t_call tr ph c op)
  then show ?case using sum_upd [of pending_bytes ph c "Pending op"] by (simp add: pending_bytes_def)
next
  case (t_did tr ph c op r)
  have "trace_bytes [Did op r] = log_bytes [(0, op)]" by (simp add: trace_bytes_def)
  then show ?case using t_did sum_upd [of pending_bytes ph c "Answered op r"] by (simp add: pending_bytes_def trace_bytes_append)
next
  case (t_back tr ph c op r)
  then show ?case using sum_upd [of pending_bytes ph c Idle] by (simp add: pending_bytes_def)
qed (simp_all add: pending_bytes_def trace_bytes_append, simp_all add: trace_bytes_def)

section \<open>No thread waits in vain\<close>

text \<open>Each queued job has its waiting thread and each waiting thread its job; a queue that is not empty has its executor.\<close>

fun q_inv :: "'a qsys \<Rightarrow> bool" where
  "q_inv (Serving s js ts) \<longleftrightarrow> distinct (map job_reply js) \<and> (js \<noteq> [] \<longrightarrow> sv_alive (srv_service s)) \<and>
     (\<forall>j \<in> set js. \<exists>p. ts (job_reply j) = Some (Waits p NoReply) \<and> prog_req p = Some (job_req j)) \<and>
     (\<forall>c p. ts c = Some (Waits p NoReply) \<longrightarrow> c \<in> job_reply ` set js) \<and> (\<forall>c p x. ts c = Some (Waits p x) \<longrightarrow> sendable orderly p)"
| "q_inv (Halted w) \<longleftrightarrow> True"

lemma put_slot_waits: "put_slot x cs ts c = Some (Waits p y) \<Longrightarrow> \<exists>z. ts c = Some (Waits p z)"
  by (auto simp: put_slot_def split: option.splits thread.splits reply_slot.splits if_splits)

lemma put_slot_NoReply:
  "x \<noteq> NoReply \<Longrightarrow> put_slot x cs ts c = Some (Waits p NoReply) \<longleftrightarrow> ts c = Some (Waits p NoReply) \<and> c \<notin> set cs"
  by (auto simp: put_slot_def split: option.splits thread.splits reply_slot.splits)

lemma exec_job_alive: "exec_job stamp rq sv = (r, sv') \<Longrightarrow> sv_alive sv \<Longrightarrow> sv_alive sv' \<longleftrightarrow> r \<noteq> None"
  by (cases rq) (auto simp: svc_execute_def Let_def split: prod.splits sum.splits)

lemma server_accept_service: "server_accept s = (c, s') \<Longrightarrow> srv_service s' = srv_service s"
  by (auto simp: server_accept_def)

lemma q_step_inv: "q_step orderly stamp interval fsync q new q' \<Longrightarrow> q_inv q \<Longrightarrow> q_inv q'"
proof (induction rule: q_step.induct)
  case (q_execute os j js s ts sv js' ts')
  obtain r sv1 where e: "exec_job stamp (job_req j) (sv_outcomes os (srv_service s)) = (r, sv1)" by fastforce
  have a: "sv_alive sv1 \<longleftrightarrow> r \<noteq> None" using exec_job_alive [OF e] q_execute.prems by simp
  have j: "job_reply j \<notin> job_reply ` set js" using q_execute.prems by auto
  have send: "sendable orderly p" if "put_slot x cs ts c = Some (Waits p y)" for x cs c p y
    using put_slot_waits [OF that] q_execute.prems by auto
  have W: "ts c = Some (Waits p NoReply) \<Longrightarrow> c = job_reply j \<or> c \<in> job_reply ` set js" for c p using q_execute.prems by auto
  have J: "i \<in> set js \<Longrightarrow> \<exists>p. ts (job_reply i) = Some (Waits p NoReply) \<and> prog_req p = Some (job_req i)" for i using q_execute.prems by auto
  show ?case
  proof (cases r)
    case None
    then have "sv = sv1" "js' = []" "ts' = put_slot HungUp (map job_reply (j # js)) ts"
      using q_execute.hyps(2) e by (simp_all add: executor_turn_def)
    moreover have "put_slot HungUp (map job_reply (j # js)) ts c \<noteq> Some (Waits p NoReply)" for c p
      using W [of c p] by (auto simp: put_slot_NoReply)
    ultimately show ?thesis using send by simp
  next
    case (Some x)
    then have "sv = sv1" "js' = js" "ts' = put_slot (Sent x) [job_reply j] ts"
      using q_execute.hyps(2) e by (simp_all add: executor_turn_def)
    moreover have "distinct (map job_reply js)" using q_execute.prems by simp
    moreover have "\<exists>p. put_slot (Sent x) [job_reply j] ts (job_reply i) = Some (Waits p NoReply) \<and> prog_req p = Some (job_req i)"
      if i: "i \<in> set js" for i
    proof -
      have "job_reply i \<noteq> job_reply j" using i j by (metis image_eqI)
      then show ?thesis using J [OF i] by (simp add: put_slot_NoReply)
    qed
    moreover have "c \<in> job_reply ` set js" if "put_slot (Sent x) [job_reply j] ts c = Some (Waits p NoReply)" for c p
      using that W [of c p] by (simp add: put_slot_NoReply)
    ultimately show ?thesis using a Some send by simp
  qed
next
  case (q_send ts c p rq s js)
  then have "c \<notin> job_reply ` set js" by fastforce
  then show ?case using q_send by auto
qed (auto simp: server_accept_service)

lemma q_run_inv: "q_run orderly stamp interval fsync tr q \<Longrightarrow> q_inv q"
  by (induction rule: q_run.induct) (auto intro: q_step_inv)

section \<open>Simulation\<close>

definition phase_sent :: "'a prog \<Rightarrow> phase" where
  "phase_sent p = (case p of Apply op k \<Rightarrow> Pending op | _ \<Rightarrow> Idle)"

definition phase_done :: "'a prog \<Rightarrow> svc_resp option \<Rightarrow> phase" where
  "phase_done p r = (case p of Apply op k \<Rightarrow> Answered op (resp_out r) | _ \<Rightarrow> Idle)"

text \<open>
  A thread beside the program it has left to run: one whose answer has been sent has taken the step
  already. Of a call that was hung up on, either has happened.
\<close>

fun thread_sim :: "bool \<Rightarrow> 'a thread option \<Rightarrow> 'a prog option \<Rightarrow> phase \<Rightarrow> bool" where
  "thread_sim alive None a ph \<longleftrightarrow> a = None \<and> ph = Idle"
| "thread_sim alive (Some (Runs p)) a ph \<longleftrightarrow> a = Some p \<and> ph = Idle"
| "thread_sim alive (Some (Waits p NoReply)) a ph \<longleftrightarrow> a = Some p \<and> ph = phase_sent p"
| "thread_sim alive (Some (Waits p (Sent r))) a ph \<longleftrightarrow> a = Some (resume p (Some r)) \<and> ph = phase_done p (Some r)"
| "thread_sim alive (Some (Waits p HungUp)) a ph \<longleftrightarrow> \<not> alive \<and>
     (a = Some p \<and> ph = phase_sent p \<or> a = Some (resume p None) \<and> ph = phase_done p None)"

text \<open>Servers that differ at most in the outcomes of system calls yet to be made.\<close>

definition same_srv :: "server \<Rightarrow> server \<Rightarrow> bool" where
  "same_srv s s' \<longleftrightarrow> srv_conn_id s = srv_conn_id s' \<and> sv_outcomes [] (srv_service s) = sv_outcomes [] (srv_service s')"

fun q_sim :: "'a qsys \<Rightarrow> 'a sys \<Rightarrow> (u32 \<Rightarrow> phase) \<Rightarrow> bool" where
  "q_sim (Serving s js ts) (Running s' cs) ph \<longleftrightarrow> same_srv s s' \<and>
     (\<forall>c. thread_sim (sv_alive (srv_service s)) (ts c) (cs c) (ph c)) \<and> (\<forall>c p. cs c = Some p \<longrightarrow> (\<exists>n. numbered c p n))"
| "q_sim (Halted w) (Stopped w') ph \<longleftrightarrow> w\<lparr>outcomes := []\<rparr> = w'\<lparr>outcomes := []\<rparr> \<and> ph = (\<lambda>_. Idle)"
| "q_sim _ _ ph \<longleftrightarrow> False"

lemma sv_outcomes_twice: "sv_outcomes os (sv_outcomes os' sv) = sv_outcomes os sv"
  by (simp add: sv_outcomes_def set_outcomes_def)

lemma same_srvD:
  assumes "same_srv s s'"
  shows "sv_outcomes os (srv_service s) = sv_outcomes os (srv_service s')" "sv_alive (srv_service s) = sv_alive (srv_service s')"
    "srv_conn_id s = srv_conn_id s'"
proof -
  have e: "sv_outcomes [] (srv_service s) = sv_outcomes [] (srv_service s')" using assms by (simp add: same_srv_def)
  show "sv_outcomes os (srv_service s) = sv_outcomes os (srv_service s')" using arg_cong [OF e, of "sv_outcomes os"] by (simp add: sv_outcomes_twice)
  show "sv_alive (srv_service s) = sv_alive (srv_service s')" using arg_cong [OF e, of sv_alive] by simp
qed (use assms in \<open>simp add: same_srv_def\<close>)

lemma same_srv_files:
  assumes "same_srv s s'"
  shows "(files_of s)\<lparr>outcomes := []\<rparr> = (files_of s')\<lparr>outcomes := []\<rparr>"
proof -
  have "sv_outcomes [] (srv_service s) = sv_outcomes [] (srv_service s')" using assms by (simp add: same_srv_def)
  from arg_cong [OF this, of "\<lambda>sv. d_dir (e_dur (sv_engine sv))"] show ?thesis by (simp add: files_of_def set_outcomes_def)
qed

text \<open>The executor's turn for a request, also when it is gone.\<close>

definition svc_turn :: "(u64 \<Rightarrow> u64) \<Rightarrow> req \<Rightarrow> service \<Rightarrow> svc_resp option \<times> service" where
  "svc_turn stamp rq sv = (if sv_alive sv then exec_job stamp rq sv else (None, sv))"

text \<open>The turn is a step of the abstract server, written into the trace where the executor takes it.\<close>

lemma abstract_turn:
  assumes "sys_run orderly stamp interval fsync (inner tr) (Running s cs)" "timely tr ph" "cs c = Some p" "prog_req p = Some rq"
    and "sendable orderly p" "ph c = phase_sent p" "whole_writes os" "svc_turn stamp rq (sv_outcomes os (srv_service s)) = (r, sv)"
  shows "\<exists>new sv'. visible new = [] \<and> timely (tr @ new) (ph(c := phase_done p r)) \<and> sv_outcomes [] sv' = sv_outcomes [] sv \<and>
    sys_run orderly stamp interval fsync (inner (tr @ new)) (Running (s\<lparr>srv_service := sv'\<rparr>) (cs(c \<mapsto> resume p r)))"
proof (cases p)
  case (Apply op k)
  have a: "svc_apply stamp op (sv_outcomes os (srv_service s)) = (resp_out r, sv)"
    using assms(4,8) Apply by (auto simp: svc_turn_def svc_apply_def split: if_splits prod.splits option.split)
      (metis resp_out.simps(1,2) option.exhaust option.map(1,2))+
  have "sys_step orderly stamp interval fsync (Running s cs) [Did op (resp_out r)] (Running (s\<lparr>srv_service := sv\<rparr>) (cs(c \<mapsto> k (resp_out r))))"
    using assms(3,5,7) Apply a by (intro job_orderly) simp_all
  from sys_run.extend [OF assms(1) this]
  have "sys_run orderly stamp interval fsync (inner (tr @ [Event (Did op (resp_out r))])) (Running (s\<lparr>srv_service := sv\<rparr>) (cs(c \<mapsto> resume p r)))"
    by (simp add: Apply)
  moreover have "timely (tr @ [Event (Did op (resp_out r))]) (ph(c := phase_done p r))"
    using timely.t_did [OF assms(2), of c op "resp_out r"] assms(6) Apply by (simp add: phase_sent_def phase_done_def)
  ultimately show ?thesis by (intro exI [of _ "[Event (Did op (resp_out r))]"] exI [of _ sv]) simp
next
  case (Length k)
  have r: "resp_len r = svc_len (srv_service s)" "sv_outcomes [] (srv_service s) = sv_outcomes [] sv"
    using assms(4,8) Length by (auto simp: svc_turn_def svc_len_def set_outcomes_def sv_outcomes_twice split: if_splits)
  have "sys_step orderly stamp interval fsync (Running s cs) [] (Running s (cs(c \<mapsto> k (resp_len r))))"
    using assms(3) Length unfolding r(1) by (intro sys_step.count) simp
  from sys_run.extend [OF assms(1) this] have "sys_run orderly stamp interval fsync (inner tr) (Running (s\<lparr>srv_service := srv_service s\<rparr>) (cs(c \<mapsto> resume p r)))"
    by (simp add: Length)
  moreover have "ph(c := phase_done p r) = ph" using assms(6) Length by (auto simp: phase_sent_def phase_done_def)
  ultimately show ?thesis using assms(2) r(2) by (intro exI [of _ "[]"] exI [of _ "srv_service s"]) simp
qed (use assms(5) in auto)

text \<open>Calls and returns on the trace.\<close>

lemma timely_call: "timely tr ph \<Longrightarrow> ph c = Idle \<Longrightarrow> timely (tr @ call_of c p) (ph(c := phase_sent p))"
  by (cases p) (auto simp: phase_sent_def fun_upd_idem intro: timely.t_call)

lemma timely_back: "timely tr ph \<Longrightarrow> ph c = phase_done p r \<Longrightarrow> timely (tr @ back_of c p r) (ph(c := Idle))"
  by (cases p) (auto simp: phase_done_def fun_upd_idem intro: timely.t_back)

lemma numbered_resume: "numbered c p n \<Longrightarrow> \<exists>m. numbered c (resume p r) m"
  by (cases p) auto

lemma sendable_req: "sendable orderly p \<Longrightarrow> \<exists>rq. prog_req p = Some rq"
  by (cases p) auto

lemma q_sim_update:
  assumes "q_sim (Serving s js ts) (Running s0 cs) ph" "same_srv s1 s2" "sv_alive (srv_service s1) = sv_alive (srv_service s)"
    and "thread_sim (sv_alive (srv_service s)) t a x" "\<And>p. a = Some p \<Longrightarrow> \<exists>n. numbered c p n"
  shows "q_sim (Serving s1 js' (ts(c := t))) (Running s2 (cs(c := a))) (ph(c := x))"
  using assms by auto

text \<open>The turn of a request when the executor is gone.\<close>

lemma dead_turn:
  assumes "sys_run orderly stamp interval fsync (inner tr) (Running s cs)" "timely tr ph" "cs c = Some p" "sendable orderly p" "ph c = phase_sent p"
    and "\<not> sv_alive (srv_service s)"
  shows "\<exists>new s'. visible new = [] \<and> timely (tr @ new) (ph(c := phase_done p None)) \<and> same_srv s' s \<and>
    sys_run orderly stamp interval fsync (inner (tr @ new)) (Running s' (cs(c \<mapsto> resume p None)))"
proof -
  obtain rq where rq: "prog_req p = Some rq" using sendable_req [OF assms(4)] by blast
  have "whole_writes []" by (simp add: whole_writes_def)
  moreover have "svc_turn stamp rq (sv_outcomes [] (srv_service s)) = (None, sv_outcomes [] (srv_service s))" using assms(6) by (simp add: svc_turn_def)
  ultimately obtain new sv' where n: "visible new = []" "timely (tr @ new) (ph(c := phase_done p None))"
      "sv_outcomes [] sv' = sv_outcomes [] (sv_outcomes [] (srv_service s))"
      "sys_run orderly stamp interval fsync (inner (tr @ new)) (Running (s\<lparr>srv_service := sv'\<rparr>) (cs(c \<mapsto> resume p None)))"
    using abstract_turn [OF assms(1-3) rq assms(4,5)] by blast
  have "same_srv (s\<lparr>srv_service := sv'\<rparr>) s" using n(3) by (simp add: same_srv_def sv_outcomes_twice)
  then show ?thesis using n by blast
qed

text \<open>What an executor's turn does to the threads, on both sides.\<close>

lemma execute_sim:
  assumes "q_sim (Serving s (j # js) ts) (Running s0 cs) ph" "q_inv (Serving s (j # js) ts)" "ts (job_reply j) = Some (Waits p NoReply)"
    and "exec_job stamp (job_req j) sv0 = (r, sv)" "sv_alive sv0" "sv_outcomes [] sv' = sv_outcomes [] sv"
    and "executor_turn stamp j js sv0 ts = (sv, js', ts')"
  shows "q_sim (Serving (s\<lparr>srv_service := sv\<rparr>) js' ts') (Running (s0\<lparr>srv_service := sv'\<rparr>) (cs(job_reply j \<mapsto> resume p r)))
    (ph(job_reply j := phase_done p r))"
proof -
  let ?c = "job_reply j"
  have alive: "sv_alive (srv_service s)" using assms(2) by simp
  have T: "thread_sim True (ts c) (cs c) (ph c)" for c using assms(1) alive by simp
  have N: "cs c = Some q \<Longrightarrow> \<exists>n. numbered c q n" for c q using assms(1) by simp
  have W: "ts c = Some (Waits q NoReply) \<Longrightarrow> c = ?c \<or> c \<in> job_reply ` set js" for c q using assms(2) by auto
  have a: "sv_alive sv \<longleftrightarrow> r \<noteq> None" by (rule exec_job_alive [OF assms(4,5)])
  have "thread_sim (sv_alive sv) (ts' c) ((cs(?c \<mapsto> resume p r)) c) ((ph(?c := phase_done p r)) c)" for c
  proof (cases r)
    case None
    then have t: "ts' = put_slot HungUp (map job_reply (j # js)) ts" using assms(4,7) by (simp add: executor_turn_def)
    show ?thesis
    proof (cases "c = ?c")
      case True
      then show ?thesis using None a t assms(3) by (simp add: put_slot_def)
    next
      case False
      then show ?thesis using None a t T [of c] W [of c]
        by (auto simp: put_slot_def split: option.splits thread.splits reply_slot.splits)
    qed
  next
    case (Some x)
    then have t: "ts' = put_slot (Sent x) [?c] ts" using assms(4,7) by (simp add: executor_turn_def)
    show ?thesis using Some a t T [of c] assms(3)
      by (cases "c = ?c") (auto simp: put_slot_def split: option.splits thread.splits reply_slot.splits)
  qed
  moreover have "\<exists>n. numbered c q n" if "(cs(?c \<mapsto> resume p r)) c = Some q" for c q
  proof (cases "c = ?c")
    case True
    have "cs ?c = Some p" using T [of ?c] assms(3) by simp
    from N [OF this] obtain n where "numbered ?c p n" by blast
    from numbered_resume [OF this, of r] show ?thesis using that True by auto
  next
    case False
    then show ?thesis using that N by simp
  qed
  moreover have "same_srv (s\<lparr>srv_service := sv\<rparr>) (s0\<lparr>srv_service := sv'\<rparr>)" using assms(1,6) by (simp add: same_srv_def)
  ultimately show ?thesis by simp
qed

section \<open>Every run with channels is a run of the server\<close>

definition q_explained :: "(u64 \<Rightarrow> u64) \<Rightarrow> u64 \<Rightarrow> bool \<Rightarrow> q_event list \<Rightarrow> 'a qsys \<Rightarrow> bool" where
  "q_explained stamp interval fsync tr q \<longleftrightarrow> (\<exists>full ph n. timely full ph \<and> visible full = tr \<and>
     sys_run orderly stamp interval fsync (inner full) n \<and> q_sim q n ph)"

lemma q_explainedI:
  "timely full ph \<Longrightarrow> visible full = tr \<Longrightarrow> sys_run orderly stamp interval fsync (inner full) n \<Longrightarrow> q_sim q n ph \<Longrightarrow>
   q_explained stamp interval fsync tr q"
  by (auto simp: q_explained_def)

lemma q_sim_Serving: "q_sim (Serving s js ts) n ph \<Longrightarrow> \<exists>s0 cs. n = Running s0 cs"
  by (cases n) auto

lemma q_sim_Halted: "q_sim (Halted w) n ph \<Longrightarrow> \<exists>w0. n = Stopped w0"
  by (cases n) auto

text \<open>A call that gets no answer, of a thread whose executor is gone.\<close>

lemma refused_sim:
  assumes "q_sim (Serving s js ts) (Running s0 cs) ph" "timely full ph" "sys_run orderly stamp interval fsync (inner full) (Running s0 cs)"
    and "cs c = Some p" "sendable orderly p" "ph c = phase_sent p" "\<not> sv_alive (srv_service s)"
  shows "q_explained stamp interval fsync (visible full @ back_of c p None) (Serving s js (ts(c \<mapsto> Runs (resume p None))))"
proof -
  have s0: "same_srv s s0" "\<not> sv_alive (srv_service s0)" using assms(1,7) same_srvD(2) by auto
  obtain new s' where n: "visible new = []" "timely (full @ new) (ph(c := phase_done p None))" "same_srv s' s0"
      "sys_run orderly stamp interval fsync (inner (full @ new)) (Running s' (cs(c \<mapsto> resume p None)))"
    using dead_turn [OF assms(3,2,4,5,6) s0(2)] by blast
  have t: "timely ((full @ new) @ back_of c p None) (ph(c := Idle))" using timely_back [OF n(2), of c p None] by simp
  have "same_srv s s'" using s0(1) n(3) by (simp add: same_srv_def)
  have "\<exists>m. numbered c q m" if "Some (resume p None) = Some q" for q
  proof -
    have "\<exists>m. numbered c p m" using assms(1,4) by simp
    then obtain m where "numbered c p m" by blast
    from numbered_resume [OF this, of None] show ?thesis using that by auto
  qed
  then have q: "q_sim (Serving s js (ts(c \<mapsto> Runs (resume p None)))) (Running s' (cs(c \<mapsto> resume p None))) (ph(c := Idle))"
    by (intro q_sim_update [OF assms(1) \<open>same_srv s s'\<close>]) simp_all
  show ?thesis by (rule q_explainedI [OF t _ _ q]) (use n(1,4) in simp_all)
qed

text \<open>What a running server's explanation consists of, and its state at one thread.\<close>

lemma q_explained_elim:
  assumes "q_explained stamp interval fsync tr (Serving s js ts)"
  obtains full ph s0 cs where "timely full ph" "visible full = tr" "sys_run orderly stamp interval fsync (inner full) (Running s0 cs)"
    "q_sim (Serving s js ts) (Running s0 cs) ph" "same_srv s s0"
    "\<And>c. thread_sim (sv_alive (srv_service s)) (ts c) (cs c) (ph c)" "\<And>c p. cs c = Some p \<Longrightarrow> \<exists>n. numbered c p n"
proof -
  obtain full ph n where n: "timely full ph" "visible full = tr" "sys_run orderly stamp interval fsync (inner full) n" "q_sim (Serving s js ts) n ph"
    using assms unfolding q_explained_def by blast
  from q_sim_Serving [OF n(4)] obtain s0 cs where "n = Running s0 cs" by blast
  then show thesis using n that by simp
qed

subsection \<open>The steps\<close>

lemma accept_sim:
  assumes "q_explained stamp interval fsync tr (Serving s js ts)"
    and "server_accept s = (c, s')" "numbered c p 0" "ts c = None"
  shows "q_explained stamp interval fsync (tr @ [Event (Accepted c)]) (Serving s' js (ts(c \<mapsto> Runs p)))"
proof -
  from assms(1) obtain full ph s0 cs where I: "timely full ph" "visible full = tr" "sys_run orderly stamp interval fsync (inner full) (Running s0 cs)"
      "q_sim (Serving s js ts) (Running s0 cs) ph" and S: "same_srv s s0"
    and T: "\<And>c. thread_sim (sv_alive (srv_service s)) (ts c) (cs c) (ph c)" and N: "\<And>c p. cs c = Some p \<Longrightarrow> \<exists>n. numbered c p n"
    by (rule q_explained_elim) blast
  let ?s = "s0\<lparr>srv_conn_id := srv_conn_id s0 + 1\<rparr>"
  have a: "server_accept s0 = (c, ?s)" "same_srv s' ?s" "srv_service s' = srv_service s" using assms(2) S by (auto simp: server_accept_def same_srv_def)
  have r: "sys_run orderly stamp interval fsync (inner full @ [Accepted c]) (Running ?s (cs(c \<mapsto> p)))"
    by (rule sys_run.extend [OF I(3) accept_orderly [OF a(1) assms(3)]])
  have q: "q_sim (Serving s' js (ts(c \<mapsto> Runs p))) (Running ?s (cs(c \<mapsto> p))) (ph(c := Idle))"
    using assms(3) a(3) by (intro q_sim_update [OF I(4) a(2)]) auto
  have c: "ph c = Idle" using T [of c] assms(4) by simp
  then have "ph(c := Idle) = ph" by auto
  then have t: "timely (full @ [Event (Accepted c)]) (ph(c := Idle))" using I(1) c by (simp add: timely.t_accept)
  show ?thesis by (rule q_explainedI [OF t _ _ q]) (use r I(2) in simp_all)
qed

lemma send_sim:
  assumes "q_explained stamp interval fsync tr (Serving s js ts)"
    and "ts c = Some (Runs p)"
  shows "q_explained stamp interval fsync (tr @ call_of c p) (Serving s (js @ [j]) (ts(c \<mapsto> Waits p NoReply)))"
proof -
  from assms(1) obtain full ph s0 cs where I: "timely full ph" "visible full = tr" "sys_run orderly stamp interval fsync (inner full) (Running s0 cs)"
      "q_sim (Serving s js ts) (Running s0 cs) ph" and S: "same_srv s s0"
    and T: "\<And>c. thread_sim (sv_alive (srv_service s)) (ts c) (cs c) (ph c)" and N: "\<And>c p. cs c = Some p \<Longrightarrow> \<exists>n. numbered c p n"
    by (rule q_explained_elim) blast
  have c: "cs c = Some p" "ph c = Idle" using T [of c] assms(2) by simp_all
  then have u: "cs(c \<mapsto> p) = cs" by auto
  have q: "q_sim (Serving s (js @ [j]) (ts(c \<mapsto> Waits p NoReply))) (Running s0 (cs(c \<mapsto> p))) (ph(c := phase_sent p))"
    using N [OF c(1)] by (intro q_sim_update [OF I(4) S]) auto
  show ?thesis by (rule q_explainedI [OF timely_call [OF I(1) c(2)] _ _ q]) (use I u in simp_all)
qed

lemma refuse_sim:
  assumes "q_explained stamp interval fsync tr (Serving s js ts)"
    and "ts c = Some (Runs p)" "sendable orderly p" "\<not> sv_alive (srv_service s)"
  shows "q_explained stamp interval fsync (tr @ call_of c p @ back_of c p None) (Serving s js (ts(c \<mapsto> Runs (resume p None))))"
proof -
  from assms(1) obtain full ph s0 cs where I: "timely full ph" "visible full = tr" "sys_run orderly stamp interval fsync (inner full) (Running s0 cs)"
      "q_sim (Serving s js ts) (Running s0 cs) ph" and S: "same_srv s s0"
    and T: "\<And>c. thread_sim (sv_alive (srv_service s)) (ts c) (cs c) (ph c)" and N: "\<And>c p. cs c = Some p \<Longrightarrow> \<exists>n. numbered c p n"
    by (rule q_explained_elim) blast
  have c: "cs c = Some p" "ph c = Idle" using T [of c] assms(2) by simp_all
  then have u: "cs(c \<mapsto> p) = cs" by auto
  have q: "q_sim (Serving s js (ts(c \<mapsto> Waits p NoReply))) (Running s0 (cs(c \<mapsto> p))) (ph(c := phase_sent p))"
    using N [OF c(1)] by (intro q_sim_update [OF I(4) S]) auto
  have "q_explained stamp interval fsync (visible (full @ call_of c p) @ back_of c p None)
      (Serving s js (ts(c \<mapsto> Waits p NoReply, c \<mapsto> Runs (resume p None))))"
    by (rule refused_sim [OF q timely_call [OF I(1) c(2)]]) (use I(3) u c(1) assms(3,4) in simp_all)
  then show ?thesis using I(2) by simp
qed

lemma execute_turn_sim:
  assumes "q_explained stamp interval fsync tr (Serving s (j # js) ts)"
    and "q_inv (Serving s (j # js) ts)" "whole_writes os"
    and "executor_turn stamp j js (sv_outcomes os (srv_service s)) ts = (sv, js', ts')"
  shows "q_explained stamp interval fsync (tr) (Serving (s\<lparr>srv_service := sv\<rparr>) js' ts')"
proof -
  from assms(1) obtain full ph s0 cs where I: "timely full ph" "visible full = tr" "sys_run orderly stamp interval fsync (inner full) (Running s0 cs)"
      "q_sim (Serving s (j # js) ts) (Running s0 cs) ph" and S: "same_srv s s0"
    and T: "\<And>c. thread_sim (sv_alive (srv_service s)) (ts c) (cs c) (ph c)" and N: "\<And>c p. cs c = Some p \<Longrightarrow> \<exists>n. numbered c p n"
    by (rule q_explained_elim) blast
  obtain p where p: "ts (job_reply j) = Some (Waits p NoReply)" "prog_req p = Some (job_req j)" "sv_alive (srv_service s)"
    using assms(2) by auto
  have send: "sendable orderly p" using assms(2) p(1) by simp blast
  have c: "cs (job_reply j) = Some p" "ph (job_reply j) = phase_sent p" using T [of "job_reply j"] p(1) by simp_all
  obtain r where e: "exec_job stamp (job_req j) (sv_outcomes os (srv_service s)) = (r, sv)"
    using assms(4) by (auto simp: executor_turn_def split: prod.splits option.splits)
  then have "svc_turn stamp (job_req j) (sv_outcomes os (srv_service s0)) = (r, sv)"
    using p(3) same_srvD [OF S] by (simp add: svc_turn_def)
  from abstract_turn [OF I(3,1) c(1) p(2) send c(2) assms(3) this]
  obtain new sv' where n: "visible new = []" "timely (full @ new) (ph(job_reply j := phase_done p r))" "sv_outcomes [] sv' = sv_outcomes [] sv"
    "sys_run orderly stamp interval fsync (inner (full @ new)) (Running (s0\<lparr>srv_service := sv'\<rparr>) (cs(job_reply j \<mapsto> resume p r)))" by blast
  have q: "q_sim (Serving (s\<lparr>srv_service := sv\<rparr>) js' ts') (Running (s0\<lparr>srv_service := sv'\<rparr>) (cs(job_reply j \<mapsto> resume p r)))
      (ph(job_reply j := phase_done p r))"
    using execute_sim [OF I(4) assms(2) p(1) e _ n(3) assms(4)] p(3) by simp
  show ?thesis by (rule q_explainedI [OF n(2) _ n(4) q]) (use I(2) n(1) in simp)
qed

lemma receive_sim:
  assumes "q_explained stamp interval fsync tr (Serving s js ts)"
    and "ts c = Some (Waits p (Sent r))"
  shows "q_explained stamp interval fsync (tr @ back_of c p (Some r)) (Serving s js (ts(c \<mapsto> Runs (resume p (Some r)))))"
proof -
  from assms(1) obtain full ph s0 cs where I: "timely full ph" "visible full = tr" "sys_run orderly stamp interval fsync (inner full) (Running s0 cs)"
      "q_sim (Serving s js ts) (Running s0 cs) ph" and S: "same_srv s s0"
    and T: "\<And>c. thread_sim (sv_alive (srv_service s)) (ts c) (cs c) (ph c)" and N: "\<And>c p. cs c = Some p \<Longrightarrow> \<exists>n. numbered c p n"
    by (rule q_explained_elim) blast
  have c: "cs c = Some (resume p (Some r))" "ph c = phase_done p (Some r)" using T [of c] assms(2) by simp_all
  then have u: "cs(c \<mapsto> resume p (Some r)) = cs" by auto
  have q: "q_sim (Serving s js (ts(c \<mapsto> Runs (resume p (Some r))))) (Running s0 (cs(c \<mapsto> resume p (Some r)))) (ph(c := Idle))"
    using N [OF c(1)] by (intro q_sim_update [OF I(4) S]) auto
  show ?thesis by (rule q_explainedI [OF timely_back [OF I(1) c(2)] _ _ q]) (use I u in simp_all)
qed

lemma hung_up_sim:
  assumes "q_explained stamp interval fsync tr (Serving s js ts)"
    and "ts c = Some (Waits p HungUp)" "sendable orderly p"
  shows "q_explained stamp interval fsync (tr @ back_of c p None) (Serving s js (ts(c \<mapsto> Runs (resume p None))))"
proof -
  from assms(1) obtain full ph s0 cs where I: "timely full ph" "visible full = tr" "sys_run orderly stamp interval fsync (inner full) (Running s0 cs)"
      "q_sim (Serving s js ts) (Running s0 cs) ph" and S: "same_srv s s0"
    and T: "\<And>c. thread_sim (sv_alive (srv_service s)) (ts c) (cs c) (ph c)" and N: "\<And>c p. cs c = Some p \<Longrightarrow> \<exists>n. numbered c p n"
    by (rule q_explained_elim) blast
  consider "cs c = Some p" "ph c = phase_sent p" "\<not> sv_alive (srv_service s)" | "cs c = Some (resume p None)" "ph c = phase_done p None"
    using T [of c] assms(2) by auto
  then show ?thesis
  proof cases
    case 1
    from refused_sim [OF I(4,1,3) 1(1) assms(3) 1(2,3)] show ?thesis using I(2) by simp
  next
    case 2
    then have u: "cs(c \<mapsto> resume p None) = cs" by auto
    have q: "q_sim (Serving s js (ts(c \<mapsto> Runs (resume p None)))) (Running s0 (cs(c \<mapsto> resume p None))) (ph(c := Idle))"
      using N [OF 2(1)] by (intro q_sim_update [OF I(4) S]) auto
    show ?thesis by (rule q_explainedI [OF timely_back [OF I(1) 2(2)] _ _ q]) (use I u in simp_all)
  qed
qed

text \<open>Steps of a thread by itself, the same on both sides: a reply and the end.\<close>

lemma local_sim:
  assumes "q_explained stamp interval fsync tr (Serving s js ts)"
    and "ts c = Some (Runs p)" "\<And>n. numbered c p n \<Longrightarrow> \<forall>q. a = Some q \<longrightarrow> (\<exists>m. numbered c q m)"
    and "\<And>s cs. cs c = Some p \<Longrightarrow> sys_step orderly stamp interval fsync (Running s cs) [] (Running s (cs(c := a)))"
  shows "q_explained stamp interval fsync (tr) (Serving s js (ts(c := map_option Runs a)))"
proof -
  from assms(1) obtain full ph s0 cs where I: "timely full ph" "visible full = tr" "sys_run orderly stamp interval fsync (inner full) (Running s0 cs)"
      "q_sim (Serving s js ts) (Running s0 cs) ph" and S: "same_srv s s0"
    and T: "\<And>c. thread_sim (sv_alive (srv_service s)) (ts c) (cs c) (ph c)" and N: "\<And>c p. cs c = Some p \<Longrightarrow> \<exists>n. numbered c p n"
    by (rule q_explained_elim) blast
  have c: "cs c = Some p" "ph(c := Idle) = ph" using T [of c] assms(2) by auto
  obtain n where "numbered c p n" using N [OF c(1)] by blast
  from assms(3) [OF this] have q: "q_sim (Serving s js (ts(c := map_option Runs a))) (Running s0 (cs(c := a))) (ph(c := Idle))"
    by (intro q_sim_update [OF I(4) S]) (cases a; simp)+
  have r: "sys_run orderly stamp interval fsync (inner full @ []) (Running s0 (cs(c := a)))" by (rule sys_run.extend [OF I(3) assms(4) [of cs, OF c(1)]])
  show ?thesis by (rule q_explainedI [OF _ _ _ q, of full]) (use I r c(2) in simp_all)
qed

lemma kill_sim:
  fixes ts :: "u32 \<Rightarrow> 'a thread option"
  assumes "q_explained stamp interval fsync tr (Serving s js ts)"
  shows "q_explained stamp interval fsync (tr @ [Event Crashed]) (Halted (files_of s) :: 'a qsys)"
proof -
  from assms(1) obtain full ph s0 cs where I: "timely full ph" "visible full = tr" "sys_run orderly stamp interval fsync (inner full) (Running s0 cs)"
      "q_sim (Serving s js ts) (Running s0 cs) ph" and S: "same_srv s s0"
    and T: "\<And>c. thread_sim (sv_alive (srv_service s)) (ts c) (cs c) (ph c)" and N: "\<And>c p. cs c = Some p \<Longrightarrow> \<exists>n. numbered c p n"
    by (rule q_explained_elim) blast
  have q: "q_sim (Halted (files_of s) :: 'a qsys) (Stopped (files_of s0)) (\<lambda>_. Idle)" using S same_srv_files by simp
  show ?thesis by (rule q_explainedI [OF timely.t_crash [OF I(1)] _ _ q]) (use I(2) sys_run.extend [OF I(3) sys_step.kill] in simp_all)
qed

lemma start_sim:
  assumes "q_explained stamp interval fsync tr (Halted w :: 'a qsys)" "whole_writes os"
  shows "q_explained stamp interval fsync (tr @ [Event Started]) (Serving (server_start (w\<lparr>outcomes := os\<rparr>) interval fsync tick) [] (\<lambda>_. None) :: 'a qsys)"
proof -
  obtain full ph n where n: "timely full ph" "visible full = tr" "sys_run orderly stamp interval fsync (inner full) n" "q_sim (Halted w :: 'a qsys) n ph"
    using assms(1) unfolding q_explained_def by blast
  from q_sim_Halted [OF n(4)] obtain w0 where w0: "n = Stopped w0" by blast
  have "w\<lparr>outcomes := []\<rparr> = w0\<lparr>outcomes := []\<rparr>" using n(4) w0 by simp
  from arg_cong [OF this, of "outcomes_update (\<lambda>_. os)"] have "w\<lparr>outcomes := os\<rparr> = w0\<lparr>outcomes := os\<rparr>" by simp
  then have q: "q_sim (Serving (server_start (w\<lparr>outcomes := os\<rparr>) interval fsync tick) [] (\<lambda>_. None) :: 'a qsys)
      (Running (server_start (w0\<lparr>outcomes := os\<rparr>) interval fsync tick) (\<lambda>_. None)) (\<lambda>_. Idle)" by (simp add: same_srv_def)
  have t: "timely (full @ [Event Started]) (\<lambda>_. Idle)" using n(1,4) w0 by (intro timely.t_start) simp
  show ?thesis by (rule q_explainedI [OF t _ _ q]) (use n(2) sys_run.extend [OF n(3) [unfolded w0] start_orderly [OF assms(2)]] in simp_all)
qed

lemma q_step_sim:
  assumes "q_step orderly stamp interval fsync q new q'" "q_inv q" "q_explained stamp interval fsync tr q"
  shows "q_explained stamp interval fsync (tr @ new) q'"
  using assms
proof (induction rule: q_step.induct)
  case (q_hung_up ts c p s js)
  then have "sendable orderly p" by simp blast
  then show ?case using q_hung_up by (intro hung_up_sim)
next
  case (q_reply ts c b k s js w)
  then show ?case using local_sim [of stamp interval fsync tr s js ts c "Reply b k" "Some (k w)"] sys_step.reply by fastforce
next
  case (q_close ts c x s js)
  then show ?case using local_sim [of stamp interval fsync tr s js ts c "Return x" None] sys_step.close by fastforce
next
  case (q_execute os j js s ts sv js' ts')
  show ?case using execute_turn_sim [OF q_execute.prems(2,1) _ q_execute.hyps(2)] q_execute.hyps(1) by simp
qed (auto intro: accept_sim send_sim refuse_sim receive_sim kill_sim start_sim)

lemma q_run_explained: "q_run orderly stamp interval fsync tr q \<Longrightarrow> q_explained stamp interval fsync tr q"
proof (induction rule: q_run.induct)
  case q_begin
  show ?case by (rule q_explainedI [OF timely.t_empty, of _ _ _ _ "Stopped empty_dir"]) (simp_all add: sys_run.begin_empty)
next
  case (q_extend tr q new q')
  then show ?case using q_step_sim q_run_inv by blast
qed

text \<open>A thread that waits can go on, or the executor has a job to take.\<close>

lemma q_progress:
  assumes "q_run orderly stamp interval fsync tr (Serving s js ts)" "ts c = Some (Waits p x)"
  shows "\<exists>new q. q_step orderly stamp interval fsync (Serving s js ts) new q"
proof (cases x)
  case NoReply
  have "c \<in> job_reply ` set js" using q_run_inv [OF assms(1)] assms(2) NoReply by auto
  then obtain j js0 where js: "js = j # js0" by (cases js) auto
  have "whole_writes []" by (simp add: whole_writes_def)
  moreover obtain sv js' ts' where "executor_turn stamp j js0 (sv_outcomes [] (srv_service s)) ts = (sv, js', ts')" by (metis prod_cases3)
  ultimately show ?thesis unfolding js by (blast intro: q_execute_orderly)
qed (use assms(2) in \<open>blast intro: q_step.q_receive q_step.q_hung_up\<close>)+

section \<open>The store behind the channels\<close>

text \<open>What the server's invariant says of the store, carried over to the side with channels.\<close>

lemma q_sim_store:
  assumes "q_sim q n ph" "sys_inv tr n"
  shows "\<exists>ops. explains ops tr \<and> (\<forall>s js ts. q = Serving s js ts \<and> sv_alive (srv_service s) \<longrightarrow> svc_store (srv_service s) = play ops) \<and>
    (\<forall>w. q = Halted w \<longrightarrow> svc_store (srv_service (server_start (w\<lparr>outcomes := []\<rparr>) interval fsync tick)) = play ops)"
proof (cases q)
  case (Serving s js ts)
  then obtain s0 cs where n: "n = Running s0 cs" "same_srv s s0" using assms(1) by (cases n) auto
  have "sv_outcomes [] (srv_service s) = sv_outcomes [] (srv_service s0)" using n(2) by (simp add: same_srv_def)
  from arg_cong [OF this, of "\<lambda>sv. e_state (sv_engine sv)"] have st: "svc_store (srv_service s) = svc_store (srv_service s0)"
    by (simp add: svc_store_def set_outcomes_def)
  show ?thesis
  proof (cases "sv_alive (srv_service s0)")
    case True
    then show ?thesis using sys_inv_store(1) [of tr s0 cs] assms(2) n st Serving by auto
  next
    case False
    then have "\<exists>ops. explains ops tr" using assms(2) n(1) by (auto simp: disk_inv_def core_of_def)
    then show ?thesis using False same_srvD(2) [OF n(2)] Serving by auto
  qed
next
  case (Halted w)
  then obtain w0 where n: "n = Stopped w0" "w\<lparr>outcomes := []\<rparr> = w0\<lparr>outcomes := []\<rparr>" using assms(1) by (cases n) auto
  obtain ops where ops: "explains ops tr" "fst (recovered kv_sm (as_dur w0)) = play ops" using sys_inv_store(2) assms(2) n(1) by blast
  have "svc_store (srv_service (server_start (w\<lparr>outcomes := []\<rparr>) interval fsync tick)) = play ops"
    unfolding n(2) using ops(2) start_store by simp
  then show ?thesis using ops(1) Halted by blast
qed

end
