(* ===== verification/Spec2Isabelle.thy ===== *)
theory Spec2Isabelle
  imports OB_Transfer OB_Power OB_Lin OB_Server OB_Memcache OB_Http OB_Txn OB_Streamlog OB_Baselines OB_Replay OB_Appjepsen OB_Jepsenrun OB_Sim OB_Recovery
    OB_Crashrun OB_Main OB_Tables OB_Restart OB_Tests OB_Unit OB_Drivers OB_Queue
begin

text \<open>
  A verification library for OneBarrier, the deterministic-replay engine under \<open>src/crates/onebarrier/src\<close>.

  \<^bold>\<open>The program.\<close> Clients issue operations \<open>(client, seq, kind)\<close>. An ordered stream of them is delivered to
  an engine, which suppresses duplicates by the highest sequence number seen per client, applies the rest
  to a state machine, appends each to a log and from time to time replaces log and snapshot; after a
  crash it rebuilds its state from snapshot and log. A serial executor owns one engine and serves
  front ends that speak RESP, the Memcached text protocol, HTTP, a transaction protocol and a
  publish/subscribe protocol; a cluster runs one engine per replica over a totally ordered fabric; a
  checker decides whether a recorded history is linearizable. Experiments drive a server with clients,
  kill it and check what it kept; benchmarks and a replay tool run engines on fixed workloads.

  \<^bold>\<open>The theories\<close>, each over the file it names, with the source's names where they are free:

  \<^item> \<open>OB_Prelude\<close>, \<open>OB_Text\<close>, \<open>OB_BTree\<close>: what the sources use of the language and its library. Unsigned and
    signed integers are words of their width and wrap, as in the release build; strings are UTF-8 bytes;
    UTF-8 validation, white space, case and decimal numbers are written out; \<open>BTreeMap\<close> is the sorted list
    of its entries behind the contract \<open>ordered_map\<close>.
  \<^item> \<open>OB_State\<close> (\<open>state.rs\<close>): \<open>Op\<close>, \<open>OpKind\<close>, \<open>Output\<close>, the codec \<open>encode\<close>/\<open>decode\<close>, \<open>Reader\<close>, \<open>KvStore\<close>. The
    trait \<open>StateMachine\<close> is the record \<open>sm_ops\<close> with the contract \<open>state_machine\<close>, interpreted for the store.
  \<^item> \<open>OB_Durable\<close> (\<open>durable.rs\<close>): \<open>append\<close>, \<open>write_snapshot\<close>, \<open>read_snapshot\<close>, \<open>read_log\<close> over a directory in
    which every system call takes its outcome from a list: success, or failure with a prefix of the bytes
    written. An empty list means success throughout, so the theorems that quantify over the list cover
    every failure and every crash point. The directory also records the calls made on it. The contract is \<open>durable_store\<close>.
  \<^item> \<open>OB_Engine\<close> (\<open>lib.rs\<close>): \<open>create\<close>, \<open>deliver\<close>, \<open>apply_dedup\<close>, \<open>snapshot\<close>, \<open>recover\<close>, \<open>export_state\<close>,
    \<open>import_state\<close>, the snapshot codec and \<open>reference_apply\<close>, generic in the state machine.
  \<^item> \<open>OB_Crash\<close>, \<open>OB_Once\<close>, \<open>OB_Transfer\<close>: histories of a node as a step relation (delivery acknowledged
    or failed, snapshot, crash, recovery), the invariant that ties memory and files to the events, the
    operations that take effect, state transfer, and where memory and files come apart.
  \<^item> \<open>OB_Stable\<close>, \<open>OB_Power\<close>: power failures. From the recorded calls a disk is computed that knows which bytes
    and which names are on stable storage and which are on the way; a failure leaves any of the states
    possible then. Two file systems are covered: one that keeps what POSIX promises of a sync, and one
    (\<open>journal\<close>) on which a sync also settles the names changed before it. The contract \<open>power_store\<close> extends
    \<open>durable_store\<close>; histories of a node with power failures are the relation \<open>power_run\<close>.
  \<^item> \<open>OB_Wire\<close>, \<open>OB_Resp\<close> (\<open>resp.rs\<close>): a connection's input as bytes, expired timeouts and failing reads;
    the line and block readers; the RESP codec.
  \<^item> \<open>OB_Service\<close> (\<open>server.rs\<close>): the executor, connection numbering, and handlers as programs that issue
    one operation at a time and write replies, each of which may fail after some bytes. The contract \<open>store_service\<close> says that operations numbered upwards behave as
    on a plain store; the executor is its interpretation.
  \<^item> \<open>OB_Server\<close> (\<open>server.rs\<close>), \<open>OB_Memcache\<close>, \<open>OB_Http\<close>, \<open>OB_Txn\<close>, \<open>OB_Streamlog\<close>: the handlers and connection
    loops of the five protocols.
  \<^item> \<open>OB_Cluster\<close> (\<open>cluster.rs\<close>): workload, replica loops, reports, the recovery of a victim. \<open>OB_Crashrun\<close>: the
    whole run with a crash, every replica's thread, the joining, the report.
  \<^item> \<open>OB_Lin\<close> (\<open>linearizability.rs\<close>): the checker and its specification.
  \<^item> \<open>OB_System\<close> (\<open>server.rs\<close>): a server over time as a step relation: connections accepted, their handler
    threads interleaved at every job of the executor and every reply, the process killed and started again; the invariant
    that one sequential history explains every answer. \<open>OB_Queue\<close> (\<open>server.rs\<close>): the same with the channel of
    jobs and the reply channels, refining the former: an operation takes effect between its call and its
    return. \<open>OB_Restart\<close>: sessions of a server stopped and
    started again, each over any handler that numbers its operations upwards, and the plain store they
    are compared with. \<open>OB_Main\<close>: the command lines of the five server binaries, the accept loop, the
    demonstration \<open>bin/ob_demo.rs\<close>.
  \<^item> \<open>OB_Lincheck\<close> (\<open>bin/ob_lincheck.rs\<close>): concurrent clients of one register with a clock, as a step
    relation, and the history they record. \<open>OB_Jepsen\<close> (\<open>bin/ob_jepsen.rs\<close>): the clients of the crash
    experiment with the network as an argument, and the reading back. \<open>OB_Jepsenrun\<close>: the same clients with
    their connections and the server of \<open>OB_System\<close> as one step relation, so that what the network does is what
    this run does. \<open>OB_Appjepsen\<close>
    (\<open>bin/ob_app_jepsen.rs\<close>, \<open>bin/ob_replay.rs\<close>): the same experiment on an unmodified Redis: clients, capture,
    kill, parallel replay and both checks as a step relation over a server that fulfils the contract
    \<open>redis\<close>, of which the repository's own server is an interpretation.
  \<^item> \<open>OB_Bench\<close>, \<open>OB_Baselines\<close> (\<open>bench.rs\<close>): the interval sweep, executors and log-only backups, latency samples
    and their report, sequencer and timestamps, the three ways to a replayable order. \<open>OB_Replay\<close>
    (\<open>bin/ob_replay.rs\<close>): regrouping a capture and sending it.
  \<^item> \<open>OB_Float\<close>: the 64-bit floating-point numbers of the cost models, as rationals rounded to 53 bits with
    ties to even, gradual underflow, infinities, signed zeros and NaN. \<open>OB_Sim\<close> (\<open>sim.rs\<close>): generator, queue,
    percentiles, competitors. \<open>OB_Recovery\<close> (\<open>recovery.rs\<close>): the recovery time. \<open>OB_Tables\<close>: the binaries that
    print tables of these models and of the benchmarks (\<open>bin/ob_recovery.rs\<close>, \<open>bin/ob_compare.rs\<close>,
    \<open>bin/ob_sim.rs\<close>, \<open>bin/ob_sweep.rs\<close>, \<open>bin/ob_scale.rs\<close>), with their rows as values.
  \<^item> \<open>OB_Drivers\<close>: the binaries around the experiments and measurements: command lines, what the experiments
    start and with which arguments, exit codes, and the tables of measured times (\<open>bin/ob_order.rs\<close>, \<open>bin/ob_cpu.rs\<close>,
    \<open>bin/ob_baselines.rs\<close>, \<open>bin/ob_bench.rs\<close>, \<open>bin/ob_calibrate.rs\<close>) with what is measured as an argument.
  \<^item> \<open>OB_Tests\<close>, \<open>OB_Unit\<close>: the repository's tests on the model: of the five servers, each with a restart, of
    the engine, the RESP codec, the checker, the cost models, the interval sweep, the order log and the cluster.

  \<^bold>\<open>What is proved\<close>, within the scope given below. No acknowledged operation is lost and none takes effect
  twice, across any number of crashes and failing writes; recovery succeeds on readable files; encodings and snapshots are read back
  exactly within their limits, and the limits are sharp; appends and snapshot replacement are atomic; with
  \<open>fsync\<close>, on a file system that settles names with a sync, power failures lose no acknowledged operation
  either, and without one of the two they can lose all of them;
  connections of every protocol compute on the durable service what they compute on a plain store; the
  protocols' own behaviour there; a server is durably linearizable under any interleaving, failures and
  restarts, also through the channels to its executor, where no thread waits in vain, so the linearizability and the crash experiment pass; a command whose reply cannot be written
  has taken effect all the same; restarts between connections are
  invisible to clients; a Redis recovered by replaying its captured requests has every acknowledged
  write of a unique key; replicas converge to the expected state, and a replica that crashes recovers and
  catches up; the checker is sound and complete; the cost models are monotone in load and cost in spite
  of rounding, and the tables' rows are compared with the remarks that close them. The repository's tests
  in the last two theories pass on the model, most by evaluation in it. The last section, and theorems
  beside the components they concern, state where the code promises more than it keeps.

  \<^bold>\<open>Scope and bounds.\<close> The step relations take what a run admits as an argument, since the code itself checks
  none of it. The theorems on a node are about runs that are \<open>intact\<close>: an operation new to the node is delivered
  only while the log ends in a complete record, and fits the record format. Those on a server are about
  runs that are \<open>orderly\<close>: handlers number their operations upwards, as all do but for a \<open>DEL\<close> of several keys,
  operations fit the record format, and failing calls write all of a record or nothing. With the argument
  \<open>unrestricted\<close> the same relations admit everything the code does; \<open>torn_tail_swallows_ack\<close>, \<open>resp_del_only_first\<close>
  and \<open>decode_encode_iff\<close> show why the theorems do not extend to it. Both ask for less than 4 GiB logged in
  all, the width of the length field of a snapshot; an entry of the snapshot is never longer than the log
  record that wrote it. In the experiments a reply arrives in one read, and a read blocks until there are
  bytes. Connection theorems ask that the 64-bit sequence
  number does not wrap. No definition uses fuel: every loop terminates by the input it consumes.

  \<^bold>\<open>Parameters.\<close> The fabric's timestamps (\<open>onepipe_core\<close>) are numbers, the executor's conversion of its
  clock is the argument \<open>stamp\<close>, and what the fabric (\<open>onepipe_net\<close>) delivers to a replica is an argument
  whose promise is the predicate \<open>fabric_delivers\<close>. The logarithm of the platform's library is an argument
  whose promise is \<open>ln_ok\<close>, its power function one whose promise is \<open>powf_ok\<close>; clock readings are
  arguments. The Redis server of the experiment is an argument whose promise is the locale \<open>redis\<close>: its answers to \<open>SET\<close>, \<open>GET\<close> and \<open>PING\<close>.

  \<^bold>\<open>Not modelled.\<close> Sockets; a write buffer that fills up before a command's reply is complete; allocation
  failure; how long anything takes; printing; starting and killing processes in the experiments beyond
  their arguments and outcomes; power failures of a whole server with its connections (they are of a
  node); sectors that are lost inside a synced file; the C shims, but for the record the capturing one
  writes.
\<close>

section \<open>Guarantees of a node\<close>

text \<open>
  C1: no acknowledged operation is lost. Whatever deliveries, snapshots, failing or torn writes,
  crashes and recoveries a key-value node has gone through, its state is the one the reference computes
  from a history that keeps the order of the deliveries, keeps every acknowledged one, and of the
  unacknowledged ones some. The run admits what \<open>intact\<close> says: an operation new to the node is delivered only
  while the log ends in a complete record, so none is appended behind a torn one, and only if it fits the
  record format, with keys and transactions below 65536. The code checks neither; \<open>torn_tail_swallows_ack\<close>
  and \<open>decode_encode_iff\<close> show what happens otherwise. Less than 4 GiB is logged in all.
\<close>

theorem no_lost_ack:
  assumes "node_run kv_sm intact (\<lambda>_. True) interval fsync evs (Up e)"
    and "log_bytes (map snd evs) + 4 < 2 ^ 32"
  shows "\<exists>h. leaves evs h \<and> e_state e = reference_apply kv_sm (map snd h)"
proof -
  obtain h where "leaves evs h" "core e = run_core kv_sm (init_core kv_sm) h"
    using kv.run_up [OF kv_run_fits [OF assms]] by blast
  then show ?thesis using reference_apply_run [of kv_sm h] by (metis core_state)
qed

text \<open>A node that acknowledges an increment, crashes and recovers.\<close>

lemma example_engine:
  "\<exists>e. engine_create kv_sm (empty_dir\<lparr>outcomes := []\<rparr>) 100 True = (Inr (), e) \<and> e_applied e = [] \<and>
     dur_clean (e_dur e)"
  by (simp add: engine_create_def durable_open_def sys_defs new_engine_def empty_dir_def dur_clean_def file_bytes_def)

lemma example_delivery:
  assumes "e_applied e = []" "0 < op_seq op"
  shows "\<exists>out e'. deliver sm ts op (set_outcomes [] e) = (Inr out, e')"
proof -
  have "hw_get [] (op_client op) = 0" by (simp add: hw_get_def bt_simps)
  then show ?thesis using assms
    by (simp add: deliver_def apply_dedup_def Let_def io_bind_def with_dur_def io_return_def dur_append_def sys_defs
        cache_handle_def sync_if_fsync_def engine_snapshot_def write_snapshot_def drop_handle_def io_ignore_def
        set_outcomes_def split: prod.splits)
qed

definition example_op :: op where
  "example_op = op_incr 1 1 (ascii ''k'') 5"

lemma example_run: "\<exists>e. node_run kv_sm intact (\<lambda>_. True) 100 True [(True, 7, example_op)] (Up e)"
proof -
  obtain e0 where e0: "engine_create kv_sm (empty_dir\<lparr>outcomes := []\<rparr>) 100 True = (Inr (), e0)"
    "e_applied e0 = []" "dur_clean (e_dur e0)" using example_engine by blast
  then obtain out e1 where e1: "deliver kv_sm 7 example_op (set_outcomes [] e0) = (Inr out, e1)"
    using example_delivery [of e0 example_op kv_sm 7] by (auto simp: example_op_def op_incr_def)
  have n0: "node_run kv_sm intact (\<lambda>_. True) 100 True [] (Up e0)"
    using e0(1) by (rule node_run.create)
  have "op_logs example_op"
    by (simp add: op_logs_def wf_op_def example_op_def op_defs key_ok_def encode_def enc_key_def utf8_valid_ascii_byte)
  then have s1: "node_step kv_sm intact (\<lambda>_. True) 100 True (Up e0) [(True, 7, example_op)] (Up e1)"
    using e0 e1 by (intro node_step.acked) (auto simp: intact_def example_op_def op_defs hw_get_def bt_simps)
  from node_run.step [OF node_run.step [OF n0 s1] node_step.crash]
  have "node_run kv_sm intact (\<lambda>_. True) 100 True [(True, 7, example_op)] (Down (d_dir (e_dur e1)))" by simp
  moreover obtain e2 where "engine_recover kv_sm ((d_dir (e_dur e1))\<lparr>outcomes := []\<rparr>) 100 True = (Inr (), e2)"
    using engine_recover_total by blast
  ultimately have "node_run kv_sm intact (\<lambda>_. True) 100 True ([(True, 7, example_op)] @ []) (Up e2)"
    by (intro node_run.step) (auto intro: node_step.recover)
  then show ?thesis by auto
qed

lemma example_bytes: "log_bytes (map snd [(True, 7, example_op)]) + 4 < 2 ^ 32"
  by (simp add: log_bytes_def length_log_record example_op_def op_defs encode_def enc_key_def)

theorem no_lost_ack_witness:
  "\<exists>e h. node_run kv_sm intact (\<lambda>_. True) 100 True [(True, 7, example_op)] (Up e) \<and> leaves [(True, 7, example_op)] h
     \<and> e_state e = reference_apply kv_sm (map snd h)"
proof -
  obtain e where e: "node_run kv_sm intact (\<lambda>_. True) 100 True [(True, 7, example_op)] (Up e)"
    using example_run by blast
  then show ?thesis using no_lost_ack [OF e example_bytes] by blast
qed

text \<open>
  C2: after a crash anywhere in a history that C1 admits (\<open>intact\<close>: no new operation delivered behind a torn
  record, operations within the record format, less than 4 GiB logged), recovery with readable files
  succeeds, with any interval and sync mode, and returns the state of a history that keeps every
  acknowledged delivery.
\<close>

theorem recover_after_crash:
  assumes "node_run kv_sm intact (\<lambda>_. True) interval fsync evs (Down w)"
    and "log_bytes (map snd evs) + 4 < 2 ^ 32"
  shows "\<exists>e h. engine_recover kv_sm (w\<lparr>outcomes := []\<rparr>) interval' fsync' = (Inr (), e) \<and> leaves evs h
     \<and> e_state e = reference_apply kv_sm (map snd h) \<and> (\<forall>x. (True, x) \<in> set evs \<longrightarrow> x \<in> set h)"
proof -
  obtain e where e: "engine_recover kv_sm (w\<lparr>outcomes := []\<rparr>) interval' fsync' = (Inr (), e)"
    using engine_recover_total by blast
  obtain h where "leaves evs h" "core e = run_core kv_sm (init_core kv_sm) h"
    using kv.run_down [OF kv_run_fits [OF assms] e] by blast
  then show ?thesis using e leaves_acked reference_apply_run [of kv_sm h] by (metis core_state)
qed

theorem recover_after_crash_witness:
  "\<exists>w. node_run kv_sm intact (\<lambda>_. True) 100 True [(True, 7, example_op)] (Down w) \<and>
     (\<exists>e h. engine_recover kv_sm (w\<lparr>outcomes := []\<rparr>) 5 False = (Inr (), e) \<and> leaves [(True, 7, example_op)] h
       \<and> e_state e = reference_apply kv_sm (map snd h))"
proof -
  obtain e where "node_run kv_sm intact (\<lambda>_. True) 100 True [(True, 7, example_op)] (Up e)"
    using example_run by blast
  from node_run.step [OF this node_step.crash]
  have w: "node_run kv_sm intact (\<lambda>_. True) 100 True [(True, 7, example_op)] (Down (d_dir (e_dur e)))" by simp
  show ?thesis using recover_after_crash [OF w example_bytes, of 5 False] w by blast
qed

text \<open>
  C3: power failures. A node opened with \<open>fsync\<close>, on a file system on which a sync of a file also settles
  the names changed before it, loses no acknowledged operation when the machine loses power: whatever
  deliveries, snapshots, failing calls, crashes, recoveries and earlier power failures there were, recovery
  from any files stable storage may hold succeeds and gives the state of a history that keeps the order
  of the deliveries, keeps every acknowledged one, and of the unacknowledged ones some. As in C1 the run is
  \<open>intact\<close>: once a failure has left a torn record, operations new to the node are outside its scope, as are
  operations that do not fit the record format, and less than 4 GiB is logged.
\<close>

theorem power_failure_recovers:
  assumes "power_run kv_sm intact (\<lambda>_. True) interval True True evs n" "log_bytes (map snd evs) + 4 < 2 ^ 32"
    and "(s, l) \<in> set (power_left True (node_dir n))"
  shows "\<exists>e h. engine_recover kv_sm (mounted s l t) interval' fsync' = (Inr (), e) \<and> leaves evs h
     \<and> e_state e = reference_apply kv_sm (map snd h)"
proof -
  obtain e where e: "engine_recover kv_sm (mounted s l t) interval' fsync' = (Inr (), e)" using mounted_recover by blast
  have "power_inv kv_sm evs (Down (mounted s l t))"
    by (rule kv.power_loss_inv [OF kv.power_run_inv [OF kv_power_fits [OF assms(1,2)]] assms(3)])
  then obtain h where "leaves evs h" "core e = run_core kv_sm (init_core kv_sm) h"
    using engine_recover_core [OF e] by (auto simp: files_inv_def)
  then show ?thesis using e reference_apply_run [of kv_sm h] by (metis core_state)
qed

theorem power_failure_recovers_witness:
  "\<exists>n. power_run kv_sm intact (\<lambda>_. True) 100 True True [(True, 7, example_op)] n \<and>
     (\<exists>s l e h. (s, l) \<in> set (power_left True (node_dir n)) \<and> engine_recover kv_sm (mounted s l None) 5 False = (Inr (), e) \<and>
       leaves [(True, 7, example_op)] h \<and> e_state e = reference_apply kv_sm (map snd h))"
proof -
  obtain e where "node_run kv_sm intact (\<lambda>_. True) 100 True [(True, 7, example_op)] (Up e)" using example_run by blast
  then have n: "power_run kv_sm intact (\<lambda>_. True) 100 True True [(True, 7, example_op)] (Up e)" by (rule node_run_power)
  have "power_ok (e_dur e)" using kv.power_run_inv [OF kv_power_fits [OF n example_bytes]] by simp
  then have l: "(f_snapshot (d_dir (e_dur e)), f_oplog (d_dir (e_dur e))) \<in> set (power_left True (node_dir (Up e)))"
    using power_states_now by (simp add: power_ok_def stored_def power_left_def)
  from power_failure_recovers [OF n example_bytes l, of None 5 False] show ?thesis using n l by blast
qed

text \<open>
  C35: both conditions are needed. A node opened without \<open>fsync\<close>, or on a file system that keeps only what
  POSIX promises, where a sync of a file does not settle its name, can lose everything it acknowledged:
  at every time of its life up to the first power failure that failure may leave no file at all, and
  recovery then starts the empty store and reports success. The code never syncs the directory.
\<close>

theorem power_failure_sharp:
  assumes "node_run kv_sm adm fits interval fsync evs n" "\<not> (fsync \<and> journal)"
  shows "(None, None) \<in> set (power_left journal (node_dir n)) \<and>
    (\<exists>e. engine_recover kv_sm (mounted None None t) interval' fsync' = (Inr (), e) \<and> e_state e = [])"
proof -
  have "list_all (unsettling journal) (calls (node_dir n))"
    using node_run_unsettled [OF assms] by (cases n) (simp_all add: unsettled_def)
  moreover obtain e where e: "engine_recover kv_sm (mounted None None t) interval' fsync' = (Inr (), e)" using mounted_recover by blast
  moreover have "e_state e = []" using mounted_empty [OF e] by (simp add: core_state init_core_def kv_sm_def)
  ultimately show ?thesis using unsettled_left by blast
qed

theorem power_failure_sharp_witness:
  "\<exists>n. node_run kv_sm intact (\<lambda>_. True) 100 True [(True, 7, example_op)] n \<and> (None, None) \<in> set (power_left False (node_dir n))"
proof -
  obtain e where n: "node_run kv_sm intact (\<lambda>_. True) 100 True [(True, 7, example_op)] (Up e)" using example_run by blast
  then show ?thesis using power_failure_sharp [OF n, of False None 5 True] by blast
qed

text \<open>
  C4: exactly once. The state of the reference, which C1 and C2 equate with the state of a node, is
  the fold of the state machine over the operations of the history that are new where they are
  delivered; each \<open>(client, seq)\<close> pair occurs among them at most once, and per client in increasing order.
  Duplicates have no effect.
\<close>

theorem exactly_once:
  "reference_apply sm ops = foldl (\<lambda>s op. fst (sm_apply sm s op)) (sm_default sm) (effective ops)
   \<and> distinct (map (\<lambda>x. (op_client x, op_seq x)) (effective ops))
   \<and> sorted_wrt (\<lambda>x y. op_client x = op_client y \<longrightarrow> op_seq x < op_seq y) (effective ops)
   \<and> (\<forall>x \<in> set ops. 0 < op_seq x \<longrightarrow> (\<exists>y \<in> set (effective ops). op_client y = op_client x \<and> op_seq x \<le> op_seq y))"
  using run_effective [of sm "map (Pair 0) ops"] reference_apply_run [of sm "map (Pair 0) ops"]
    effective_distinct effective_sorted effective_first [of _ ops]
  by (simp add: o_def)

theorem exactly_once_witness:
  "\<exists>y \<in> set (effective [example_op, example_op]). op_client y = 1 \<and> 1 \<le> op_seq y"
  using exactly_once [of kv_sm "[example_op, example_op]"]
  by (auto simp: example_op_def op_incr_def)

text \<open>
  C18: an operation is read back from its encoding exactly when its key is UTF-8 and every length fits
  its field; the others are written with saturated lengths, and what is read back, if anything, is
  another operation.
\<close>

theorem decode_encode_iff: "decode (encode op) = Some op \<longleftrightarrow> wf_op op"
  using decode_encode decode_wf by blast

text \<open>
  C17: decoding is typed. Whatever bytes are decoded, an operation that comes out can be encoded again
  without loss, and a store that is restored is ordered without duplicate keys and fits the format of a
  snapshot, so that its own snapshot restores to the same store.
\<close>

theorem decoders_well_typed:
  "pred_option (\<lambda>op. wf_op op \<and> decode (encode op) = Some op) (decode bs) \<and>
   bt_wf (kv_restore bs) \<and> kv_fits (kv_restore bs) \<and> kv_restore (kv_snapshot (kv_restore bs)) = kv_restore bs"
  using decode_wf decode_encode kv_restore_fits [of bs] kv_restore_snapshot [OF kv_restore_fits, of bs]
  by (cases "decode bs") (auto simp: kv_fits_def)

text \<open>
  C15: the store implements the finite map of its specification, for every kind of operation, in the new
  contents and in the output, and keeps its entries ordered without duplicate keys.
\<close>

theorem kv_apply_spec:
  assumes "bt_wf m"
  shows "(bt_get (fst (kv_apply m op)), snd (kv_apply m op)) = spec_apply (bt_get m) (op_kind op)
    \<and> bt_wf (fst (kv_apply m op))"
  using kv_apply_refines [OF assms, of op] kv_apply_wf [OF assms, of op] by (metis prod.collapse)

theorem kv_apply_spec_witness:
  "bt_wf [(ascii ''k'', ascii ''1'')] \<and>
   (bt_get (fst (kv_apply [(ascii ''k'', ascii ''1'')] example_op)), snd (kv_apply [(ascii ''k'', ascii ''1'')] example_op))
     = spec_apply (bt_get [(ascii ''k'', ascii ''1'')]) (op_kind example_op)"
  using kv_apply_spec [of "[(ascii ''k'', ascii ''1'')]" example_op] by (simp add: bt_wf_def)

text \<open>C20: a store is restored from its snapshot exactly when its keys, values and size fit the format.\<close>

theorem kv_snapshot_roundtrip_iff: "kv_restore (kv_snapshot m) = m \<longleftrightarrow> kv_fits m"
  by (rule kv_restore_snapshot_iff)

text \<open>
  C19: loading an engine's snapshot into any engine gives the state, the high-water marks and the
  timestamp horizon of the first, within the limits of the format.
\<close>

theorem snapshot_roundtrip:
  assumes "snap_fits kv_good e"
  shows "core (load_snapshot kv_sm (encode_snapshot kv_sm e) e') = core e"
  by (rule kv.load_encode [OF assms])

theorem snapshot_roundtrip_witness:
  "\<exists>e. snap_fits kv_good e \<and> e_applied e = [(4, 9)] \<and>
     core (load_snapshot kv_sm (encode_snapshot kv_sm e) (new_engine kv_sm (as_dur empty_dir) 1)) = core e"
proof -
  let ?e = "(new_engine kv_sm (as_dur empty_dir) 1)\<lparr>e_applied := [(4, 9)], e_last_ts := 3\<rparr>"
  have "snap_fits kv_good ?e"
    by (simp add: snap_fits_def new_engine_def kv_good_def kv_fits_def bt_wf_def kv_snapshot_def)
  then show ?thesis using snapshot_roundtrip [of ?e] by (intro exI [of _ ?e]) simp
qed

section \<open>Guarantees of a server\<close>

text \<open>
  C5: durable linearizability. However connections are accepted and their threads interleaved, whatever
  system calls fail, and however often the process is killed and started again, there is one sequential
  history of the plain store that holds every answered operation in the order of the answers, each with
  the answer given, and of the unanswered ones some, each in its place; the store of a running executor,
  and the store that starting again on the files left behind brings back, is what this history computes.
  The run is \<open>orderly\<close>: a write happens whole or not at all, handlers number their operations upwards, which
  excludes a \<open>DEL\<close> of several keys, and operations fit the record format. The code checks none of this;
  \<open>torn_tail_swallows_ack\<close>, \<open>resp_del_only_first\<close> and \<open>decode_encode_iff\<close> are what happens otherwise. Less than
  4 GiB is logged and fewer than \<open>2 ^ 32\<close> connections are accepted.
\<close>

theorem durably_linearizable:
  assumes "sys_run orderly stamp interval fsync tr n" "trace_bytes tr + 4 < 2 ^ 32" "accepts tr + 1 < 2 ^ 32"
  shows "(\<forall>s cs. n = Running s cs \<and> sv_alive (srv_service s) \<longrightarrow>
      (\<exists>ops. explains ops tr \<and> svc_store (srv_service s) = play ops)) \<and>
    (\<forall>w. n = Stopped w \<longrightarrow> (\<exists>s ops. server_start (w\<lparr>outcomes := []\<rparr>) interval' fsync' tick = s \<and>
      sv_alive (srv_service s) \<and> explains ops tr \<and> svc_store (srv_service s) = play ops))"
proof -
  have I: "sys_inv tr n" by (rule sys_run_inv [OF assms])
  have "\<exists>ops. explains ops tr \<and> svc_store (srv_service (server_start (w\<lparr>outcomes := []\<rparr>) interval' fsync' tick)) = play ops"
    if "n = Stopped w" for w
    using sys_inv_store(1) [OF start_inv [of tr w "[]" interval' fsync' tick] server_start_alive] I that assms(3) by simp
  then show ?thesis using I sys_inv_store(1) server_start_alive by blast
qed

text \<open>A server that is started, serves one connection one operation, is killed and started again.\<close>

definition example_trace :: "op \<Rightarrow> op_output \<Rightarrow> sys_event list" where
  "example_trace op out = [Started, Accepted 1, Did op (Some out), Crashed]"

lemma example_apply:
  assumes "op_client op = 1" "op_seq op = 1"
  shows "\<exists>out sv. srv_conn_id (server_start (empty_dir\<lparr>outcomes := []\<rparr>) 100 True 1) = 1 \<and>
    svc_apply (\<lambda>n. n) op (sv_outcomes [] (srv_service (server_start (empty_dir\<lparr>outcomes := []\<rparr>) 100 True 1))) = (Some out, sv)"
proof -
  let ?s = "server_start (empty_dir\<lparr>outcomes := []\<rparr>) 100 True 1"
  have id: "srv_conn_id ?s = 1"
    by (simp add: server_start_def svc_start_def engine_create_def durable_open_def sys_create_dir_all_def empty_dir_def
        new_engine_def max_client_def)
  have "svc_ready 1 0 (srv_service ?s)" using conn_ready [OF refl, of empty_dir 100 True 1 1] id by simp
  moreover from this have "sv_outcomes [] (srv_service ?s) = srv_service ?s"
    by (simp add: svc_ready_def quiet_def sv_outcomes_def set_outcomes_def)
  ultimately show ?thesis using svc_apply_ready [of 1 0 "srv_service ?s" op "\<lambda>n. n"] assms id by auto
qed

lemma example_sys:
  assumes "op_client op = 1" "op_seq op = 1" "op_logs op"
  shows "\<exists>out w. sys_run orderly (\<lambda>n. n) 100 True (example_trace op out) (Stopped w :: unit sys)"
proof -
  let ?s = "server_start (empty_dir\<lparr>outcomes := []\<rparr>) 100 True 1"
  let ?p = "Apply op (\<lambda>_. Return ())" and ?none = "\<lambda>_ :: u32. None :: unit prog option"
  obtain out sv where id: "srv_conn_id ?s = 1" and a: "svc_apply (\<lambda>n. n) op (sv_outcomes [] (srv_service ?s)) = (Some out, sv)"
    using example_apply [OF assms(1,2)] by blast
  let ?s2 = "?s\<lparr>srv_conn_id := 2\<rparr>"
  have w: "whole_writes []" by (simp add: whole_writes_def)
  have acc: "server_accept ?s = (1, ?s2)" using id by (simp add: server_accept_def)
  have num: "numbered 1 ?p 0" using assms(1,2) by simp
  have a2: "svc_apply (\<lambda>n. n) op (sv_outcomes [] (srv_service ?s2)) = (Some out, sv)" using a by simp
  have job: "sys_step orderly (\<lambda>n. n) 100 True (Running ?s2 (?none(1 \<mapsto> ?p))) [Did op (Some out)]
      (Running (?s2\<lparr>srv_service := sv\<rparr>) (?none(1 \<mapsto> ?p, 1 \<mapsto> Return ())))"
    using job_orderly [of "?none(1 \<mapsto> ?p)" 1 op "\<lambda>_. Return ()" "[]" "\<lambda>n. n" ?s2 "Some out" sv] assms(3) w a2 by simp
  have "sys_run orderly (\<lambda>n. n) 100 True ((([] @ [Started]) @ [Accepted 1]) @ [Did op (Some out)]) (Running (?s2\<lparr>srv_service := sv\<rparr>)
      (?none(1 \<mapsto> ?p, 1 \<mapsto> Return ())))"
    by (rule sys_run.extend [OF sys_run.extend [OF sys_run.extend [OF sys_run.begin_empty start_orderly [OF w]]
      accept_orderly [OF acc num]] job])
  from sys_run.extend [OF this sys_step.kill] show ?thesis by (auto simp: example_trace_def)
qed

lemma example_op_logs: "op_logs example_op" "op_client example_op = 1" "op_seq example_op = 1"
  by (simp_all add: op_logs_def wf_op_def example_op_def op_defs key_ok_def encode_def enc_key_def utf8_valid_ascii_byte)

lemma example_trace_bounds:
  "trace_bytes (example_trace op out) = length (log_record (0, encode op))" "accepts (example_trace op out) = 1"
  by (simp_all add: example_trace_def trace_bytes_def trace_ops_def List.map_filter_def log_bytes_def accepts_def)

theorem durably_linearizable_witness:
  "\<exists>out w s ops. sys_run orderly (\<lambda>n. n) 100 True (example_trace example_op out) (Stopped w :: unit sys) \<and>
     server_start (w\<lparr>outcomes := []\<rparr>) 5 False 9 = s \<and> sv_alive (srv_service s) \<and>
     explains ops (example_trace example_op out) \<and> svc_store (srv_service s) = play ops"
proof -
  obtain out w where r: "sys_run orderly (\<lambda>n. n) 100 True (example_trace example_op out) (Stopped w :: unit sys)"
    using example_sys [OF example_op_logs(2,3,1)] by blast
  have b: "trace_bytes (example_trace example_op out) + 4 < 2 ^ 32" "accepts (example_trace example_op out) + 1 < 2 ^ 32"
    by (simp_all add: example_trace_bounds length_log_record example_op_def op_defs encode_def enc_key_def)
  from durably_linearizable [OF r b, of 5 False 9] r show ?thesis by blast
qed

text \<open>
  C6: linearizability through the channels. The same holds when calls, jobs and answers go through the
  channels between connection threads and executor, in whatever order the threads get to run: the
  executor's moments can be written into the trace of calls and returns so that every operation takes
  effect after its call and before its return, with the answer that returns, and one sequential history
  explains them all and computes the store, running or recovered. The run is \<open>orderly\<close> as in C5: no write
  half done, no \<open>DEL\<close> of several keys, operations within the record format.
\<close>

theorem queue_linearizable:
  assumes "q_run orderly stamp interval fsync tr q" "log_bytes (map (Pair 0) (called tr)) + 4 < 2 ^ 32" "accepts (inner tr) + 1 < 2 ^ 32"
  shows "\<exists>full ph ops. visible full = tr \<and> timely full ph \<and> explains ops (inner full) \<and>
    (\<forall>s js ts. q = Serving s js ts \<and> sv_alive (srv_service s) \<longrightarrow> svc_store (srv_service s) = play ops) \<and>
    (\<forall>w. q = Halted w \<longrightarrow> svc_store (srv_service (server_start (w\<lparr>outcomes := []\<rparr>) interval' fsync' tick)) = play ops)"
proof -
  obtain full ph n where full: "timely full ph" "visible full = tr" "sys_run orderly stamp interval fsync (inner full) n" "q_sim q n ph"
    using q_run_explained [OF assms(1)] unfolding q_explained_def by blast
  have "trace_bytes (inner full) + 4 < 2 ^ 32" "accepts (inner full) + 1 < 2 ^ 32"
    using timely_bytes [OF full(1)] called_visible [of full] accepts_visible [of full] full(2) assms(2,3) by simp_all
  from q_sim_store [OF full(4) sys_run_inv [OF full(3) this]] show ?thesis using full(1,2) by blast
qed

text \<open>One connection calls, is answered through the channels, and the process is killed.\<close>

definition example_calls :: "op \<Rightarrow> op_output \<Rightarrow> q_event list" where
  "example_calls op out = [Event Started, Event (Accepted 1), Call 1 op, Back 1 op (Some out), Event Crashed]"

lemma example_queue:
  assumes "op_client op = 1" "op_seq op = 1" "op_logs op"
  shows "\<exists>out w. q_run orderly (\<lambda>n. n) 100 True (example_calls op out) (Halted w :: unit qsys)"
proof -
  let ?s = "server_start (empty_dir\<lparr>outcomes := []\<rparr>) 100 True 1" and ?s2 = "server_start (empty_dir\<lparr>outcomes := []\<rparr>) 100 True 1\<lparr>srv_conn_id := 2\<rparr>"
  let ?p = "Apply op (\<lambda>_. Return ())" and ?none = "\<lambda>_ :: u32. None :: unit thread option" and ?j = "\<lparr>job_req = ReqApply op, job_reply = 1\<rparr>"
  obtain out sv where id: "srv_conn_id ?s = 1" and a: "svc_apply (\<lambda>n. n) op (sv_outcomes [] (srv_service ?s)) = (Some out, sv)"
    using example_apply [OF assms(1,2)] by blast
  have w: "whole_writes []" by (simp add: whole_writes_def)
  have 1: "q_run orderly (\<lambda>n. n) 100 True ([] @ [Event Started]) (Serving ?s [] ?none)" by (rule q_run.q_extend [OF q_run.q_begin q_step.q_start [where sc = orderly, unfolded scope_simps, OF w]])
  have acc: "server_accept ?s = (1, ?s2)" using id by (simp add: server_accept_def)
  have 2: "q_step orderly (\<lambda>n. n) 100 True (Serving ?s [] ?none) [Event (Accepted 1)] (Serving ?s2 [] (?none(1 \<mapsto> Runs ?p)))"
    using acc assms(1,2) by (intro q_step.q_accept) simp_all
  have 3: "q_step orderly (\<lambda>n. n) 100 True (Serving ?s2 [] (?none(1 \<mapsto> Runs ?p))) (call_of 1 ?p) (Serving ?s2 ([] @ [?j]) (?none(1 \<mapsto> Runs ?p, 1 \<mapsto> Waits ?p NoReply)))"
    using assms(3) server_start_alive [of empty_dir 100 True 1] by (intro q_step.q_send) simp_all
  have e: "svc_execute (\<lambda>n. n) op (sv_outcomes [] (srv_service ?s)) = (Some out, sv)"
    using a server_start_alive [of empty_dir 100 True 1] by (simp add: svc_apply_def)
  have 4: "q_step orderly (\<lambda>n. n) 100 True (Serving ?s2 [?j] (?none(1 \<mapsto> Waits ?p NoReply))) []
      (Serving (?s2\<lparr>srv_service := sv\<rparr>) [] (put_slot (Sent (RespOut out)) [1] (?none(1 \<mapsto> Waits ?p NoReply))))"
    using e by (intro q_execute_orderly [OF w]) (simp add: executor_turn_def)
  have 5: "q_step orderly (\<lambda>n. n) 100 True (Serving (?s2\<lparr>srv_service := sv\<rparr>) [] (put_slot (Sent (RespOut out)) [1] (?none(1 \<mapsto> Waits ?p NoReply))))
      (back_of 1 ?p (Some (RespOut out))) (Serving (?s2\<lparr>srv_service := sv\<rparr>) []
        ((put_slot (Sent (RespOut out)) [1] (?none(1 \<mapsto> Waits ?p NoReply)))(1 \<mapsto> Runs (resume ?p (Some (RespOut out))))))"
    by (rule q_step.q_receive) (simp add: put_slot_def)
  from 1 2 3 4 have "q_run orderly (\<lambda>n. n) 100 True ((([Event Started] @ [Event (Accepted 1)]) @ [Call 1 op]) @ [])
      (Serving (?s2\<lparr>srv_service := sv\<rparr>) [] (put_slot (Sent (RespOut out)) [1] (?none(1 \<mapsto> Waits ?p NoReply))))"
    by (intro q_run.q_extend) simp_all
  from q_run.q_extend [OF q_run.q_extend [OF this 5] q_step.q_kill] show ?thesis by (auto simp: example_calls_def)
qed

theorem queue_linearizable_witness:
  "\<exists>out w full ph ops. q_run orderly (\<lambda>n. n) 100 True (example_calls example_op out) (Halted w :: unit qsys) \<and>
     visible full = example_calls example_op out \<and> timely full ph \<and> explains ops (inner full) \<and>
     svc_store (srv_service (server_start (w\<lparr>outcomes := []\<rparr>) 5 False 9)) = play ops"
proof -
  obtain out w where r: "q_run orderly (\<lambda>n. n) 100 True (example_calls example_op out) (Halted w :: unit qsys)"
    using example_queue [OF example_op_logs(2,3,1)] by blast
  have b: "log_bytes (map (Pair 0) (called (example_calls example_op out))) + 4 < 2 ^ 32" "accepts (inner (example_calls example_op out)) + 1 < 2 ^ 32"
    by (simp_all add: example_calls_def called_def inner_def List.map_filter_def accepts_def log_bytes_def length_log_record
        example_op_def op_defs encode_def enc_key_def)
  from queue_linearizable [OF r b, of 5 False 9] r show ?thesis by blast
qed

text \<open>
  C16: the invariant of a running server. In every state that an orderly run reaches and in which the
  executor runs, and so after every single operation, the files hold exactly what memory holds: recovery
  at this point would rebuild the same store, the same marks and the same clock. Store and marks are
  ordered without duplicate keys, every open connection has a number already given out, and no operation
  of a connection yet to come has been applied. Orderly as in C5: no write is left half done, handlers
  number their operations upwards, operations fit the record format; less than 4 GiB is logged.
\<close>

theorem running_invariant:
  assumes "sys_run orderly stamp interval fsync tr (Running s cs)" "trace_bytes tr + 4 < 2 ^ 32" "accepts tr + 1 < 2 ^ 32"
    and "sv_alive (srv_service s)" "e = sv_engine (srv_service s)"
  shows "recovered kv_sm (e_dur e) = core e \<and> dur_clean (e_dur e) \<and> bt_wf (e_state e) \<and> bt_wf (e_applied e) \<and>
    (\<forall>c. cs c \<noteq> None \<longrightarrow> c < srv_conn_id s) \<and> (\<forall>c. srv_conn_id s \<le> c \<longrightarrow> hw_get (e_applied e) c = 0)"
proof -
  have I: "engine_inv tr e" "conns_inv s cs" using sys_run_inv [OF assms(1-3)] assms(4,5) by simp_all
  then have "kv_bounded (trace_bytes tr) (core e)" using core_ofD(3) by (simp add: engine_inv_def)
  then show ?thesis using I assms(5) by (auto simp: engine_inv_def conns_inv_def Let_def kv_bounded_def core_def)
qed

theorem running_invariant_witness:
  "\<exists>e. e = sv_engine (srv_service (server_start (empty_dir\<lparr>outcomes := []\<rparr>) 100 True 1)) \<and>
     recovered kv_sm (e_dur e) = core e \<and> dur_clean (e_dur e)"
proof -
  have "whole_writes []" by (simp add: whole_writes_def)
  then have r: "sys_run orderly (\<lambda>n. n) 100 True ([] @ [Started])
      (Running (server_start (empty_dir\<lparr>outcomes := []\<rparr>) 100 True 1) (\<lambda>_. None) :: unit sys)"
    using sys_run.extend [OF sys_run.begin_empty start_orderly] by blast
  show ?thesis using running_invariant [OF r _ _ server_start_alive refl]
    by (simp add: trace_bytes_def)
qed

text \<open>
  C10: the linearizability experiment passes. Whatever the interleaving of clients, server and clock, the
  history recorded when all clients have been joined is accepted by the checker. The server's disk works.
\<close>

theorem lincheck_passes:
  assumes "lin_run stamp conn n ops s" "inj_on conn {..<n}" "\<And>c. c < n \<Longrightarrow> 1 < conn c" "ops < 2 ^ 63"
    and "all_joined n ops s"
  shows "is_linearizable (ls_hist s) 0"
  using lin_inv_linearizable [OF lin_run_inv [OF assms(1-4)] assms(5)] is_linearizable_iff by blast

definition example_conn :: "nat \<Rightarrow> u32" where
  "example_conn c = word_of_nat (c + 2)"

lemma example_conn_ok: "inj_on example_conn {..<4}" "\<And>c. c < 4 \<Longrightarrow> 1 < example_conn c"
  by (auto simp: inj_on_def example_conn_def word_less_nat_alt unat_of_nat word_unat_eq_iff simp del: of_nat_add of_nat_Suc)

theorem lincheck_passes_witness:
  "\<exists>s. lin_run (\<lambda>n. n) example_conn 4 9 s \<and> all_joined 4 9 s \<and> is_linearizable (ls_hist s) 0"
proof -
  obtain s where s: "lin_run (\<lambda>n. n) example_conn 4 9 s" "all_joined 4 9 s"
    using lin_run_completes [OF lin_run.init example_conn_ok, where stamp = "\<lambda>n. n" and ops = 9] by auto
  then show ?thesis using lincheck_passes [OF s(1) example_conn_ok _ s(2)] by auto
qed

text \<open>
  C11: the linearizability experiment terminates. A client's read blocks until bytes arrive, and the
  server answers every request, so no client waits in vain: a step that is not one of the clock uses up
  one of the \<open>3 * n * ops\<close> steps the clients have, as long as some are left one can be taken, and when none
  are left every client has been joined.
\<close>

theorem lincheck_terminates:
  assumes "lin_run stamp conn n ops s" "inj_on conn {..<n}" "\<And>c. c < n \<Longrightarrow> 1 < conn c" "ops < 2 ^ 63"
  shows "steps_left n ops (lin_init stamp tick t) = 3 * n * ops \<and>
    (\<forall>s'. lin_step stamp conn n ops s s' \<longrightarrow> (\<exists>t. s' = s\<lparr>ls_now := t\<rparr>) \<or> Suc (steps_left n ops s') = steps_left n ops s) \<and>
    (steps_left n ops s \<noteq> 0 \<longrightarrow> (\<exists>s'. lin_step stamp conn n ops s s' \<and> Suc (steps_left n ops s') = steps_left n ops s)) \<and>
    (steps_left n ops s = 0 \<longrightarrow> all_joined n ops s)"
proof -
  have I: "lin_inv conn n ops s" by (rule lin_run_inv [OF assms])
  then have b: "\<And>c. c < n \<Longrightarrow> begun (ls_clients s c) \<le> ops" by (auto elim: lin_invE)
  have down: "(\<exists>t. s' = s\<lparr>ls_now := t\<rparr>) \<or> Suc (steps_left n ops s') = steps_left n ops s"
    if "lin_step stamp conn n ops s s'" for s' using lin_step_left [OF that b] by simp
  moreover have "\<exists>s'. lin_step stamp conn n ops s s' \<and> Suc (steps_left n ops s') = steps_left n ops s" if nz: "steps_left n ops s \<noteq> 0"
  proof -
    obtain s' where s': "lin_step stamp conn n ops s s'" "ls_clients s' \<noteq> ls_clients s" using lin_step_enabled [OF nz lin_run_replied [OF assms(1)]] by blast
    then show ?thesis using down [OF s'(1)] by auto
  qed
  ultimately show ?thesis using steps_left_joined [OF I] steps_left_init by blast
qed

theorem lincheck_terminates_witness:
  "\<exists>s'. lin_step (\<lambda>n. n) example_conn 4 9 (lin_init (\<lambda>n. n) 1 0) s' \<and> Suc (steps_left 4 9 s') = 108"
  using lincheck_terminates [OF lin_run.init [of "\<lambda>n. n" example_conn 4 9 1 0] example_conn_ok, of 1 0]
  by (simp add: steps_left_init)

text \<open>
  C8: the crash experiment passes. Clients, their connections and the server run interleaved, and the
  server is killed and started again at any point; a client holds a write for acknowledged when its
  own test accepts the reply it read. At any moment at which the server runs, reading back what the
  clients hold for acknowledged, over a fresh connection and with a working disk, finds nothing lost
  and nothing torn. The run is \<open>orderly\<close>: system calls may fail, but no write is left half done. Requests
  and replies arrive whole or not at all, and the log stays below 4 GiB.
\<close>

theorem jepsen_passes:
  assumes "jep_run orderly stamp interval fsync clients ops tr J" "jp_server J = Running s cs" "sv_alive (srv_service s)"
    and "trace_bytes tr + 4 < 2 ^ 32" "accepts tr + 1 < 2 ^ 32" "clients * ops < 2 ^ 64"
  shows "verify_all stamp' (all_acked clients ops (\<lambda>c. jp_linked J c = Some True) (jp_net J))
    (s\<lparr>srv_service := sv_outcomes [] (srv_service s)\<rparr>) = (0, 0)"
  using jep_run_verifies [OF assms] by (simp add: verify_all_def server_accept_def)

definition example_set :: op where
  "example_set = op_set_bytes 1 1 (jepsen_key 0 0) (jepsen_val 0 0)"

lemma example_set_logs: "op_logs example_set" "op_client example_set = 1" "op_seq example_set = 1"
    "length (encode example_set) \<le> 100"
  by (simp_all add: op_logs_def wf_op_def example_set_def op_defs key_ok_def val_ok_def encode_def enc_key_def enc_val_def
      jepsen_key_def jepsen_val_def show_usize_def dec_digits.simps utf8_valid_ascii)

text \<open>A run with one client: it dials, writes and sees the reply; the server is killed and started again.\<close>

definition example_reply :: "op_output option \<Rightarrow> (conn_end \<times> bytes) prog" where
  "example_reply r = emit (to_bytes (case r of Some _ \<Rightarrow> reply_ok | None \<Rightarrow> unavailable)) (Return (Closed, []))"

lemma example_dial:
  "\<exists>J s out sv. jep_run orderly (\<lambda>n. n) 100 True 1 1 [Started, Accepted 1] J \<and>
     jp_server J = Running s [1 \<mapsto> Apply example_set example_reply] \<and>
     svc_apply (\<lambda>n. n) example_set (sv_outcomes [] (srv_service s)) = (Some out, sv) \<and> jp_linked J = [0 \<mapsto> True] \<and>
     jp_link J 0 = JOpen 1 \<and> jp_phase J 0 = JReady \<and> jp_net J 0 = []"
proof -
  let ?s = "server_start (empty_dir\<lparr>outcomes := []\<rparr>) 100 True 1"
  obtain out sv where id: "srv_conn_id ?s = 1" and a: "svc_apply (\<lambda>n. n) example_set (sv_outcomes [] (srv_service ?s)) = (Some out, sv)"
    using example_apply [OF example_set_logs(2,3)] by blast
  let ?s2 = "?s\<lparr>srv_conn_id := 2\<rparr>"
  have acc: "server_accept ?s = (1, ?s2)" using id by (simp add: server_accept_def)
  have w: "io_ok orderly []" by (simp add: whole_writes_def)
  define J1 where "J1 = jep_init\<lparr>jp_server := Running ?s (\<lambda>_. None)\<rparr>"
  have 1: "jep_run orderly (\<lambda>n. n) 100 True 1 1 ([] @ [Started]) J1" unfolding J1_def
    by (rule jep_run.extend [OF jep_run.init jep_step.start [OF _ w]]) (simp add: jep_init_def)
  define J2 where "J2 = jep_open 1 0 1 ?s2 (\<lambda>_. None) (J1\<lparr>jp_linked := (jp_linked J1)(0 \<mapsto> True)\<rparr>)"
  have "jep_step orderly (\<lambda>n. n) 100 True 1 1 J1 [Accepted 1] J2" unfolding J2_def
    by (rule jep_step.dial [OF _ _ _ acc]) (simp_all add: J1_def jep_init_def)
  from jep_run.extend [OF 1 this] have 2: "jep_run orderly (\<lambda>n. n) 100 True 1 1 [Started, Accepted 1] J2" by simp
  have "wire (client_stream 0 []) = []" by (simp add: client_stream_def wire_def)
  then have "resp_serve 1 0 (wire (client_stream 0 [0])) = Apply example_set example_reply"
    using resp_serve_set [of 0 0 1 0 "wire (client_stream 0 [])"]
    by (simp add: client_stream_Cons example_set_def example_reply_def resp_serve_eof fun_eq_iff del: to_bytes.simps)
  then have "jp_server J2 = Running ?s2 [1 \<mapsto> Apply example_set example_reply]"
    by (simp add: J1_def J2_def jep_open_def jep_init_def jep_at_def)
  then show ?thesis using 2 a by (intro exI [of _ J2] exI [of _ ?s2] exI [of _ out] exI [of _ sv]) (simp add: J2_def J1_def jep_open_def jep_init_def)
qed

lemma example_jep:
  "\<exists>out J s. jep_run orderly (\<lambda>n. n) 100 True 1 1 (example_trace example_set out @ [Started]) J \<and>
     jp_server J = Running s (\<lambda>_. None) \<and> sv_alive (srv_service s) \<and> jp_linked J = [0 \<mapsto> True] \<and>
     jp_net J 0 = [\<lparr>a_connect = True, a_reply = Some (to_bytes reply_ok)\<rparr>]"
proof -
  let ?run = "jep_run orderly (\<lambda>n. n) 100 True 1 1"
  have w: "io_ok orderly []" by (simp add: whole_writes_def)
  obtain J2 s out sv where 2: "?run [Started, Accepted 1] J2" "jp_server J2 = Running s [1 \<mapsto> Apply example_set example_reply]"
    and a: "svc_apply (\<lambda>n. n) example_set (sv_outcomes [] (srv_service s)) = (Some out, sv)"
    and J2: "jp_linked J2 = [0 \<mapsto> True]" "jp_link J2 0 = JOpen 1" "jp_phase J2 0 = JReady" "jp_net J2 0 = []" using example_dial by blast
  define J3 where "J3 = J2\<lparr>jp_phase := (jp_phase J2)(0 := JWaiting), jp_asked := (\<lambda>d. jp_asked J2 d \<or> jp_link J2 0 = JOpen d)\<rparr>"
  note 3 = jep_run.extend [OF 2(1) jep_step.send [of 0 1 J2 1], folded J3_def]
  define cs where "cs = [1 :: u32 \<mapsto> Apply example_set example_reply]"
  have j: "jp_server J3 = Running s cs" "cs 1 = Some (Apply example_set example_reply)" "jp_asked J3 1" using 2(2) J2 by (simp_all add: J3_def cs_def)
  define s4 cs4 where "s4 = s\<lparr>srv_service := sv\<rparr>" and "cs4 = cs(1 \<mapsto> example_reply (Some out))"
  define J4 where "J4 = J3\<lparr>jp_server := Running s4 cs4, jp_asked := (jp_asked J3)(1 := False)\<rparr>"
  note 4 = jep_run.extend [OF 3 jep_step.job [OF j w a], folded s4_def cs4_def, folded J4_def]
  obtain k where r: "jp_server J4 = Running s4 cs4" "cs4 1 = Some (Reply (to_bytes reply_ok) k)"
    by (simp add: J4_def cs4_def example_reply_def emit_def del: to_bytes.simps)
  define J5 where "J5 = jep_deliver 1 (arrived (to_bytes reply_ok) None) (J4\<lparr>jp_server := Running s4 (cs4(1 \<mapsto> k None))\<rparr>)"
  note 5 = jep_run.extend [OF 4 jep_step.reply [where w = None, OF r], folded J5_def]
  have p5: "jp_phase J5 0 = JAnswered (to_bytes reply_ok)" using J2
    by (simp add: J5_def J4_def J3_def jep_deliver_def arrived_def reply_ok_def)
  define J6 where "J6 = jep_finish 0 \<lparr>a_connect = True, a_reply = Some (to_bytes reply_ok)\<rparr> (jp_link J5 0) J5"
  note 6 = jep_run.extend [OF 5 jep_step.read_reply [OF p5], folded J6_def]
  have s6: "jp_server J6 = Running s4 (cs4(1 \<mapsto> k None))" by (simp add: J6_def J5_def jep_finish_def jep_deliver_def)
  define J7 where "J7 = J6\<lparr>jp_server := Stopped (files_of s4), jp_link := jep_cut \<circ> jp_link J6\<rparr>"
  note 7 = jep_run.extend [OF 6 jep_step.kill [OF s6], folded J7_def]
  have s7: "jp_server J7 = Stopped (files_of s4)" by (simp add: J7_def)
  define J8 where "J8 = J7\<lparr>jp_server := Running (server_start ((files_of s4)\<lparr>outcomes := []\<rparr>) 100 True 9) (\<lambda>_. None)\<rparr>"
  have "?run (example_trace example_set out @ [Started]) J8"
    using jep_run.extend [OF 7 jep_step.start [where tick = 9, OF s7 w], folded J8_def] J2 by (simp add: example_trace_def jep_at_def)
  then show ?thesis using J2 server_start_alive
    by (intro exI [of _ out] exI [of _ J8] exI conjI)
      (auto simp: J8_def J7_def J6_def J5_def J4_def J3_def jep_finish_def jep_deliver_def)
qed

theorem jepsen_passes_witness:
  "\<exists>out J s. jep_run orderly (\<lambda>n. n) 100 True 1 1 (example_trace example_set out @ [Started]) J \<and> jp_server J = Running s (\<lambda>_. None) \<and>
     all_acked 1 1 (\<lambda>c. jp_linked J c = Some True) (jp_net J) = [(jepsen_key 0 0, jepsen_val 0 0)] \<and>
     verify_all (\<lambda>n. n) [(jepsen_key 0 0, jepsen_val 0 0)] (s\<lparr>srv_service := sv_outcomes [] (srv_service s)\<rparr>) = (0, 0)"
proof -
  obtain out J s where J: "jep_run orderly (\<lambda>n. n) 100 True 1 1 (example_trace example_set out @ [Started]) J"
    "jp_server J = Running s (\<lambda>_. None)" "sv_alive (srv_service s)" "jp_linked J = [0 \<mapsto> True]"
    "jp_net J 0 = [\<lparr>a_connect = True, a_reply = Some (to_bytes reply_ok)\<rparr>]" using example_jep by blast
  have acked: "all_acked 1 1 (\<lambda>c. jp_linked J c = Some True) (jp_net J) = [(jepsen_key 0 0, jepsen_val 0 0)]"
    using J(4,5) by (simp add: all_acked_def run_client_def set_acked_def reply_ok_def numeral_eq_Suc)
  have b: "trace_bytes (example_trace example_set out @ [Started]) + 4 < 2 ^ 32" "accepts (example_trace example_set out @ [Started]) + 1 < 2 ^ 32"
    using example_set_logs(4) by (simp_all add: trace_bytes_append example_trace_bounds length_log_record)
      (simp add: trace_bytes_def)
  have "verify_all (\<lambda>n. n) (all_acked 1 1 (\<lambda>c. jp_linked J c = Some True) (jp_net J))
      (s\<lparr>srv_service := sv_outcomes [] (srv_service s)\<rparr>) = (0, 0)" by (rule jepsen_passes [OF J(1-3) b]) simp
  then show ?thesis using J(1,2) acked by metis
qed

section \<open>The engine's operations\<close>

text \<open>
  C21: every branch of a delivery, whatever the disk does, on a log that ends in a complete record and for
  an operation that fits the record format. A duplicate is answered as such and changes one counter and
  nothing else. Any other operation takes effect in memory: state, mark and horizon. When the delivery
  reports success the answer is the state machine's, and the files have the record at the end of the log;
  or, when this delivery reaches the snapshot interval, they hold the snapshot of the new state, with the
  log or without, and counting starts again. When it reports an error the files are as before, or have the
  record, or have reached the snapshot.
\<close>

theorem deliver_branches:
  assumes "deliver sm ts op e = (r, e')" "dur_clean (e_dur e)" "op_logs op"
  shows "let due = e_snap_interval e \<le> e_ops_since_snap e + 1; old = dur_records (e_dur e); new = old @ [(ts, encode op)] in
    if op_seq op \<le> hw_get (e_applied e) (op_client op)
    then r = Inr Suppressed \<and> e' = e\<lparr>e_stats := (e_stats e)\<lparr>st_suppressed := st_suppressed (e_stats e) + 1\<rparr>\<rparr>
    else e_state e' = fst (sm_apply sm (e_state e) op) \<and> e_applied e' = bt_insert (op_client op) (op_seq op) (e_applied e) \<and>
      e_last_ts e' = max (e_last_ts e) ts \<and>
      (case r of
         Inr out \<Rightarrow> out = snd (sm_apply sm (e_state e) op) \<and>
           (if due then dur_snap (e_dur e') = Some (encode_snapshot sm e') \<and> dur_records (e_dur e') \<in> {new, []} \<and> e_ops_since_snap e' = 0
            else dur_snap (e_dur e') = dur_snap (e_dur e) \<and> dur_records (e_dur e') = new \<and> e_ops_since_snap e' = e_ops_since_snap e + 1)
       | Inl _ \<Rightarrow> dur_snap (e_dur e') = dur_snap (e_dur e) \<and> dur_records (e_dur e') \<in> {old, new}
           \<or> due \<and> dur_snap (e_dur e') = Some (encode_snapshot sm e') \<and> dur_records (e_dur e') \<in> {new, []})"
  using assms(1)
proof (cases rule: deliverE)
  case dup
  then show ?thesis by (simp add: Let_def)
next
  case (fresh sn x)
  have c: "e_state e' = fst (sm_apply sm (e_state e) op)" "e_applied e' = bt_insert (op_client op) (op_seq op) (e_applied e)"
    "e_last_ts e' = max (e_last_ts e) ts" using fresh(1,2) by (auto simp: core_def max_def)
  note files = ds.persist_cases [OF assms(2) op_logsD(1) [OF assms(3)] fresh(3)]
  show ?thesis
  proof (cases x)
    case (Inl err)
    then show ?thesis using c fresh(1,5,6) files by (auto simp: Let_def split: if_splits)
  next
    case (Inr u)
    then have "ds.persist ts (encode op) sn (e_dur e) = (Inr (), e_dur e')" using fresh(3) by simp
    note ok = ds.persist_ok(2) [OF assms(2) op_logsD(1) [OF assms(3)] this]
    show ?thesis using c fresh(1,5,6,7) Inr ok by (auto simp: Let_def split: if_splits)
  qed
qed

theorem deliver_branches_witness:
  "\<exists>e'. deliver kv_sm 7 example_op (new_engine kv_sm (as_dur empty_dir) 9) = (Inr (Value (Some 5)), e') \<and>
     dur_records (e_dur e') = [(7, encode example_op)] \<and> dur_snap (e_dur e') = None"
proof -
  let ?e = "new_engine kv_sm (as_dur empty_dir) 9"
  have d: "deliver kv_sm 7 example_op ?e = (Inr (Value (Some 5)), snd (deliver kv_sm 7 example_op ?e))" by code_simp
  have "\<not> op_seq example_op \<le> hw_get (e_applied ?e) (op_client example_op)" "\<not> e_snap_interval ?e \<le> e_ops_since_snap ?e + 1"
    by (simp_all add: example_op_def op_defs new_engine_def hw_get_def bt_simps word_le_nat_alt)
  moreover have "dur_clean (e_dur ?e)" "dur_records (e_dur ?e) = []" "dur_snap (e_dur ?e) = None"
    by (simp_all add: new_engine_def dur_clean_def dur_records_def dur_snap_def as_dur_def empty_dir_def file_bytes_def)
  moreover have "op_logs example_op"
    by (simp_all add: op_logs_def wf_op_def example_op_def op_defs key_ok_def encode_def enc_key_def utf8_valid_ascii_byte)
  ultimately show ?thesis using deliver_branches [OF d] d by (auto simp: Let_def)
qed

text \<open>
  C24: state transfer. An engine that imports what a peer exported has the peer's state, marks and
  horizon; when the import succeeds and its own log holds nothing the peer has not seen, recovery from
  its files gives the same.
\<close>

theorem state_transfer:
  assumes "import_state kv_sm (export_state kv_sm p) e = (r, e')" "snap_fits kv_good p"
    and "covered (e_applied p) (dur_records (e_dur e))"
  shows "core e' = core p \<and> recovered kv_sm (e_dur e') \<in> {recovered kv_sm (e_dur e), core p}
    \<and> (r = Inr () \<longrightarrow> recovered kv_sm (e_dur e') = core p)"
  using kv.import_export [OF assms(1,2)] assms(3) by blast

theorem state_transfer_witness:
  "\<exists>p e'. e_applied p = [(4, 9)] \<and>
     import_state kv_sm (export_state kv_sm p) (new_engine kv_sm (as_dur empty_dir) 1) = (Inr (), e') \<and>
     recovered kv_sm (e_dur e') = core p"
proof -
  let ?p = "(new_engine kv_sm (as_dur empty_dir) 1)\<lparr>e_applied := [(4, 9)], e_last_ts := 3\<rparr>"
  let ?e = "new_engine kv_sm (as_dur empty_dir) 1"
  have p: "snap_fits kv_good ?p"
    by (simp add: snap_fits_def new_engine_def kv_good_def kv_fits_def bt_wf_def kv_snapshot_def)
  have c: "covered (e_applied ?p) (dur_records (e_dur ?e))"
    by (simp add: new_engine_def as_dur_def empty_dir_def dur_records_def file_bytes_def)
  obtain d where "write_snapshot (export_state kv_sm ?p) (e_dur ?e) = (Inr (), d)"
    using write_snapshot_quiet [of "e_dur ?e"] by (auto simp: quiet_def new_engine_def as_dur_def empty_dir_def)
  then obtain e' where i: "import_state kv_sm (export_state kv_sm ?p) ?e = (Inr (), e')"
    by (simp add: import_state_def io_bind_def with_dur_def load_snapshot_frame)
  from state_transfer [OF i p c] show ?thesis using i by (intro exI [of _ ?p] exI [of _ e']) simp
qed

text \<open>
  The log reader returns exactly the complete records, in order, and stops at a torn one, wherever
  the tear is.
\<close>

theorem read_log_records:
  assumes "list_all rec_ok rs" "rec_ok r" "n < length (log_record r)"
    and "f_oplog (d_dir d) = Some (concat (map log_record rs) @ take n (log_record r))" "quiet d"
  shows "fst (read_log d) = Inr rs"
  using assms parse_log_records [OF assms(1)] parse_log_torn(1) [OF assms(3,2)]
  by (simp add: read_log_def io_bind_def io_return_def sys_read_def quiet_def)

theorem read_log_records_witness:
  "fst (read_log (as_dur (empty_dir\<lparr>f_oplog := Some (log_record (1, [2, 3]) @ take 13 (log_record (4, [5, 6])))\<rparr>)))
     = Inr [(1, [2, 3])]"
  using read_log_records [of "[(1, [2, 3])]" "(4, [5, 6])" 13
      "as_dur (empty_dir\<lparr>f_oplog := Some (log_record (1, [2, 3]) @ take 13 (log_record (4, [5, 6])))\<rparr>)"]
  by (simp add: rec_ok_def length_log_record quiet_def as_dur_def empty_dir_def)

text \<open>
  C22: an append, whatever fails inside it, adds a leading part of its record at the end of the log file and
  never touches the snapshot; it has added the whole record when it reports success. For the records the
  log then reads as: when the log ended in a complete record and the length of the bytes fits its field,
  they are those of before, or those and the new one, and they are the latter when success is reported.
\<close>

theorem append_atomic:
  assumes "dur_append ts b d = (r, d')"
  shows "\<exists>n. file_bytes (f_oplog (d_dir d')) = file_bytes (f_oplog (d_dir d)) @ take n (log_record (ts, b)) \<and>
      dur_snap d' = dur_snap d \<and> (r = Inr () \<longrightarrow> n = length (log_record (ts, b))) \<and>
      (dur_clean d \<longrightarrow> length b < 2 ^ 32 \<longrightarrow>
        dur_records d' = (if n < length (log_record (ts, b)) then dur_records d else dur_records d @ [(ts, b)]) \<and> (r = Inr () \<longrightarrow> dur_clean d'))"
proof -
  obtain n where n: "file_bytes (f_oplog (d_dir d')) = file_bytes (f_oplog (d_dir d)) @ take n (log_record (ts, b))"
    "f_snapshot (d_dir d') = f_snapshot (d_dir d)" "r = Inr () \<Longrightarrow> n = length (log_record (ts, b))"
    using append_log_bytes [OF assms] by blast
  have "dur_records d' = (if n < length (log_record (ts, b)) then dur_records d else dur_records d @ [(ts, b)])"
    if "dur_clean d" "length b < 2 ^ 32" using append_records(1) [OF that(1) _ n(1)] that(2) by (simp add: rec_ok_def)
  moreover have "dur_clean d'" if "dur_clean d" "length b < 2 ^ 32" "r = Inr ()"
    using ds.append_ok [OF that(1), of ts b d'] assms that by (simp add: rec_ok_def)
  ultimately show ?thesis using n by (intro exI [of _ n]) (simp add: dur_snap_def)
qed

theorem append_atomic_witness:
  "\<exists>r d'. dur_append 1 [2] (as_dur (empty_dir\<lparr>outcomes := [Done, Fail 5]\<rparr>)) = (r, d') \<and>
     (dur_records d' = [] \<or> dur_records d' = [(1, [2])])"
proof -
  let ?d = "as_dur (empty_dir\<lparr>outcomes := [Done, Fail 5]\<rparr>)"
  obtain r d' where a: "dur_append 1 [2] ?d = (r, d')" by (cases "dur_append 1 [2] ?d")
  have "dur_clean ?d" "dur_records ?d = []"
    by (simp_all add: dur_clean_def dur_records_def as_dur_def empty_dir_def file_bytes_def)
  then show ?thesis using append_atomic [OF a] a by (auto split: if_splits)
qed

text \<open>
  C23: a snapshot is replaced atomically: whatever fails, the files hold the old snapshot with the old
  log, or the new one with the old log or none; and the new one after success.
\<close>

theorem snapshot_atomic:
  assumes "write_snapshot b d = (r, d')"
  shows "((dur_snap d' = dur_snap d \<and> dur_records d' = dur_records d)
      \<or> (dur_snap d' = Some b \<and> (dur_records d' = dur_records d \<or> dur_records d' = [])))
    \<and> (r = Inr () \<longrightarrow> dur_snap d' = Some b)"
  using ds.put_old_or_new [OF assms] ds.put_ok [of b d d'] assms by blast

theorem snapshot_atomic_witness:
  "\<exists>d'. write_snapshot [7] (as_dur empty_dir) = (Inr (), d') \<and> dur_snap d' = Some [7]"
proof -
  obtain d' where w: "write_snapshot [7] (as_dur empty_dir) = (Inr (), d')"
    using write_snapshot_quiet [of "as_dur empty_dir" "[7]"] by (auto simp: quiet_def as_dur_def empty_dir_def)
  then show ?thesis using snapshot_atomic [OF w] by blast
qed

text \<open>Recovering once more from the same files gives the same state, marks and horizon.\<close>

theorem recovery_idempotent:
  assumes "engine_recover sm w i fs = (Inr (), e)" "engine_recover sm (d_dir (e_dur e)) i' fs' = (Inr (), e')"
  shows "core e' = core e"
  using engine_recover_again [OF assms] engine_recover_core [OF assms(1)] by simp

theorem recovery_idempotent_witness:
  "\<exists>e e'. engine_recover kv_sm empty_dir 5 True = (Inr (), e) \<and>
     engine_recover kv_sm (d_dir (e_dur e)) 9 False = (Inr (), e') \<and> core e' = core e"
proof -
  obtain e where e: "engine_recover kv_sm (empty_dir\<lparr>outcomes := []\<rparr>) 5 True = (Inr (), e)"
    using engine_recover_total by blast
  have "(d_dir (e_dur e))\<lparr>outcomes := []\<rparr> = d_dir (e_dur e)"
    using engine_recover_quiet [OF e] by (simp add: quiet_def)
  then obtain e' where e': "engine_recover kv_sm (d_dir (e_dur e)) 9 False = (Inr (), e')"
    using engine_recover_total [of kv_sm "d_dir (e_dur e)" 9 False] by auto
  have "empty_dir\<lparr>outcomes := []\<rparr> = empty_dir" by (simp add: empty_dir_def)
  then show ?thesis using recovery_idempotent [OF e e'] e e' by auto
qed

section \<open>Replication\<close>

text \<open>
  C12: convergence and correctness of the cluster. When the fabric delivers to every replica each
  client's operations once and in the client's order, in whatever interleaving, the run reports that the
  replicas agree and hold exactly the expected counts, provided every key is incremented at all.
\<close>

theorem cluster_converges:
  assumes "replicas \<noteq> 0" "distinct cids" "cids \<noteq> []" "keys \<le> ops" "length cids * ops < 2 ^ 64"
    and "\<And>i. i < replicas \<Longrightarrow> fabric_delivers cids ops keys (map snd (decoded (concat (polls i) @ drains i)))"
    and "\<And>i. i < replicas \<Longrightarrow> f_oplog (dirs i) = None \<and> f_snapshot (dirs i) = None \<and> outcomes (dirs i) = []"
  shows "\<exists>rep. run_cluster replicas (length cids) ops keys interval dirs polls drains = Inr rep \<and>
    converged rep \<and> correct rep \<and> \<not> timed_out rep"
  by (rule run_cluster_correct [OF assms])

theorem cluster_converges_witness:
  "\<exists>rep. run_cluster 2 1 1 1 64 (\<lambda>_. empty_dir) (\<lambda>_. [[(5, encode (op_incr 2 1 (key_name 0) 1))]]) (\<lambda>_. []) = Inr rep \<and>
     converged rep \<and> correct rep"
proof -
  let ?op = "op_incr 2 1 (key_name 0) 1"
  have "key_ok (key_name 0)"
    by (simp add: key_ok_def key_name_def show_usize_def dec_digits.simps utf8_valid_ascii_byte)
  then have "wf_op ?op" by (simp add: wf_op_def op_incr_def)
  then have "decoded (concat [[(5, encode ?op)]] @ []) = [(5, ?op)]" by (simp add: decode_encode)
  then have "fabric_delivers [2] 1 1 (map snd (decoded (concat [[(5, encode ?op)]] @ [])))"
    by (simp add: fabric_delivers_def client_ops_def) (simp add: op_incr_def)
  then show ?thesis
    using cluster_converges [of 2 "[2]" 1 1 "\<lambda>_. [[(5, encode ?op)]]" "\<lambda>_. []" "\<lambda>_. empty_dir" 64]
    by (auto simp: empty_dir_def)
qed

text \<open>
  A crashed replica that recovers from readable files and imports the survivor's export has caught
  up: the run completes, the victim's entries are the survivor's, and the run is reported as recovered
  exactly when the survivor is correct.
\<close>

theorem crash_catches_up:
  assumes "snap_fits kv_good survivor" "outcomes w = []"
  shows "\<exists>rep. crash_finish expd survivor pre w interval = Inr rep \<and> victim_caught_up rep = kv_entries (e_state survivor)
    \<and> recovered_ok rep = (kv_entries (e_state survivor) = expd)"
proof -
  obtain rep where rep: "crash_finish expd survivor pre w interval = Inr rep"
    using crash_finish_total [OF assms(2)] by blast
  note ok = crash_finish_ok [OF assms(1) rep]
  have "survivor_correct rep = (kv_entries (e_state survivor) = expd)"
    using rep by (auto simp: crash_finish_def Let_def split: prod.splits sum.splits)
  then show ?thesis using rep ok by auto
qed

theorem crash_catches_up_witness:
  "\<exists>rep. crash_finish [] (new_engine kv_sm (as_dur empty_dir) 8) [] empty_dir 8 = Inr rep \<and> recovered_ok rep"
proof -
  let ?e = "new_engine kv_sm (as_dur empty_dir) 8"
  have "snap_fits kv_good ?e"
    by (simp add: snap_fits_def new_engine_def kv_good_def kv_fits_def bt_wf_def kv_snapshot_def)
  moreover have "kv_entries (e_state ?e) = []" by (simp add: new_engine_def kv_entries_def List.map_filter_def)
  ultimately show ?thesis using crash_catches_up [of ?e empty_dir "[]" "[]" 8] by (auto simp: empty_dir_def)
qed

section \<open>The linearizability checker\<close>

text \<open>
  C14: the checker decides linearizability of a register history: it answers true exactly when some
  order of the operations respects real time and every read in it returns the last value written.
\<close>

theorem checker_correct:
  assumes "\<forall>x \<in> set ops. l_inv x \<le> l_res x"
  shows "is_linearizable ops init \<longleftrightarrow> linearizable ops init"
  by (rule is_linearizable_iff [OF assms])

theorem checker_correct_witness:
  "is_linearizable [\<lparr>l_proc_id = 1, l_action = Write 5, l_inv = 1, l_res = 3\<rparr>,
      \<lparr>l_proc_id = 2, l_action = Read 5, l_inv = 2, l_res = 4\<rparr>] 0 \<longleftrightarrow>
   linearizable [\<lparr>l_proc_id = 1, l_action = Write 5, l_inv = 1, l_res = 3\<rparr>,
      \<lparr>l_proc_id = 2, l_action = Read 5, l_inv = 2, l_res = 4\<rparr>] 0"
  by (rule checker_correct) simp

section \<open>The service and its connections\<close>

definition example_service :: service where
  "example_service = srv_service (server_start empty_dir 100 True 1)"

lemma example_ready: "svc_ready 1 0 example_service"
proof -
  have e: "empty_dir\<lparr>outcomes := []\<rparr> = empty_dir" by (simp add: empty_dir_def)
  have "srv_conn_id (server_start empty_dir 100 True 1) = 1"
    by (simp add: server_start_def svc_start_def engine_create_def durable_open_def sys_defs syscall_def new_engine_def
        empty_dir_def max_client_def)
  then show ?thesis using conn_ready [of "server_start empty_dir 100 True 1" empty_dir 100 True 1 1]
    by (simp add: example_service_def e)
qed

text \<open>
  Every connection accepted after a start, fresh or recovered, starts above all operations already
  applied: none of its operations can be mistaken for an old one, unless the connection counter wraps.
\<close>

theorem connections_are_fresh:
  assumes "s = server_start (w\<lparr>outcomes := []\<rparr>) interval fsync tick" "srv_conn_id s \<le> c" "srv_conn_id s \<noteq> 0"
  shows "hw_get (e_applied (sv_engine (srv_service s))) c = 0 \<and> sv_alive (srv_service s)"
  using conn_ready [OF assms] word_le_0_iff by (auto simp: svc_ready_def)

theorem connections_are_fresh_witness:
  "hw_get (e_applied (sv_engine (srv_service (server_start (empty_dir\<lparr>outcomes := []\<rparr>) 100 True 1)))) 1 = 0"
proof -
  have "srv_conn_id (server_start (empty_dir\<lparr>outcomes := []\<rparr>) 100 True 1) = 1"
    by (simp add: server_start_def svc_start_def engine_create_def durable_open_def sys_defs syscall_def new_engine_def
        empty_dir_def max_client_def)
  then show ?thesis
    using connections_are_fresh [of "server_start (empty_dir\<lparr>outcomes := []\<rparr>) 100 True 1" empty_dir 100 True 1 1] by simp
qed

text \<open>
  C25: a command encoded as a RESP array of bulk strings is read back exactly, whatever bytes its
  arguments hold, and what follows it is left for the next command.
\<close>

theorem resp_command_roundtrip:
  assumes "args \<noteq> []" "list_all arg_ok args" "24 * int (length args) \<le> 9223372036854775807"
  shows "read_command (wire (to_bytes (Array (map (\<lambda>a. Bulk (Some a)) args))) @ s) = (Inr (Some args), s)"
  by (rule read_command_array [OF assms])

theorem resp_command_roundtrip_witness:
  "read_command (wire (to_bytes (Array (map (\<lambda>a. Bulk (Some a)) [ascii ''GET'', [13, 10, 0]]))) @ [Reset])
     = (Inr (Some [ascii ''GET'', [13, 10, 0]]), [Reset])"
  using resp_command_roundtrip [of "[ascii ''GET'', [13, 10, 0]]" "[Reset]"] by (simp add: arg_ok_def del: to_bytes.simps)

text \<open>
  C26: every RESP command except a deletion of several keys answers, and changes the store, on the
  durable service exactly as on a plain in-memory store.
\<close>

theorem resp_commands_refine:
  assumes "svc_ready c s sv" "s < seq" "ascii_upper (args ! 0) = ascii ''DEL'' \<longrightarrow> length args \<le> 2"
  shows "\<exists>r sv'. run_svc stamp (resp_dispatch args c seq) sv = (r, sv') \<and>
    run_pure (resp_dispatch args c seq) (svc_store sv) = (r, svc_store sv') \<and> svc_ready c seq sv'"
  by (rule resp_dispatch_svc [OF assms])

theorem resp_commands_refine_witness:
  "\<exists>r sv'. run_svc (\<lambda>x. x) (resp_dispatch [ascii ''INCR'', ascii ''k''] 1 1) example_service = (r, sv') \<and>
     run_pure (resp_dispatch [ascii ''INCR'', ascii ''k''] 1 1) (svc_store example_service) = (r, svc_store sv')"
  using resp_commands_refine [OF example_ready, of 1 "[ascii ''INCR'', ascii ''k'']" "\<lambda>x. x"]
  by (auto simp: ascii_upper_def)

text \<open>
  End to end over RESP: a connection that pipelines a \<open>SET\<close> and a \<open>GET\<close> of the same key gets
  \<open>OK\<close> and then the value, byte for byte, and is closed at the end of its input.
\<close>

theorem resp_set_then_get:
  assumes "svc_ready c s sv" "s < s + 1" "s + 1 < s + 2"
    and "cmd_ok [ascii ''SET'', k, v]" "cmd_ok [ascii ''GET'', k]"
  shows "fst (run_svc stamp (resp_serve c s (wire (resp_cmd [ascii ''SET'', k, v]) @ wire (resp_cmd [ascii ''GET'', k]))) sv)
    = (Closed, to_bytes reply_ok @ to_bytes (Bulk (Some v)))"
  by (rule resp_set_get [OF assms])

theorem resp_set_then_get_witness:
  "fst (run_svc (\<lambda>x. x) (resp_serve 1 0 (wire (resp_cmd [ascii ''SET'', ascii ''k'', [0, 10, 13]])
      @ wire (resp_cmd [ascii ''GET'', ascii ''k'']))) example_service)
    = (Closed, to_bytes reply_ok @ to_bytes (Bulk (Some [0, 10, 13])))"
  by (rule resp_set_then_get [OF example_ready]) (simp_all add: cmd_ok_def arg_ok_def)

text \<open>
  C36: a reply that cannot be written. The command it answers has been carried out, on the durable service as
  on the plain store; the client has a prefix of the reply at most, the connection ends with the error,
  and the commands behind it in the pipeline are not carried out.
\<close>

theorem unwritten_reply:
  assumes "svc_ready c s sv" "s < s + 1" "cmd_ok args" "\<not> eq_ignore_ascii_case (args ! 0) (ascii ''QUIT'')"
    and "ascii_upper (args ! 0) = ascii ''DEL'' \<longrightarrow> length args \<le> 2"
  shows "\<exists>r sv'. run_writes (svc_apply stamp) svc_len (resp_serve c s (wire (resp_cmd args) @ rest)) (Some n # ws) sv =
      ((WriteFailed, take n (to_bytes r)), sv') \<and>
    run_pure (resp_dispatch args c (s + 1)) (svc_store sv) = (r, svc_store sv') \<and> svc_ready c (s + 1) sv'"
  by (rule resp_serve_unwritten [OF assms])

theorem unwritten_reply_witness:
  "\<exists>r sv'. run_writes (svc_apply (\<lambda>x. x)) svc_len (resp_serve 1 0 (wire (resp_cmd [ascii ''INCR'', ascii ''k'']) @
      wire (resp_cmd [ascii ''INCR'', ascii ''k'']))) [Some 1] example_service = ((WriteFailed, take 1 (to_bytes r)), sv') \<and>
    run_pure (resp_dispatch [ascii ''INCR'', ascii ''k''] 1 1) (svc_store example_service) = (r, svc_store sv')"
  using unwritten_reply [OF example_ready, of "[ascii ''INCR'', ascii ''k'']" "\<lambda>x. x" "wire (resp_cmd [ascii ''INCR'', ascii ''k''])" 1 "[]"]
  by (auto simp: cmd_ok_def arg_ok_def ascii_upper_def eq_ignore_ascii_case_def ascii_lower_def)

text \<open>
  C39: a \<open>DEL\<close> with several keys removes only the first and counts only it, whatever the others are: all
  its operations carry one sequence number, so the service takes the later ones for duplicates.
\<close>

theorem resp_del_only_first:
  assumes "svc_ready c s sv" "s < seq" "ascii_upper name = ascii ''DEL''"
  shows "\<exists>sv'. run_svc stamp (resp_dispatch (name # k # ks) c seq) sv =
      (IntR (if bt_get (svc_store sv) (from_utf8_lossy k) \<noteq> None then 1 else 0), sv')
    \<and> svc_store sv' = bt_remove (from_utf8_lossy k) (svc_store sv)"
  by (rule resp_dispatch_del [OF assms])

theorem resp_del_only_first_witness:
  "\<exists>sv'. run_svc (\<lambda>x. x) (resp_dispatch [ascii ''del'', ascii ''a'', ascii ''b''] 1 1) example_service = (IntR 0, sv') \<and>
     svc_store sv' = bt_remove (from_utf8_lossy (ascii ''a'')) (svc_store example_service)"
proof -
  have "svc_store example_service = []"
    by (simp add: example_service_def server_start_def svc_start_def engine_create_def durable_open_def sys_defs
        syscall_def new_engine_def empty_dir_def svc_store_def)
  then show ?thesis using resp_del_only_first [OF example_ready, of 1 "ascii ''del''" "\<lambda>x. x" "ascii ''a''" "[ascii ''b'']"]
    by (simp add: ascii_upper_def bt_simps)
qed

text \<open>
  When the read timeout expires in the middle of a line, the bytes of that line received so far are
  gone and the connection goes on as if they had never been sent.
\<close>

theorem resp_timeout_drops_bytes:
  assumes "10 \<notin> set l"
  shows "resp_serve c seq (wire l @ Timeout False # s) = resp_serve c seq s"
  by (rule resp_serve_timeout [OF assms])

theorem resp_timeout_drops_bytes_witness:
  "resp_serve 1 0 (wire (ascii ''*1'') @ Timeout False # wire [13, 10]) = resp_serve 1 0 (wire [13, 10])"
  by (rule resp_timeout_drops_bytes) simp

subsection \<open>Memcached\<close>

text \<open>
  C27: a whole Memcached connection, whatever bytes and timeouts it sees, writes the same answers and
  leaves the same contents on the durable service as on a plain in-memory store.
\<close>

theorem memcache_connection_refines:
  assumes "svc_ready c seq sv" "unat seq + length s < 2 ^ 64"
  shows "\<exists>x sv'. run_svc stamp (mc_serve c seq s) sv = (x, sv') \<and>
    run_pure (mc_serve c seq s) (svc_store sv) = (x, svc_store sv')"
  by (rule mc_serve_svc [OF assms])

theorem memcache_connection_refines_witness:
  "\<exists>x sv'. run_svc (\<lambda>x. x) (mc_serve 1 0 (wire (ascii ''get a b'') @ [Reset])) example_service = (x, sv') \<and>
     run_pure (mc_serve 1 0 (wire (ascii ''get a b'') @ [Reset])) (svc_store example_service) = (x, svc_store sv')"
  by (rule memcache_connection_refines [OF example_ready]) simp

text \<open>What a client stores over the Memcached protocol it retrieves, byte for byte.\<close>

theorem memcache_set_then_get:
  assumes "svc_ready c seq sv" "word_ok k" "int (length v) + 2 \<le> 9223372036854775807"
    and "unat seq + length (mc_set_request k v @ mc_get_request k) < 2 ^ 64"
  shows "fst (run_svc stamp (mc_serve c seq (wire (mc_set_request k v @ mc_get_request k))) sv) =
    (Closed, line_out ''STORED'' @ ascii ''VALUE '' @ from_utf8_lossy k @ ascii '' 0 '' @ show_usize (length v) @ crlf
       @ v @ crlf @ line_out ''END'')"
  by (rule mc_set_get [OF assms])

theorem memcache_set_then_get_witness:
  "fst (run_svc (\<lambda>x. x) (mc_serve 1 0 (wire (mc_set_request (ascii ''k'') [10, 0] @ mc_get_request (ascii ''k'')))) example_service) =
    (Closed, line_out ''STORED'' @ ascii ''VALUE '' @ from_utf8_lossy (ascii ''k'') @ ascii '' 0 '' @ show_usize (length [10 :: u8, 0]) @ crlf
       @ [10, 0] @ crlf @ line_out ''END'')"
  by (rule memcache_set_then_get [OF example_ready])
    (simp_all add: word_ok_def mc_set_request_def mc_get_request_def crlf_def show_usize_def dec_digits.simps)

text \<open>
  Increment and decrement answer \<open>NOT_FOUND\<close> for a missing key; otherwise the new value is stored as
  it is, negative or not, while the answer is never below zero.
\<close>

theorem memcache_incr_effect:
  assumes "key = from_utf8_lossy (parts ! 1)"
    and "delta = (if cmd = ascii ''decr'' then - mc_parse_i64 (parts ! 2) else mc_parse_i64 (parts ! 2))"
  shows "run_pure (mc_incr cmd parts c seq) m =
    (if bt_get m key = None then ((line_out ''NOT_FOUND'', seq + 1), m)
     else ((show_i64 (if sint (incr_cur m key + delta) < 0 then 0 else incr_cur m key + delta) @ crlf, seq + 1 + 1),
           bt_insert key (show_i64 (incr_cur m key + delta)) m))"
  using mc_incr_pure [of cmd parts c seq m] by (simp add: assms Let_def)

theorem memcache_incr_effect_witness:
  "run_pure (mc_incr (ascii ''decr'') [ascii ''decr'', ascii ''k'', ascii ''5''] 1 0) [] = ((line_out ''NOT_FOUND'', 1), [])"
  using memcache_incr_effect [OF refl refl, of "ascii ''decr''" "[ascii ''decr'', ascii ''k'', ascii ''5'']" 1 0 "[]"]
  by (simp add: bt_simps)

subsection \<open>HTTP\<close>

text \<open>C28: a whole HTTP connection behaves on the durable service as on a plain in-memory store.\<close>

theorem http_connection_refines:
  assumes "svc_ready c seq sv" "unat seq + length s < 2 ^ 64"
  shows "\<exists>x sv'. run_svc stamp (http_serve c seq s) sv = (x, sv') \<and>
    run_pure (http_serve c seq s) (svc_store sv) = (x, svc_store sv')"
  by (rule http_serve_svc [OF assms])

theorem http_connection_refines_witness:
  "\<exists>x sv'. run_svc (\<lambda>x. x) (http_serve 1 0 (wire (ascii ''GET /k HTTP/1.1''))) example_service = (x, sv') \<and>
     run_pure (http_serve 1 0 (wire (ascii ''GET /k HTTP/1.1''))) (svc_store example_service) = (x, svc_store sv')"
  by (rule http_connection_refines [OF example_ready]) simp

text \<open>
  A key that was \<open>PUT\<close> is answered 200 with its body by \<open>GET\<close>, and a \<open>DELETE\<close> then removes it and
  answers a count of one.
\<close>

theorem http_put_then_get:
  assumes "bt_wf m" "take (length incr_prefix) (split_first 63 path) \<noteq> incr_prefix"
    and "run_pure (http_route (ascii ''PUT'') path body c seq) m = (r, m')"
  shows "r = (200, ascii ''OK'') \<and> run_pure (http_route (ascii ''GET'') path b' c' seq') m' = ((200, body), m')
    \<and> run_pure (http_route (ascii ''DELETE'') path b' c' seq') m' = ((200, ascii ''1''), bt_remove (trim_slashes (split_first 63 path)) m')"
  by (rule http_put_get [OF assms])

theorem http_put_then_get_witness:
  "\<exists>r m'. run_pure (http_route (ascii ''PUT'') (ascii ''/k'') [1, 2] 1 1) [] = (r, m') \<and>
     run_pure (http_route (ascii ''GET'') (ascii ''/k'') [] 1 2) m' = ((200, [1, 2]), m')"
proof -
  obtain r m' where p: "run_pure (http_route (ascii ''PUT'') (ascii ''/k'') [1, 2] 1 1) [] = (r, m')"
    by (cases "run_pure (http_route (ascii ''PUT'') (ascii ''/k'') [1, 2] 1 1) []")
  show ?thesis using http_put_then_get [OF _ _ p, of "[]" 1 2] p
    by (simp add: bt_simps split_first_def incr_prefix_def del: run_pure_simps)
qed

text \<open>
  The query string of a request is dropped before the method is looked at: with any query the
  request is the one without, so an increment is by one whatever \<open>?by=\<close> says.
\<close>

theorem http_query_ignored: "http_route meth (path @ 63 # query) body c seq = http_route meth path body c seq"
  by (rule http_route_query)

subsection \<open>Transactions\<close>

text \<open>C29: a whole transactional connection behaves on the durable service as on a plain store.\<close>

theorem txn_connection_refines:
  assumes "svc_ready c (t_seq st) sv" "unat (t_seq st) + length s < 2 ^ 64"
  shows "\<exists>x sv'. run_svc stamp (txn_serve c st s) sv = (x, sv') \<and>
    run_pure (txn_serve c st s) (svc_store sv) = (x, svc_store sv')"
  by (rule txn_serve_svc [OF assms])

theorem txn_connection_refines_witness:
  "\<exists>x sv'. run_svc (\<lambda>x. x) (txn_serve 1 txn_init (wire (ascii ''BEGIN''))) example_service = (x, sv') \<and>
     run_pure (txn_serve 1 txn_init (wire (ascii ''BEGIN''))) (svc_store example_service) = (x, svc_store sv')"
  by (rule txn_connection_refines) (simp_all add: example_ready txn_init_def)

text \<open>
  C30: a transaction is all or nothing. From \<open>BEGIN\<close> to \<open>COMMIT\<close> the handler issues exactly one operation,
  under the connection's next number, which carries all the queued writes in order; on a service ready for
  the connection it takes effect, and the store has all the writes. From \<open>BEGIN\<close> to \<open>ABORT\<close> it issues none.
\<close>

theorem txn_all_or_nothing:
  assumes "svc_ready c (t_seq st) sv" "t_seq st < t_seq st + 1"
  shows "let commit = txn_script ([ascii ''BEGIN''] # map txn_request ws @ [[ascii ''COMMIT'']]) c st in
    (\<forall>m. pure_ops commit m = [op_txn c (t_seq st + 1) ws]) \<and>
    (\<exists>sv'. run_svc stamp commit sv =
       ((txn_line ''BEGIN'' @ concat (replicate (length ws) (txn_line ''QUEUED'')) @ ascii ''COMMIT '' @ show_usize (length ws) @ crlf,
         \<lparr>t_seq = t_seq st + 1, t_buf = [], t_in_txn = False\<rparr>), sv') \<and> svc_store sv' = foldl kv_write (svc_store sv) ws) \<and>
    (\<exists>out. txn_script ([ascii ''BEGIN''] # map txn_request ws @ [[ascii ''ABORT'']]) c st =
       Return (out, st\<lparr>t_buf := [], t_in_txn := False\<rparr>))"
proof -
  let ?op = "op_txn c (t_seq st + 1) ws"
  obtain sv' where "svc_apply stamp ?op sv = (Some (snd (kv_apply (svc_store sv) ?op)), sv')"
    "svc_store sv' = fst (kv_apply (svc_store sv) ?op)"
    using svc_apply_ready [OF assms(1), of ?op stamp] assms(2) by (auto simp: op_txn_def)
  then show ?thesis unfolding Let_def txn_commit_script using txn_abort_script by (simp add: run_svc_def kv_apply_def op_txn_def del: ascii_Cons)
qed

theorem txn_all_or_nothing_witness:
  "\<exists>out st' sv'. run_svc (\<lambda>x. x) (txn_script ([ascii ''BEGIN''] # map txn_request [(ascii ''a'', Some [1]), (ascii ''b'', Some [2])] @
       [[ascii ''COMMIT'']]) 1 txn_init) example_service = ((out, st'), sv') \<and>
     svc_store sv' = foldl kv_write (svc_store example_service) [(ascii ''a'', Some [1]), (ascii ''b'', Some [2])]"
proof -
  have "svc_ready 1 (t_seq txn_init) example_service" "t_seq txn_init < t_seq txn_init + 1"
    by (simp_all add: example_ready txn_init_def)
  from txn_all_or_nothing [OF this, of "[(ascii ''a'', Some [1]), (ascii ''b'', Some [2])]" "\<lambda>x. x"]
  show ?thesis unfolding Let_def by blast
qed

text \<open>
  When the executor is gone, a \<open>COMMIT\<close> is still answered as committed, although nothing was applied.
\<close>

theorem txn_commit_unconfirmed:
  assumes "\<not> sv_alive sv" "t_in_txn st"
  shows "\<exists>st'. run_svc stamp (txn_command [ascii ''COMMIT''] c st) sv =
    ((ascii ''COMMIT '' @ show_usize (length (t_buf st)) @ crlf, st'), sv)"
  by (rule txn_commit_dead [OF assms])

theorem txn_commit_unconfirmed_witness:
  "\<exists>st'. run_svc (\<lambda>x. x) (txn_command [ascii ''COMMIT''] 1 \<lparr>t_seq = 0, t_buf = [(ascii ''k'', None)], t_in_txn = True\<rparr>)
      (example_service\<lparr>sv_alive := False\<rparr>) =
    ((ascii ''COMMIT '' @ show_usize (length [(ascii ''k'', None :: bytes option)]) @ crlf, st'), example_service\<lparr>sv_alive := False\<rparr>)"
  using txn_commit_unconfirmed [of "example_service\<lparr>sv_alive := False\<rparr>"
      "\<lparr>t_seq = 0, t_buf = [(ascii ''k'', None)], t_in_txn = True\<rparr>" "\<lambda>x. x" 1] by simp

subsection \<open>The publish/subscribe log\<close>

text \<open>
  C31: a whole publish/subscribe connection behaves on the durable service as on a plain store. A
  subscription reads every message of its topic, so how many operations are issued depends on what is
  stored; there are fewer of them than sequence numbers left.
\<close>

theorem stream_connection_refines:
  assumes "svc_ready c seq sv" "unat seq + length (pure_ops (sl_serve c seq s) (svc_store sv)) < 2 ^ 64"
  shows "\<exists>x sv'. run_svc stamp (sl_serve c seq s) sv = (x, sv') \<and>
    run_pure (sl_serve c seq s) (svc_store sv) = (x, svc_store sv')"
  by (rule sl_serve_svc [OF assms])

lemma example_stream: "length (pure_ops (sl_serve 1 0 (wire (ascii ''LEN t'' @ [10]))) []) = 1"
  by code_simp

theorem stream_connection_refines_witness:
  "\<exists>x sv'. run_svc (\<lambda>x. x) (sl_serve 1 0 (wire (ascii ''LEN t'' @ [10]))) example_service = (x, sv') \<and>
     run_pure (sl_serve 1 0 (wire (ascii ''LEN t'' @ [10]))) (svc_store example_service) = (x, svc_store sv')"
proof (rule stream_connection_refines)
  have "svc_store example_service = []"
    by (simp add: example_service_def server_start_def svc_start_def svc_store_def engine_create_def durable_open_def sys_defs
        syscall_def new_engine_def empty_dir_def kv_sm_def)
  then show "unat (0 :: u64) + length (pure_ops (sl_serve 1 0 (wire (ascii ''LEN t'' @ [10]))) (svc_store example_service)) < 2 ^ 64"
    using example_stream by simp
qed (simp add: example_ready)

text \<open>
  C32: what is published is read. Publishing appends to the topic: the answer is the new length as the
  offset, and every other topic is unchanged. Subscribing afterwards from any offset returns the topic's
  messages from there to the end, the new one last, in order and each with its offset, and changes nothing.
\<close>

theorem publish_subscribe:
  assumes "bt_wf m" "topic_log m t msgs" "length msgs + 1 < 2 ^ 63" "run_pure (sl_pub t msg c seq) m = (x, m')"
  shows "fst x = ascii ''OFFSET '' @ show_i64 (word_of_nat (length msgs + 1)) @ crlf \<and> topic_log m' t (msgs @ [msg])
    \<and> (\<forall>u l. u \<noteq> t \<and> topic_log m u l \<longrightarrow> topic_log m' u l)
    \<and> (\<forall>from f c' q. parse_i64 (trim from) = Some f \<and> 1 \<le> sint f \<longrightarrow> (\<exists>q'. run_pure (sl_sub t from c' q) m' =
        ((concat (map (\<lambda>off. sl_message off ((msgs @ [msg]) ! nat (off - 1))) [sint f..int (length (msgs @ [msg]))]) @ sl_line ''END'', q'), m')))"
proof -
  have p: "fst x = ascii ''OFFSET '' @ show_i64 (word_of_nat (length msgs + 1)) @ crlf" "topic_log m' t (msgs @ [msg])"
    "\<forall>u l. u \<noteq> t \<and> topic_log m u l \<longrightarrow> topic_log m' u l"
    using sl_pub_pure(1) [OF assms(1-3), of msg c seq] sl_pub_pure(2,3) [OF assms(1-3)] assms(4) by auto
  then show ?thesis using sl_sub_pure [OF p(2)] by blast
qed

theorem publish_subscribe_witness:
  "\<exists>x m' q'. run_pure (sl_pub (ascii ''t'') [7] 1 0) [] = (x, m') \<and>
    run_pure (sl_sub (ascii ''t'') (show_i64 1) 2 0) m' = ((sl_message 1 [7] @ sl_line ''END'', q'), m')"
proof -
  obtain x m' where p: "run_pure (sl_pub (ascii ''t'') [7] 1 0) [] = (x, m')"
    by (cases "run_pure (sl_pub (ascii ''t'') [7] 1 0) []")
  have "topic_log [] (ascii ''t'') []" by (simp add: topic_log_def bt_simps)
  then have "\<forall>from f c' q. parse_i64 (trim from) = Some f \<and> 1 \<le> sint f \<longrightarrow> (\<exists>q'. run_pure (sl_sub (ascii ''t'') from c' q) m' =
        ((concat (map (\<lambda>off. sl_message off (([] @ [[7]]) ! nat (off - 1))) [sint f..int (length ([] @ [[7 :: u8]]))]) @ sl_line ''END'', q'), m'))"
    using publish_subscribe [of "[]" "ascii ''t''" "[]" "[7]" 1 0 x m'] p by (simp add: bt_simps del: run_pure_simps ascii_Cons)
  moreover have "parse_i64 (trim (show_i64 1)) = Some 1" "1 \<le> sint (1 :: i64)" by simp_all
  ultimately obtain q' where "run_pure (sl_sub (ascii ''t'') (show_i64 1) 2 0) m' =
      ((concat (map (\<lambda>off. sl_message off (([] @ [[7]]) ! nat (off - 1))) [sint (1 :: i64)..int (length ([] @ [[7 :: u8]]))]) @ sl_line ''END'', q'), m')"
    by blast
  then show ?thesis using p by (auto simp del: run_pure_simps ascii_Cons)
qed

text \<open>
  C33: a publication is two operations, the counter and then the message. When the process is killed
  between them, or another publisher comes in between, the offset is taken and holds no message: a
  subscriber that reads from it is told the topic ends there, and once the next message is published
  reads that one, past the gap, under the offset after it.
\<close>

theorem publish_not_atomic:
  assumes "topic_log m t msgs" "bt_wf m" "length msgs + 2 < 2 ^ 63"
    and "bt_get m (message_key t (word_of_nat (length msgs + 1))) = None"
  shows "\<exists>op k m1. sl_pub t msg c seq = Apply op k \<and> fst (kv_apply m op) = m1 \<and>
    (\<exists>q. run_pure (sl_sub t (show_i64 (word_of_nat (length msgs + 1))) c1 q1) m1 = ((sl_line ''END'', q), m1)) \<and>
    (\<exists>q m2 q'. run_pure (sl_pub t msg2 c2 q2) m1 = ((ascii ''OFFSET '' @ show_i64 (word_of_nat (length msgs + 2)) @ crlf, q), m2) \<and>
       run_pure (sl_sub t (show_i64 (word_of_nat (length msgs + 1))) c1 q1) m2 =
         ((sl_message (int (length msgs + 2)) msg2 @ sl_line ''END'', q'), m2))"
proof -
  have "length msgs + 1 < 2 ^ 63" using assms(3) by simp
  note sub = half_published_sub [OF assms(2) this assms(4), of c1 q1]
    and pub = half_published_overtaken [OF assms(2,3,4), of msg2 c2 q2 c1 q1]
  show ?thesis using half_publish [OF assms(1), of msg c seq] sub pub by metis
qed

theorem publish_not_atomic_witness:
  "\<exists>op k m1 q. sl_pub (ascii ''t'') [7] 1 0 = Apply op k \<and> fst (kv_apply [] op) = m1 \<and>
    run_pure (sl_sub (ascii ''t'') (show_i64 1) 2 0) m1 = ((sl_line ''END'', q), m1)"
proof -
  have "topic_log [] (ascii ''t'') []" by (simp add: topic_log_def bt_simps)
  then show ?thesis using publish_not_atomic [of "[]" "ascii ''t''" "[]" "[7]" 1 0 2 0 "[8]" 3 0]
    by (simp add: bt_simps del: ascii_Cons run_pure_simps) blast
qed

section \<open>Tools and benchmarks\<close>

text \<open>
  The cost of recovery. For every snapshot interval the sweep reports exactly \<open>ops div interval\<close>
  snapshots and \<open>ops mod interval\<close> replayed records, an interval of zero counting as one; so recovery
  replays fewer records than the interval.
\<close>

theorem sweep_counts:
  assumes "0 < keys" "ops \<le> 70000000"
  shows "\<exists>rs. sweep_snapshot_interval stamp (\<lambda>_. empty_dir) intervals ops keys = Some rs \<and>
    rs = map (\<lambda>i. \<lparr>sr_interval = i, sr_ops = ops, sr_snapshots = word_of_nat (ops div unat (max i 1)),
      sr_replay_records = word_of_nat (ops mod unat (max i 1))\<rparr>) intervals \<and>
    (\<forall>r \<in> set rs. unat (sr_replay_records r) < unat (max (sr_interval r) 1))"
proof -
  have "unat (word_of_nat (ops mod unat (max i 1)) :: u64) < unat (max i 1)" for i :: u64
  proof -
    have "ops mod unat (max i 1) < unat (max i 1)" using interval_pos [of i] by simp
    moreover have "ops mod unat (max i 1) \<le> ops" by simp
    ultimately show ?thesis using assms(2) by (simp add: unat_of_nat)
  qed
  moreover have "sweep_snapshot_interval stamp (\<lambda>_. empty_dir) intervals ops keys = Some (map (\<lambda>i. \<lparr>sr_interval = i, sr_ops = ops,
      sr_snapshots = word_of_nat (ops div unat (max i 1)), sr_replay_records = word_of_nat (ops mod unat (max i 1))\<rparr>) intervals)"
    unfolding sweep_snapshot_interval_def by (rule those_map_Some) (rule sweep_one_counts [OF assms])
  ultimately show ?thesis by auto
qed

theorem sweep_counts_witness:
  "sweep_snapshot_interval (\<lambda>n. n) (\<lambda>_. empty_dir) [64, 100000] 20000 32 = Some
     [\<lparr>sr_interval = 64, sr_ops = 20000, sr_snapshots = 312, sr_replay_records = 32\<rparr>,
      \<lparr>sr_interval = 100000, sr_ops = 20000, sr_snapshots = 0, sr_replay_records = 20000\<rparr>]"
  using sweep_counts [of 32 20000 "\<lambda>n. n" "[64, 100000]"] by (simp add: max_def word_le_nat_alt)

text \<open>
  Passive replication. Active replicas, the passive executor and every log-only backup agree:
  recovering a backup that has only appended encoded operations, and executed none, gives the executor's
  state, which holds the expected counts.
\<close>

theorem passive_backup_recovers:
  assumes "64 \<le> ops" "ops \<le> 70000000"
  shows "\<exists>run. bench_cpu_passive_vs_active stamp (\<lambda>_. empty_dir) empty_dir (\<lambda>_. empty_dir) ops replicas = Some run \<and>
    length (passive_backups run) = replicas - 1 \<and>
    (\<forall>d \<in> set (passive_backups run). \<exists>er. engine_recover kv_sm (d_dir d) interval fsync = (Inr (), er) \<and>
      e_state er = e_state (passive_executor run)) \<and>
    (\<forall>e \<in> set (active_replicas run). e_state e = e_state (passive_executor run)) \<and>
    kv_entries (e_state (passive_executor run)) = expected_state 1 ops 64"
proof -
  obtain e d where ed: "bench_executor stamp ops empty_dir = Some e" "bench_backup ops empty_dir = Some d"
    and run: "bench_cpu_passive_vs_active stamp (\<lambda>_. empty_dir) empty_dir (\<lambda>_. empty_dir) ops replicas =
      Some \<lparr>active_replicas = replicate replicas e, passive_executor = e, passive_backups = replicate (replicas - 1) d\<rparr>"
    using cpu_run_total [OF assms(2)] by metis
  show ?thesis using run backup_recovers [OF assms(2) ed(2,1)] executor_entries [OF assms ed(1)] by auto
qed

theorem passive_backup_recovers_witness:
  "\<exists>run. bench_cpu_passive_vs_active (\<lambda>n. n) (\<lambda>_. empty_dir) empty_dir (\<lambda>_. empty_dir) 2000 4 = Some run \<and>
     length (passive_backups run) = 3 \<and> kv_entries (e_state (passive_executor run)) = expected_state 1 2000 64"
  using passive_backup_recovers [of 2000 "\<lambda>n. n" 4] by fastforce

text \<open>
  Latency samples. When the fabric stamps each message with its 48-bit send time and delivers all
  operations in order within \<open>2 ^ 48\<close> ns, the executor takes one sample per operation, and its delivery
  part is the time since the send, also across a wrap of the 48-bit clock.
\<close>

theorem samples_measure_delivery:
  assumes "engine_create kv_sm empty_dir 1000000 fsync = (Inr (), e)"
    and "list_all2 (list_all2 sent_as) polls sent" "in_order (map snd (concat sent))"
    and "length (concat sent) = unat n"
  shows "sample_loop n polls \<lparr>s_engine = e, s_samples = [], s_applied = 0\<rparr> =
    Inr (map2 (\<lambda>t x. (t_now t - fst x, t_elapsed t)) (concat polls) (concat sent))"
proof -
  have e: "core e = run_core kv_sm (init_core kv_sm) []" "quiet (e_dur e)"
    using assms(1) by (auto simp: engine_create_def durable_open_def sys_create_dir_all_def quiet_def empty_dir_def
        new_engine_def core_def init_core_def)
  show ?thesis using sample_loop_all [OF assms(2), of "[]" "\<lparr>s_engine = e, s_samples = [], s_applied = 0\<rparr>" n] assms(3,4) e
    by (simp add: samples_of_def)
qed

text \<open>One increment, sent just before the 48-bit clock wraps and taken 30 ns later.\<close>

definition example_taken :: taken where
  "example_taken = \<lparr>t_msg_ts = 0xFFFFFFFFFFFA, t_payload = encode example_op, t_now = 0x1000000000018, t_elapsed = 5\<rparr>"

lemma example_sent: "sent_as (example_taken) (0xFFFFFFFFFFFA, example_op)"
  by (simp add: sent_as_def example_taken_def MASK48_def example_op_def decode_encode wf_op_def op_defs key_ok_def
      utf8_valid_ascii_byte)

theorem samples_measure_delivery_witness:
  "\<exists>e. engine_create kv_sm empty_dir 1000000 False = (Inr (), e) \<and>
     sample_loop 1 [[], [example_taken]] \<lparr>s_engine = e, s_samples = [], s_applied = 0\<rparr> = Inr [(30, 5)]"
proof -
  obtain e where e: "engine_create kv_sm empty_dir 1000000 False = (Inr (), e)" using engine_create_bench by blast
  have "list_all2 (list_all2 sent_as) [[], [example_taken]] [[], [(0xFFFFFFFFFFFA, example_op)]]"
    using example_sent by simp
  moreover have "in_order (map snd (concat [[], [(0xFFFFFFFFFFFA :: u64, example_op)]]))"
    by (simp add: in_order_def example_op_def op_defs)
  ultimately have "sample_loop 1 [[], [example_taken]] \<lparr>s_engine = e, s_samples = [], s_applied = 0\<rparr> =
      Inr (map2 (\<lambda>t x. (t_now t - fst x, t_elapsed t)) [example_taken] [(0xFFFFFFFFFFFA, example_op)])"
    using samples_measure_delivery [OF e, of "[[], [example_taken]]" "[[], [(0xFFFFFFFFFFFA, example_op)]]" 1]
    by (simp only: concat.simps append.simps list.size unat_1)
  then show ?thesis using e by (simp add: example_taken_def)
qed

text \<open>
  The capture is regrouped faithfully. From a capture log of complete records, with anything cut
  off behind them, the replay tool gets each connection's bytes in the order they were captured, the
  connections in the order they were first seen, and sends every captured byte once; it never fails on
  a connection that is missing, whatever the server does.
\<close>

theorem capture_streams:
  assumes "list_all capture_ok rs" "capture_ok r" "n < length (capture_record r)"
    and "raw = concat (map capture_record rs) @ take n (capture_record r)"
  shows "order (capture_loop raw capture_empty) = first_seen rs \<and>
    (\<forall>cid. bt_get (conns (capture_loop raw capture_empty)) cid =
      (if cid \<in> fst ` set rs then Some (stream_of rs cid) else None)) \<and>
    ob_replay (\<lambda>_. Inr () :: io_error + unit) raw = Some (Inr (length (first_seen rs), \<Sum>r\<leftarrow>rs. length (snd r))) \<and>
    ob_replay (send :: bytes \<Rightarrow> io_error + unit) raw \<noteq> None"
proof -
  have c: "capture_loop raw capture_empty = capture_of rs"
    using capture_loop_records [OF assms(1-3)] by (simp add: assms(4) capture_of_def)
  note g = capture_of_groups [of rs] and fs = first_seen_set [of rs]
  have "replay_conns (\<lambda>_. Inr ()) (conns (capture_of rs)) (first_seen rs) = Some (Inr (\<Sum>r\<leftarrow>rs. length (snd r)))"
    using replay_conns_all [of "first_seen rs" rs] stream_lengths [of "first_seen rs" rs] fs by simp
  moreover have "\<exists>r. replay_conns send (conns (capture_of rs)) (first_seen rs) = Some r"
    by (rule replay_conns_defined) (simp add: fs)
  ultimately show ?thesis using g c by (auto simp: ob_replay_def Let_def)
qed

theorem capture_streams_witness:
  "ob_replay (\<lambda>_. Inr () :: io_error + unit)
     (concat (map capture_record [(1, [10, 11]), (2, [20]), (1, [12])]) @ take 9 (capture_record (2, [21, 22]))) =
   Some (Inr (2, 4))"
  using capture_streams [of "[(1, [10, 11]), (2, [20]), (1, [12])]" "(2, [21, 22])" 9 _ "\<lambda>_. Inr ()"]
  by (simp add: capture_ok_def first_seen_def)

section \<open>Where acknowledgements and durability come apart\<close>

text \<open>
  C34: an append behind a torn record. When the log ends in a record cut short whose missing part is
  longer than the next record, delivering the next operation succeeds and is acknowledged, but what
  recovery would rebuild from the files is what it was before.
\<close>

theorem torn_tail_swallows_ack:
  assumes "file_bytes (f_oplog (d_dir (e_dur e))) = raw @ take n (log_record r)" "log_tail raw = []" "rec_ok r"
    and "12 \<le> n" "n + length (log_record (ts, encode op)) < length (log_record r)"
    and "\<not> op_seq op \<le> hw_get (e_applied e) (op_client op)" "outcomes (d_dir (e_dur e)) = []"
    and "e_ops_since_snap e + 1 < e_snap_interval e"
  shows "\<exists>e'. deliver sm ts op e = (Inr (snd (sm_apply sm (e_state e) op)), e') \<and>
    core e' = core_step sm (core e) (ts, op) \<and> recovered sm (e_dur e') = recovered sm (e_dur e)"
  by (rule deliver_behind_torn [OF assms])

theorem torn_tail_swallows_ack_witness:
  "\<exists>e e'. file_bytes (f_oplog (d_dir (e_dur e))) = take 12 (log_record (1, replicate 90 0)) \<and>
     deliver kv_sm 7 example_op e = (Inr (snd (sm_apply kv_sm (e_state e) example_op)), e') \<and>
     recovered kv_sm (e_dur e') = recovered kv_sm (e_dur e)"
proof -
  let ?e = "new_engine kv_sm (as_dur (empty_dir\<lparr>f_oplog := Some (take 12 (log_record (1, replicate 90 0)))\<rparr>)) 9"
  have f: "file_bytes (f_oplog (d_dir (e_dur ?e))) = [] @ take 12 (log_record (1, replicate 90 0))"
    "outcomes (d_dir (e_dur ?e)) = []" "e_ops_since_snap ?e + 1 < e_snap_interval ?e" "e_applied ?e = []"
    by (simp_all add: new_engine_def as_dur_def empty_dir_def file_bytes_def)
  have o: "\<not> op_seq example_op \<le> hw_get (e_applied ?e) (op_client example_op)"
    "12 + length (log_record (7, encode example_op)) < length (log_record (1, replicate 90 0))"
    by (simp_all add: f(4) example_op_def op_defs hw_get_def bt_simps length_log_record encode_def enc_key_def)
  have r: "rec_ok (1, replicate 90 0)" by (simp add: rec_ok_def)
  from torn_tail_swallows_ack [OF f(1) _ r _ o(2,1) f(2,3), of kv_sm] show ?thesis using f(1) by auto
qed

text \<open>
  C37: a retry after a failed delivery. When a delivery fails, its operation is nevertheless marked as
  applied: the retry is answered \<open>Ok\<close> as a duplicate, with the files exactly as the failure left them.
\<close>

theorem failed_delivery_retry:
  assumes "deliver sm ts op e = (Inl err, e')" "bt_wf (e_applied e)"
  shows "\<exists>e''. deliver sm ts' op (set_outcomes os e') = (Inr Suppressed, e'') \<and> core e'' = core e'
     \<and> recovered sm (e_dur e'') = recovered sm (e_dur e')"
  by (rule deliver_retry [OF assms])

theorem failed_delivery_retry_witness:
  "\<exists>e' e''. deliver kv_sm 7 example_op (new_engine kv_sm (as_dur (empty_dir\<lparr>outcomes := [Fail 0]\<rparr>)) 9) = (Inl IoError, e') \<and>
     deliver kv_sm 8 example_op (set_outcomes [] e') = (Inr Suppressed, e'')"
proof -
  let ?e = "new_engine kv_sm (as_dur (empty_dir\<lparr>outcomes := [Fail 0]\<rparr>)) 9"
  obtain a where a: "apply_dedup kv_sm 7 example_op ?e = (Some (snd (kv_apply (e_state ?e) example_op)), a)"
    using apply_dedup_fresh [of example_op ?e kv_sm 7]
    by (auto simp: new_engine_def example_op_def op_defs hw_get_def bt_simps)
  have "e_dur a = as_dur (empty_dir\<lparr>outcomes := [Fail 0]\<rparr>)"
    using apply_dedup_core(2) [OF a] by (simp add: new_engine_def)
  then obtain e' where d: "deliver kv_sm 7 example_op ?e = (Inl IoError, e')"
    using a by (simp add: deliver_def io_bind_def with_dur_def dur_append_def as_dur_def empty_dir_def sys_defs syscall_def)
  have "bt_wf (e_applied ?e)" by (simp add: new_engine_def bt_simps)
  from failed_delivery_retry [OF d this] show ?thesis using d by blast
qed

text \<open>
  C38: importing bytes the loader rejects: too short for the header, or with the state machine's part cut
  off. On a disk without failures the import succeeds and leaves the state in memory alone, but replaces
  the snapshot and drops the log: recovery then starts from nothing, whatever the directory held.
\<close>

theorem import_garbage_erases:
  assumes "snapshot_rejected b" "outcomes (d_dir (e_dur e)) = []"
  shows "\<exists>e'. import_state sm b e = (Inr (), e') \<and> core e' = core e \<and> recovered sm (e_dur e') = init_core sm"
  by (rule import_garbage [OF assms])

definition example_old :: "kv_store engine" where
  "example_old = new_engine kv_sm (as_dur (empty_dir\<lparr>f_oplog := Some (log_record (7, encode example_op))\<rparr>)) 9"

definition example_cut :: bytes where
  "example_cut = u64_le 5 @ u32_le 0 @ u32_le 9 @ [1, 2]"

theorem import_garbage_erases_witness:
  "fst (recovered kv_sm (e_dur example_old)) = [(ascii ''k'', ascii ''5'')] \<and>
   (\<exists>e'. import_state kv_sm example_cut example_old = (Inr (), e') \<and> recovered kv_sm (e_dur e') = init_core kv_sm)"
proof -
  have "snapshot_rejected example_cut" by code_simp
  moreover have "outcomes (d_dir (e_dur example_old)) = []" by (simp add: example_old_def new_engine_def as_dur_def empty_dir_def)
  moreover have "fst (recovered kv_sm (e_dur example_old)) = [(ascii ''k'', ascii ''5'')]" by code_simp
  ultimately show ?thesis using import_garbage_erases [of example_cut example_old kv_sm] by blast
qed

end
